(* ===== verification/PyPrelude.thy ===== *)
theory PyPrelude
  imports Main "HOL-Library.AList" "HOL-Library.Char_ord" "HOL-Library.List_Lexorder"
begin

text \<open>
  Shared vocabulary of the development: the operations of Python's \<open>str\<close>, \<open>list\<close>
  and \<open>dict\<close> that the modelled modules call, and the generic facts about them.

  A Python string is an Isabelle \<^typ>\<open>string\<close>; a \<^typ>\<open>char\<close> stands for one code
  point below 256, which covers every literal of the modelled code.  Strings are
  ordered by code point, as in Python (\<open>List_Lexorder\<close> over \<open>Char_ord\<close>).
  A \<open>dict\<close> is an association list: it keeps insertion order, and an update of a
  present key keeps the key's position.  The collection \<open>dict_simps\<close> holds the
  lookup laws of the dict operations, \<open>str_simps\<close> the laws of the string operations.
\<close>

named_theorems dict_simps \<open>lookup laws of the dict operations\<close>
named_theorems str_simps \<open>laws of the string operations\<close>

section \<open>Strings\<close>

text \<open>\<open>str.isspace\<close> on code points below 256.\<close>

definition py_space :: "char \<Rightarrow> bool" where
  "py_space c \<longleftrightarrow> of_char c \<in> {9, 10, 11, 12, 13, 28, 29, 30, 31, 32, 133, 160 :: nat}"

text \<open>\<open>s.split()\<close>: maximal runs of non-space characters.\<close>

fun wsplit :: "string \<Rightarrow> string \<Rightarrow> string list" where
  "wsplit cur [] = (if cur = [] then [] else [rev cur])"
| "wsplit cur (c # cs) =
     (if py_space c then (if cur = [] then wsplit [] cs else rev cur # wsplit [] cs)
      else wsplit (c # cur) cs)"

definition py_split :: "string \<Rightarrow> string list" where
  "py_split s = wsplit [] s"

text \<open>\<open>sep.join(xs)\<close>.\<close>

fun py_join :: "string \<Rightarrow> string list \<Rightarrow> string" where
  "py_join sep [] = []"
| "py_join sep [x] = x"
| "py_join sep (x # y # zs) = x @ sep @ py_join sep (y # zs)"

text \<open>\<open>s.split(c)\<close> for a one-character separator: always at least one piece.\<close>

fun split_on :: "char \<Rightarrow> string \<Rightarrow> string list" where
  "split_on d [] = [[]]"
| "split_on d (c # cs) =
     (if c = d then [] # split_on d cs
      else (case split_on d cs of [] \<Rightarrow> [[c]] | p # ps \<Rightarrow> (c # p) # ps))"

text \<open>\<open>s.startswith(p)\<close>, \<open>s.endswith(p)\<close> and \<open>p in s\<close>.\<close>

fun starts_with :: "string \<Rightarrow> string \<Rightarrow> bool" where
  "starts_with [] s = True"
| "starts_with (p # ps) [] = False"
| "starts_with (p # ps) (c # cs) = (p = c \<and> starts_with ps cs)"

definition ends_with :: "string \<Rightarrow> string \<Rightarrow> bool" where
  "ends_with p s = starts_with (rev p) (rev s)"

text \<open>\<open>s[:-len(suffix)]\<close>.\<close>

definition drop_end :: "string \<Rightarrow> string \<Rightarrow> string" where
  "drop_end suffix s = take (length s - length suffix) s"

fun contains :: "string \<Rightarrow> string \<Rightarrow> bool" where
  "contains p [] = (p = [])"
| "contains p (c # cs) = (starts_with p (c # cs) \<or> contains p cs)"

text \<open>\<open>s.strip()\<close> and \<open>s.lstrip(c)\<close>.\<close>

definition py_strip :: "string \<Rightarrow> string" where
  "py_strip s = rev (dropWhile py_space (rev (dropWhile py_space s)))"

text \<open>
  \<open>s.partition(c)\<close> as \<open>Some (head, tail)\<close> when the separator occurs and \<open>None\<close>
  otherwise; \<open>s.rpartition(c)\<close> splits at the last occurrence.
\<close>

fun partition1 :: "char \<Rightarrow> string \<Rightarrow> (string \<times> string) option" where
  "partition1 d [] = None"
| "partition1 d (c # cs) =
     (if c = d then Some ([], cs)
      else map_option (\<lambda>(h, t). (c # h, t)) (partition1 d cs))"

definition rpartition1 :: "char \<Rightarrow> string \<Rightarrow> (string \<times> string) option" where
  "rpartition1 d s = map_option (\<lambda>(h, t). (rev t, rev h)) (partition1 d (rev s))"

text \<open>
  \<open>s.splitlines()\<close>, on the line boundaries below 256; a final boundary opens no
  further line, and a carriage return followed by a line feed is one boundary.
\<close>

definition line_end :: "char \<Rightarrow> bool" where
  "line_end c \<longleftrightarrow> of_char c \<in> {10, 11, 12, 13, 28, 29, 30, 133 :: nat}"

fun lines_aux :: "string \<Rightarrow> string \<Rightarrow> string list" where
  "lines_aux cur [] = (if cur = [] then [] else [rev cur])"
| "lines_aux cur [c] = (if line_end c then [rev cur] else [rev (c # cur)])"
| "lines_aux cur (c # c' # cs) =
     (if c = CHR 0x0D \<and> c' = CHR 0x0A then rev cur # lines_aux [] cs
      else if line_end c then rev cur # lines_aux [] (c' # cs)
      else lines_aux (c # cur) (c' # cs))"

definition splitlines :: "string \<Rightarrow> string list" where
  "splitlines s = lines_aux [] s"

text \<open>\<open>sorted(xs)\<close>, and \<open>sorted(set(xs))\<close>.\<close>

definition py_sorted :: "string list \<Rightarrow> string list" where
  "py_sorted xs = sort xs"

definition sorted_set :: "string list \<Rightarrow> string list" where
  "sorted_set xs = sort (remdups xs)"

text \<open>
  \<open>int(s)\<close>: white space around it, an optional sign, and decimal digits with single
  underscores between them; \<open>None\<close> where Python raises \<open>ValueError\<close>.
\<close>

definition is_digit :: "char \<Rightarrow> bool" where
  "is_digit c \<longleftrightarrow> CHR ''0'' \<le> c \<and> c \<le> CHR ''9''"

definition is_alpha :: "char \<Rightarrow> bool" where
  "is_alpha c \<longleftrightarrow> (CHR ''a'' \<le> c \<and> c \<le> CHR ''z'') \<or> (CHR ''A'' \<le> c \<and> c \<le> CHR ''Z'')"

lemma digit_not_alpha [simp]: "is_digit c \<Longrightarrow> \<not> is_alpha c"
  by (auto simp: is_digit_def is_alpha_def less_eq_char_def)

definition digit_val :: "char \<Rightarrow> nat" where
  "digit_val c = of_char c - 48"

fun int_digits :: "bool \<Rightarrow> int \<Rightarrow> string \<Rightarrow> int option" where
  "int_digits ok acc [] = (if ok then Some acc else None)"
| "int_digits ok acc (c # cs) =
     (if is_digit c then int_digits True (acc * 10 + int (digit_val c)) cs
      else if c = CHR ''_'' \<and> ok then int_digits False acc cs
      else None)"

definition py_int :: "string \<Rightarrow> int option" where
  "py_int s =
     (case py_strip s of
        [] \<Rightarrow> None
      | c # cs \<Rightarrow> if c = CHR ''-'' then map_option uminus (int_digits False 0 cs)
                 else if c = CHR ''+'' then int_digits False 0 cs
                 else int_digits False 0 (c # cs))"

text \<open>\<open>str(n)\<close> of an integer, and \<open>repr(s)\<close> of a string.\<close>

definition digit_chr :: "nat \<Rightarrow> char" where
  "digit_chr n = char_of (if n < 10 then 48 + n else 87 + n)"

fun nat_str :: "nat \<Rightarrow> string" where
  "nat_str n = (if n < 10 then [digit_chr n] else nat_str (n div 10) @ [digit_chr (n mod 10)])"

declare nat_str.simps [simp del]

definition int_str :: "int \<Rightarrow> string" where
  "int_str i = (if i < 0 then CHR ''-'' # nat_str (nat (- i)) else nat_str (nat i))"

definition hex2 :: "nat \<Rightarrow> string" where
  "hex2 n = [digit_chr (n div 16), digit_chr (n mod 16)]"

definition repr_char :: "char \<Rightarrow> char \<Rightarrow> string" where
  "repr_char q c =
     (let n = (of_char c :: nat) in
      if c = q \<or> n = 92 then [CHR 0x5C, c]
      else if n = 10 then [CHR 0x5C, CHR ''n'']
      else if n = 13 then [CHR 0x5C, CHR ''r'']
      else if n = 9 then [CHR 0x5C, CHR ''t'']
      else if n < 32 \<or> (127 \<le> n \<and> n \<le> 160) \<or> n = 173 then [CHR 0x5C, CHR ''x''] @ hex2 n
      else [c])"

definition py_repr :: "string \<Rightarrow> string" where
  "py_repr s =
     (let q = (if CHR 0x27 \<in> set s \<and> CHR 0x22 \<notin> set s then CHR 0x22 else CHR 0x27)
      in q # concat (map (repr_char q) s) @ [q])"

text \<open>The suffix of renamed builds (\<open>RENAME_SUFFIX\<close> of \<open>primitives/pkgbuild_patcher.py\<close>), and \<open>dir / name\<close> of \<open>pathlib\<close>.\<close>

definition RENAME_SUFFIX :: string where
  "RENAME_SUFFIX = ''sysforge''"

definition path_join :: "string \<Rightarrow> string \<Rightarrow> string" where
  "path_join dir name = (if dir = [] then name else if ends_with ''/'' dir then dir @ name else dir @ ''/'' @ name)"

text \<open>\<open>Path(p).name\<close>: the last component that is neither empty nor \<open>.\<close> (and \<open>..\<close> is one).\<close>

definition path_name :: "string \<Rightarrow> string" where
  "path_name p =
     (let parts = filter (\<lambda>c. c \<noteq> [] \<and> c \<noteq> ''.'') (split_on CHR ''/'' p)
      in if parts = [] then [] else last parts)"

text \<open>The tokens that \<open>split\<close> yields: not empty and free of white space.\<close>

definition tok_ok :: "string \<Rightarrow> bool" where
  "tok_ok t \<longleftrightarrow> t \<noteq> [] \<and> list_all (\<lambda>c. \<not> py_space c) t"

subsection \<open>Laws of split and join\<close>

lemma space_is_space [simp]: "py_space CHR '' ''"
  by (simp add: py_space_def)

lemma wsplit_nonspace:
  "list_all (\<lambda>c. \<not> py_space c) t \<Longrightarrow> wsplit cur (t @ s) = wsplit (rev t @ cur) s"
  by (induction t arbitrary: cur) auto

lemma wsplit_tok_ok:
  "list_all (\<lambda>c. \<not> py_space c) cur \<Longrightarrow> t \<in> set (wsplit cur s) \<Longrightarrow> tok_ok t"
proof (induction cur s rule: wsplit.induct)
  case (1 cur)
  then show ?case by (auto simp: tok_ok_def list_all_iff split: if_splits)
next
  case (2 cur c cs)
  show ?case
  proof (cases "py_space c")
    case True
    with 2 show ?thesis by (auto simp: tok_ok_def list_all_iff split: if_splits)
  next
    case False
    with 2 show ?thesis by simp
  qed
qed

lemma split_tok_ok [intro]: "t \<in> set (py_split s) \<Longrightarrow> tok_ok t"
  by (auto simp: py_split_def intro: wsplit_tok_ok [of "[]"])

lemma split_all_ok [simp]: "list_all tok_ok (py_split s)"
  by (auto simp: list_all_iff)

lemma split_empty [simp]: "py_split [] = []"
  by (simp add: py_split_def)

lemma split_join [str_simps]:
  "list_all tok_ok ts \<Longrightarrow> py_split (py_join '' '' ts) = ts"
proof (induction "'' ''" ts rule: py_join.induct)
  case 1
  show ?case by (simp add: py_split_def)
next
  case (2 x)
  then have "wsplit [] (x @ []) = wsplit (rev x @ []) []"
    by (intro wsplit_nonspace) (simp add: tok_ok_def)
  with 2 show ?case by (simp add: py_split_def tok_ok_def)
next
  case (3 x y zs)
  then have "wsplit [] (x @ '' '' @ py_join '' '' (y # zs)) =
      wsplit (rev x @ []) ('' '' @ py_join '' '' (y # zs))"
    by (intro wsplit_nonspace) (simp add: tok_ok_def)
  with 3 show ?case by (simp add: py_split_def tok_ok_def)
qed

lemma split_join_filter [str_simps]:
  "py_split (py_join '' '' (filter P (py_split s))) = filter P (py_split s)"
  by (rule split_join) (auto simp: list_all_iff)

lemma wsplit_append_space:
  "py_space c \<Longrightarrow> wsplit cur (a @ c # b) = wsplit cur a @ wsplit [] b"
  by (induction a arbitrary: cur) auto

lemma split_append_space [str_simps]: "py_split (a @ CHR '' '' # b) = py_split a @ py_split b"
  by (simp add: py_split_def wsplit_append_space)

subsection \<open>Laws of prefixes and partitions\<close>

lemma starts_with_append [simp]: "starts_with p (p @ s)"
  by (induction p) auto

lemma starts_with_refl [simp]: "starts_with p p"
  by (induction p) auto

lemma starts_with_iff: "starts_with p s \<longleftrightarrow> (\<exists>t. s = p @ t)"
  by (induction p s rule: starts_with.induct) auto

lemma ends_with_iff: "ends_with p s \<longleftrightarrow> (\<exists>t. s = t @ p)"
proof
  assume "ends_with p s"
  then obtain t where "rev s = rev p @ t"
    by (auto simp: ends_with_def starts_with_iff)
  then have "s = rev t @ p"
    by (metis rev_append rev_rev_ident)
  then show "\<exists>t. s = t @ p" by blast
next
  assume "\<exists>t. s = t @ p"
  then show "ends_with p s"
    by (auto simp: ends_with_def)
qed

lemma ends_with_append [simp]: "ends_with p (s @ p)"
  by (auto simp: ends_with_iff)

lemma partition1_Some: "partition1 d s = Some (h, t) \<Longrightarrow> s = h @ d # t \<and> d \<notin> set h"
  by (induction s arbitrary: h) (auto split: if_splits)

lemma partition1_None: "partition1 d s = None \<longleftrightarrow> d \<notin> set s"
  by (induction s) auto

lemma partition1_append [str_simps]: "d \<notin> set h \<Longrightarrow> partition1 d (h @ d # t) = Some (h, t)"
  by (induction h) auto

lemma rpartition1_append [str_simps]: "d \<notin> set t \<Longrightarrow> rpartition1 d (h @ d # t) = Some (h, t)"
  by (simp add: rpartition1_def partition1_append)

lemma rpartition1_None: "rpartition1 d s = None \<longleftrightarrow> d \<notin> set s"
  by (simp add: rpartition1_def partition1_None)

lemma split_on_nonempty [simp]: "split_on d s \<noteq> []"
  by (induction s) (auto split: list.splits)

lemma join_split_on [str_simps]: "py_join [d] (split_on d s) = s"
proof (induction s)
  case Nil
  show ?case by simp
next
  case (Cons c cs)
  then show ?case
    by (cases "split_on d cs"; cases "tl (split_on d cs)") auto
qed

lemma split_on_join_comma:
  "kept \<noteq> [] \<Longrightarrow> (\<forall>p \<in> set kept. d \<notin> set p) \<Longrightarrow> split_on d (py_join [d] kept) = kept"
proof (induction "[d]" kept rule: py_join.induct)
  case 1
  then show ?case by simp
next
  case (2 x)
  then have "d \<notin> set x" by simp
  then have "split_on d x = [x]" by (induction x) auto
  then show ?case by simp
next
  case (3 x y zs)
  then have "d \<notin> set x" by simp
  then have "split_on d (x @ d # r) = x # split_on d r" for r
    by (induction x) auto
  with 3 show ?case by simp
qed

lemma lines_aux_line:
  "list_all (\<lambda>c. \<not> line_end c) a \<Longrightarrow> lines_aux cur (a @ CHR 0x0A # r) = (rev cur @ a) # lines_aux [] r"
proof (induction a arbitrary: cur)
  case Nil
  show ?case by (cases r) (simp_all add: line_end_def)
next
  case (Cons c a)
  have "lines_aux cur (c # a @ CHR 0x0A # r) = lines_aux (c # cur) (a @ CHR 0x0A # r)"
  proof (cases "a @ CHR 0x0A # r")
    case (Cons d t)
    then show ?thesis using Cons.prems by (auto simp: line_end_def)
  qed simp
  with Cons show ?case by simp
qed

lemma lines_aux_last:
  "list_all (\<lambda>c. \<not> line_end c) a \<Longrightarrow> rev cur @ a \<noteq> [] \<Longrightarrow> lines_aux cur a = [rev cur @ a]"
proof (induction a arbitrary: cur)
  case (Cons c a)
  show ?case
  proof (cases a)
    case Nil
    with Cons.prems show ?thesis by simp
  next
    case a: (Cons d t)
    with Cons.prems have "lines_aux cur (c # a) = lines_aux (c # cur) a" by (auto simp: line_end_def)
    with Cons show ?thesis by simp
  qed
qed simp

lemma line_end_space: "line_end c \<Longrightarrow> py_space c"
  by (auto simp: line_end_def py_space_def)

lemma splitlines_tokens:
  "\<forall>s \<in> set ts. tok_ok s \<Longrightarrow> splitlines (concat (map (\<lambda>s. s @ [CHR 0x0A]) ts)) = ts"
proof (induction ts)
  case Nil
  then show ?case by (simp add: splitlines_def)
next
  case (Cons s ts)
  then have "list_all (\<lambda>c. \<not> line_end c) s"
    using line_end_space by (auto simp: tok_ok_def list_all_iff)
  with Cons show ?case using lines_aux_line [of s "[]"] by (simp add: splitlines_def)
qed

lemma strip_tok: "tok_ok t \<Longrightarrow> py_strip t = t"
proof -
  assume t: "tok_ok t"
  have "dropWhile py_space s = s" if "list_all (\<lambda>c. \<not> py_space c) s" for s
    using that by (cases s) simp_all
  moreover have "list_all (\<lambda>c. \<not> py_space c) t" "list_all (\<lambda>c. \<not> py_space c) (rev t)"
    using t by (simp_all add: tok_ok_def list_all_iff)
  ultimately show ?thesis by (simp add: py_strip_def)
qed

lemma splitlines_join:
  "list_all (\<lambda>l. l \<noteq> [] \<and> list_all (\<lambda>c. \<not> line_end c) l) ls \<Longrightarrow> splitlines (py_join [CHR 0x0A] ls) = ls"
proof (induction "[CHR 0x0A]" ls rule: py_join.induct)
  case 1
  show ?case by (simp add: splitlines_def)
next
  case (2 x)
  then show ?case using lines_aux_last [of x "[]"] by (simp add: splitlines_def)
next
  case (3 x y zs)
  then show ?case using lines_aux_line [of x "[]"] by (simp add: splitlines_def)
qed

lemma split_on_no_sep: "p \<in> set (split_on d s) \<Longrightarrow> d \<notin> set p"
  by (induction s arbitrary: p) (auto split: if_splits list.splits)

lemma split_on_chars: "p \<in> set (split_on d s) \<Longrightarrow> set p \<subseteq> set s"
proof (induction s arbitrary: p)
  case Nil
  then show ?case by simp
next
  case (Cons c cs)
  show ?case
  proof (cases "c = d")
    case True
    with Cons show ?thesis by auto
  next
    case False
    obtain q qs where q: "split_on d cs = q # qs"
      by (cases "split_on d cs") auto
    have "set q \<subseteq> set cs" and "\<And>r. r \<in> set qs \<Longrightarrow> set r \<subseteq> set cs"
      using Cons.IH q by auto
    with Cons.prems False q show ?thesis by auto
  qed
qed

section \<open>Integers as text\<close>

lemma digit_of: "n < 10 \<Longrightarrow> is_digit (digit_chr n) \<and> digit_val (digit_chr n) = n"
  by (simp add: is_digit_def digit_val_def digit_chr_def less_eq_char_def)

lemma int_digits_nat: "int_digits b acc (nat_str n @ r) = int_digits True (acc * 10 ^ length (nat_str n) + int n) r"
proof (induction n arbitrary: b acc r rule: nat_str.induct)
  case (1 n)
  show ?case
  proof (cases "n < 10")
    case True
    then show ?thesis using digit_of [of n] by (subst nat_str.simps, subst (2) nat_str.simps) simp
  next
    case False
    have m: "n mod 10 < 10" by simp
    have "int_digits b acc (nat_str n @ r) = int_digits b acc (nat_str (n div 10) @ digit_chr (n mod 10) # r)"
      using False by (subst nat_str.simps) simp
    also have "\<dots> = int_digits True ((acc * 10 ^ length (nat_str (n div 10)) + int (n div 10)) * 10 + int (n mod 10)) r"
      using 1 [OF False] digit_of [OF m] by simp
    also have "(acc * 10 ^ length (nat_str (n div 10)) + int (n div 10)) * 10 + int (n mod 10) =
        acc * 10 ^ length (nat_str n) + int n"
      using False by (subst (2) nat_str.simps) (simp add: algebra_simps zdiv_int zmod_int)
    finally show ?thesis .
  qed
qed

lemma nat_str_digit: "nat_str n \<noteq> [] \<and> is_digit (hd (nat_str n)) \<and> is_digit (last (nat_str n))"
proof (induction n rule: nat_str.induct)
  case (1 n)
  show ?case
  proof (cases "n < 10")
    case True
    then show ?thesis using digit_of [of n] by (simp add: nat_str.simps [of n])
  next
    case False
    have "n mod 10 < 10" by simp
    from digit_of [OF this] 1 [OF False] False show ?thesis by (simp add: nat_str.simps [of n])
  qed
qed

lemma nat_str_digits: "list_all is_digit (nat_str n)"
proof (induction n rule: nat_str.induct)
  case (1 n)
  have "n mod 10 < 10" by simp
  with 1 show ?case
    by (cases "n < 10") (simp_all add: nat_str.simps [of n] digit_of)
qed

lemma strip_ends: "s \<noteq> [] \<Longrightarrow> \<not> py_space (hd s) \<Longrightarrow> \<not> py_space (last s) \<Longrightarrow> py_strip s = s"
proof -
  assume s: "s \<noteq> []" "\<not> py_space (hd s)" "\<not> py_space (last s)"
  then have "dropWhile py_space s = s" by (cases s) simp_all
  moreover have "rev s \<noteq> []" "\<not> py_space (hd (rev s))" using s by (simp_all add: hd_rev)
  then have "dropWhile py_space (rev s) = rev s" by (cases "rev s") simp_all
  ultimately show ?thesis by (simp add: py_strip_def)
qed

lemma digit_not_space: "is_digit c \<Longrightarrow> \<not> py_space c"
proof -
  assume "is_digit c"
  then have "48 \<le> (of_char c :: nat)" "(of_char c :: nat) \<le> 57" by (simp_all add: is_digit_def less_eq_char_def)
  then show ?thesis unfolding py_space_def by (intro notI, elim insertE emptyE) simp_all
qed

lemma minus_not_space: "\<not> py_space CHR ''-''"
  unfolding py_space_def by (intro notI, elim insertE emptyE) simp_all

lemma py_int_str: "py_int (int_str i) = Some i"
proof -
  have digits: "int_digits False 0 (nat_str n) = Some (int n)" for n
    using int_digits_nat [of False 0 n "[]"] by simp
  have not_sign: "hd (nat_str n) \<noteq> CHR ''-'' \<and> hd (nat_str n) \<noteq> CHR ''+''" for n
    using nat_str_digit [of n] by (auto simp: is_digit_def less_eq_char_def)
  show ?thesis
  proof (cases "i < 0")
    case True
    have "py_strip (int_str i) = int_str i"
      using True nat_str_digit [of "nat (- i)"] minus_not_space by (intro strip_ends) (auto simp: int_str_def digit_not_space)
    with True digits show ?thesis by (simp add: py_int_def int_str_def)
  next
    case False
    then have "py_strip (int_str i) = int_str i"
      using nat_str_digit [of "nat i"] by (intro strip_ends) (auto simp: int_str_def digit_not_space)
    with False digits not_sign [of "nat i"] nat_str_digit [of "nat i"] show ?thesis
      using digits [of "nat i"] by (cases "nat_str (nat i)") (simp_all add: py_int_def int_str_def)
  qed
qed

section \<open>Dictionaries\<close>

type_synonym ('k, 'v) dict = "('k \<times> 'v) list"

text \<open>
  \<open>d.get(k)\<close>, \<open>d[k] = v\<close>, \<open>d.pop(k, None)\<close>, \<open>d.setdefault(k, v)\<close>,
  \<open>{**d, **e}\<close> and \<open>d.get(k, default)\<close>.
\<close>

abbreviation dget :: "('k, 'v) dict \<Rightarrow> 'k \<Rightarrow> 'v option" where
  "dget d k \<equiv> map_of d k"

definition dset :: "'k \<Rightarrow> 'v \<Rightarrow> ('k, 'v) dict \<Rightarrow> ('k, 'v) dict" where
  "dset k v d = AList.update k v d"

definition dpop :: "'k \<Rightarrow> ('k, 'v) dict \<Rightarrow> ('k, 'v) dict" where
  "dpop k d = filter (\<lambda>p. fst p \<noteq> k) d"

definition dsetdefault :: "'k \<Rightarrow> 'v \<Rightarrow> ('k, 'v) dict \<Rightarrow> ('k, 'v) dict" where
  "dsetdefault k v d = (case dget d k of None \<Rightarrow> d @ [(k, v)] | Some _ \<Rightarrow> d)"

fun dmerge :: "('k, 'v) dict \<Rightarrow> ('k, 'v) dict \<Rightarrow> ('k, 'v) dict" where
  "dmerge d [] = d"
| "dmerge d ((k, v) # es) = dmerge (dset k v d) es"

definition dget_or :: "'v \<Rightarrow> ('k, 'v) dict \<Rightarrow> 'k \<Rightarrow> 'v" where
  "dget_or x d k = (case dget d k of None \<Rightarrow> x | Some v \<Rightarrow> v)"

definition dhas :: "('k, 'v) dict \<Rightarrow> 'k \<Rightarrow> bool" where
  "dhas d k \<longleftrightarrow> dget d k \<noteq> None"

text \<open>A dict has every key once.\<close>

definition dict_ok :: "('k, 'v) dict \<Rightarrow> bool" where
  "dict_ok d \<longleftrightarrow> distinct (map fst d)"

lemma dget_dset [dict_simps, simp]: "dget (dset k v d) j = (if j = k then Some v else dget d j)"
  by (simp add: dset_def update_conv')

lemma dget_dpop [dict_simps, simp]: "dget (dpop k d) j = (if j = k then None else dget d j)"
  by (induction d) (auto simp: dpop_def)

lemma dget_dsetdefault [dict_simps, simp]:
  "dget (dsetdefault k v d) j =
     (if j = k then (case dget d k of None \<Rightarrow> Some v | Some w \<Rightarrow> Some w) else dget d j)"
  by (auto simp: dsetdefault_def map_add_def split: option.splits)

lemma dhas_dset [dict_simps, simp]: "dhas (dset k v d) j \<longleftrightarrow> j = k \<or> dhas d j"
  by (simp add: dhas_def)

lemma dict_ok_Nil [simp]: "dict_ok []"
  by (simp add: dict_ok_def)

lemma dict_ok_dset [simp]: "dict_ok d \<Longrightarrow> dict_ok (dset k v d)"
  by (simp add: dict_ok_def dset_def distinct_update)

lemma dict_ok_dpop [simp]: "dict_ok d \<Longrightarrow> dict_ok (dpop k d)"
  by (induction d) (auto simp: dict_ok_def dpop_def)

lemma dict_ok_dsetdefault [simp]: "dict_ok d \<Longrightarrow> dict_ok (dsetdefault k v d)"
  by (auto simp: dict_ok_def dsetdefault_def map_of_eq_None_iff split: option.splits)

lemma dict_ok_dmerge [simp]: "dict_ok d \<Longrightarrow> dict_ok (dmerge d e)"
  by (induction d e rule: dmerge.induct) simp_all

lemma dget_dmerge_notin: "dget e k = None \<Longrightarrow> dget (dmerge d e) k = dget d k"
  by (induction d e rule: dmerge.induct) (auto split: if_splits)

lemma dget_dmerge [dict_simps]:
  "dict_ok e \<Longrightarrow> dget (dmerge d e) k = (case dget e k of None \<Rightarrow> dget d k | Some v \<Rightarrow> Some v)"
proof (induction d e rule: dmerge.induct)
  case (1 d)
  show ?case by simp
next
  case (2 d j v es)
  then have "dget es j = None" and "dict_ok es"
    by (auto simp: dict_ok_def map_of_eq_None_iff)
  with 2 show ?case by (cases "k = j") (auto simp: dget_dmerge_notin split: option.splits)
qed

lemma dkeys_dset [dict_simps]: "set (map fst (dset k v d)) = insert k (set (map fst d))"
  by (simp add: dset_def dom_map_of_conv_image_fst [symmetric] update_conv' flip: image_set)

section \<open>Error results\<close>

text \<open>
  A Python function that may raise is a function into \<open>error + 'a\<close>: \<open>Inl\<close> is the
  exception, \<open>Inr\<close> the value.  \<open>rbind\<close> sequences two such computations.
\<close>

definition rbind :: "'e + 'a \<Rightarrow> ('a \<Rightarrow> 'e + 'b) \<Rightarrow> 'e + 'b" where
  "rbind r f = (case r of Inl e \<Rightarrow> Inl e | Inr x \<Rightarrow> f x)"

lemma rbind_simps [simp]: "rbind (Inl e) f = Inl e" "rbind (Inr x) f = f x"
  by (simp_all add: rbind_def)

lemma rbind_Inr_iff: "rbind r f = Inr y \<longleftrightarrow> (\<exists>x. r = Inr x \<and> f x = Inr y)"
  by (cases r) auto

text \<open>Truth of an optional string: \<open>None\<close> and the empty string are false.\<close>

definition truthy :: "string option \<Rightarrow> bool" where
  "truthy s \<longleftrightarrow> (case s of None \<Rightarrow> False | Some x \<Rightarrow> x \<noteq> [])"

lemma truthy_simps [simp]: "\<not> truthy None" "truthy (Some x) \<longleftrightarrow> x \<noteq> []"
  by (simp_all add: truthy_def)

section \<open>Values\<close>

text \<open>A TOML value as Python sees it, its truth, \<open>repr(v)\<close> and \<open>str(v)\<close>.\<close>

datatype pyval =
    PStr string
  | PList "string list"
  | PInt int
  | PBool bool
  | PTable "(string \<times> pyval) list"

fun pyval_true :: "pyval \<Rightarrow> bool" where
  "pyval_true (PStr s) = (s \<noteq> [])"
| "pyval_true (PList xs) = (xs \<noteq> [])"
| "pyval_true (PInt n) = (n \<noteq> 0)"
| "pyval_true (PBool b) = b"
| "pyval_true (PTable d) = (d \<noteq> [])"

fun pyval_repr :: "pyval \<Rightarrow> string" and table_repr :: "(string \<times> pyval) list \<Rightarrow> string list" where
  "pyval_repr (PStr s) = py_repr s"
| "pyval_repr (PList xs) = ''['' @ py_join '', '' (map py_repr xs) @ '']''"
| "pyval_repr (PInt n) = int_str n"
| "pyval_repr (PBool b) = (if b then ''True'' else ''False'')"
| "pyval_repr (PTable d) = ''{'' @ py_join '', '' (table_repr d) @ ''}''"
| "table_repr [] = []"
| "table_repr ((k, v) # d) = (py_repr k @ '': '' @ pyval_repr v) # table_repr d"

definition pyval_str :: "pyval \<Rightarrow> string" where
  "pyval_str v = (case v of PStr s \<Rightarrow> s | _ \<Rightarrow> pyval_repr v)"

end
