(* ===== verification/MakepkgFlags.thy ===== *)
theory MakepkgFlags
  imports PyPrelude "HOL-Library.Multiset"
begin

text \<open>
  Model of \<open>sysforge/primitives/makepkg_flags.py\<close>: the pure transforms over makepkg's
  compiler and linker flag strings.  A flag string is split at white space, its tokens
  are kept, dropped or replaced, and the rest is joined with single spaces.

  The locale \<open>token_filter\<close> is the contract the four stripping functions share (which
  tokens survive, which are reported); it is interpreted on each of them.  The \<open>-Wl,\<close>
  aware \<open>strip_lld_flags\<close> is refined to a filter over linker atoms.  The PATH probe
  \<open>shutil.which\<close> is a parameter; the \<open>[FLAG]\<close> log lines are not modelled.
\<close>

section \<open>Constants\<close>

definition INSTALL_FLAGS :: "string set" where
  "INSTALL_FLAGS = {''-i'', ''--install''}"

definition SYNC_FLAGS :: "string set" where
  "SYNC_FLAGS = {''--syncdeps'', ''-s''}"

definition CLEANBUILD_FLAGS :: "string set" where
  "CLEANBUILD_FLAGS = {''-C'', ''--cleanbuild''}"

definition LLD_ONLY_FLAGS :: "string set" where
  "LLD_ONLY_FLAGS = {''--icf=all'', ''--icf=safe'', ''--icf=none''}"

definition FULL_LTO_FLAGS :: "string set" where
  "FULL_LTO_FLAGS = {''-flto'', ''-flto=full'', ''-flto=auto''}"

definition LIB32_INVALID_MARCH :: "string set" where
  "LIB32_INVALID_MARCH = {''-march=native'', ''-march=x86-64'', ''-march=x86-64-v2'',
     ''-march=x86-64-v3'', ''-march=x86-64-v4''}"

definition PGO_FLAG_PREFIXES :: "string list" where
  "PGO_FLAG_PREFIXES = [''-fprofile-use'', ''-fprofile-instr-use'', ''-fprofile-generate'',
     ''-fprofile-instr-generate'', ''-fcs-profile-generate'']"

section \<open>Operations\<close>

text \<open>\<open>expand_makepkg_flags\<close>: combined short flags become one flag per letter.\<close>

definition expand_token :: "string \<Rightarrow> string list" where
  "expand_token t =
     (if starts_with ''--'' t then [t]
      else if starts_with ''-'' t \<and> length t > 2 then map (\<lambda>ch. [CHR ''-'', ch]) (tl t)
      else [t])"

definition expand_makepkg_flags :: "string option \<Rightarrow> string list" where
  "expand_makepkg_flags flags =
     (case flags of
        None \<Rightarrow> []
      | Some s \<Rightarrow> if s = [] then [] else concat (map expand_token (py_split s)))"

text \<open>\<open>_detect_linker_from_ldflags\<close>: the first \<open>-fuse-ld=X\<close> token declares \<open>X\<close>.\<close>

abbreviation "fuse_ld \<equiv> ''-fuse-ld=''"
abbreviation "link_arg \<equiv> ''link-arg=-fuse-ld=''"
abbreviation "clink_arg \<equiv> ''-Clink-arg=-fuse-ld=''"

fun detect_ld_tokens :: "string list \<Rightarrow> string option" where
  "detect_ld_tokens [] = None"
| "detect_ld_tokens (t # ts) =
     (if starts_with fuse_ld t then Some (drop (length fuse_ld) t) else detect_ld_tokens ts)"

definition detect_linker_from_ldflags :: "string \<Rightarrow> string option" where
  "detect_linker_from_ldflags val = detect_ld_tokens (py_split val)"

text \<open>\<open>_detect_linker_from_rustflags\<close>: the two-token and the one-token spelling.\<close>

fun detect_rust_tokens :: "string list \<Rightarrow> string option" where
  "detect_rust_tokens [] = None"
| "detect_rust_tokens [t] =
     (if starts_with clink_arg t then Some (drop (length clink_arg) t) else None)"
| "detect_rust_tokens (t # u # ts) =
     (if t = ''-C'' then
        (if starts_with link_arg u then Some (drop (length link_arg) u)
         else detect_rust_tokens (u # ts))
      else if starts_with clink_arg t then Some (drop (length clink_arg) t)
      else detect_rust_tokens (u # ts))"

definition detect_linker_from_rustflags :: "string \<Rightarrow> string option" where
  "detect_linker_from_rustflags val = detect_rust_tokens (py_split val)"

text \<open>\<open>_replace_rustflags_linker\<close>: a scan that consumes two tokens at \<open>-C link-arg=\<close>.\<close>

fun replace_rust_tokens :: "string \<Rightarrow> string list \<Rightarrow> string list" where
  "replace_rust_tokens l [] = []"
| "replace_rust_tokens l [t] = (if starts_with clink_arg t then [clink_arg @ l] else [t])"
| "replace_rust_tokens l (t # u # ts) =
     (if t = ''-C'' \<and> starts_with link_arg u then ''-C'' # (link_arg @ l) # replace_rust_tokens l ts
      else if starts_with clink_arg t then (clink_arg @ l) # replace_rust_tokens l (u # ts)
      else t # replace_rust_tokens l (u # ts))"

definition replace_rustflags_linker :: "string \<Rightarrow> string \<Rightarrow> string" where
  "replace_rustflags_linker val l = py_join '' '' (replace_rust_tokens l (py_split val))"

text \<open>\<open>_inject_linker\<close>: replace the first \<open>-fuse-ld=\<close> token, or prepend one.\<close>

fun replace_first_ld :: "string \<Rightarrow> string list \<Rightarrow> string list option" where
  "replace_first_ld new [] = None"
| "replace_first_ld new (t # ts) =
     (if starts_with fuse_ld t then Some (new # ts)
      else map_option (\<lambda>us. t # us) (replace_first_ld new ts))"

definition inject_linker :: "string \<Rightarrow> string \<Rightarrow> string" where
  "inject_linker val l =
     (let new = fuse_ld @ l; ts = py_split val
      in case replace_first_ld new ts of
           Some us \<Rightarrow> py_join '' '' us
         | None \<Rightarrow> py_join '' '' (new # ts))"

text \<open>\<open>resolve_effective_linker\<close>; \<open>which l\<close> says that \<open>l\<close> is on the PATH.\<close>

definition resolve_effective_linker ::
    "(string \<Rightarrow> bool) \<Rightarrow> string option \<Rightarrow> string option \<Rightarrow> string option \<Rightarrow> string" where
  "resolve_effective_linker which ld_override profile_ldflags system_ldflags =
     (let detect = (\<lambda>v. detect_linker_from_ldflags (case v of None \<Rightarrow> [] | Some s \<Rightarrow> s));
          linker = (if truthy ld_override then ld_override
                    else if truthy (detect profile_ldflags) then detect profile_ldflags
                    else detect system_ldflags)
      in case linker of
           None \<Rightarrow> ''ld''
         | Some l \<Rightarrow> if l = [] then ''ld'' else if which l then l else ''ld'')"

text \<open>The token loop of the stripping functions, with its two accumulators.\<close>

fun strip_tokens ::
    "(string \<Rightarrow> bool) \<Rightarrow> string list \<Rightarrow> string list \<Rightarrow> string list \<Rightarrow> string list \<times> string list" where
  "strip_tokens bad [] kept stripped = (kept, stripped)"
| "strip_tokens bad (t # ts) kept stripped =
     (if bad t then strip_tokens bad ts kept (stripped @ [t])
      else strip_tokens bad ts (kept @ [t]) stripped)"

definition strip_full_lto :: "string \<Rightarrow> string \<times> string list" where
  "strip_full_lto val =
     (let (kept, stripped) = strip_tokens (\<lambda>t. t \<in> FULL_LTO_FLAGS) (py_split val) [] []
      in (py_join '' '' kept, stripped))"

definition strip_all_lto :: "string \<Rightarrow> string \<times> string list" where
  "strip_all_lto val =
     (let (kept, stripped) =
            strip_tokens (\<lambda>t. t = ''-flto'' \<or> starts_with ''-flto='' t) (py_split val) [] []
      in (py_join '' '' kept, stripped))"

definition scrub_lib32_arch_flags :: "string \<Rightarrow> string \<times> string list" where
  "scrub_lib32_arch_flags val =
     (let (kept, stripped) = strip_tokens (\<lambda>t. t \<in> LIB32_INVALID_MARCH) (py_split val) [] []
      in (py_join '' '' kept, stripped))"

definition strip_pgo_flags :: "string \<Rightarrow> string \<times> string list" where
  "strip_pgo_flags val =
     (let (kept, stripped) =
            strip_tokens (\<lambda>t. list_ex (\<lambda>p. t = p \<or> starts_with (p @ ''='') t) PGO_FLAG_PREFIXES)
              (py_split val) [] []
      in (py_join '' '' kept, stripped))"

text \<open>\<open>_strip_lld_flags\<close>: bare tokens, and sub-tokens of a \<open>-Wl,a,b\<close> sequence.\<close>

fun strip_lld_tokens ::
    "string list \<Rightarrow> string list \<Rightarrow> string list \<Rightarrow> string list \<times> string list" where
  "strip_lld_tokens [] out stripped = (out, stripped)"
| "strip_lld_tokens (t # ts) out stripped =
     (if starts_with ''-Wl,'' t then
        (let (kept, subs) =
               strip_tokens (\<lambda>s. s \<in> LLD_ONLY_FLAGS) (split_on CHR '','' (drop 4 t)) [] stripped
         in strip_lld_tokens ts
              (if kept = [] then out else out @ [''-Wl,'' @ py_join '','' kept]) subs)
      else if t \<in> LLD_ONLY_FLAGS then strip_lld_tokens ts out (stripped @ [t])
      else strip_lld_tokens ts (out @ [t]) stripped)"

definition strip_lld_flags :: "string \<Rightarrow> string \<times> string list" where
  "strip_lld_flags val =
     (let (out, stripped) = strip_lld_tokens (py_split val) [] [] in (py_join '' '' out, stripped))"

section \<open>The contract of a stripping function\<close>

lemma strip_tokens_filter:
  "strip_tokens bad ts kept stripped = (kept @ filter (\<lambda>t. \<not> bad t) ts, stripped @ filter bad ts)"
  by (induction bad ts kept stripped rule: strip_tokens.induct) auto

locale token_filter =
  fixes bad :: "string \<Rightarrow> bool"
    and strip :: "string \<Rightarrow> string \<times> string list"
  assumes strip_eq:
    "strip val = (py_join '' '' (filter (\<lambda>t. \<not> bad t) (py_split val)), filter bad (py_split val))"
begin

lemma tokens_kept: "py_split (fst (strip val)) = filter (\<lambda>t. \<not> bad t) (py_split val)"
  by (simp add: strip_eq str_simps)

lemma none_survives: "list_all (\<lambda>t. \<not> bad t) (py_split (fst (strip val)))"
  by (simp add: tokens_kept list_all_iff)

lemma stripped_are_bad: "list_all bad (snd (strip val))"
  by (simp add: strip_eq list_all_iff)

lemma nothing_lost:
  "mset (py_split val) = mset (py_split (fst (strip val))) + mset (snd (strip val))"
  using multiset_partition [of "mset (py_split val)" bad]
  by (simp add: strip_eq split_join_filter add.commute)

lemma strip_idem: "strip (fst (strip val)) = (fst (strip val), [])"
  by (simp add: strip_eq str_simps filter_empty_conv)

lemma strip_contract:
  "py_split (fst (strip val)) = filter (\<lambda>t. \<not> bad t) (py_split val) \<and>
   snd (strip val) = filter bad (py_split val) \<and>
   strip (fst (strip val)) = (fst (strip val), [])"
  using tokens_kept strip_idem by (simp add: strip_eq)

end

interpretation full_lto: token_filter "\<lambda>t. t \<in> FULL_LTO_FLAGS" strip_full_lto
  by unfold_locales (simp add: strip_full_lto_def strip_tokens_filter)

interpretation all_lto: token_filter "\<lambda>t. t = ''-flto'' \<or> starts_with ''-flto='' t" strip_all_lto
  by unfold_locales (simp add: strip_all_lto_def strip_tokens_filter)

interpretation lib32: token_filter "\<lambda>t. t \<in> LIB32_INVALID_MARCH" scrub_lib32_arch_flags
  by unfold_locales (simp add: scrub_lib32_arch_flags_def strip_tokens_filter)

interpretation pgo: token_filter
  "\<lambda>t. list_ex (\<lambda>p. t = p \<or> starts_with (p @ ''='') t) PGO_FLAG_PREFIXES" strip_pgo_flags
  by unfold_locales (simp add: strip_pgo_flags_def strip_tokens_filter)

section \<open>Stripping linker flags, as a filter over linker atoms\<close>

text \<open>
  What a token asks of the linker: a \<open>-Wl,a,b\<close> token carries its sub-tokens (\<open>Inl\<close>),
  any other token stands for itself (\<open>Inr\<close>).
\<close>

definition ld_atoms :: "string \<Rightarrow> (string + string) list" where
  "ld_atoms t = (if starts_with ''-Wl,'' t then map Inl (split_on CHR '','' (drop 4 t)) else [Inr t])"

definition lld_atom :: "string + string \<Rightarrow> bool" where
  "lld_atom a = (case a of Inl s \<Rightarrow> s \<in> LLD_ONLY_FLAGS | Inr s \<Rightarrow> s \<in> LLD_ONLY_FLAGS)"

lemma ld_atoms_rejoin:
  assumes "kept \<noteq> []" and "\<forall>p \<in> set kept. CHR '','' \<notin> set p"
  shows "ld_atoms (''-Wl,'' @ py_join '','' kept) = map Inl kept"
proof -
  have "split_on CHR '','' (drop 4 (''-Wl,'' @ py_join '','' kept)) = kept"
    using split_on_join_comma [OF assms] by simp
  then show ?thesis by (simp add: ld_atoms_def)
qed

lemma filter_sub_tokens:
  "concat (map ld_atoms (let kept = filter (\<lambda>s. s \<notin> LLD_ONLY_FLAGS) (split_on CHR '','' (drop 4 t))
     in if kept = [] then [] else [''-Wl,'' @ py_join '','' kept])) =
   filter (\<lambda>a. \<not> lld_atom a) (map Inl (split_on CHR '','' (drop 4 t)))"
proof -
  let ?subs = "split_on CHR '','' (drop 4 t)"
  let ?kept = "filter (\<lambda>s. s \<notin> LLD_ONLY_FLAGS) ?subs"
  have *: "filter (\<lambda>a. \<not> lld_atom a) (map Inl ?subs) = map Inl ?kept"
    by (simp add: filter_map lld_atom_def comp_def)
  have "\<forall>p \<in> set ?kept. CHR '','' \<notin> set p"
    using split_on_no_sep [of _ "CHR '',''" "drop 4 t"] by auto
  then show ?thesis
    using * ld_atoms_rejoin [of ?kept] by (simp add: Let_def)
qed

lemma strip_lld_tokens_atoms:
  "concat (map ld_atoms (fst (strip_lld_tokens ts out stripped))) =
   concat (map ld_atoms out) @ filter (\<lambda>a. \<not> lld_atom a) (concat (map ld_atoms ts))"
proof (induction ts out stripped rule: strip_lld_tokens.induct)
  case (1 out stripped)
  show ?case by simp
next
  case (2 t ts out stripped)
  show ?case
  proof (cases "starts_with ''-Wl,'' t")
    case True
    let ?kept = "filter (\<lambda>s. s \<notin> LLD_ONLY_FLAGS) (split_on CHR '','' (drop 4 t))"
    have "ld_atoms t = map Inl (split_on CHR '','' (drop 4 t))"
      using True by (simp add: ld_atoms_def)
    moreover have "concat (map ld_atoms (if ?kept = [] then [] else [''-Wl,'' @ py_join '','' ?kept])) =
        filter (\<lambda>a. \<not> lld_atom a) (map Inl (split_on CHR '','' (drop 4 t)))"
      using filter_sub_tokens [of t] by (simp add: Let_def)
    ultimately show ?thesis
      using True "2.IH"(1) [OF True] by (auto simp: strip_tokens_filter Let_def)
  next
    case False
    then have "ld_atoms t = [Inr t]" by (simp add: ld_atoms_def)
    with False "2.IH"(2,3) show ?thesis by (auto simp: lld_atom_def)
  qed
qed

lemma strip_lld_tokens_ok:
  "list_all tok_ok out \<Longrightarrow> list_all tok_ok ts \<Longrightarrow>
   list_all tok_ok (fst (strip_lld_tokens ts out stripped))"
proof (induction ts out stripped rule: strip_lld_tokens.induct)
  case (1 out stripped)
  then show ?case by simp
next
  case (2 t ts out stripped)
  show ?case
  proof (cases "starts_with ''-Wl,'' t")
    case True
    let ?subs = "split_on CHR '','' (drop 4 t)"
    let ?kept = "filter (\<lambda>s. s \<notin> LLD_ONLY_FLAGS) ?subs"
    have chars: "set (py_join [d] ps) \<subseteq> insert d (\<Union> (set ` set ps))" for d and ps :: "string list"
      by (induction "[d]" ps rule: py_join.induct) auto
    have "\<Union> (set ` set ?subs) \<subseteq> set (drop 4 t)"
      using split_on_chars by blast
    then have "set (py_join '','' ?kept) \<subseteq> insert CHR '','' (set t)"
      using chars [of "CHR '',''" ?kept] set_drop_subset [of 4 t] by fastforce
    then have "tok_ok (''-Wl,'' @ py_join '','' ?kept)"
      using "2.prems"(2) by (auto simp: tok_ok_def list_all_iff py_space_def)
    with True "2.IH"(1) [OF True] "2.prems" show ?thesis
      by (auto simp: strip_tokens_filter)
  next
    case False
    with "2.IH"(2,3) "2.prems" show ?thesis by auto
  qed
qed

text \<open>C13: \<open>_strip_lld_flags\<close> removes exactly the lld-only atoms of an LDFLAGS string, whether
  they stand alone or inside a \<open>-Wl,\<close> sequence, and keeps every other atom in its order.\<close>

theorem strip_lld_flags_filters_atoms:
  "concat (map ld_atoms (py_split (fst (strip_lld_flags val)))) =
   filter (\<lambda>a. \<not> lld_atom a) (concat (map ld_atoms (py_split val)))"
proof -
  have "py_split (fst (strip_lld_flags val)) = fst (strip_lld_tokens (py_split val) [] [])"
    using strip_lld_tokens_ok [of "[]" "py_split val" "[]"]
    by (simp add: strip_lld_flags_def split_beta split_join)
  then show ?thesis
    using strip_lld_tokens_atoms [of "py_split val" "[]" "[]"] by simp
qed

section \<open>Linker declarations\<close>

lemma detect_replace_first:
  "replace_first_ld (fuse_ld @ l) ts = Some us \<Longrightarrow> detect_ld_tokens us = Some l"
  by (induction ts arbitrary: us) (auto split: if_splits)

lemma replace_first_ld_ok:
  "replace_first_ld new ts = Some us \<Longrightarrow> tok_ok new \<Longrightarrow> list_all tok_ok ts \<Longrightarrow> list_all tok_ok us"
  by (induction ts arbitrary: us) (auto split: if_splits)

lemma replace_first_ld_others:
  "replace_first_ld (fuse_ld @ l) ts = Some us \<Longrightarrow>
   filter (\<lambda>t. \<not> starts_with fuse_ld t) us = filter (\<lambda>t. \<not> starts_with fuse_ld t) ts"
  by (induction ts arbitrary: us) (auto split: if_splits)

lemma tok_ok_prefixed:
  "list_all (\<lambda>c. \<not> py_space c) l \<Longrightarrow> list_all (\<lambda>c. \<not> py_space c) p \<Longrightarrow> p \<noteq> [] \<Longrightarrow> tok_ok (p @ l)"
  by (simp add: tok_ok_def)

lemma one_spelling: "starts_with clink_arg u \<Longrightarrow> \<not> starts_with link_arg u"
  by (cases u) auto

lemma inject_linker_spec:
  assumes "list_all (\<lambda>c. \<not> py_space c) l"
  shows "detect_linker_from_ldflags (inject_linker val l) = Some l \<and>
    filter (\<lambda>t. \<not> starts_with fuse_ld t) (py_split (inject_linker val l)) =
    filter (\<lambda>t. \<not> starts_with fuse_ld t) (py_split val)"
proof -
  have new: "tok_ok (fuse_ld @ l)"
    by (rule tok_ok_prefixed) (use assms in \<open>simp_all add: py_space_def\<close>)
  show ?thesis
  proof (cases "replace_first_ld (fuse_ld @ l) (py_split val)")
    case None
    have "py_split (inject_linker val l) = (fuse_ld @ l) # py_split val"
      using None new by (simp add: inject_linker_def split_join del: append_Cons)
    then show ?thesis
      by (simp add: detect_linker_from_ldflags_def)
  next
    case (Some us)
    have "py_split (inject_linker val l) = us"
      using Some replace_first_ld_ok [OF Some new]
      by (simp add: inject_linker_def split_join)
    with detect_replace_first [OF Some] replace_first_ld_others [OF Some] show ?thesis
      by (simp add: detect_linker_from_ldflags_def)
  qed
qed

text \<open>After \<open>_inject_linker\<close> the linker the string declares is the injected one, and every
  token that is no linker declaration is kept, in order.\<close>

theorem inject_linker_declares:
  assumes "list_all (\<lambda>c. \<not> py_space c) l"
  shows "detect_linker_from_ldflags (inject_linker val l) = Some l \<and>
    filter (\<lambda>t. \<not> starts_with fuse_ld t) (py_split (inject_linker val l)) =
    filter (\<lambda>t. \<not> starts_with fuse_ld t) (py_split val)"
  by (rule inject_linker_spec [OF assms])

theorem inject_linker_declares_witness:
  "detect_linker_from_ldflags (inject_linker ''-O1 -fuse-ld=bfd -s'' ''mold'') = Some ''mold'' \<and>
   filter (\<lambda>t. \<not> starts_with fuse_ld t) (py_split (inject_linker ''-O1 -fuse-ld=bfd -s'' ''mold'')) =
   filter (\<lambda>t. \<not> starts_with fuse_ld t) (py_split ''-O1 -fuse-ld=bfd -s'')"
  by (rule inject_linker_declares) (simp add: py_space_def)

lemma detect_replace_rust:
  "detect_rust_tokens (replace_rust_tokens l ts) = map_option (\<lambda>_. l) (detect_rust_tokens ts)"
proof (induction l ts rule: replace_rust_tokens.induct)
  case (3 l t u ts)
  show ?case
  proof (cases "t = ''-C'' \<and> starts_with link_arg u")
    case True
    then show ?thesis by simp
  next
    case no_pair: False
    show ?thesis
    proof (cases "starts_with clink_arg t")
      case True
      then have "t \<noteq> ''-C''" by auto
      with True no_pair show ?thesis
        by (cases "replace_rust_tokens l (u # ts)") auto
    next
      case False
      have "replace_rust_tokens l (u # ts) \<noteq> []"
        by (cases ts) auto
      then obtain w ws where w: "replace_rust_tokens l (u # ts) = w # ws"
        by (cases "replace_rust_tokens l (u # ts)") auto
      have "starts_with link_arg w \<longleftrightarrow> starts_with link_arg u"
        using w one_spelling [of u] by (cases ts) (auto split: if_splits)
      with 3 no_pair False w show ?thesis by auto
    qed
  qed
qed auto

lemma replace_rust_tokens_ok:
  "list_all tok_ok ts \<Longrightarrow> list_all (\<lambda>c. \<not> py_space c) l \<Longrightarrow> list_all tok_ok (replace_rust_tokens l ts)"
  by (induction l ts rule: replace_rust_tokens.induct)
    (auto simp: tok_ok_def py_space_def)

text \<open>Replacing the linker of a RUSTFLAGS string makes the new linker the declared one
  exactly when one was declared before, in either spelling.\<close>

theorem replace_rustflags_linker_declares:
  assumes "list_all (\<lambda>c. \<not> py_space c) l"
  shows "detect_linker_from_rustflags (replace_rustflags_linker val l) =
    map_option (\<lambda>_. l) (detect_linker_from_rustflags val)"
  using replace_rust_tokens_ok [OF split_all_ok assms, of val]
  by (simp add: detect_linker_from_rustflags_def replace_rustflags_linker_def split_join
      detect_replace_rust)

theorem replace_rustflags_linker_declares_witness:
  "detect_linker_from_rustflags (replace_rustflags_linker ''-C link-arg=-fuse-ld=bfd'' ''lld'') =
   map_option (\<lambda>_. ''lld'') (detect_linker_from_rustflags ''-C link-arg=-fuse-ld=bfd'')"
  by (rule replace_rustflags_linker_declares) (simp add: py_space_def)

text \<open>The four stripping functions drop exactly the tokens of their class (full LTO, any LTO,
  64-bit \<open>-march\<close> levels, PGO), keep the others in order, report what they dropped, and drop
  nothing when run a second time.\<close>

theorem strip_functions_contract:
  "py_split (fst (strip_full_lto v)) = filter (\<lambda>t. t \<notin> FULL_LTO_FLAGS) (py_split v) \<and>
   py_split (fst (strip_all_lto v)) =
     filter (\<lambda>t. \<not> (t = ''-flto'' \<or> starts_with ''-flto='' t)) (py_split v) \<and>
   py_split (fst (scrub_lib32_arch_flags v)) = filter (\<lambda>t. t \<notin> LIB32_INVALID_MARCH) (py_split v) \<and>
   py_split (fst (strip_pgo_flags v)) =
     filter (\<lambda>t. \<not> list_ex (\<lambda>p. t = p \<or> starts_with (p @ ''='') t) PGO_FLAG_PREFIXES) (py_split v) \<and>
   snd (strip_full_lto (fst (strip_full_lto v))) = [] \<and>
   snd (strip_all_lto (fst (strip_all_lto v))) = [] \<and>
   snd (scrub_lib32_arch_flags (fst (scrub_lib32_arch_flags v))) = [] \<and>
   snd (strip_pgo_flags (fst (strip_pgo_flags v))) = []"
  using full_lto.strip_contract [of v] all_lto.strip_contract [of v] lib32.strip_contract [of v]
    pgo.strip_contract [of v]
  by simp

section \<open>Flag expansion and the effective linker\<close>

lemma expand_token_idem: "u \<in> set (expand_token t) \<Longrightarrow> expand_token u = [u]"
  by (auto simp: expand_token_def split: if_splits)

lemma expand_token_ok: "tok_ok t \<Longrightarrow> u \<in> set (expand_token t) \<Longrightarrow> tok_ok u"
  by (cases t) (auto simp: expand_token_def tok_ok_def list_all_iff py_space_def split: if_splits)

lemma concat_map_id: "(\<And>u. u \<in> set us \<Longrightarrow> f u = [u]) \<Longrightarrow> concat (map f us) = us"
  by (induction us) auto

text \<open>Expanding makepkg flags is idempotent: writing the expanded flags out and expanding
  them again changes nothing.\<close>

theorem expand_makepkg_flags_idem:
  "expand_makepkg_flags (Some (py_join '' '' (expand_makepkg_flags flags))) =
   expand_makepkg_flags flags"
proof -
  define us where "us = expand_makepkg_flags flags"
  have elem: "expand_token u = [u] \<and> tok_ok u" if "u \<in> set us" for u
    using that by (auto simp: us_def expand_makepkg_flags_def expand_token_idem
        intro: expand_token_ok split: option.splits if_splits)
  then have "py_split (py_join '' '' us) = us"
    by (intro split_join) (simp add: list_all_iff)
  moreover have "concat (map expand_token us) = us"
    by (rule concat_map_id) (simp add: elem)
  moreover have "us = []" if "py_join '' '' us = []"
    using that calculation(1) by simp
  ultimately show ?thesis
    unfolding us_def [symmetric] by (auto simp: expand_makepkg_flags_def)
qed

text \<open>The effective linker is \<open>ld\<close> or a linker that is on the PATH; a non-empty override wins
  over both LDFLAGS, and the profile's declaration over the system's.\<close>

theorem resolve_effective_linker_sound:
  "(let r = resolve_effective_linker which ovr prof sys in
     (r = ''ld'' \<or> which r) \<and>
     (truthy ovr \<longrightarrow> r = (if which (the ovr) then the ovr else ''ld'')) \<and>
     (\<not> truthy ovr \<longrightarrow> prof = Some p \<longrightarrow> detect_linker_from_ldflags p = Some l \<longrightarrow> l \<noteq> [] \<longrightarrow>
        r = (if which l then l else ''ld'')))"
  by (cases ovr) (auto simp: resolve_effective_linker_def Let_def split: option.splits)

theorem resolve_effective_linker_sound_witness:
  "resolve_effective_linker (\<lambda>l. l = ''mold'') (Some ''mold'') (Some ''-fuse-ld=lld'') None = ''mold''"
  using resolve_effective_linker_sound [of "\<lambda>l. l = ''mold''" "Some ''mold''" "Some ''-fuse-ld=lld''" None]
  by (simp add: Let_def)

end
