(* ===== verification/Version.thy ===== *)
theory Version
  imports PyPrelude "HOL-Library.Product_Lexorder"
begin

text \<open>
  Model of \<open>sysforge/primitives/version.py\<close>: \<open>vercmp\<close> (the subprocess call, with the
  command runner as a parameter), \<open>format_version\<close>, and \<open>vercmp_local\<close>, the port of
  libalpm's version comparison.  The two index loops of \<open>_rpmvercmp\<close> become a recursion on
  the unread suffixes \<open>a[i:]\<close> and \<open>b[j:]\<close>.

  The specification is \<open>ver_key\<close>: a version component is a list of keys under the
  lexicographic order.  \<open>rpmvercmp_key\<close> shows that the scan computes that order on
  components without trailing separators, which gives transitivity; \<open>rpmvercmp_antisym\<close>
  holds for all strings.  The locale \<open>version_order\<close> is the contract the update logic
  needs of a comparison, and is interpreted on \<open>vercmp_local\<close>.
\<close>

section \<open>The comparison\<close>

datatype version_error = VercmpMissing | VercmpOutput string

text \<open>\<open>vercmp\<close>: \<open>capture\<close> stands for \<open>run.capture\<close>, the stdout of the command if it ran.\<close>

definition vercmp :: "(string list \<Rightarrow> string option) \<Rightarrow> string \<Rightarrow> string \<Rightarrow> version_error + int" where
  "vercmp capture a b =
     (case capture [''vercmp'', a, b] of
        None \<Rightarrow> Inl VercmpMissing
      | Some out \<Rightarrow>
          (case py_int (py_strip out) of
             None \<Rightarrow> Inl (VercmpOutput (py_strip out))
           | Some n \<Rightarrow> Inr (if n < 0 then -1 else if n > 0 then 1 else 0)))"

definition format_version :: "(string, string) dict \<Rightarrow> string" where
  "format_version globals =
     (let pkgver = dget_or [] globals ''pkgver'';
          pkgrel = dget_or ''1'' globals ''pkgrel'';
          epoch = dget_or ''0'' globals ''epoch'';
          base = pkgver @ ''-'' @ pkgrel
      in if epoch \<noteq> [] \<and> epoch \<noteq> ''0'' then epoch @ '':'' @ base else base)"

definition is_sep :: "char \<Rightarrow> bool" where
  "is_sep c \<longleftrightarrow> \<not> (is_digit c \<or> is_alpha c)"

text \<open>The end of the scan: what is left of the two components decides.\<close>

definition rpm_tail :: "string \<Rightarrow> string \<Rightarrow> int" where
  "rpm_tail a b =
     (if a = [] \<and> b = [] then 0
      else if (a = [] \<and> \<not> (b \<noteq> [] \<and> is_alpha (hd b))) \<or> (a \<noteq> [] \<and> is_alpha (hd a)) then -1
      else 1)"

definition same_kind :: "char \<Rightarrow> char \<Rightarrow> bool" where
  "same_kind c = (if is_digit c then is_digit else is_alpha)"

lemma same_kind_self: "\<not> is_sep c \<Longrightarrow> same_kind c c"
  by (auto simp: is_sep_def same_kind_def)

lemma scan_decreases:
  assumes "dropWhile is_sep a \<noteq> []"
  shows "length (dropWhile (same_kind (hd (dropWhile is_sep a))) (dropWhile is_sep a)) < length a"
proof -
  obtain c cs where c: "dropWhile is_sep a = c # cs"
    using assms by (cases "dropWhile is_sep a") auto
  then have "\<not> is_sep c"
    using hd_dropWhile [OF assms] by simp
  then have "length (dropWhile (same_kind c) (c # cs)) < length (c # cs)"
    using length_dropWhile_le [of "same_kind c" cs] by (simp add: same_kind_self)
  also have "\<dots> \<le> length a"
    using length_dropWhile_le [of is_sep a] c by simp
  finally show ?thesis using c by simp
qed

definition seg_val :: "bool \<Rightarrow> string \<Rightarrow> string" where
  "seg_val isnum seg = (if isnum then dropWhile (\<lambda>c. c = CHR ''0'') seg else seg)"

function rpm_scan :: "string \<Rightarrow> string \<Rightarrow> int" where
  "rpm_scan a b =
     (if a = [] \<or> b = [] then rpm_tail a b
      else
        (let a' = dropWhile is_sep a; b' = dropWhile is_sep b;
             na = length (takeWhile is_sep a); nb = length (takeWhile is_sep b)
         in if a' = [] \<or> b' = [] then rpm_tail a' b'
            else if na \<noteq> nb then (if na < nb then -1 else 1)
            else
              (let isnum = is_digit (hd a'); same = same_kind (hd a');
                   sa = takeWhile same a'; sb = takeWhile same b';
                   va = seg_val isnum sa; vb = seg_val isnum sb
               in if sb = [] then (if isnum then 1 else -1)
                  else if isnum \<and> length va \<noteq> length vb then (if length va > length vb then 1 else -1)
                  else if va \<noteq> vb then (if va > vb then 1 else -1)
                  else rpm_scan (dropWhile same a') (dropWhile same b'))))"
  by pat_completeness auto
termination
  by (relation "measure (\<lambda>(a, b). length a)") (auto simp: scan_decreases)

declare rpm_scan.simps [simp del]

definition rpmvercmp :: "string \<Rightarrow> string \<Rightarrow> int" where
  "rpmvercmp a b = (if a = b then 0 else rpm_scan a b)"

text \<open>\<open>_parse_evr\<close>: \<open>[epoch:]pkgver[-pkgrel]\<close>.\<close>

definition parse_evr :: "string \<Rightarrow> string \<times> string \<times> string option" where
  "parse_evr ver =
     (let (epoch, rest) =
            (case partition1 CHR '':'' ver of
               None \<Rightarrow> (''0'', ver)
             | Some (h, t) \<Rightarrow>
                 if h \<noteq> [] \<and> list_all is_digit h then (h, t)
                 else if h = [] then (''0'', t)
                 else (''0'', ver))
      in case rpartition1 CHR ''-'' rest of
           None \<Rightarrow> (epoch, rest, None)
         | Some (v, r) \<Rightarrow> (epoch, v, Some r))"

definition vercmp_local :: "string \<Rightarrow> string \<Rightarrow> int" where
  "vercmp_local a b =
     (if a = b then 0
      else
        (let (ea, va, ra) = parse_evr a; (eb, vb, rb) = parse_evr b;
             ret = rpmvercmp ea eb
         in if ret \<noteq> 0 then ret
            else
              (let ret = rpmvercmp va vb
               in case (ra, rb) of
                    (Some x, Some y) \<Rightarrow> if ret = 0 then rpmvercmp x y else ret
                  | _ \<Rightarrow> ret)))"

lemma vercmp_local_examples:
  "vercmp_local ''1.0-1'' ''1.0-2'' = -1" "vercmp_local ''1:0.9-1'' ''2.0-1'' = 1"
  "vercmp_local ''1.010'' ''1.10'' = 0" "vercmp_local ''1.0a'' ''1.0'' = -1"
  by code_simp+

section \<open>Specification: version keys under the lexicographic order\<close>

definition cmp3 :: "'a::linorder \<Rightarrow> 'a \<Rightarrow> int" where
  "cmp3 x y = (if x < y then -1 else if x = y then 0 else 1)"

lemma cmp3_simps [simp]: "cmp3 x x = 0" "cmp3 x y = 0 \<longleftrightarrow> x = y"
  "cmp3 x y \<le> 0 \<longleftrightarrow> x \<le> y"
  by (auto simp: cmp3_def)

lemma cmp3_swap: "cmp3 y x = - cmp3 x y"
  by (auto simp: cmp3_def)

lemma cmp3_Cons: "cmp3 (x # xs) (y # ys) = (if x = y then cmp3 xs ys else cmp3 x y)"
  by (auto simp: cmp3_def)

type_synonym vkey = "(nat \<times> nat \<times> string) list"

text \<open>
  The key of a segment: the number of separators before it and its kind (a number beats
  letters; letters with no separator before them rank below the end of the string), then
  the length of a number without its leading zeros, then the text.
\<close>

definition seg_key :: "nat \<Rightarrow> char \<Rightarrow> string \<Rightarrow> nat \<times> nat \<times> string" where
  "seg_key n c seg =
     (if is_digit c
      then (2 * n + 3, length (seg_val True seg), seg_val True seg)
      else if n = 0 then (0, 0, seg) else (2 * n + 2, 0, seg))"

function ver_key :: "string \<Rightarrow> vkey" where
  "ver_key s =
     (let s' = dropWhile is_sep s
      in if s' = [] then [(1, 0, [])]
         else seg_key (length (takeWhile is_sep s)) (hd s') (takeWhile (same_kind (hd s')) s')
                # ver_key (dropWhile (same_kind (hd s')) s'))"
  by pat_completeness auto
termination
  by (relation "measure length") (auto simp: scan_decreases)

declare ver_key.simps [simp del]

definition no_trailing_sep :: "string \<Rightarrow> bool" where
  "no_trailing_sep s \<longleftrightarrow> s = [] \<or> \<not> is_sep (last s)"

lemma last_dropWhile_no_sep: "no_trailing_sep s \<Longrightarrow> no_trailing_sep (dropWhile P s)"
  using last_appendR [of "dropWhile P s" "takeWhile P s"]
  by (cases "dropWhile P s = []") (auto simp: no_trailing_sep_def)

lemma dropWhile_sep_nonempty: "no_trailing_sep s \<Longrightarrow> s \<noteq> [] \<Longrightarrow> dropWhile is_sep s \<noteq> []"
  unfolding no_trailing_sep_def by (metis dropWhile_eq_Nil_conv last_in_set)

lemma same_kind_iff: "\<not> is_sep c \<Longrightarrow> \<not> is_sep d \<Longrightarrow> same_kind c d \<longleftrightarrow> (is_digit c \<longleftrightarrow> is_digit d)"
  by (auto simp: same_kind_def is_sep_def dest: digit_not_alpha)

lemma ver_key_Nil [simp]: "ver_key [] = [(1, 0, [])]"
  by (simp add: ver_key.simps)

lemma ver_key_step:
  assumes "dropWhile is_sep s = c # cs"
  shows "ver_key s = seg_key (length (takeWhile is_sep s)) c (takeWhile (same_kind c) (c # cs))
    # ver_key (dropWhile (same_kind c) (c # cs))"
  by (subst ver_key.simps) (simp add: assms)

text \<open>The first key of a string against the key of the end of a string.\<close>

lemma key_vs_end:
  assumes "no_trailing_sep b" and "b \<noteq> []"
  shows "cmp3 [(1, 0, [])] (ver_key b) = (if is_alpha (hd b) then 1 else -1)"
proof -
  from dropWhile_sep_nonempty [OF assms] obtain c cs where c: "dropWhile is_sep b = c # cs"
    by (cases "dropWhile is_sep b") auto
  have "is_alpha (hd b) \<longleftrightarrow> takeWhile is_sep b = [] \<and> \<not> is_digit c"
    using c assms(2) by (cases b) (auto simp: is_sep_def dest: digit_not_alpha split: if_splits)
  then show ?thesis
    by (simp add: ver_key_step [OF c] cmp3_def seg_key_def)
qed

lemma rpm_tail_key:
  assumes "a = [] \<or> b = []" and "no_trailing_sep a" and "no_trailing_sep b"
  shows "rpm_tail a b = cmp3 (ver_key a) (ver_key b)"
proof (cases "a = []")
  case True
  with assms key_vs_end [of b] show ?thesis by (auto simp: rpm_tail_def)
next
  case False
  with assms have "b = []" by simp
  moreover have "cmp3 (ver_key a) [(1, 0, [])] = (if is_alpha (hd a) then -1 else 1)"
    using key_vs_end [OF assms(2) False] cmp3_swap [of "ver_key a" "[(1, 0, [])]"] by simp
  ultimately show ?thesis using False by (simp add: rpm_tail_def)
qed

lemma hd_not_sep: "dropWhile is_sep s = c # cs \<Longrightarrow> \<not> is_sep c"
  using hd_dropWhile [of is_sep s] by auto

lemma takeWhile_same_empty:
  "\<not> is_sep c \<Longrightarrow> \<not> is_sep d \<Longrightarrow> takeWhile (same_kind c) (d # ds) = [] \<longleftrightarrow> is_digit c \<noteq> is_digit d"
  by (simp add: same_kind_iff)

lemma same_kind_cong: "\<not> is_sep c \<Longrightarrow> \<not> is_sep d \<Longrightarrow> is_digit c = is_digit d \<Longrightarrow> same_kind d = same_kind c"
  by (simp add: same_kind_def)

lemma seg_key_count: "n < m \<Longrightarrow> seg_key n c x < seg_key m d y"
  by (auto simp: seg_key_def)

lemma seg_key_kind: "\<not> is_digit c \<Longrightarrow> is_digit d \<Longrightarrow> seg_key n c x < seg_key n d y"
  by (auto simp: seg_key_def)

lemma cmp3_seg_key:
  "is_digit c = is_digit d \<Longrightarrow> cmp3 (seg_key n c x) (seg_key n d y) =
     (let v = seg_val (is_digit c) x; w = seg_val (is_digit c) y in
      if is_digit c \<and> length v \<noteq> length w then (if length v > length w then 1 else -1)
      else if v \<noteq> w then (if v > w then 1 else -1) else 0)"
  by (auto simp: seg_key_def cmp3_def Let_def seg_val_def)

lemma cmp3_Cons_less: "x < y \<Longrightarrow> cmp3 (x # xs) (y # ys) = -1"
  and cmp3_Cons_gr: "y < x \<Longrightarrow> cmp3 (x # xs) (y # ys) = 1"
  by (auto simp: cmp3_def)

lemma cmp3_Cons_step: "cmp3 (x # xs) (y # ys) = (if cmp3 x y \<noteq> 0 then cmp3 x y else cmp3 xs ys)"
  by (auto simp: cmp3_def)

text \<open>One step of the scan on two strings whose first segments follow equally many separators.\<close>

lemma rpm_scan_count:
  assumes "dropWhile is_sep a = c # cs" "dropWhile is_sep b = d # ds"
    and "length (takeWhile is_sep a) \<noteq> length (takeWhile is_sep b)"
  shows "rpm_scan a b = (if length (takeWhile is_sep a) < length (takeWhile is_sep b) then -1 else 1)"
proof -
  have "a \<noteq> []" "b \<noteq> []" using assms(1,2) by auto
  with assms show ?thesis by (subst rpm_scan.simps) (simp add: Let_def)
qed

lemma rpm_scan_seg:
  assumes "dropWhile is_sep a = c # cs" "dropWhile is_sep b = d # ds"
    and "length (takeWhile is_sep a) = length (takeWhile is_sep b)"
  shows "rpm_scan a b =
     (let sa = takeWhile (same_kind c) (c # cs); sb = takeWhile (same_kind c) (d # ds);
          v = seg_val (is_digit c) sa; w = seg_val (is_digit c) sb in
      if sb = [] then (if is_digit c then 1 else -1)
      else if is_digit c \<and> length v \<noteq> length w then (if length v > length w then 1 else -1)
      else if v \<noteq> w then (if v > w then 1 else -1)
      else rpm_scan (dropWhile (same_kind c) (c # cs)) (dropWhile (same_kind c) (d # ds)))"
proof -
  have "a \<noteq> []" "b \<noteq> []" using assms(1,2) by auto
  with assms show ?thesis
    by (subst rpm_scan.simps) (simp only: Let_def list.sel list.simps if_False simp_thms)
qed

lemma scan_shape:
  fixes K :: int
  assumes "sb \<noteq> []" and "r = r'" and "K = (if P then if Q then 1 else -1 else if R then if S then 1 else -1 else 0)"
  shows "(if sb = [] then k else if P then if Q then 1 else -1 else if R then if S then 1 else -1 else r) =
    (if K \<noteq> 0 then K else r')"
  using assms by simp

lemma rpm_scan_key:
  "no_trailing_sep a \<Longrightarrow> no_trailing_sep b \<Longrightarrow> rpm_scan a b = cmp3 (ver_key a) (ver_key b)"
proof (induction "length a" arbitrary: a b rule: less_induct)
  case less
  show ?case
  proof (cases "a = [] \<or> b = []")
    case True
    with less.prems rpm_tail_key [of a b] show ?thesis by (simp add: rpm_scan.simps)
  next
    case False
    with less.prems dropWhile_sep_nonempty obtain c cs d ds where
      c: "dropWhile is_sep a = c # cs" and d: "dropWhile is_sep b = d # ds"
      by (metis list.exhaust)
    note nc = hd_not_sep [OF c] and nd = hd_not_sep [OF d]
    note keys = ver_key_step [OF c] ver_key_step [OF d]
    let ?na = "length (takeWhile is_sep a)" and ?nb = "length (takeWhile is_sep b)"
    let ?ra = "dropWhile (same_kind c) (c # cs)" and ?rb = "dropWhile (same_kind c) (d # ds)"
    consider (count) "?na \<noteq> ?nb" | (kind) "?na = ?nb" "is_digit c \<noteq> is_digit d"
      | (seg) "?na = ?nb" "is_digit c = is_digit d"
      by blast
    then show ?thesis
    proof cases
      case count
      then show ?thesis
        unfolding rpm_scan_count [OF c d count] keys
        by (cases "?na < ?nb") (simp_all add: cmp3_Cons_less cmp3_Cons_gr seg_key_count)
    next
      case kind
      have "takeWhile (same_kind c) (d # ds) = []"
        using kind takeWhile_same_empty [OF nc nd] by blast
      then show ?thesis
        using kind unfolding rpm_scan_seg [OF c d kind(1)] keys
        by (cases "is_digit c") (simp_all add: Let_def cmp3_Cons_less cmp3_Cons_gr seg_key_kind)
    next
      case seg
      have sb: "takeWhile (same_kind c) (d # ds) \<noteq> []" and same: "same_kind d = same_kind c"
        using seg takeWhile_same_empty [OF nc nd] same_kind_cong [OF nc nd] by blast+
      have "length ?ra < length a"
        using scan_decreases [of a] c by simp
      moreover have "no_trailing_sep ?ra" "no_trailing_sep ?rb"
        using last_dropWhile_no_sep [OF last_dropWhile_no_sep [OF less.prems(1)], of "same_kind c" is_sep]
          last_dropWhile_no_sep [OF last_dropWhile_no_sep [OF less.prems(2)], of "same_kind c" is_sep]
          c d by simp_all
      ultimately have "rpm_scan ?ra ?rb = cmp3 (ver_key ?ra) (ver_key ?rb)"
        by (rule less.hyps)
      from scan_shape [OF sb this refl] show ?thesis
        unfolding rpm_scan_seg [OF c d seg(1)] keys same seg(1) cmp3_Cons_step
          cmp3_seg_key [OF seg(2)] Let_def .
    qed
  qed
qed

lemma rpmvercmp_key:
  "no_trailing_sep a \<Longrightarrow> no_trailing_sep b \<Longrightarrow> rpmvercmp a b = cmp3 (ver_key a) (ver_key b)"
  by (simp add: rpmvercmp_def rpm_scan_key)

section \<open>Antisymmetry, on all strings\<close>

lemma rpm_tail_antisym: "a = [] \<or> b = [] \<Longrightarrow> rpm_tail b a = - rpm_tail a b"
  by (auto simp: rpm_tail_def)

lemma rpm_scan_end: "a = [] \<or> b = [] \<Longrightarrow> rpm_scan a b = rpm_tail a b"
  by (simp add: rpm_scan.simps)

lemma rpm_scan_break:
  "a \<noteq> [] \<Longrightarrow> b \<noteq> [] \<Longrightarrow> dropWhile is_sep a = [] \<or> dropWhile is_sep b = [] \<Longrightarrow>
   rpm_scan a b = rpm_tail (dropWhile is_sep a) (dropWhile is_sep b)"
  by (subst rpm_scan.simps) (simp only: Let_def simp_thms if_False if_True)

lemma neg_sign: "(if P then - (1::int) else 1) = - (if P then 1 else - 1)"
  by simp

lemma rpm_scan_antisym: "rpm_scan b a = - rpm_scan a b"
proof (induction "length a" arbitrary: a b rule: less_induct)
  case less
  consider (ends) "a = [] \<or> b = []"
    | (breaks) "a \<noteq> []" "b \<noteq> []" "dropWhile is_sep a = [] \<or> dropWhile is_sep b = []"
    | (go) c cs d ds where "dropWhile is_sep a = c # cs" "dropWhile is_sep b = d # ds"
    by (cases "dropWhile is_sep a"; cases "dropWhile is_sep b") auto
  then show ?case
  proof cases
    case ends
    then show ?thesis
      using rpm_tail_antisym [of a b] by (simp add: rpm_scan_end disj_commute)
  next
    case breaks
    then show ?thesis
      using rpm_tail_antisym [of "dropWhile is_sep a" "dropWhile is_sep b"]
        rpm_scan_break [of a b] rpm_scan_break [of b a] by metis
  next
    case go
    note nc = hd_not_sep [OF go(1)] and nd = hd_not_sep [OF go(2)]
    let ?na = "length (takeWhile is_sep a)" and ?nb = "length (takeWhile is_sep b)"
    consider (count) "?na \<noteq> ?nb" | (kind) "?na = ?nb" "is_digit c \<noteq> is_digit d"
      | (seg) "?na = ?nb" "is_digit c = is_digit d"
      by blast
    then show ?thesis
    proof cases
      case count
      then show ?thesis
        using rpm_scan_count [OF go count] rpm_scan_count [OF go(2,1)] by simp
    next
      case kind
      have "takeWhile (same_kind c) (d # ds) = []" "takeWhile (same_kind d) (c # cs) = []"
        using kind takeWhile_same_empty nc nd by blast+
      then show ?thesis
        using kind rpm_scan_seg [OF go kind(1)] rpm_scan_seg [OF go(2,1) kind(1) [symmetric]]
        by (simp add: Let_def)
    next
      case seg
      have nonempty: "takeWhile (same_kind c) (d # ds) \<noteq> []" "takeWhile (same_kind c) (c # cs) \<noteq> []"
        using seg takeWhile_same_empty nc nd by blast+
      have same: "same_kind d = same_kind c"
        using seg same_kind_cong [OF nc nd] by blast
      have "rpm_scan (dropWhile (same_kind c) (d # ds)) (dropWhile (same_kind c) (c # cs)) =
          - rpm_scan (dropWhile (same_kind c) (c # cs)) (dropWhile (same_kind c) (d # ds))"
        by (rule less.hyps) (use scan_decreases [of a] go in simp)
      then show ?thesis
        using nonempty
        unfolding rpm_scan_seg [OF go seg(1)] rpm_scan_seg [OF go(2,1) seg(1) [symmetric]] same seg(2)
          Let_def
        by (auto simp del: takeWhile.simps dropWhile.simps)
    qed
  qed
qed

lemma rpmvercmp_antisym: "rpmvercmp b a = - rpmvercmp a b"
  using rpm_scan_antisym [of b a] by (auto simp: rpmvercmp_def)

lemma rpm_tail_range: "rpm_tail a b \<in> {-1, 0, 1}"
  by (simp add: rpm_tail_def)

lemma rpm_scan_range: "rpm_scan a b \<in> {-1, 0, 1}"
proof (induction a b rule: rpm_scan.induct)
  case (1 a b)
  then show ?case
    using rpm_tail_range by (subst rpm_scan.simps) (auto simp: Let_def)
qed

lemma rpmvercmp_range: "rpmvercmp a b \<in> {-1, 0, 1}"
  using rpm_scan_range [of a b] by (auto simp: rpmvercmp_def)

lemma vercmp_local_flip: "vercmp_local b a = - vercmp_local a b"
proof -
  obtain ea va ra where pa: "parse_evr a = (ea, va, ra)" by (cases "parse_evr a") auto
  obtain eb vb rb where pb: "parse_evr b = (eb, vb, rb)" by (cases "parse_evr b") auto
  note neg = rpmvercmp_antisym [of eb ea] rpmvercmp_antisym [of vb va]
  show ?thesis
    by (cases ra; cases rb) (auto simp: vercmp_local_def Let_def pa pb neg intro: rpmvercmp_antisym)
qed

lemma vercmp_local_cases:
  "(\<And>x y. P (rpmvercmp x y)) \<Longrightarrow> P 0 \<Longrightarrow> P (vercmp_local a b)"
  by (simp add: vercmp_local_def Let_def split: prod.split option.split)

lemma vercmp_local_range: "vercmp_local a b \<in> {-1, 0, 1}"
  by (rule vercmp_local_cases [where P = "\<lambda>r. r \<in> {-1, 0, 1}"]) (rule rpmvercmp_range, simp)

text \<open>\<open>vercmp_local\<close> returns -1, 0 or 1, returns 0 on equal strings, and swapping its
  arguments negates the answer, for all strings.\<close>

theorem vercmp_local_antisym:
  "vercmp_local a b \<in> {-1, 0, 1} \<and> vercmp_local a a = 0 \<and> vercmp_local b a = - vercmp_local a b"
  by (intro conjI vercmp_local_range vercmp_local_flip) (simp add: vercmp_local_def)

section \<open>The comparison as a total preorder\<close>

text \<open>
  A full version carries a pkgrel, and none of its parts ends in a separator: the versions
  that pacman and makepkg record.
\<close>

definition full_version :: "string \<Rightarrow> bool" where
  "full_version v \<longleftrightarrow>
     (case parse_evr v of
        (e, p, Some r) \<Rightarrow> no_trailing_sep e \<and> no_trailing_sep p \<and> no_trailing_sep r
      | (e, p, None) \<Rightarrow> False)"

definition evr_key :: "string \<Rightarrow> vkey \<times> vkey \<times> vkey" where
  "evr_key v = (case parse_evr v of (e, p, r) \<Rightarrow>
     (ver_key e, ver_key p, ver_key (case r of None \<Rightarrow> [] | Some x \<Rightarrow> x)))"

lemma cmp3_pair:
  "cmp3 (x, y) (x', y') = (if cmp3 x x' \<noteq> 0 then cmp3 x x' else cmp3 y y')"
  by (auto simp: cmp3_def)

lemma vercmp_local_key:
  assumes "full_version a" and "full_version b"
  shows "vercmp_local a b = cmp3 (evr_key a) (evr_key b)"
proof -
  obtain ea va ra where a: "parse_evr a = (ea, va, Some ra)"
    "no_trailing_sep ea" "no_trailing_sep va" "no_trailing_sep ra"
    using assms(1) by (auto simp: full_version_def split: prod.splits option.splits)
  obtain eb vb rb where b: "parse_evr b = (eb, vb, Some rb)"
    "no_trailing_sep eb" "no_trailing_sep vb" "no_trailing_sep rb"
    using assms(2) by (auto simp: full_version_def split: prod.splits option.splits)
  show ?thesis
    using a b by (auto simp: vercmp_local_def evr_key_def rpmvercmp_key cmp3_pair Let_def
        simp del: cmp3_simps(2))
qed

text \<open>C23: on full versions \<open>vercmp_local\<close> is the lexicographic comparison of the keys of epoch,
  pkgver and pkgrel: an equivalence of the scan with the ordered specification.\<close>

theorem vercmp_local_is_key_order:
  assumes "full_version a" and "full_version b"
  shows "vercmp_local a b = cmp3 (evr_key a) (evr_key b)"
  using assms by (rule vercmp_local_key)

theorem vercmp_local_is_key_order_witness:
  "vercmp_local ''1:1.2-1'' ''2.0-1'' = cmp3 (evr_key ''1:1.2-1'') (evr_key ''2.0-1'')"
  by (rule vercmp_local_is_key_order) code_simp+

text \<open>
  The contract a client of a version comparison relies on, over the versions \<open>good\<close>.
\<close>

locale version_order =
  fixes good :: "string \<Rightarrow> bool" and cmp :: "string \<Rightarrow> string \<Rightarrow> int"
  assumes cmp_refl: "good a \<Longrightarrow> cmp a a = 0"
    and cmp_flip: "good a \<Longrightarrow> good b \<Longrightarrow> cmp b a = - cmp a b"
    and cmp_le_trans: "good a \<Longrightarrow> good b \<Longrightarrow> good c \<Longrightarrow> cmp a b \<le> 0 \<Longrightarrow> cmp b c \<le> 0 \<Longrightarrow> cmp a c \<le> 0"
begin

lemma cmp_total: "good a \<Longrightarrow> good b \<Longrightarrow> cmp a b \<le> 0 \<or> cmp b a \<le> 0"
  using cmp_flip [of a b] by linarith

text \<open>A loop that keeps the smaller of two versions ends with a least one.\<close>

lemma fold_least:
  assumes "good v" and "\<forall>w \<in> set ws. good w"
    and step: "\<And>w o'. good w \<Longrightarrow> good o' \<Longrightarrow> f w o' = (if cmp w o' < 0 then w else o')"
  shows "fold f ws v \<in> insert v (set ws) \<and> (\<forall>w \<in> insert v (set ws). cmp (fold f ws v) w \<le> 0)"
  using assms(1,2)
proof (induction ws arbitrary: v)
  case Nil
  then show ?case by (simp add: cmp_refl)
next
  case (Cons w ws)
  let ?u = "if cmp w v < 0 then w else v"
  have u: "good ?u" using Cons.prems by simp
  have fold: "fold f (w # ws) v = fold f ws ?u"
    using Cons.prems step by simp
  have IH: "fold f ws ?u \<in> insert ?u (set ws)" "\<forall>x \<in> insert ?u (set ws). cmp (fold f ws ?u) x \<le> 0"
    using Cons.IH [OF u] Cons.prems by auto
  have g: "good (fold f ws ?u)" using IH(1) u Cons.prems by auto
  have le: "cmp ?u w \<le> 0" "cmp ?u v \<le> 0"
    using Cons.prems cmp_refl [of v] cmp_refl [of w] cmp_flip [of w v] by auto
  then have "cmp (fold f ws ?u) w \<le> 0" "cmp (fold f ws ?u) v \<le> 0"
    using cmp_le_trans [OF g u] IH(2) Cons.prems by auto
  moreover have "fold f ws ?u \<in> insert v (set (w # ws))"
    using IH(1) by (auto split: if_splits)
  ultimately show ?case
    unfolding fold using IH(2) by auto
qed

end

interpretation local_order: version_order full_version vercmp_local
proof unfold_locales
  show "vercmp_local a a = 0" for a by (simp add: vercmp_local_def)
  show "vercmp_local b a = - vercmp_local a b" for a b by (rule vercmp_local_flip)
  show "vercmp_local a c \<le> 0"
    if "full_version a" "full_version b" "full_version c" "vercmp_local a b \<le> 0" "vercmp_local b c \<le> 0"
    for a b c
    using that order_trans [of "evr_key a" "evr_key b" "evr_key c"] by (simp add: vercmp_local_key)
qed

text \<open>On full versions \<open>vercmp_local\<close> orders totally and transitively.\<close>

theorem vercmp_local_preorder:
  assumes "full_version a" and "full_version b" and "full_version c"
  shows "(vercmp_local a b \<le> 0 \<or> vercmp_local b a \<le> 0) \<and>
    (vercmp_local a b \<le> 0 \<longrightarrow> vercmp_local b c \<le> 0 \<longrightarrow> vercmp_local a c \<le> 0)"
  using local_order.cmp_total [OF assms(1,2)] local_order.cmp_le_trans [OF assms] by blast

theorem vercmp_local_preorder_witness: "vercmp_local ''1.2-1'' ''1:0.1-2'' \<le> 0"
proof -
  have "full_version ''1.2-1''" "full_version ''1.10-1''" "full_version ''1:0.1-2''"
    by code_simp+
  note vercmp_local_preorder [OF this]
  moreover have "vercmp_local ''1.2-1'' ''1.10-1'' \<le> 0" "vercmp_local ''1.10-1'' ''1:0.1-2'' \<le> 0"
    by code_simp+
  ultimately show ?thesis by blast
qed

text \<open>
  Without a pkgrel the comparison ignores the other side's pkgrel, so equality is not
  transitive there; and a trailing separator breaks transitivity of the scan.
\<close>

lemma vercmp_local_not_transitive:
  "vercmp_local ''1-1'' ''1'' = 0" "vercmp_local ''1'' ''1-2'' = 0" "vercmp_local ''1-1'' ''1-2'' = -1"
  "rpmvercmp ''0'' ''.a'' = -1" "rpmvercmp ''.a'' ''.'' = -1" "rpmvercmp ''0'' ''.'' = 1"
  by code_simp+

section \<open>Numbers\<close>

definition num_val :: "string \<Rightarrow> nat" where
  "num_val s = foldl (\<lambda>n c. 10 * n + digit_val c) 0 s"

lemma foldl_val: "foldl (\<lambda>n c. 10 * n + digit_val c) k s = k * 10 ^ length s + num_val s"
proof (induction s arbitrary: k)
  case Nil
  show ?case by (simp add: num_val_def)
next
  case (Cons c cs)
  have "num_val (c # cs) = digit_val c * 10 ^ length cs + num_val cs"
    using Cons [of "digit_val c"] by (simp add: num_val_def)
  with Cons [of "10 * k + digit_val c"] show ?case
    by (simp add: algebra_simps)
qed

lemma num_val_Cons: "num_val (c # cs) = digit_val c * 10 ^ length cs + num_val cs"
  using foldl_val [of "digit_val c" cs] by (simp add: num_val_def)

lemma digit_val_less: "is_digit c \<Longrightarrow> digit_val c < 10"
  by (auto simp: is_digit_def digit_val_def less_eq_char_def)

lemma digit_val_mono: "is_digit c \<Longrightarrow> is_digit d \<Longrightarrow> digit_val c < digit_val d \<longleftrightarrow> c < d"
  by (auto simp: is_digit_def digit_val_def less_eq_char_def less_char_def)

lemma num_val_bound: "list_all is_digit s \<Longrightarrow> num_val s < 10 ^ length s"
proof (induction s)
  case Nil
  show ?case by (simp add: num_val_def)
next
  case (Cons c cs)
  then have "digit_val c * 10 ^ length cs + num_val cs < Suc (digit_val c) * 10 ^ length cs"
    by simp
  also have "\<dots> \<le> 10 * 10 ^ length cs"
    using digit_val_less [of c] Cons.prems by (intro mult_right_mono) simp_all
  finally show ?case by (simp add: num_val_Cons)
qed

lemma num_val_lex:
  "length s = length t \<Longrightarrow> list_all is_digit s \<Longrightarrow> list_all is_digit t \<Longrightarrow> s < t \<Longrightarrow> num_val s < num_val t"
proof (induction s t rule: list_induct2)
  case Nil
  then show ?case by simp
next
  case (Cons c cs d ds)
  show ?case
  proof (cases "c = d")
    case True
    with Cons show ?thesis by (simp add: num_val_Cons)
  next
    case False
    with Cons.prems have "digit_val c < digit_val d"
      by (simp add: digit_val_mono)
    then have "Suc (digit_val c) * 10 ^ length cs \<le> digit_val d * 10 ^ length cs"
      by (intro mult_right_mono) simp_all
    moreover have "num_val cs < 10 ^ length cs"
      using Cons.prems num_val_bound by simp
    ultimately show ?thesis
      using Cons.hyps by (simp add: num_val_Cons)
  qed
qed

lemma num_val_strip: "num_val (dropWhile (\<lambda>c. c = CHR ''0'') s) = num_val s"
  by (induction s) (auto simp: num_val_Cons digit_val_def)

lemma num_val_length:
  assumes "list_all is_digit s" "list_all is_digit t" "length s < length t" "hd t \<noteq> CHR ''0''"
  shows "num_val s < num_val t"
proof -
  obtain d ds where t: "t = d # ds" using assms(3) by (cases t) auto
  have "digit_val d \<noteq> 0"
    using assms(2,4) t of_char_eq_iff [of d "CHR ''0''", where 'a = nat]
    by (auto simp: is_digit_def digit_val_def less_eq_char_def)
  then have "10 ^ length ds \<le> num_val t"
    using t by (simp add: num_val_Cons trans_le_add1)
  moreover have "num_val s < 10 ^ length s" using assms(1) by (rule num_val_bound)
  moreover have "(10::nat) ^ length s \<le> 10 ^ length ds"
    using assms(3) t by (intro power_increasing) auto
  ultimately show ?thesis by linarith
qed

lemma strip_digits: "list_all is_digit s \<Longrightarrow> list_all is_digit (dropWhile P s)"
  by (induction s) auto

lemma hd_strip: "dropWhile (\<lambda>c. c = CHR ''0'') s \<noteq> [] \<Longrightarrow> hd (dropWhile (\<lambda>c. c = CHR ''0'') s) \<noteq> CHR ''0''"
  using hd_dropWhile by blast

lemma num_val_seg [simp]: "num_val (seg_val True s) = num_val s"
  by (simp add: seg_val_def num_val_strip)

lemma digits_cmp:
  assumes "list_all is_digit v" "list_all is_digit w"
    and "v \<noteq> [] \<Longrightarrow> hd v \<noteq> CHR ''0''" "w \<noteq> [] \<Longrightarrow> hd w \<noteq> CHR ''0''"
  shows "(if length v \<noteq> length w then if length v > length w then 1 else -1
     else if v \<noteq> w then if v > w then 1 else -1 else (0::int)) = cmp3 (num_val v) (num_val w)"
proof -
  consider "length v < length w" | "length w < length v" | "length v = length w"
    by linarith
  then show ?thesis
  proof cases
    case 1
    then have "w \<noteq> []" by auto
    with 1 have "num_val v < num_val w" by (intro num_val_length assms)
    with 1 show ?thesis by (simp add: cmp3_def)
  next
    case 2
    then have "v \<noteq> []" by auto
    with 2 have "num_val w < num_val v" by (intro num_val_length assms)
    with 2 show ?thesis by (simp add: cmp3_def)
  next
    case 3
    with assms(1,2) num_val_lex [of v w] num_val_lex [of w v] show ?thesis
      by (cases v w rule: linorder_cases) (auto simp: cmp3_def dest: order.asym)
  qed
qed

lemma digits_no_sep: "list_all is_digit s \<Longrightarrow> s \<noteq> [] \<Longrightarrow>
    dropWhile is_sep s = s \<and> takeWhile is_sep s = [] \<and> dropWhile is_digit s = [] \<and> takeWhile is_digit s = s"
  by (cases s) (auto simp: is_sep_def list_all_iff dropWhile_eq_Nil_conv)

text \<open>On two non-empty strings of digits \<open>_rpmvercmp\<close> compares the numbers they write,
  leading zeros included.\<close>

theorem rpmvercmp_numeric:
  assumes "list_all is_digit s" "list_all is_digit t" "s \<noteq> []" "t \<noteq> []"
  shows "rpmvercmp s t = cmp3 (num_val s) (num_val t)"
proof -
  obtain c cs d ds where c: "s = c # cs" and d: "t = d # ds"
    using assms(3,4) by (cases s; cases t) auto
  have s: "dropWhile is_sep s = c # cs" "takeWhile is_sep s = []" "takeWhile is_digit (c # cs) = s"
    "dropWhile is_digit (c # cs) = []"
    using digits_no_sep [OF assms(1,3)] c by simp_all
  have t: "dropWhile is_sep t = d # ds" "takeWhile is_sep t = []" "takeWhile is_digit (d # ds) = t"
    "dropWhile is_digit (d # ds) = []"
    using digits_no_sep [OF assms(2,4)] d by simp_all
  have kind: "is_digit c" "same_kind c = is_digit" using assms(1) c by (simp_all add: same_kind_def)
  let ?v = "seg_val True s" and ?w = "seg_val True t"
  have "rpm_scan s t = (if length ?v \<noteq> length ?w then if length ?v > length ?w then 1 else -1
      else if ?v \<noteq> ?w then if ?v > ?w then 1 else -1 else rpm_scan [] [])"
    using rpm_scan_seg [OF s(1) t(1)] assms(4)
    unfolding s(2) t(2) kind(2) s(3,4) t(3,4) Let_def by (simp only: kind simp_thms if_False)
  moreover have "rpm_scan [] [] = 0"
    by (simp add: rpm_scan_end rpm_tail_def)
  moreover have "(if length ?v \<noteq> length ?w then if length ?v > length ?w then 1 else -1
      else if ?v \<noteq> ?w then if ?v > ?w then 1 else -1 else (0::int)) = cmp3 (num_val ?v) (num_val ?w)"
    by (rule digits_cmp) (use assms hd_strip in \<open>simp_all add: seg_val_def strip_digits\<close>)
  ultimately have "rpm_scan s t = cmp3 (num_val s) (num_val t)"
    by (simp only: num_val_seg)
  then show ?thesis by (auto simp: rpmvercmp_def)
qed

theorem rpmvercmp_numeric_witness: "rpmvercmp ''007'' ''10'' = cmp3 (num_val ''007'') (num_val ''10'')"
  by (rule rpmvercmp_numeric) code_simp+

section \<open>Assembling and parsing a version\<close>

text \<open>\<open>_parse_evr\<close> reads back what \<open>format_version\<close> assembles: a pkgver and a pkgrel free
  of the separators, and a numeric epoch that is not 0.\<close>

theorem parse_format_version:
  assumes "dget g ''pkgver'' = Some v" and "dget g ''pkgrel'' = Some r" and "CHR ''-'' \<notin> set r"
    and "dget g ''epoch'' = Some e" and "e \<noteq> []" and "list_all is_digit e" and "e \<noteq> ''0''"
  shows "parse_evr (format_version g) = (e, v, Some r)"
proof -
  have colon: "CHR '':'' \<notin> set e"
    using assms(6) by (auto simp: list_all_iff is_digit_def less_eq_char_def)
  have "format_version g = e @ CHR '':'' # (v @ CHR ''-'' # r)"
    using assms by (simp add: format_version_def dget_or_def)
  then show ?thesis
    using assms partition1_append [OF colon] rpartition1_append [OF assms(3), of v]
    by (simp add: parse_evr_def)
qed

theorem parse_format_version_witness:
  "parse_evr (format_version [(''pkgver'', ''1.2''), (''pkgrel'', ''3''), (''epoch'', ''1'')]) =
   (''1'', ''1.2'', Some ''3'')"
  by (rule parse_format_version) code_simp+

end
