(* ===== verification/Fnmatch.thy ===== *)
theory Fnmatch
  imports PyPrelude
begin

text \<open>
  Python's \<open>fnmatch.fnmatch\<close> on POSIX (the standard library's glob matching, used by
  \<open>profile.match_rules\<close>): \<open>*\<close>, \<open>?\<close>, \<open>[seq]\<close> and \<open>[!seq]\<close> with ranges; a
  bracket that is never closed stands for itself.  A pattern is parsed into items once and
  the items are matched against the whole string.
\<close>

datatype gitem = GStar | GOne | GLit char | GSet bool "(char \<times> char) list"

text \<open>The inside of a bracket, as a list of ranges; a single character is a range of one.\<close>

fun bracket_ranges :: "string \<Rightarrow> (char \<times> char) list" where
  "bracket_ranges [] = []"
| "bracket_ranges [c] = [(c, c)]"
| "bracket_ranges [c, d] = [(c, c), (d, d)]"
| "bracket_ranges (c # d # e # cs) =
     (if d = CHR ''-'' then (c, e) # bracket_ranges cs else (c, c) # bracket_ranges (d # e # cs))"

text \<open>
  What follows an opening bracket: the body, up to the closing bracket that is not the
  first character of the set, and the pattern after it.
\<close>

definition bracket_body :: "string \<Rightarrow> (bool \<times> string \<times> string) option" where
  "bracket_body p =
     (let neg = (p \<noteq> [] \<and> hd p = CHR ''!'');
          q = (if neg then tl p else p);
          lead = (if q \<noteq> [] \<and> hd q = CHR '']'' then [CHR '']''] else []);
          r = drop (length lead) q
      in map_option (\<lambda>(b, rest). (neg, lead @ b, rest)) (partition1 CHR '']'' r))"

lemma partition1_shorter: "partition1 d s = Some (h, t) \<Longrightarrow> length t < length s"
  by (drule partition1_Some) simp

lemma bracket_body_shorter: "bracket_body p = Some (n, b, rest) \<Longrightarrow> length rest < length p"
  by (auto simp: bracket_body_def Let_def dest!: partition1_shorter split: if_splits)

function parse_glob :: "string \<Rightarrow> gitem list" where
  "parse_glob [] = []"
| "parse_glob (c # p) =
     (if c = CHR ''*'' then GStar # parse_glob p
      else if c = CHR ''?'' then GOne # parse_glob p
      else if c = CHR ''['' then
        (case bracket_body p of
           None \<Rightarrow> GLit c # parse_glob p
         | Some (n, b, rest) \<Rightarrow> GSet n (bracket_ranges b) # parse_glob rest)
      else GLit c # parse_glob p)"
  by pat_completeness auto
termination
  by (relation "measure length") (auto dest: bracket_body_shorter)

definition in_ranges :: "char \<Rightarrow> (char \<times> char) list \<Rightarrow> bool" where
  "in_ranges c rs = list_ex (\<lambda>(lo, hi). lo \<le> c \<and> c \<le> hi) rs"

fun glob_items :: "gitem list \<Rightarrow> string \<Rightarrow> bool" where
  "glob_items [] s = (s = [])"
| "glob_items (GStar # is) [] = glob_items is []"
| "glob_items (GStar # is) (c # s) = (glob_items is (c # s) \<or> glob_items (GStar # is) s)"
| "glob_items (i # is) [] = False"
| "glob_items (GOne # is) (c # s) = glob_items is s"
| "glob_items (GLit d # is) (c # s) = (d = c \<and> glob_items is s)"
| "glob_items (GSet neg rs # is) (c # s) = (in_ranges c rs \<noteq> neg \<and> glob_items is s)"

definition fnmatch :: "string \<Rightarrow> string \<Rightarrow> bool" where
  "fnmatch val pat = glob_items (parse_glob pat) val"

lemma glob_star: "glob_items (GStar # is) s \<longleftrightarrow> (\<exists>t u. s = t @ u \<and> glob_items is u)"
proof (induction s)
  case Nil
  show ?case by auto
next
  case (Cons c s)
  show ?case
  proof
    assume "glob_items (GStar # is) (c # s)"
    then show "\<exists>t u. c # s = t @ u \<and> glob_items is u"
      using Cons by (auto intro: exI [of _ "[]"]) (metis append_Cons)
  next
    assume "\<exists>t u. c # s = t @ u \<and> glob_items is u"
    then obtain t u where "c # s = t @ u" "glob_items is u" by blast
    with Cons show "glob_items (GStar # is) (c # s)" by (cases t) auto
  qed
qed

definition plain_pattern :: "string \<Rightarrow> bool" where
  "plain_pattern p \<longleftrightarrow> list_all (\<lambda>c. c \<notin> {CHR ''*'', CHR ''?'', CHR ''[''}) p"

lemma parse_plain: "plain_pattern p \<Longrightarrow> parse_glob p = map GLit p"
  by (induction p) (auto simp: plain_pattern_def)

lemma glob_lits: "glob_items (map GLit p) s \<longleftrightarrow> s = p"
proof (induction p arbitrary: s)
  case Nil
  show ?case by simp
next
  case (Cons c p)
  then show ?case by (cases s) auto
qed

lemma fnmatch_plain: "plain_pattern p \<Longrightarrow> fnmatch s p \<longleftrightarrow> s = p"
  by (simp add: fnmatch_def parse_plain glob_lits)

lemma parse_plain_star: "plain_pattern p \<Longrightarrow> parse_glob (p @ ''*'') = map GLit p @ [GStar]"
  by (induction p) (auto simp: plain_pattern_def)

lemma glob_lits_star: "glob_items (map GLit p @ [GStar]) s \<longleftrightarrow> starts_with p s"
proof (induction p arbitrary: s)
  case Nil
  show ?case by (auto simp: glob_star)
next
  case (Cons c p)
  then show ?case by (cases s) auto
qed

lemma fnmatch_prefix: "plain_pattern p \<Longrightarrow> fnmatch s (p @ ''*'') \<longleftrightarrow> starts_with p s"
  by (simp add: fnmatch_def parse_plain_star glob_lits_star)

lemma fnmatch_examples:
  "fnmatch ''linux-zen'' ''linux*''" "fnmatch ''lib32-mesa'' ''lib[0-9][!a]-*''"
  "\<not> fnmatch ''mesa'' ''[]a-c]esa''" "fnmatch ''[x'' ''[x''"
  by code_simp+

end
