(* ===== verification/Profile.thy ===== *)
theory Profile
  imports PyPrelude MakepkgFlags Fnmatch
begin

text \<open>
  Model of \<open>sysforge/primitives/profile.py\<close>: the flag-profile layer.  A profile is a
  dict of TOML values; a configuration holds the named profiles, the defaults and the
  per-package compiler rows.  \<open>merge_extends\<close> resolves an inheritance chain,
  \<open>merge_append_value\<close> and \<open>merge_preserved_tokens\<close> are the two token merges
  (child-wins and profile-wins), \<open>expand_toolchain\<close> and \<open>swap_toolchain\<close> fill the compiler
  keys, \<open>match_rules\<close> and \<open>resolve_profile\<close> select the profile of a package, and
  \<open>serialize_flags\<close> writes the string that drift detection compares.

  Exceptions are values of \<open>profile_error\<close>.  Log lines are not modelled.
\<close>

section \<open>Data\<close>

type_synonym profile = "(string, pyval) dict"
type_synonym groups = "(string, string list) dict"

datatype profile_error =
    CycleDetected "string list"
  | ProfileNotFound string
  | BadParent
  | NotAString
  | NotATable
  | RemovedBuildMode
  | Unhashable
  | EmptyPkgname

record defaults =
  d_profile :: "string option"
  d_toolchain :: "string option"
  d_append_groups :: "string list"

record config =
  c_profiles :: "(string, profile) dict"
  c_defaults :: defaults
  c_overrides :: "(string, (string, string) dict) dict"

text \<open>\<open>v.split() if v else []\<close>.\<close>

definition val_tokens :: "pyval \<Rightarrow> profile_error + string list" where
  "val_tokens v =
     (if pyval_true v then (case v of PStr s \<Rightarrow> Inr (py_split s) | _ \<Rightarrow> Inl NotAString) else Inr [])"

definition SYSFORGE_KEYS :: "string list" where
  "SYSFORGE_KEYS = [''batch'', ''build_mode'', ''clean_builddir'', ''consumes'', ''cpu_quota'',
     ''failure_handling'', ''ionice'', ''jobs'', ''makepkg_flags'', ''nice'', ''pgo_store'',
     ''preserve_system_tokens'', ''sandbox_builds'', ''toolchain'']"

definition CONF_KEY_MAP :: "(string, string list) dict" where
  "CONF_KEY_MAP =
     [(''makepkg'', [''AR'', ''NM'', ''RANLIB'', ''STRIP'', ''CFLAGS'', ''CXXFLAGS'', ''CPPFLAGS'', ''LDFLAGS'',
        ''DEBUG_CFLAGS'', ''DEBUG_CXXFLAGS'', ''DEBUG_LDFLAGS'', ''MAKEFLAGS'',
        ''BUILDENV'', ''OPTIONS'', ''INTEGRITY_CHECK'', ''PKGEXT'', ''SRCEXT'', ''BUILDDIR'']),
      (''toolchain'', [''CC'', ''CXX'']),
      (''rust'', [''RUSTFLAGS'', ''CARGO_PROFILE_RELEASE_LTO'', ''CARGO_PROFILE_RELEASE_CODEGEN_UNITS'',
        ''CARGO_PROFILE_RELEASE_OPT_LEVEL'', ''CARGO_INCREMENTAL'']),
      (''cmake'', [''CMAKE_BUILD_TYPE'', ''CMAKE_C_FLAGS'', ''CMAKE_CXX_FLAGS'',
        ''CMAKE_EXE_LINKER_FLAGS'', ''CMAKE_SHARED_LINKER_FLAGS'']),
      (''meson'', [''MESON_ARGS'']),
      (''env'', [''RUSTC_WRAPPER'', ''CCACHE_DIR'', ''SCCACHE_DIR'', ''CARGO_HOME'',
        ''CARGO_NET_GIT_FETCH_WITH_CLI'', ''PKG_CONFIG_PATH'', ''CC_LD'', ''CXX_LD''])]"

definition KERNEL_CLEAN_KEYS :: "string list" where
  "KERNEL_CLEAN_KEYS = [''CFLAGS'', ''CXXFLAGS'', ''CPPFLAGS'', ''LDFLAGS'',
     ''DEBUG_CFLAGS'', ''DEBUG_CXXFLAGS'', ''DEBUG_LDFLAGS'']"

definition MESA_PKGBASES :: "string list" where
  "MESA_PKGBASES = [''mesa'', ''mesa-git'', ''lib32-mesa'', ''lib32-mesa-git'']"

definition is_mesa_pkgbase :: "string option \<Rightarrow> bool" where
  "is_mesa_pkgbase p \<longleftrightarrow> truthy p \<and> the p \<in> set MESA_PKGBASES"

definition is_mesa_family :: "string option \<Rightarrow> bool" where
  "is_mesa_family name =
     (let suffix = ''-'' @ RENAME_SUFFIX in
      is_mesa_pkgbase
        (case name of
           None \<Rightarrow> None
         | Some n \<Rightarrow> if n \<noteq> [] \<and> ends_with suffix n then Some (take (length n - length suffix) n) else Some n))"

definition variant_env_overlay :: "string \<Rightarrow> string option \<Rightarrow> (string, string) dict" where
  "variant_env_overlay pkgbase variant =
     (if pkgbase = [] \<or> variant \<notin> {Some ''stock_llvm'', Some ''pgo_llvm''} then []
      else if pkgbase \<in> set MESA_PKGBASES then [(''MESA_WHICH_LLVM'', ''4'')]
      else [])"

section \<open>Token merges\<close>

text \<open>\<open>_extract_prefix\<close>: up to the first \<open>=\<close>, or before a run of trailing digits.\<close>

definition extract_prefix :: "string \<Rightarrow> string option" where
  "extract_prefix t =
     (case partition1 CHR ''='' t of
        Some (h, _) \<Rightarrow> Some (h @ ''='')
      | None \<Rightarrow>
          (let head = rev (dropWhile is_digit (rev t))
           in if head \<noteq> [] \<and> head \<noteq> t then Some head else None))"

text \<open>The lookup table \<open>flag_to_group\<close>: a later group overwrites an earlier one.\<close>

definition flag_to_group :: "groups \<Rightarrow> (string, string list) dict" where
  "flag_to_group cg = fold (\<lambda>(name, ms) d. fold (\<lambda>m d. dset m ms d) ms d) cg []"

fun replace_first :: "(string \<Rightarrow> bool) \<Rightarrow> string \<Rightarrow> string list \<Rightarrow> string list option" where
  "replace_first P new [] = None"
| "replace_first P new (t # ts) =
     (if P t then Some (new # ts) else map_option (\<lambda>us. t # us) (replace_first P new ts))"

text \<open>One child token of \<open>_merge_append_value\<close>: conflict group, prefix match, append.\<close>

definition append_token :: "(string, string list) dict \<Rightarrow> string \<Rightarrow> string list \<Rightarrow> string list" where
  "append_token fg t result =
     (case dget fg t of
        Some ms \<Rightarrow> filter (\<lambda>u. u \<notin> set ms) result @ [t]
      | None \<Rightarrow>
          (case extract_prefix t of
             None \<Rightarrow> result @ [t]
           | Some p \<Rightarrow>
               (case replace_first (\<lambda>e. extract_prefix e = Some p) t result of
                  Some r \<Rightarrow> r
                | None \<Rightarrow> result @ [t])))"

definition merge_tokens :: "groups \<Rightarrow> string list \<Rightarrow> string list \<Rightarrow> string list" where
  "merge_tokens cg parent child = fold (append_token (flag_to_group cg)) child parent"

definition merge_append_value :: "pyval \<Rightarrow> pyval \<Rightarrow> groups \<Rightarrow> profile_error + string" where
  "merge_append_value parent child cg =
     rbind (val_tokens parent) (\<lambda>ps.
     rbind (val_tokens child) (\<lambda>cs.
     Inr (py_join '' '' (merge_tokens cg ps cs))))"

text \<open>\<open>merge_preserved_tokens\<close>: which system tokens qualify, and the restoring loop.\<close>

definition qualifies :: "groups \<Rightarrow> string list \<Rightarrow> string \<Rightarrow> bool" where
  "qualifies cg preserve token =
     (token \<in> set preserve
      \<or> list_ex (\<lambda>t. case dget (flag_to_group cg) t of Some ms \<Rightarrow> token \<in> set ms | None \<Rightarrow> False) preserve
      \<or> (case extract_prefix token of
           None \<Rightarrow> False
         | Some p \<Rightarrow> list_ex (\<lambda>t. extract_prefix t = Some p) preserve))"

text \<open>A token that loses to one already in the result: same group, or same prefix family.\<close>

definition superseded :: "groups \<Rightarrow> string list \<Rightarrow> string \<Rightarrow> bool" where
  "superseded cg result token =
     ((case dget (flag_to_group cg) token of
         None \<Rightarrow> False
       | Some ms \<Rightarrow> list_ex (\<lambda>t. t \<in> set ms) result)
      \<or> (case extract_prefix token of
           None \<Rightarrow> False
         | Some p \<Rightarrow> list_ex (\<lambda>t. extract_prefix t = Some p) result))"

fun restore_tokens ::
    "groups \<Rightarrow> string list \<Rightarrow> string list \<Rightarrow> string list \<Rightarrow> string list \<Rightarrow> string list \<times> string list" where
  "restore_tokens cg preserve [] result restored = (result, restored)"
| "restore_tokens cg preserve (t # ts) result restored =
     (if t \<in> set result \<or> \<not> qualifies cg preserve t then restore_tokens cg preserve ts result restored
      else if superseded cg result t then restore_tokens cg preserve ts result restored
      else restore_tokens cg preserve ts (result @ [t]) (restored @ [t]))"

definition merge_preserved_tokens ::
    "string \<Rightarrow> string \<Rightarrow> string list \<Rightarrow> groups \<Rightarrow> string \<times> string list" where
  "merge_preserved_tokens profile_val system_val preserve cg =
     (if preserve = [] \<or> profile_val = [] \<or> system_val = [] then (profile_val, [])
      else
        (let ps = py_split profile_val
         in if length ps = 1 \<and> starts_with ''$'' (hd ps) then (profile_val, [])
            else
              (let (result, restored) = restore_tokens cg preserve (py_split system_val) ps []
               in (py_join '' '' result, restored))))"

definition unquote_conf_value :: "string option \<Rightarrow> string" where
  "unquote_conf_value raw =
     (let r = py_strip (case raw of None \<Rightarrow> [] | Some s \<Rightarrow> s)
      in if length r \<ge> 2 \<and> hd r = CHR 0x22 \<and> last r = CHR 0x22 then butlast (tl r) else r)"

text \<open>\<open>_pure_shell_ref\<close>: the full match of \<open>\$\{?([A-Za-z_][A-Za-z0-9_]*)\}?\<close>.\<close>

definition ident_start :: "char \<Rightarrow> bool" where
  "ident_start c \<longleftrightarrow> is_alpha c \<or> c = CHR ''_''"

definition ident_char :: "char \<Rightarrow> bool" where
  "ident_char c \<longleftrightarrow> ident_start c \<or> is_digit c"

definition shell_ref_match :: "string \<Rightarrow> string option" where
  "shell_ref_match s =
     (case s of
        [] \<Rightarrow> None
      | c # r \<Rightarrow>
          if c \<noteq> CHR ''$'' then None
          else
            (let r1 = (if r \<noteq> [] \<and> hd r = CHR ''{'' then tl r else r);
                 name = takeWhile ident_char r1; rest = dropWhile ident_char r1
             in if name \<noteq> [] \<and> ident_start (hd name) \<and> (rest = [] \<or> rest = ''}'') then Some name else None))"

definition pure_shell_ref :: "pyval option \<Rightarrow> string option" where
  "pure_shell_ref v = (case v of Some (PStr s) \<Rightarrow> shell_ref_match (py_strip s) | _ \<Rightarrow> None)"

text \<open>\<open>apply_preserved_system_tokens\<close>: plain values first, then the pure references.\<close>

definition preserve_one ::
    "(string, string) dict \<Rightarrow> groups \<Rightarrow> (string \<Rightarrow> string option) \<Rightarrow> (string, string list) dict \<Rightarrow> string
     \<Rightarrow> profile \<times> (string, string list) dict \<Rightarrow> profile \<times> (string, string list) dict" where
  "preserve_one sys cg refs preserved key st =
     (let (merged, restored_by_key) = st; tokens = dget_or [] preserved key
      in case (dget merged key, dget sys key) of
           (Some (PStr v), Some raw) \<Rightarrow>
             (let system_val = unquote_conf_value (Some raw);
                  (new_val, restored) =
                    (case refs key of
                       Some ref \<Rightarrow>
                         (let base = (case dget merged ref of
                                        Some (PStr b) \<Rightarrow> b
                                      | _ \<Rightarrow> unquote_conf_value (Some (dget_or [] sys ref)));
                              rest = snd (merge_preserved_tokens base system_val tokens cg)
                          in (if rest = [] then v else v @ '' '' @ py_join '' '' rest, rest))
                     | None \<Rightarrow> merge_preserved_tokens v system_val tokens cg)
              in if restored = [] then st
                 else (dset key (PStr new_val) merged, dset key restored restored_by_key))
         | _ \<Rightarrow> st)"

definition apply_preserved_system_tokens ::
    "profile \<Rightarrow> (string, string) dict \<Rightarrow> (string, string list) dict \<Rightarrow> groups \<Rightarrow> bool
     \<Rightarrow> profile \<times> (string, string list) dict" where
  "apply_preserved_system_tokens values sys preserved cg enabled =
     (if \<not> enabled \<or> preserved = [] \<or> sys = [] then (values, [])
      else
        (let keys = map fst preserved;
             refs = (\<lambda>k. pure_shell_ref (dget values k));
             order = filter (\<lambda>k. refs k = None) keys @ filter (\<lambda>k. refs k \<noteq> None) keys
         in fold (preserve_one sys cg refs preserved) order (values, [])))"

section \<open>Inheritance\<close>

text \<open>The \<open>[append]\<close> section of a child, merged into \<open>{**parent, **profile}\<close>.\<close>

fun apply_appends ::
    "profile \<Rightarrow> profile \<Rightarrow> groups \<Rightarrow> (string \<times> pyval) list \<Rightarrow> profile \<Rightarrow> profile_error + profile" where
  "apply_appends own parent cg [] merged = Inr merged"
| "apply_appends own parent cg ((key, child_val) # rest) merged =
     (if dhas own key then apply_appends own parent cg rest merged
      else
        rbind (merge_append_value (dget_or (PStr []) parent key) child_val cg) (\<lambda>v.
        apply_appends own parent cg rest (dset key (PStr v) merged)))"

definition own_keys :: "profile \<Rightarrow> profile" where
  "own_keys p = dpop ''append'' (dpop ''extends'' p)"

function merge_extends ::
    "string \<Rightarrow> (string, profile) dict \<Rightarrow> string list \<Rightarrow> groups \<Rightarrow> profile_error + profile" where
  "merge_extends name profiles visited cg =
     (if name \<in> set visited then Inl (CycleDetected (visited @ [name]))
      else
        (case dget profiles name of
           None \<Rightarrow> Inl (ProfileNotFound name)
         | Some p \<Rightarrow>
             (case dget p ''extends'' of
                None \<Rightarrow> Inr (own_keys p)
              | Some (PStr parent_name) \<Rightarrow>
                  rbind (merge_extends parent_name profiles (visited @ [name]) cg) (\<lambda>parent.
                  (case dget_or (PTable []) p ''append'' of
                     PTable appends \<Rightarrow>
                       apply_appends (own_keys p) parent cg appends (dmerge parent (own_keys p))
                   | _ \<Rightarrow> Inl NotATable))
              | Some _ \<Rightarrow> Inl BadParent)))"
  by pat_completeness auto
termination
proof (relation "measure (\<lambda>(name, profiles, visited, cg). card (set (map fst profiles) - set visited))",
    goal_cases)
  case 1
  show ?case by simp
next
  case (2 name profiles visited cg p v parent_name)
  then have "name \<in> set (map fst profiles) - set visited"
    by (force dest: map_of_SomeD)
  then have "set (map fst profiles) - set (visited @ [name]) \<subset> set (map fst profiles) - set visited"
    by auto
  then have "card (set (map fst profiles) - set (visited @ [name])) < card (set (map fst profiles) - set visited)"
    by (rule psubset_card_mono [rotated]) simp
  then show ?case
    by (simp only: in_measure split_conv)
qed

declare merge_extends.simps [simp del]

section \<open>Toolchain bundles\<close>

definition TOOLCHAIN_BUNDLES :: "(string, (string, string) dict) dict" where
  "TOOLCHAIN_BUNDLES =
     [(''gcc'', [(''CC'', ''gcc''), (''CXX'', ''g++'')]),
      (''llvm'', [(''CC'', ''clang''), (''CXX'', ''clang++''), (''AR'', ''llvm-ar''), (''NM'', ''llvm-nm''),
         (''RANLIB'', ''llvm-ranlib''), (''STRIP'', ''llvm-strip'')])]"

definition BUNDLE_KEYS :: "string list" where
  "BUNDLE_KEYS = concat (map (\<lambda>(name, b). map fst b) TOOLCHAIN_BUNDLES)"

definition fill_bundle :: "(string, string) dict \<Rightarrow> profile \<Rightarrow> profile" where
  "fill_bundle b p = fold (\<lambda>(k, v) d. dsetdefault k (PStr v) d) b p"

definition default_lld :: "profile \<Rightarrow> profile_error + profile" where
  "default_lld p =
     (case dget_or (PStr []) p ''LDFLAGS'' of
        PStr l \<Rightarrow> Inr (if detect_linker_from_ldflags l = None
                     then dset ''LDFLAGS'' (PStr (inject_linker l ''lld'')) p else p)
      | _ \<Rightarrow> Inl NotAString)"

definition expand_toolchain :: "profile \<Rightarrow> string option \<Rightarrow> profile_error + profile" where
  "expand_toolchain p dflt =
     (let tc = (case dget p ''toolchain'' of
                  Some v \<Rightarrow> if pyval_true v then Some v else map_option PStr dflt
                | None \<Rightarrow> map_option PStr dflt)
      in case tc of
           None \<Rightarrow> Inr p
         | Some (PStr t) \<Rightarrow>
             (case dget TOOLCHAIN_BUNDLES t of
                None \<Rightarrow> Inr p
              | Some b \<Rightarrow> if t = ''llvm'' then default_lld (fill_bundle b p) else Inr (fill_bundle b p))
         | Some (PList _) \<Rightarrow> Inl Unhashable
         | Some (PTable _) \<Rightarrow> Inl Unhashable
         | Some _ \<Rightarrow> Inr p)"

definition toolchain_for_compilers :: "string option \<Rightarrow> string option \<Rightarrow> string option" where
  "toolchain_for_compilers cc cxx =
     map_option fst (find (\<lambda>(name, b). cc = dget b ''CC'' \<and> cxx = dget b ''CXX'') TOOLCHAIN_BUNDLES)"

definition not_fuse_ld :: "string \<Rightarrow> bool" where
  "not_fuse_ld t \<longleftrightarrow> \<not> starts_with fuse_ld t"

definition swap_toolchain :: "profile \<Rightarrow> string \<Rightarrow> profile_error + profile" where
  "swap_toolchain p toolchain =
     (let p1 = fold dpop BUNDLE_KEYS p
      in rbind (case dget p1 ''LDFLAGS'' of
                  None \<Rightarrow> Inr p1
                | Some v \<Rightarrow>
                    if \<not> pyval_true v then Inr p1
                    else rbind (val_tokens v) (\<lambda>ts.
                      Inr (dset ''LDFLAGS'' (PStr (py_join '' '' (filter not_fuse_ld ts))) p1)))
           (\<lambda>p2. expand_toolchain (dset ''toolchain'' (PStr toolchain) p2) None))"

definition package_compiler_row :: "config \<Rightarrow> string option \<Rightarrow> (string, string) dict option" where
  "package_compiler_row cfg pkgbase =
     (case pkgbase of
        None \<Rightarrow> None
      | Some b \<Rightarrow> if b = [] then None
                  else (case dget (c_overrides cfg) b of
                          None \<Rightarrow> None
                        | Some row \<Rightarrow> if row = [] then None else Some row))"

definition apply_package_toolchain_override ::
    "profile \<Rightarrow> config \<Rightarrow> string option \<Rightarrow> profile_error + profile" where
  "apply_package_toolchain_override p cfg pkgbase =
     (let tc = Option.bind (package_compiler_row cfg pkgbase) (\<lambda>row. dget row ''toolchain'')
      in if \<not> truthy tc then Inr p
         else if dget TOOLCHAIN_BUNDLES (the tc) = None then Inr p
         else swap_toolchain p (the tc))"

definition apply_package_compiler_override ::
    "profile \<Rightarrow> config \<Rightarrow> string option \<Rightarrow> profile_error + profile" where
  "apply_package_compiler_override p cfg pkgbase =
     (case package_compiler_row cfg pkgbase of
        None \<Rightarrow> Inr p
      | Some row \<Rightarrow>
          (let cc = dget row ''cc''; cxx = dget row ''cxx''; ld = dget row ''ld'';
               p1 = (if truthy cc then dset ''CC'' (PStr (the cc)) p else p);
               p2 = (if truthy cxx then dset ''CXX'' (PStr (the cxx)) p1 else p1)
           in if truthy ld
              then (case dget_or (PStr []) p2 ''LDFLAGS'' of
                      PStr l \<Rightarrow>
                        Inr (dset ''LDFLAGS''
                          (PStr (py_join '' '' (filter not_fuse_ld (py_split l) @ [fuse_ld @ the ld]))) p2)
                    | _ \<Rightarrow> Inl NotAString)
              else Inr p2))"

section \<open>Rules\<close>

record rule =
  r_profile :: "string option"
  r_priority :: "int option"
  r_pkgnames :: "string list option"
  r_not_pkgnames :: "string list option"
  r_groups :: "string list option"
  r_not_groups :: "string list option"
  r_depends_any :: "string list option"
  r_depends_all :: "string list option"
  r_not_depends :: "string list option"
  r_makedepends_any :: "string list option"
  r_makedepends_all :: "string list option"
  r_not_makedepends :: "string list option"
  r_append_groups :: "string list"

text \<open>
  The globals of a parsed PKGBUILD: a variable is a string or an array.  Iterating a string
  yields its characters, as in Python.
\<close>

type_synonym pkg_globals = "(string, pyval) dict"

definition meta_list :: "pkg_globals \<Rightarrow> string \<Rightarrow> string list" where
  "meta_list g key =
     (case dget g key of
        Some (PList xs) \<Rightarrow> xs
      | Some (PStr s) \<Rightarrow> map (\<lambda>c. [c]) s
      | _ \<Rightarrow> [])"

definition rule_names :: "pkg_globals \<Rightarrow> string list" where
  "rule_names g =
     (let names = (case dget g ''pkgname'' of
                     Some (PList xs) \<Rightarrow> xs
                   | Some (PStr s) \<Rightarrow> if s = [] then [] else [s]
                   | _ \<Rightarrow> [])
      in case dget g ''pkgbase'' of
           Some (PStr b) \<Rightarrow> if b \<noteq> [] \<and> b \<notin> set names then names @ [b] else names
         | _ \<Rightarrow> names)"

definition glob_any_match :: "string list \<Rightarrow> string list \<Rightarrow> bool" where
  "glob_any_match patterns values = list_ex (\<lambda>p. list_ex (\<lambda>v. fnmatch v p) values) patterns"

definition glob_all_match :: "string list \<Rightarrow> string list \<Rightarrow> bool" where
  "glob_all_match patterns values = list_all (\<lambda>p. list_ex (\<lambda>v. fnmatch v p) values) patterns"

definition glob_all_absent :: "string list \<Rightarrow> string list \<Rightarrow> bool" where
  "glob_all_absent patterns values = list_all (\<lambda>p. \<not> list_ex (\<lambda>v. fnmatch v p) values) patterns"

definition exact_any :: "string list \<Rightarrow> string list \<Rightarrow> bool" where
  "exact_any rule_vals meta_vals = (rule_vals = [] \<or> list_ex (\<lambda>v. v \<in> set meta_vals) rule_vals)"

definition exact_all :: "string list \<Rightarrow> string list \<Rightarrow> bool" where
  "exact_all rule_vals meta_vals = (rule_vals = [] \<or> list_all (\<lambda>v. v \<in> set meta_vals) rule_vals)"

definition exact_all_absent :: "string list \<Rightarrow> string list \<Rightarrow> bool" where
  "exact_all_absent rule_vals meta_vals = (rule_vals = [] \<or> \<not> list_ex (\<lambda>v. v \<in> set meta_vals) rule_vals)"

definition cond :: "(string list \<Rightarrow> string list \<Rightarrow> bool) \<Rightarrow> string list option \<Rightarrow> string list \<Rightarrow> bool" where
  "cond test rv mv = (case rv of None \<Rightarrow> True | Some vs \<Rightarrow> test vs mv)"

definition rule_matches :: "pkg_globals \<Rightarrow> rule \<Rightarrow> bool" where
  "rule_matches g r =
     (if \<not> cond glob_any_match (r_pkgnames r) (rule_names g) then False
      else if \<not> cond glob_all_absent (r_not_pkgnames r) (rule_names g) then False
      else if \<not> cond glob_all_match (r_groups r) (meta_list g ''groups'') then False
      else if \<not> cond exact_all_absent (r_not_groups r) (meta_list g ''groups'') then False
      else if \<not> cond exact_any (r_depends_any r) (meta_list g ''depends'') then False
      else if \<not> cond exact_all (r_depends_all r) (meta_list g ''depends'') then False
      else if \<not> cond exact_all_absent (r_not_depends r) (meta_list g ''depends'') then False
      else if \<not> cond exact_any (r_makedepends_any r) (meta_list g ''makedepends'') then False
      else if \<not> cond exact_all (r_makedepends_all r) (meta_list g ''makedepends'') then False
      else if \<not> cond exact_all_absent (r_not_makedepends r) (meta_list g ''makedepends'') then False
      else True)"

definition match_rules :: "pkg_globals \<Rightarrow> rule list \<Rightarrow> rule list" where
  "match_rules g rules = filter (rule_matches g) rules"

text \<open>The name a package is reported under, \<open>pkgbase\<close> or \<open>pkgname\<close> or its first element.\<close>

definition pkg_display_name :: "pkg_globals \<Rightarrow> profile_error + string" where
  "pkg_display_name g =
     (let base = dget g ''pkgbase'';
          v = (if base \<noteq> None \<and> pyval_true (the base) then the base
               else dget_or (PStr ''unknown'') g ''pkgname'')
      in case v of
           PStr s \<Rightarrow> Inr s
         | PList xs \<Rightarrow> (case xs of [] \<Rightarrow> Inl EmptyPkgname | x # _ \<Rightarrow> Inr x)
         | _ \<Rightarrow> Inl NotAString)"

definition priority :: "rule \<Rightarrow> int" where
  "priority r = (case r_priority r of None \<Rightarrow> 0 | Some p \<Rightarrow> p)"

fun pick_winner :: "rule option \<Rightarrow> rule list \<Rightarrow> rule option" where
  "pick_winner w [] = w"
| "pick_winner w (r # rs) =
     (if r_profile r = None then pick_winner w rs
      else (case w of
              None \<Rightarrow> pick_winner (Some r) rs
            | Some v \<Rightarrow> if priority r > priority v then pick_winner (Some r) rs else pick_winner w rs))"

definition winning_profile :: "config \<Rightarrow> rule list \<Rightarrow> string" where
  "winning_profile cfg matched =
     (case pick_winner None matched of
        Some r \<Rightarrow> the (r_profile r)
      | None \<Rightarrow> (case d_profile (c_defaults cfg) of None \<Rightarrow> ''bare'' | Some p \<Rightarrow> p))"

text \<open>The extracted profile as the implicit root of the chain, below \<open>bare\<close>.\<close>

definition inject_extracted :: "profile option \<Rightarrow> (string, profile) dict \<Rightarrow> (string, profile) dict" where
  "inject_extracted extracted profiles =
     (case extracted of
        None \<Rightarrow> profiles
      | Some [] \<Rightarrow> profiles
      | Some x \<Rightarrow>
          (let ps = dset ''pkgbuild_extracted'' (filter (\<lambda>(k, v). \<not> starts_with ''__'' k) x) profiles;
               bare = dget_or [] ps ''bare''
           in if dhas bare ''extends'' then ps
              else dset ''bare'' (dset ''extends'' (PStr ''pkgbuild_extracted'') bare) ps))"

definition resolve_profile ::
    "pkg_globals \<Rightarrow> rule list \<Rightarrow> config \<Rightarrow> groups \<Rightarrow> profile option \<Rightarrow> profile_error + profile" where
  "resolve_profile g matched cfg cg extracted =
     rbind (pkg_display_name g) (\<lambda>pkgname.
     rbind (merge_extends (winning_profile cfg matched) (inject_extracted extracted (c_profiles cfg)) [] cg)
       (\<lambda>merged.
     rbind (expand_toolchain merged (d_toolchain (c_defaults cfg))) (\<lambda>expanded.
     rbind (apply_package_toolchain_override expanded cfg (Some pkgname)) (\<lambda>swapped.
     apply_package_compiler_override swapped cfg (Some pkgname)))))"

section \<open>Groups, consumes, serialization\<close>

fun append_new :: "string list \<Rightarrow> string list \<Rightarrow> string list" where
  "append_new existing [] = existing"
| "append_new existing (x # xs) =
     (if x \<in> set existing then append_new existing xs else append_new (existing @ [x]) xs)"

definition resolve_groups :: "pkg_globals \<Rightarrow> rule list \<Rightarrow> defaults \<Rightarrow> profile_error + string list" where
  "resolve_groups g matched defs =
     rbind (pkg_display_name g) (\<lambda>_.
     Inr (append_new (meta_list g ''groups'')
       (d_append_groups defs @ concat (map r_append_groups matched))))"

definition bare_dep :: "string \<Rightarrow> string" where
  "bare_dep dep = py_strip (takeWhile (\<lambda>c. c \<notin> {CHR ''>'', CHR ''<'', CHR ''='', CHR ''!''}) dep)"

definition resolve_consumes ::
    "profile \<Rightarrow> pkg_globals \<Rightarrow> (string, string list) dict \<Rightarrow> profile_error + string set" where
  "resolve_consumes resolved g inference_map =
     rbind (pkg_display_name g) (\<lambda>_.
     (case dget resolved ''consumes'' of
        Some (PList xs) \<Rightarrow> Inr (set xs)
      | Some (PStr s) \<Rightarrow> Inr (set (map (\<lambda>c. [c]) s))
      | Some (PTable d) \<Rightarrow> Inr (set (map fst d))
      | Some _ \<Rightarrow> Inl NotATable
      | None \<Rightarrow>
          Inr (insert ''makepkg''
            (set (concat (map (\<lambda>dep. dget_or [] inference_map (bare_dep dep)) (meta_list g ''makedepends'')))))))"

definition flag_line :: "string \<Rightarrow> pyval \<Rightarrow> string" where
  "flag_line key v =
     key @ ''='' @ (case v of PList xs \<Rightarrow> py_join '' '' xs | _ \<Rightarrow> pyval_str v)"

definition serialize_flags :: "profile \<Rightarrow> string" where
  "serialize_flags p =
     py_join [CHR 0x0A]
       (map (\<lambda>key. flag_line key (the (dget p key)))
         (filter (\<lambda>key. key \<notin> set SYSFORGE_KEYS) (sorted_set (map fst p))))"

section \<open>Build modes\<close>

definition REMOVED_BUILD_MODE :: string where
  "REMOVED_BUILD_MODE = ''patched_pkgbuild''"

definition normalize_build_mode :: "pyval option \<Rightarrow> profile_error + pyval option" where
  "normalize_build_mode m = (if m = Some (PStr REMOVED_BUILD_MODE) then Inl RemovedBuildMode else Inr m)"

text \<open>The walk of \<open>get_build_mode\<close> along \<open>extends\<close>; \<open>visited\<close> stops a cycle.\<close>

function build_mode_walk ::
    "(string, profile) dict \<Rightarrow> string list \<Rightarrow> string option \<Rightarrow> profile_error + pyval option" where
  "build_mode_walk profiles visited name =
     (case name of
        None \<Rightarrow> Inr None
      | Some n \<Rightarrow>
          if n = [] \<or> n \<in> set visited then Inr None
          else
            (case dget profiles n of
               None \<Rightarrow> Inr None
             | Some p \<Rightarrow>
                 (case dget p ''build_mode'' of
                    Some m \<Rightarrow> normalize_build_mode (Some m)
                  | None \<Rightarrow>
                      (case dget p ''extends'' of
                         Some (PStr q) \<Rightarrow> build_mode_walk profiles (n # visited) (Some q)
                       | Some (PList (x # xs)) \<Rightarrow> Inl Unhashable
                       | Some (PTable (x # xs)) \<Rightarrow> Inl Unhashable
                       | _ \<Rightarrow> Inr None))))"
  by pat_completeness auto
termination
proof (relation "measure (\<lambda>(profiles, visited, name). card (set (map fst profiles) - set visited))", goal_cases)
  case 1
  show ?case by simp
next
  case (2 profiles visited name n p v q)
  then have "set (map fst profiles) - set (n # visited) \<subset> set (map fst profiles) - set visited"
    by (force dest: map_of_SomeD)
  then have "card (set (map fst profiles) - set (n # visited)) < card (set (map fst profiles) - set visited)"
    by (rule psubset_card_mono [rotated]) simp
  then show ?case
    by (simp only: in_measure split_conv)
qed

declare build_mode_walk.simps [simp del]

definition get_build_mode :: "rule list \<Rightarrow> config \<Rightarrow> profile_error + pyval option" where
  "get_build_mode matched cfg =
     build_mode_walk (c_profiles cfg) [] (Some (winning_profile cfg matched))"

definition EXTRACTED_PROFILE_BUILD_MODES :: "string list" where
  "EXTRACTED_PROFILE_BUILD_MODES = [''source_built'', ''kernel'']"

definition build_mode_uses_extracted_profile :: "pyval option \<Rightarrow> profile_error + bool" where
  "build_mode_uses_extracted_profile m =
     rbind (normalize_build_mode m) (\<lambda>n.
     (case n of
        Some (PStr s) \<Rightarrow> Inr (s \<in> set EXTRACTED_PROFILE_BUILD_MODES)
      | Some (PList _) \<Rightarrow> Inl Unhashable
      | Some (PTable _) \<Rightarrow> Inl Unhashable
      | _ \<Rightarrow> Inr False))"

definition OPTIMIZED_BUILD_MODES :: "string list" where
  "OPTIMIZED_BUILD_MODES = [''pgo_llvm_toolchain'', ''pgo'', ''autofdo_kernel'', ''propeller_kernel'', ''bolt_llvm'']"

definition is_optimized_build_mode :: "string option \<Rightarrow> bool" where
  "is_optimized_build_mode m \<longleftrightarrow> truthy m \<and> the m \<in> set OPTIMIZED_BUILD_MODES"

definition COEXIST_BUILD_MODES :: "string list" where
  "COEXIST_BUILD_MODES = [''autofdo_kernel'', ''propeller_kernel'']"

definition rename_mode_for_build_mode :: "string option \<Rightarrow> string" where
  "rename_mode_for_build_mode m =
     (case m of None \<Rightarrow> ''conflict''
      | Some s \<Rightarrow> if s \<in> set COEXIST_BUILD_MODES then ''coexist'' else ''conflict'')"

definition is_llvm_toolchain :: "string option \<Rightarrow> bool" where
  "is_llvm_toolchain tc =
     (truthy tc \<and>
      (let name = (case rpartition1 CHR ''/'' (the tc) of None \<Rightarrow> the tc | Some (h, t) \<Rightarrow> t)
       in name = ''llvm'' \<or> starts_with ''clang'' name))"

section \<open>Laws of the token merges\<close>

lemma val_tokens_ok: "val_tokens v = Inr ts \<Longrightarrow> list_all tok_ok ts"
  by (auto simp: val_tokens_def split: if_splits pyval.splits)

lemma replace_first_Some:
  "replace_first P new ts = Some us \<Longrightarrow>
     \<exists>a t b. ts = a @ t # b \<and> (\<forall>u \<in> set a. \<not> P u) \<and> P t \<and> us = a @ new # b"
proof (induction ts arbitrary: us)
  case Nil
  then show ?case by simp
next
  case (Cons x xs)
  show ?case
  proof (cases "P x")
    case True
    with Cons.prems show ?thesis by - (rule exI [of _ "[]"], rule exI [of _ x], auto)
  next
    case False
    with Cons.prems obtain vs where vs: "replace_first P new xs = Some vs" "us = x # vs"
      by auto
    obtain a t b where "xs = a @ t # b" "\<forall>u \<in> set a. \<not> P u" "P t" "vs = a @ new # b"
      using Cons.IH [OF vs(1)] by blast
    with False vs(2) show ?thesis by - (rule exI [of _ "x # a"], rule exI [of _ t], rule exI [of _ b], simp)
  qed
qed

lemma restore_tokens_spec:
  "restore_tokens cg preserve ts result restored = (r, s) \<Longrightarrow>
   \<exists>new. r = result @ new \<and> s = restored @ new \<and> set new \<subseteq> set ts \<and> distinct new \<and>
     (\<forall>t \<in> set new. t \<notin> set result \<and> qualifies cg preserve t \<and> \<not> superseded cg result t)"
proof (induction cg preserve ts result restored arbitrary: r s rule: restore_tokens.induct)
  case (1 cg preserve result restored)
  then show ?case by simp
next
  case (2 cg preserve t ts result restored)
  consider "t \<in> set result \<or> \<not> qualifies cg preserve t"
    | "\<not> (t \<in> set result \<or> \<not> qualifies cg preserve t)" "superseded cg result t"
    | "\<not> (t \<in> set result \<or> \<not> qualifies cg preserve t)" "\<not> superseded cg result t"
    by blast
  then show ?case
  proof cases
    case 1
    then show ?thesis using 2(1) 2(4) by fastforce
  next
    case x: 2
    then show ?thesis using 2(2) 2(4) by fastforce
  next
    case 3
    have mono: "\<not> superseded cg (result @ [t]) u \<Longrightarrow> \<not> superseded cg result u" for u
      by (auto simp: superseded_def split: option.splits)
    obtain new where new: "r = (result @ [t]) @ new" "s = (restored @ [t]) @ new" "set new \<subseteq> set ts"
      "distinct new" "\<forall>u \<in> set new. u \<notin> set (result @ [t]) \<and> qualifies cg preserve u \<and> \<not> superseded cg (result @ [t]) u"
      using 2(3) [OF 3] 2(4) 3 by auto
    with 3 mono show ?thesis by (intro exI [of _ "t # new"]) auto
  qed
qed

lemma restore_tokens_stable:
  assumes "\<And>t. t \<in> set ts \<Longrightarrow> t \<in> set result \<or> \<not> qualifies cg preserve t \<or> superseded cg result t"
  shows "restore_tokens cg preserve ts result restored = (result, restored)"
  using assms by (induction ts) auto

lemma restore_tokens_covers:
  "restore_tokens cg preserve ts result restored = (r, s) \<Longrightarrow> t \<in> set ts \<Longrightarrow>
     t \<in> set r \<or> \<not> qualifies cg preserve t \<or> superseded cg r t"
proof (induction cg preserve ts result restored arbitrary: r s rule: restore_tokens.induct)
  case (1 cg preserve result restored)
  then show ?case by simp
next
  case (2 cg preserve u ts result restored)
  show ?case
  proof (cases "t \<in> set ts")
    case True
    with 2 show ?thesis by (auto split: if_splits)
  next
    case False
    with 2(5) have tu: "t = u" by simp
    obtain new where r: "r = result @ new"
      using restore_tokens_spec [OF 2(4)] by blast
    have "superseded cg result t \<Longrightarrow> superseded cg r t"
      by (auto simp: superseded_def r split: option.splits)
    moreover have "t \<in> set r" if "\<not> (u \<in> set result \<or> \<not> qualifies cg preserve u)" "\<not> superseded cg result u"
      using 2(4) that tu restore_tokens_spec [of cg preserve ts "result @ [u]" "restored @ [u]" r s] by auto
    ultimately show ?thesis using tu r by auto
  qed
qed

definition preserved_ok :: "string \<Rightarrow> string \<Rightarrow> string list \<Rightarrow> groups \<Rightarrow> string list \<Rightarrow> bool" where
  "preserved_ok profile_val system_val preserve cg restored \<longleftrightarrow>
     distinct restored \<and> set restored \<subseteq> set (py_split system_val) \<and>
     (\<forall>t \<in> set restored. t \<notin> set (py_split profile_val) \<and> qualifies cg preserve t \<and>
        \<not> superseded cg (py_split profile_val) t)"

lemma merge_preserved_spec:
  fixes profile_val system_val :: string and preserve :: "string list" and cg :: groups
  defines "m \<equiv> merge_preserved_tokens profile_val system_val preserve cg"
  shows "py_split (fst m) = py_split profile_val @ snd m \<and>
    preserved_ok profile_val system_val preserve cg (snd m) \<and>
    snd (merge_preserved_tokens (fst m) system_val preserve cg) = []"
proof -
  let ?ps = "py_split profile_val" and ?ss = "py_split system_val"
  obtain r s where rs: "restore_tokens cg preserve ?ss ?ps [] = (r, s)"
    by fastforce
  obtain new where new: "r = ?ps @ new" "s = new" "set new \<subseteq> set ?ss" "distinct new"
    "\<forall>t \<in> set new. t \<notin> set ?ps \<and> qualifies cg preserve t \<and> \<not> superseded cg ?ps t"
    using restore_tokens_spec [OF rs] by auto
  have ok: "list_all tok_ok r" using new split_tok_ok by (auto simp: list_all_iff)
  have m: "m = (if preserve = [] \<or> profile_val = [] \<or> system_val = [] \<or>
      (length ?ps = 1 \<and> starts_with ''$'' (hd ?ps)) then (profile_val, []) else (py_join '' '' r, s))"
    by (simp add: m_def merge_preserved_tokens_def rs Let_def)
  have stable: "restore_tokens cg preserve ?ss r [] = (r, [])"
    by (rule restore_tokens_stable) (use restore_tokens_covers [OF rs] in blast)
  have again: "snd (merge_preserved_tokens (py_join '' '' r) system_val preserve cg) = []"
    by (simp add: merge_preserved_tokens_def Let_def split_join [OF ok] stable)
  have triv: "preserved_ok profile_val system_val preserve cg []"
    by (simp add: preserved_ok_def)
  have "preserved_ok profile_val system_val preserve cg s"
    using new by (auto simp: preserved_ok_def)
  then show ?thesis
    using m ok again new triv by (auto simp: split_join) (auto simp: merge_preserved_tokens_def)
qed

section \<open>The append merge\<close>

definition survives :: "groups \<Rightarrow> string list \<Rightarrow> string \<Rightarrow> bool" where
  "survives cg child u \<longleftrightarrow>
     (\<forall>c \<in> set child. case dget (flag_to_group cg) c of
        Some ms \<Rightarrow> u \<notin> set ms
      | None \<Rightarrow> extract_prefix c = None \<or> extract_prefix u \<noteq> extract_prefix c)"

lemma append_token_set: "set (append_token fg t result) \<subseteq> insert t (set result)"
  by (auto simp: append_token_def split: option.splits dest!: replace_first_Some)

lemma append_token_mem: "t \<in> set (append_token fg t result)"
  by (auto simp: append_token_def split: option.splits dest!: replace_first_Some)

lemma append_token_keeps:
  assumes "u \<in> set result"
    and "case dget fg t of Some ms \<Rightarrow> u \<notin> set ms
         | None \<Rightarrow> extract_prefix t = None \<or> extract_prefix u \<noteq> extract_prefix t"
  shows "u \<in> set (append_token fg t result)"
  using assms by (auto simp: append_token_def split: option.splits dest!: replace_first_Some)

lemma merge_tokens_Nil [simp]: "merge_tokens cg parent [] = parent"
  by (simp add: merge_tokens_def)

lemma merge_tokens_Cons [simp]:
  "merge_tokens cg parent (c # cs) = merge_tokens cg (append_token (flag_to_group cg) c parent) cs"
  by (simp add: merge_tokens_def)

lemma merge_tokens_append [simp]:
  "merge_tokens cg parent (cs @ ds) = merge_tokens cg (merge_tokens cg parent cs) ds"
  by (simp add: merge_tokens_def)

lemma merge_tokens_set: "set (merge_tokens cg parent child) \<subseteq> set parent \<union> set child"
proof (induction child arbitrary: parent)
  case (Cons c cs)
  then show ?case using append_token_set [where fg = "flag_to_group cg" and t = c and result = parent] by fastforce
qed simp

lemma merge_tokens_keeps: "u \<in> set parent \<Longrightarrow> survives cg child u \<Longrightarrow> u \<in> set (merge_tokens cg parent child)"
proof (induction child arbitrary: parent)
  case (Cons c cs)
  then show ?case
    using append_token_keeps [where u = u and result = parent and fg = "flag_to_group cg" and t = c] by (auto simp: survives_def)
qed simp

lemma merge_tokens_last: "child \<noteq> [] \<Longrightarrow> last child \<in> set (merge_tokens cg parent child)"
  by (induction child rule: rev_induct) (simp_all add: append_token_mem)

text \<open>A group's members in the result: one, once a child token belongs to it.\<close>

definition disjoint_groups :: "groups \<Rightarrow> bool" where
  "disjoint_groups cg \<longleftrightarrow>
     (\<forall>(n, ms) \<in> set cg. \<forall>m \<in> set ms. dget (flag_to_group cg) m = Some ms)"

lemma append_token_group:
  assumes "dget fg t = Some ms" "t \<in> set ms"
  shows "filter (\<lambda>u. u \<in> set ms) (append_token fg t result) = [t]"
  using assms by (auto simp: append_token_def filter_empty_conv)

lemma append_token_other:
  assumes "t \<notin> set ms"
  shows "length (filter (\<lambda>u. u \<in> set ms) (append_token fg t result)) \<le> length (filter (\<lambda>u. u \<in> set ms) result)"
proof (cases "dget fg t")
  case None
  with assms show ?thesis
    by (auto simp: append_token_def split: option.splits dest!: replace_first_Some)
next
  case (Some gs)
  have "length (filter (\<lambda>u. u \<notin> set gs \<and> u \<in> set ms) result) \<le> length (filter (\<lambda>u. u \<in> set ms) result)"
    by (induction result) auto
  with Some assms show ?thesis by (simp add: append_token_def conj_commute)
qed

lemma merge_tokens_group:
  assumes "disjoint_groups cg" "(n, ms) \<in> set cg"
  shows "length (filter (\<lambda>u. u \<in> set ms) (merge_tokens cg parent child)) \<le>
    (if set child \<inter> set ms = {} then length (filter (\<lambda>u. u \<in> set ms) parent) else 1)"
proof (induction child rule: rev_induct)
  case Nil
  show ?case by simp
next
  case (snoc c cs)
  let ?m = "merge_tokens cg parent cs"
  show ?case
  proof (cases "c \<in> set ms")
    case True
    then have "dget (flag_to_group cg) c = Some ms"
      using assms by (auto simp: disjoint_groups_def)
    with True show ?thesis by (simp add: append_token_group)
  next
    case False
    with snoc append_token_other [OF False, of "flag_to_group cg" ?m] show ?thesis by (auto split: if_splits)
  qed
qed

lemma merge_append_value_spec:
  assumes "merge_append_value parent child cg = Inr r"
  shows "\<exists>ps cs. val_tokens parent = Inr ps \<and> val_tokens child = Inr cs \<and>
    py_split r = merge_tokens cg ps cs"
proof -
  obtain ps cs where ps: "val_tokens parent = Inr ps" and cs: "val_tokens child = Inr cs"
    and r: "r = py_join '' '' (merge_tokens cg ps cs)"
    using assms by (auto simp: merge_append_value_def rbind_Inr_iff)
  have "list_all tok_ok (merge_tokens cg ps cs)"
    using val_tokens_ok [OF ps] val_tokens_ok [OF cs] merge_tokens_set [of cg ps cs]
    by (auto simp: list_all_iff)
  with ps cs r show ?thesis by (simp add: split_join)
qed

section \<open>Laws of inheritance\<close>

lemma apply_appends_lookup:
  assumes "apply_appends own parent cg appends merged = Inr r" "dict_ok appends"
  shows "if dhas own k then dget r k = dget merged k
     else (case dget appends k of
        None \<Rightarrow> dget r k = dget merged k
      | Some cv \<Rightarrow> \<exists>v. merge_append_value (dget_or (PStr []) parent k) cv cg = Inr v \<and> dget r k = Some (PStr v))"
  using assms
proof (induction own parent cg appends merged arbitrary: r rule: apply_appends.induct)
  case (1 own parent cg merged)
  then show ?case by simp
next
  case (2 own parent cg key cv rest merged)
  from 2(4) have rest: "dict_ok rest" "dget rest key = None"
    by (auto simp: dict_ok_def map_of_eq_None_iff)
  show ?case
  proof (cases "dhas own key")
    case True
    with 2(3) have "apply_appends own parent cg rest merged = Inr r" by simp
    from 2(1) [OF True this rest(1)] True show ?thesis by (auto split: if_splits)
  next
    case False
    with 2(3) obtain v where v: "merge_append_value (dget_or (PStr []) parent key) cv cg = Inr v"
      and r: "apply_appends own parent cg rest (dset key (PStr v) merged) = Inr r"
      by (auto simp: rbind_Inr_iff)
    from 2(2) [OF False r rest(1)] False v rest(2) show ?thesis
      by (cases "key = k") (simp_all split: if_splits option.splits)
  qed
qed

lemma merge_extends_step:
  assumes "dget profiles name = Some p" "name \<notin> set visited" "dget p ''extends'' = Some (PStr q)"
  shows "merge_extends name profiles visited cg =
     rbind (merge_extends q profiles (visited @ [name]) cg) (\<lambda>parent.
       (case dget_or (PTable []) p ''append'' of
          PTable appends \<Rightarrow> apply_appends (own_keys p) parent cg appends (dmerge parent (own_keys p))
        | _ \<Rightarrow> Inl NotATable))"
  using assms by (subst merge_extends.simps) simp

lemma merge_extends_root:
  assumes "dget profiles name = Some p" "name \<notin> set visited" "dget p ''extends'' = None"
  shows "merge_extends name profiles visited cg = Inr (own_keys p)"
  using assms by (subst merge_extends.simps) simp

lemma merge_extends_InrD:
  assumes "merge_extends name profiles visited cg = Inr r"
  shows "\<exists>p. name \<notin> set visited \<and> dget profiles name = Some p \<and>
    (dget p ''extends'' = None \<or> (\<exists>q. dget p ''extends'' = Some (PStr q)))"
  using assms
  by (subst (asm) merge_extends.simps) (auto split: if_splits option.splits pyval.splits)

text \<open>A successful result does not depend on the profiles already visited.\<close>

lemma merge_extends_visited:
  "merge_extends name profiles visited cg = Inr r \<Longrightarrow> set seen \<subseteq> set visited \<Longrightarrow>
   merge_extends name profiles seen cg = Inr r"
proof (induction name profiles visited cg arbitrary: seen r rule: merge_extends.induct)
  case (1 name profiles visited cg)
  obtain p where p: "name \<notin> set visited" "dget profiles name = Some p"
    and ext: "dget p ''extends'' = None \<or> (\<exists>q. dget p ''extends'' = Some (PStr q))"
    using merge_extends_InrD [OF 1(2)] by blast
  from p(1) 1(3) have seen: "name \<notin> set seen" by blast
  from ext show ?case
  proof
    assume "dget p ''extends'' = None"
    with 1(2) p seen show ?thesis by (simp add: merge_extends_root)
  next
    assume "\<exists>q. dget p ''extends'' = Some (PStr q)"
    then obtain q where q: "dget p ''extends'' = Some (PStr q)" by blast
    obtain parent where parent: "merge_extends q profiles (visited @ [name]) cg = Inr parent"
      using 1(2) by (auto simp: merge_extends_step [OF p(2,1) q] rbind_Inr_iff)
    have "merge_extends q profiles (seen @ [name]) cg = Inr parent"
      by (rule 1(1) [OF p(1,2) q refl parent]) (use 1(3) in auto)
    with 1(2) parent show ?thesis
      by (simp add: merge_extends_step [OF p(2,1) q] merge_extends_step [OF p(2) seen q])
  qed
qed

lemma own_keys_lookup: "dget (own_keys p) k = (if k = ''extends'' \<or> k = ''append'' then None else dget p k)"
  by (simp add: own_keys_def)

lemma dict_ok_own_keys: "dict_ok p \<Longrightarrow> dict_ok (own_keys p)"
  by (simp add: own_keys_def)

lemma merge_extends_child:
  assumes "merge_extends name profiles [] cg = Inr r" "dget profiles name = Some p" "dict_ok p"
    and "dget p ''extends'' = Some (PStr q)" "dget_or (PTable []) p ''append'' = PTable appends" "dict_ok appends"
  shows "\<exists>parent. merge_extends q profiles [] cg = Inr parent \<and>
    (\<forall>k. case dget (own_keys p) k of
       Some v \<Rightarrow> dget r k = Some v
     | None \<Rightarrow> (case dget appends k of
         None \<Rightarrow> dget r k = dget parent k
       | Some cv \<Rightarrow> \<exists>v ps cs. dget r k = Some (PStr v) \<and> py_split v = merge_tokens cg ps cs \<and>
           val_tokens (dget_or (PStr []) parent k) = Inr ps \<and> val_tokens cv = Inr cs))"
proof -
  obtain parent where parent: "merge_extends q profiles [name] cg = Inr parent"
    and r: "apply_appends (own_keys p) parent cg appends (dmerge parent (own_keys p)) = Inr r"
    using assms(1,5) by (auto simp: merge_extends_step [OF assms(2) _ assms(4)] rbind_Inr_iff)
  have "merge_extends q profiles [] cg = Inr parent"
    by (rule merge_extends_visited [OF parent]) simp
  moreover have "case dget (own_keys p) k of
       Some v \<Rightarrow> dget r k = Some v
     | None \<Rightarrow> (case dget appends k of
         None \<Rightarrow> dget r k = dget parent k
       | Some cv \<Rightarrow> \<exists>v ps cs. dget r k = Some (PStr v) \<and> py_split v = merge_tokens cg ps cs \<and>
           val_tokens (dget_or (PStr []) parent k) = Inr ps \<and> val_tokens cv = Inr cs)" for k
    using apply_appends_lookup [OF r assms(6), of k]
    by (force simp: dhas_def dget_dmerge dict_ok_own_keys assms(3) split: option.splits if_splits
        dest: merge_append_value_spec)
  ultimately show ?thesis by blast
qed

subsection \<open>Cycles\<close>

definition extends_of :: "(string, profile) dict \<Rightarrow> string \<Rightarrow> string option" where
  "extends_of profiles n =
     (case dget profiles n of
        None \<Rightarrow> None
      | Some p \<Rightarrow> (case dget p ''extends'' of Some (PStr q) \<Rightarrow> Some q | _ \<Rightarrow> None))"

inductive ancestor :: "(string, profile) dict \<Rightarrow> string \<Rightarrow> string \<Rightarrow> bool" for profiles where
  parent: "extends_of profiles a = Some b \<Longrightarrow> ancestor profiles a b"
| further: "ancestor profiles a b \<Longrightarrow> extends_of profiles b = Some c \<Longrightarrow> ancestor profiles a c"

lemma ancestor_trans: "ancestor profiles b c \<Longrightarrow> ancestor profiles a b \<Longrightarrow> ancestor profiles a c"
  by (induction rule: ancestor.induct) (auto intro: ancestor.intros)

lemma ancestor_first: "ancestor profiles a c \<Longrightarrow> \<exists>b. extends_of profiles a = Some b \<and> (b = c \<or> ancestor profiles b c)"
  by (induction rule: ancestor.induct) (auto intro: ancestor.intros)

lemma extends_ofD:
  "extends_of profiles n = Some q \<Longrightarrow> \<exists>p. dget profiles n = Some p \<and> dget p ''extends'' = Some (PStr q)"
  by (auto simp: extends_of_def split: option.splits pyval.splits)

text \<open>A chain that never ends is reported as a cycle.\<close>

lemma endless_chain_cycle:
  "(\<And>b. b = name \<or> ancestor profiles name b \<Longrightarrow> extends_of profiles b \<noteq> None) \<Longrightarrow>
   \<exists>c. merge_extends name profiles visited cg = Inl (CycleDetected c)"
proof (induction name profiles visited cg rule: merge_extends.induct)
  case (1 name profiles visited cg)
  show ?case
  proof (cases "name \<in> set visited")
    case True
    then show ?thesis by (subst merge_extends.simps) simp
  next
    case False
    obtain q where q: "extends_of profiles name = Some q" using 1(2) by blast
    then obtain p where p: "dget profiles name = Some p" "dget p ''extends'' = Some (PStr q)"
      by (blast dest: extends_ofD)
    have "extends_of profiles b \<noteq> None" if "b = q \<or> ancestor profiles q b" for b
    proof -
      have "ancestor profiles name b"
        using that ancestor.parent [OF q] ancestor_trans by auto
      then show ?thesis using 1(2) by blast
    qed
    then have "\<exists>c. merge_extends q profiles (visited @ [name]) cg = Inl (CycleDetected c)"
      by (rule 1(1) [OF False p refl])
    then show ?thesis by (auto simp: merge_extends_step [OF p(1) False p(2)])
  qed
qed

definition leads_to_cycle :: "(string, profile) dict \<Rightarrow> string \<Rightarrow> bool" where
  "leads_to_cycle profiles n \<longleftrightarrow> (\<exists>b. ancestor profiles n b \<and> ancestor profiles b b)"

lemma leads_to_cycle_next:
  "leads_to_cycle profiles n \<Longrightarrow> \<exists>q. extends_of profiles n = Some q \<and> leads_to_cycle profiles q"
  unfolding leads_to_cycle_def using ancestor_first by metis

lemma leads_to_cycle_ancestor:
  "ancestor profiles n b \<Longrightarrow> leads_to_cycle profiles n \<Longrightarrow> leads_to_cycle profiles b"
  by (induction rule: ancestor.induct) (auto dest: leads_to_cycle_next)

lemma apply_appends_no_cycle: "apply_appends own parent cg appends merged \<noteq> Inl (CycleDetected c)"
  by (induction own parent cg appends merged rule: apply_appends.induct)
    (auto simp: merge_append_value_def val_tokens_def rbind_def split: sum.splits if_splits pyval.splits)

lemma cycle_detected_sound:
  "merge_extends name profiles visited cg = Inl (CycleDetected c) \<Longrightarrow>
   (\<And>a. a \<in> set visited \<Longrightarrow> ancestor profiles a name) \<Longrightarrow> leads_to_cycle profiles name"
proof (induction name profiles visited cg rule: merge_extends.induct)
  case (1 name profiles visited cg)
  show ?case
  proof (cases "name \<in> set visited")
    case True
    then show ?thesis using 1(3) by (auto simp: leads_to_cycle_def)
  next
    case False
    with 1(2) obtain p q where p: "dget profiles name = Some p" "dget p ''extends'' = Some (PStr q)"
      by (subst (asm) merge_extends.simps) (auto split: option.splits pyval.splits)
    then have q: "extends_of profiles name = Some q" by (simp add: extends_of_def)
    have "merge_extends q profiles (visited @ [name]) cg = Inl (CycleDetected c)"
      using 1(2) by (auto simp: merge_extends_step [OF p(1) False p(2)] rbind_def apply_appends_no_cycle
          split: sum.splits pyval.splits)
    moreover have "ancestor profiles a q" if "a \<in> set (visited @ [name])" for a
      using that 1(3) by (auto intro: ancestor.parent [OF q] ancestor.further [OF _ q])
    ultimately have "leads_to_cycle profiles q"
      by (rule 1(1) [OF False p refl])
    then show ?thesis
      unfolding leads_to_cycle_def using ancestor_trans ancestor.parent [OF q] by blast
  qed
qed

lemma merge_extends_cycle:
  "(\<exists>c. merge_extends name profiles [] cg = Inl (CycleDetected c)) \<longleftrightarrow> leads_to_cycle profiles name"
proof
  assume "\<exists>c. merge_extends name profiles [] cg = Inl (CycleDetected c)"
  then show "leads_to_cycle profiles name" using cycle_detected_sound by fastforce
next
  assume "leads_to_cycle profiles name"
  then show "\<exists>c. merge_extends name profiles [] cg = Inl (CycleDetected c)"
    by (intro endless_chain_cycle) (use leads_to_cycle_next leads_to_cycle_ancestor in fastforce)
qed

section \<open>Toolchains\<close>

lemma dget_fold_dsetdefault:
  "dict_ok b \<Longrightarrow> dget (fold (\<lambda>(k, v) d. dsetdefault k (f v) d) b p) k =
     (case dget p k of Some v \<Rightarrow> Some v | None \<Rightarrow> map_option f (dget b k))"
proof (induction b arbitrary: p)
  case Nil
  then show ?case by (simp split: option.splits)
next
  case (Cons x b)
  obtain j w where x: "x = (j, w)" by (cases x)
  with Cons.prems have "dget b j = None" "dict_ok b"
    by (auto simp: dict_ok_def map_of_eq_None_iff)
  with Cons.IH x show ?case by (auto split: option.splits)
qed

lemma fill_bundle_lookup:
  "dict_ok b \<Longrightarrow> dget (fill_bundle b p) k =
     (case dget p k of Some v \<Rightarrow> Some v | None \<Rightarrow> map_option PStr (dget b k))"
  unfolding fill_bundle_def by (rule dget_fold_dsetdefault)

lemma bundle_ok: "dget TOOLCHAIN_BUNDLES t = Some b \<Longrightarrow>
    dict_ok b \<and> dget b ''LDFLAGS'' = None \<and> dget b ''toolchain'' = None"
  by (auto simp: TOOLCHAIN_BUNDLES_def dict_ok_def split: if_splits)

definition chosen_toolchain :: "profile \<Rightarrow> string option \<Rightarrow> pyval option" where
  "chosen_toolchain p dflt =
     (case dget p ''toolchain'' of
        Some v \<Rightarrow> if pyval_true v then Some v else map_option PStr dflt
      | None \<Rightarrow> map_option PStr dflt)"

definition linker_declared :: "profile \<Rightarrow> bool" where
  "linker_declared p \<longleftrightarrow> (\<exists>l. dget p ''LDFLAGS'' = Some (PStr l) \<and> detect_linker_from_ldflags l \<noteq> None)"

lemma default_lld_spec:
  assumes "default_lld p = Inr r"
  shows "linker_declared r \<and> (\<forall>k. k \<noteq> ''LDFLAGS'' \<longrightarrow> dget r k = dget p k) \<and>
    (linker_declared p \<longrightarrow> r = p) \<and> default_lld r = Inr r"
proof -
  obtain l where l: "dget_or (PStr []) p ''LDFLAGS'' = PStr l"
    using assms by (auto simp: default_lld_def split: pyval.splits)
  have inj: "detect_linker_from_ldflags (inject_linker l ''lld'') = Some ''lld''"
    by (rule inject_linker_spec [THEN conjunct1]) (simp add: py_space_def)
  show ?thesis
  proof (cases "detect_linker_from_ldflags l = None")
    case True
    with assms l have r: "r = dset ''LDFLAGS'' (PStr (inject_linker l ''lld'')) p"
      by (simp add: default_lld_def)
    have "\<not> linker_declared p"
      using l True by (auto simp: linker_declared_def dget_or_def split: option.splits)
    with r inj show ?thesis by (auto simp: linker_declared_def default_lld_def dget_or_def)
  next
    case False
    with assms l have "r = p" by (simp add: default_lld_def)
    moreover have "dget p ''LDFLAGS'' = Some (PStr l)"
      using l False by (auto simp: dget_or_def detect_linker_from_ldflags_def split: option.splits)
    ultimately show ?thesis using l False by (auto simp: linker_declared_def default_lld_def)
  qed
qed

lemma expand_toolchain_bundle:
  assumes "chosen_toolchain p dflt = Some (PStr t)" "dget TOOLCHAIN_BUNDLES t = Some b"
  shows "expand_toolchain p dflt =
    (if t = ''llvm'' then default_lld (fill_bundle b p) else Inr (fill_bundle b p))"
  using assms by (simp add: expand_toolchain_def chosen_toolchain_def [symmetric])

lemma fill_bundle_same:
  assumes "dict_ok b" "\<And>k. dget b k \<noteq> None \<Longrightarrow> dget p k \<noteq> None"
  shows "fill_bundle b p = p"
proof -
  have "(\<forall>(k, v) \<in> set b. dget p k \<noteq> None) \<Longrightarrow> fold (\<lambda>(k, v) d. dsetdefault k (PStr v) d) b p = p"
    by (induction b) (auto simp: dsetdefault_def)
  moreover have "\<forall>(k, v) \<in> set b. dget p k \<noteq> None"
    using assms by (auto simp: dict_ok_def)
  ultimately show ?thesis by (simp add: fill_bundle_def)
qed

lemma expand_toolchain_spec:
  assumes "expand_toolchain p dflt = Inr r" "chosen_toolchain p dflt = Some (PStr t)"
    and "dget TOOLCHAIN_BUNDLES t = Some b"
  shows "(\<forall>k. k \<noteq> ''LDFLAGS'' \<longrightarrow>
      dget r k = (case dget p k of Some v \<Rightarrow> Some v | None \<Rightarrow> map_option PStr (dget b k))) \<and>
    (linker_declared p \<longrightarrow> dget r ''LDFLAGS'' = dget p ''LDFLAGS'') \<and>
    (t = ''llvm'' \<longrightarrow> linker_declared r) \<and> expand_toolchain r dflt = Inr r"
proof -
  note b = bundle_ok [OF assms(3)]
  let ?f = "fill_bundle b p"
  have f: "dget ?f k = (case dget p k of Some v \<Rightarrow> Some v | None \<Rightarrow> map_option PStr (dget b k))" for k
    using b by (simp add: fill_bundle_lookup)
  have ld: "dget ?f ''LDFLAGS'' = dget p ''LDFLAGS''" "linker_declared ?f = linker_declared p"
    using b by (auto simp: f linker_declared_def split: option.splits)
  have r: "(if t = ''llvm'' then default_lld ?f else Inr ?f) = Inr r"
    using assms(1) expand_toolchain_bundle [OF assms(2,3)] by simp
  have fr: "(\<forall>k. k \<noteq> ''LDFLAGS'' \<longrightarrow> dget r k = dget ?f k) \<and> (linker_declared ?f \<longrightarrow> r = ?f) \<and>
      (t = ''llvm'' \<longrightarrow> linker_declared r) \<and> (if t = ''llvm'' then default_lld r else Inr r) = Inr r"
  proof (cases "t = ''llvm''")
    case True
    with r have "default_lld ?f = Inr r" by simp
    from default_lld_spec [OF this] True show ?thesis by simp
  next
    case False
    with r show ?thesis by simp
  qed
  then have keep: "dget r k = dget ?f k" if "k \<noteq> ''LDFLAGS''" for k
    using that by blast
  have "chosen_toolchain r dflt = Some (PStr t)"
    using assms(2) b keep [of "''toolchain''"] by (auto simp: chosen_toolchain_def f split: option.splits)
  moreover have "fill_bundle b r = r"
  proof (rule fill_bundle_same)
    show "dict_ok b" using b by simp
    show "dget r k \<noteq> None" if "dget b k \<noteq> None" for k
      using that b by (cases "k = ''LDFLAGS''") (auto simp: keep f split: option.splits)
  qed
  ultimately have "expand_toolchain r dflt = (if t = ''llvm'' then default_lld r else Inr r)"
    by (simp add: expand_toolchain_bundle [OF _ assms(3)])
  with fr have idem: "expand_toolchain r dflt = Inr r" by simp
  have "linker_declared p \<Longrightarrow> dget r ''LDFLAGS'' = dget p ''LDFLAGS''"
    using fr ld by auto
  then show ?thesis using idem keep f fr by simp
qed

text \<open>Swapping the bundle: nothing of the old one is left.\<close>

lemma dget_fold_dpop: "dget (fold dpop ks p) k = (if k \<in> set ks then None else dget p k)"
  by (induction ks arbitrary: p) auto

lemma swap_toolchain_spec:
  assumes "swap_toolchain p t = Inr r" "dget TOOLCHAIN_BUNDLES t = Some b"
  shows "dget r ''toolchain'' = Some (PStr t) \<and>
    (\<forall>k \<in> set BUNDLE_KEYS. dget r k = map_option PStr (dget b k)) \<and>
    (\<forall>k. k \<notin> set BUNDLE_KEYS \<union> {''toolchain'', ''LDFLAGS''} \<longrightarrow> dget r k = dget p k)"
proof -
  have ne: "t \<noteq> []" and bk: "dget b k \<noteq> None \<Longrightarrow> k \<in> set BUNDLE_KEYS" for k
    using assms(2) by (auto simp: TOOLCHAIN_BUNDLES_def BUNDLE_KEYS_def split: if_splits)
  have bs: "''LDFLAGS'' \<notin> set BUNDLE_KEYS" "''toolchain'' \<notin> set BUNDLE_KEYS"
    by (auto simp: TOOLCHAIN_BUNDLES_def BUNDLE_KEYS_def)
  let ?p1 = "fold dpop BUNDLE_KEYS p"
  obtain p2 where base: "(case dget ?p1 ''LDFLAGS'' of None \<Rightarrow> Inr ?p1
        | Some v \<Rightarrow> if \<not> pyval_true v then Inr ?p1
            else rbind (val_tokens v) (\<lambda>ts. Inr (dset ''LDFLAGS'' (PStr (py_join '' '' (filter not_fuse_ld ts))) ?p1)))
      = Inr p2"
    and r: "expand_toolchain (dset ''toolchain'' (PStr t) p2) None = Inr r"
    using assms(1) unfolding swap_toolchain_def Let_def rbind_Inr_iff by blast
  have p2: "dget p2 k = (if k \<in> set BUNDLE_KEYS then None else dget p k)" if "k \<noteq> ''LDFLAGS''" for k
    using base that by (auto simp: rbind_Inr_iff dget_fold_dpop split: option.splits if_splits)
  have "chosen_toolchain (dset ''toolchain'' (PStr t) p2) None = Some (PStr t)"
    using ne by (simp add: chosen_toolchain_def)
  note spec = expand_toolchain_spec [OF r this assms(2)]
  have look: "k \<noteq> ''LDFLAGS'' \<Longrightarrow> dget r k =
      (case dget (dset ''toolchain'' (PStr t) p2) k of Some v \<Rightarrow> Some v | None \<Rightarrow> map_option PStr (dget b k))" for k
    using spec by blast
  have "dget b k = None" if "k \<notin> set BUNDLE_KEYS" for k
    using bk that by blast
  moreover have "k \<noteq> ''LDFLAGS'' \<and> k \<noteq> ''toolchain''" if "k \<in> set BUNDLE_KEYS" for k
    using bs that by metis
  ultimately show ?thesis using look [of "''toolchain''"] by (auto simp: look p2 split: option.splits)
qed

section \<open>Laws of the rules\<close>

lemma pick_winner_acc:
  "pick_winner w rules = Some r \<Longrightarrow>
   w = Some r \<and> (\<forall>s \<in> set rules. r_profile s \<noteq> None \<longrightarrow> priority s \<le> priority r) \<or>
   (\<exists>a b. rules = a @ r # b \<and> r_profile r \<noteq> None \<and>
     (\<forall>s \<in> set a. r_profile s \<noteq> None \<longrightarrow> priority s < priority r) \<and>
     (\<forall>s \<in> set b. r_profile s \<noteq> None \<longrightarrow> priority s \<le> priority r) \<and>
     (\<forall>v. w = Some v \<longrightarrow> priority v < priority r))"
proof (induction rules arbitrary: w)
  case Nil
  then show ?case by simp
next
  case (Cons s rules)
  have step: "pick_winner (Some s) rules = Some r \<Longrightarrow> r_profile s \<noteq> None \<Longrightarrow>
      \<forall>v. w = Some v \<longrightarrow> priority v < priority s \<Longrightarrow> ?case"
  proof -
    assume won: "pick_winner (Some s) rules = Some r" and s: "r_profile s \<noteq> None"
      and w: "\<forall>v. w = Some v \<longrightarrow> priority v < priority s"
    from Cons.IH [OF won] show ?case
    proof
      assume "Some s = Some r \<and> (\<forall>t \<in> set rules. r_profile t \<noteq> None \<longrightarrow> priority t \<le> priority r)"
      with s w show ?thesis by - (rule disjI2, rule exI [of _ "[]"], auto)
    next
      assume "\<exists>a b. rules = a @ r # b \<and> r_profile r \<noteq> None \<and>
        (\<forall>t \<in> set a. r_profile t \<noteq> None \<longrightarrow> priority t < priority r) \<and>
        (\<forall>t \<in> set b. r_profile t \<noteq> None \<longrightarrow> priority t \<le> priority r) \<and>
        (\<forall>v. Some s = Some v \<longrightarrow> priority v < priority r)"
      then obtain a b where "rules = a @ r # b" "r_profile r \<noteq> None" "priority s < priority r"
        "\<forall>t \<in> set a. r_profile t \<noteq> None \<longrightarrow> priority t < priority r"
        "\<forall>t \<in> set b. r_profile t \<noteq> None \<longrightarrow> priority t \<le> priority r" by auto
      with w show ?thesis by - (rule disjI2, rule exI [of _ "s # a"], rule exI [of _ b], auto)
    qed
  qed
  have skip: "pick_winner w rules = Some r \<Longrightarrow>
      r_profile s = None \<or> (\<exists>v. w = Some v \<and> priority s \<le> priority v) \<Longrightarrow> ?case"
  proof -
    assume won: "pick_winner w rules = Some r"
      and s: "r_profile s = None \<or> (\<exists>v. w = Some v \<and> priority s \<le> priority v)"
    from Cons.IH [OF won] show ?case
    proof
      assume "w = Some r \<and> (\<forall>t \<in> set rules. r_profile t \<noteq> None \<longrightarrow> priority t \<le> priority r)"
      with s show ?thesis by auto
    next
      assume "\<exists>a b. rules = a @ r # b \<and> r_profile r \<noteq> None \<and>
        (\<forall>t \<in> set a. r_profile t \<noteq> None \<longrightarrow> priority t < priority r) \<and>
        (\<forall>t \<in> set b. r_profile t \<noteq> None \<longrightarrow> priority t \<le> priority r) \<and>
        (\<forall>v. w = Some v \<longrightarrow> priority v < priority r)"
      then obtain a b where "rules = a @ r # b" "r_profile r \<noteq> None" "\<forall>v. w = Some v \<longrightarrow> priority v < priority r"
        "\<forall>t \<in> set a. r_profile t \<noteq> None \<longrightarrow> priority t < priority r"
        "\<forall>t \<in> set b. r_profile t \<noteq> None \<longrightarrow> priority t \<le> priority r" by auto
      with s show ?thesis by - (rule disjI2, rule exI [of _ "s # a"], rule exI [of _ b], auto)
    qed
  qed
  show ?case using Cons.prems step skip
    by (cases "r_profile s"; cases w) (auto split: if_splits)
qed

lemma pick_winner_None: "pick_winner w rules = None \<longleftrightarrow> w = None \<and> (\<forall>r \<in> set rules. r_profile r = None)"
  by (induction w rules rule: pick_winner.induct) (auto split: option.splits)

section \<open>Serialization\<close>

lemma dget_keys: "dget p k \<noteq> None \<longleftrightarrow> k \<in> set (map fst p)"
  by (simp add: map_of_eq_None_iff)

lemma filter_sorted_set:
  "filter P (sorted_set xs) = sorted_list_of_set {x \<in> set xs. P x}"
proof -
  have "filter P (sorted_set xs) = sort (remdups (filter P xs))"
    by (simp add: sorted_set_def filter_sort remdups_filter)
  also have "\<dots> = sorted_list_of_set (set (filter P xs))"
    by (simp only: sorted_list_of_set_sort_remdups)
  finally show ?thesis by simp
qed

text \<open>The rendered value of a key, and the keys a package's flag string is about.\<close>

definition flag_value :: "pyval \<Rightarrow> string" where
  "flag_value v = (case v of PList xs \<Rightarrow> py_join '' '' xs | _ \<Rightarrow> pyval_str v)"

definition flag_view :: "profile \<Rightarrow> string \<Rightarrow> string option" where
  "flag_view p k = (if k \<in> set SYSFORGE_KEYS then None else map_option flag_value (dget p k))"

definition flag_keys :: "profile \<Rightarrow> string list" where
  "flag_keys p = filter (\<lambda>k. k \<notin> set SYSFORGE_KEYS) (sorted_set (map fst p))"

definition one_line :: "profile \<Rightarrow> bool" where
  "one_line p \<longleftrightarrow> (\<forall>k v. flag_view p k = Some v \<longrightarrow>
     CHR ''='' \<notin> set k \<and> CHR 0x0A \<notin> set k \<and> CHR 0x0A \<notin> set v)"

lemma flag_view_None: "flag_view p k = None \<longleftrightarrow> k \<notin> {k \<in> set (map fst p). k \<notin> set SYSFORGE_KEYS}"
  using dget_keys [of p k] by (auto simp: flag_view_def simp del: set_map)

lemma flag_keys_mem: "k \<in> set (flag_keys p) \<longleftrightarrow> flag_view p k \<noteq> None"
  by (simp add: flag_view_None flag_keys_def filter_sorted_set del: set_map)

lemma flag_keys_sorted: "flag_keys p = sorted_list_of_set {k. flag_view p k \<noteq> None}"
  by (simp add: flag_view_None flag_keys_def filter_sorted_set del: set_map)

definition view_line :: "(string \<Rightarrow> string option) \<Rightarrow> string \<Rightarrow> string" where
  "view_line w k = k @ CHR ''='' # the (w k)"

lemma serialize_flags_view:
  "serialize_flags p = py_join [CHR 0x0A] (map (view_line (flag_view p)) (flag_keys p))"
proof -
  have "flag_line k (the (dget p k)) = view_line (flag_view p) k" if k: "k \<in> set (flag_keys p)" for k
  proof -
    obtain v where "dget p k = Some v" "k \<notin> set SYSFORGE_KEYS"
      using k by (auto simp: flag_keys_mem flag_view_def split: if_splits)
    then show ?thesis by (simp add: flag_line_def view_line_def flag_view_def flag_value_def)
  qed
  then have "map (\<lambda>k. flag_line k (the (dget p k))) (flag_keys p) = map (view_line (flag_view p)) (flag_keys p)"
    by simp
  then show ?thesis by (simp only: serialize_flags_def flag_keys_def)
qed

lemma view_lines_inject:
  assumes "map (view_line v) ks = map (view_line w) js"
    and "\<forall>k \<in> set ks. CHR ''='' \<notin> set k" "\<forall>k \<in> set js. CHR ''='' \<notin> set k"
  shows "ks = js \<and> (\<forall>k \<in> set ks. the (v k) = the (w k))"
  using assms
proof (induction ks arbitrary: js)
  case Nil
  then show ?case by simp
next
  case (Cons k ks)
  then obtain j js1 where js: "js = j # js1" "view_line v k = view_line w j"
    "map (view_line v) ks = map (view_line w) js1" by auto
  then have "partition1 CHR ''='' (k @ CHR ''='' # the (v k)) = partition1 CHR ''='' (j @ CHR ''='' # the (w j))"
    by (simp add: view_line_def)
  with Cons.prems(2,3) js(1) have kj: "k = j" "the (v k) = the (w j)"
    by (auto simp: partition1_append)
  from Cons.IH [OF js(3)] Cons.prems(2,3) js(1) have "ks = js1" "\<forall>k \<in> set ks. the (v k) = the (w k)"
    by simp_all
  with kj js(1) show ?case by simp
qed

lemma serialize_flags_inject:
  assumes "one_line p" "one_line q" "serialize_flags p = serialize_flags q"
  shows "flag_view p = flag_view q"
proof -
  let ?ls = "\<lambda>p. map (view_line (flag_view p)) (flag_keys p)"
  have keys: "CHR ''='' \<notin> set k \<and> (\<forall>v. flag_view r k = Some v \<longrightarrow> CHR 0x0A \<notin> set v) \<and> CHR 0x0A \<notin> set k"
    if "k \<in> set (flag_keys r)" "one_line r" for r k
    using that by (auto simp: flag_keys_mem one_line_def)
  have split: "split_on CHR 0x0A (serialize_flags r) = (if flag_keys r = [] then [[]] else ?ls r)"
    if "one_line r" for r
  proof -
    have "\<forall>l \<in> set (?ls r). CHR 0x0A \<notin> set l"
    proof
      fix l assume "l \<in> set (?ls r)"
      then obtain k where k: "k \<in> set (flag_keys r)" "l = view_line (flag_view r) k" by auto
      then obtain v where "flag_view r k = Some v" by (auto simp: flag_keys_mem)
      with keys [OF k(1) that] k(2) show "CHR 0x0A \<notin> set l" by (simp add: view_line_def)
    qed
    then show ?thesis by (simp add: serialize_flags_view split_on_join_comma)
  qed
  have ne: "[] \<notin> set (?ls r)" for r by (auto simp: view_line_def)
  have "(if flag_keys p = [] then [[]] else ?ls p) = (if flag_keys q = [] then [[]] else ?ls q)"
    using split [OF assms(1)] split [OF assms(2)] assms(3) by simp
  then have "?ls p = ?ls q" using ne [of p] ne [of q] by (auto split: if_splits)
  from view_lines_inject [OF this] have same: "flag_keys p = flag_keys q"
    "\<forall>k \<in> set (flag_keys p). the (flag_view p k) = the (flag_view q k)"
    using keys assms(1,2) by blast+
  show ?thesis
  proof
    fix k
    show "flag_view p k = flag_view q k"
      using same flag_keys_mem [of k p] flag_keys_mem [of k q]
      by (cases "flag_view p k"; cases "flag_view q k") auto
  qed
qed

lemma serialize_flags_cong: "flag_view p = flag_view q \<Longrightarrow> serialize_flags p = serialize_flags q"
  by (simp add: serialize_flags_view flag_keys_sorted)

section \<open>Laws of the build modes\<close>

definition appends_no_mode :: "(string, profile) dict \<Rightarrow> bool" where
  "appends_no_mode profiles \<longleftrightarrow>
     (\<forall>n p a. dget profiles n = Some p \<longrightarrow> dget p ''append'' = Some (PTable a) \<longrightarrow> dget a ''build_mode'' = None)"

lemma apply_appends_other:
  "apply_appends own parent cg appends merged = Inr r \<Longrightarrow> dget appends k = None \<Longrightarrow> dget r k = dget merged k"
  by (induction own parent cg appends merged arbitrary: r rule: apply_appends.induct)
    (auto simp: rbind_Inr_iff split: if_splits)

lemma build_mode_walk_follows:
  "merge_extends name profiles visited cg = Inr r \<Longrightarrow> set seen \<subseteq> set visited \<Longrightarrow>
   appends_no_mode profiles \<Longrightarrow> dget profiles [] = None \<Longrightarrow>
   (\<And>n p. dget profiles n = Some p \<Longrightarrow> dict_ok p) \<Longrightarrow>
   build_mode_walk profiles seen (Some name) = normalize_build_mode (dget r ''build_mode'')"
proof (induction name profiles visited cg arbitrary: seen r rule: merge_extends.induct)
  case (1 name profiles visited cg)
  obtain p where p: "name \<notin> set visited" "dget profiles name = Some p"
    and ext: "dget p ''extends'' = None \<or> (\<exists>q. dget p ''extends'' = Some (PStr q))"
    using merge_extends_InrD [OF 1(2)] by blast
  then have name: "name \<noteq> []" "name \<notin> set seen" using 1(3,5) by auto
  note ok = 1(6) [OF p(2)]
  from ext show ?case
  proof
    assume none: "dget p ''extends'' = None"
    then have "r = own_keys p" using 1(2) p by (simp add: merge_extends_root)
    with none name p(2) show ?thesis
      by (subst build_mode_walk.simps) (auto simp: own_keys_lookup normalize_build_mode_def split: option.splits)
  next
    assume "\<exists>q. dget p ''extends'' = Some (PStr q)"
    then obtain q where q: "dget p ''extends'' = Some (PStr q)" by blast
    obtain parent where parent: "merge_extends q profiles (visited @ [name]) cg = Inr parent"
      and app: "(case dget_or (PTable []) p ''append'' of
          PTable appends \<Rightarrow> apply_appends (own_keys p) parent cg appends (dmerge parent (own_keys p))
        | _ \<Rightarrow> Inl NotATable) = Inr r"
      using 1(2) by (auto simp: merge_extends_step [OF p(2,1) q] rbind_Inr_iff)
    have IH: "build_mode_walk profiles (name # seen) (Some q) = normalize_build_mode (dget parent ''build_mode'')"
      by (rule 1(1) [OF p q refl parent _ 1(4,5,6)]) (use 1(3) in auto)
    have "dget r ''build_mode'' = dget (dmerge parent (own_keys p)) ''build_mode''"
    proof -
      obtain appends where "dget_or (PTable []) p ''append'' = PTable appends"
        "apply_appends (own_keys p) parent cg appends (dmerge parent (own_keys p)) = Inr r"
        using app by (auto split: pyval.splits)
      moreover have "dget appends ''build_mode'' = None"
        using calculation(1) 1(4) p(2) by (auto simp: dget_or_def appends_no_mode_def split: option.splits)
      ultimately show ?thesis by (simp add: apply_appends_other)
    qed
    also have "\<dots> = (case dget p ''build_mode'' of None \<Rightarrow> dget parent ''build_mode'' | Some v \<Rightarrow> Some v)"
      by (simp add: dget_dmerge dict_ok_own_keys ok own_keys_lookup)
    finally show ?thesis
      using q name p(2) IH by (subst build_mode_walk.simps) (simp split: option.splits)
  qed
qed

section \<open>Preserved system tokens over a whole map\<close>

definition preserved_at :: "profile \<Rightarrow> profile \<Rightarrow> (string, string list) dict \<Rightarrow> string \<Rightarrow> bool" where
  "preserved_at values merged restored k \<longleftrightarrow>
     (case dget values k of
        Some (PStr v) \<Rightarrow> (\<exists>w. dget merged k = Some (PStr w) \<and> py_split w = py_split v @ dget_or [] restored k)
      | x \<Rightarrow> dget merged k = x \<and> dget restored k = None)"

lemma preserved_at_same:
  assumes "dget m' k = dget m k" "dget rs' k = dget rs k" "preserved_at values m rs k"
  shows "preserved_at values m' rs' k"
  using assms by (simp add: preserved_at_def dget_or_def split: option.splits pyval.splits)

lemma preserve_one_other:
  "j \<noteq> key \<Longrightarrow> preserve_one sys cg refs preserved key (m, rs) = (m', rs') \<Longrightarrow>
   dget m' j = dget m j \<and> dget rs' j = dget rs j"
  by (auto simp: preserve_one_def Let_def split: option.splits pyval.splits prod.splits if_splits)

lemma preserve_one_self:
  assumes "preserve_one sys cg refs preserved key (m, rs) = (m', rs')"
    and "dget m key = dget values key" "dget rs key = None"
  shows "preserved_at values m' rs' key"
proof (cases "dget m key")
  case None
  with assms show ?thesis by (simp add: preserve_one_def preserved_at_def Let_def)
next
  case (Some x)
  then have vk: "dget values key = Some x" using assms(2) by simp
  show ?thesis
  proof (cases x)
    case (PStr v)
    show ?thesis
    proof (cases "dget sys key")
      case None
      moreover have "dget values key = Some (PStr v)" using assms(2) Some PStr by simp
      ultimately show ?thesis using assms by (simp add: preserve_one_def preserved_at_def dget_or_def)
    next
      case (Some raw)
      let ?sv = "unquote_conf_value (Some raw)" and ?ts = "dget_or [] preserved key"
      let ?dflt = "merge_preserved_tokens v ?sv ?ts cg"
      let ?base = "\<lambda>ref. (case dget m ref of Some (PStr b) \<Rightarrow> b
          | _ \<Rightarrow> unquote_conf_value (Some (dget_or [] sys ref)))"
      let ?rest = "\<lambda>ref. snd (merge_preserved_tokens (?base ref) ?sv ?ts cg)"
      let ?nr = "case refs key of
          Some ref \<Rightarrow> (if ?rest ref = [] then v else v @ '' '' @ py_join '' '' (?rest ref), ?rest ref)
        | None \<Rightarrow> ?dflt"
      have split: "py_split (fst ?nr) = py_split v @ snd ?nr"
      proof (cases "refs key")
        case None
        then show ?thesis using merge_preserved_spec [of v ?sv ?ts cg] by simp
      next
        case (Some ref)
        have "list_all tok_ok (?rest ref)"
          using merge_preserved_spec [of "?base ref" ?sv ?ts cg]
          by (auto simp: preserved_ok_def list_all_iff)
        with Some show ?thesis by (simp add: split_append_space split_join)
      qed
      have "preserve_one sys cg refs preserved key (m, rs) = (if snd ?nr = [] then (m, rs)
          else (dset key (PStr (fst ?nr)) m, dset key (snd ?nr) rs))"
        using Some \<open>dget m key = Some x\<close> PStr
        by (cases "refs key") (simp_all add: preserve_one_def Let_def case_prod_beta)
      with assms(1) have "(if snd ?nr = [] then (m, rs)
          else (dset key (PStr (fst ?nr)) m, dset key (snd ?nr) rs)) = (m', rs')" by (simp only:)
      moreover have "dget values key = Some (PStr v)" using assms(2) \<open>dget m key = Some x\<close> PStr by simp
      ultimately show ?thesis using split assms(2,3)
        by (auto simp: preserved_at_def dget_or_def split: if_splits)
    qed
  qed (use assms(1,3) Some vk in \<open>simp_all add: preserve_one_def preserved_at_def Let_def\<close>)
qed

lemma preserve_fold:
  assumes "distinct ks"
    and "\<And>k. k \<in> set ks \<Longrightarrow> dget m k = dget values k \<and> dget rs k = None"
    and "\<And>k. k \<notin> set ks \<Longrightarrow> preserved_at values m rs k"
    and "fold (preserve_one sys cg refs preserved) ks (m, rs) = (m', rs')"
  shows "preserved_at values m' rs' k"
  using assms
proof (induction ks arbitrary: m rs)
  case Nil
  then show ?case by simp
next
  case (Cons j ks)
  obtain m1 rs1 where step: "preserve_one sys cg refs preserved j (m, rs) = (m1, rs1)" by fastforce
  have other: "i \<noteq> j \<Longrightarrow> dget m1 i = dget m i \<and> dget rs1 i = dget rs i" for i
    using preserve_one_other [OF _ step] by blast
  have self: "preserved_at values m1 rs1 j"
    using preserve_one_self [OF step] Cons.prems(2) by simp
  show ?case
  proof (rule Cons.IH)
    show "distinct ks" using Cons.prems(1) by simp
    show "dget m1 i = dget values i \<and> dget rs1 i = None" if "i \<in> set ks" for i
      using that other [of i] Cons.prems(1,2) by auto
    show "preserved_at values m1 rs1 i" if "i \<notin> set ks" for i
    proof (cases "i = j")
      case True
      with self show ?thesis by simp
    next
      case False
      with that Cons.prems(3) [of i] other [OF False] show ?thesis by (simp add: preserved_at_same)
    qed
    show "fold (preserve_one sys cg refs preserved) ks (m1, rs1) = (m', rs')"
      using Cons.prems(4) step by simp
  qed
qed

lemma apply_preserved_spec:
  assumes "dict_ok preserved"
  shows "preserved_at values (fst (apply_preserved_system_tokens values sys preserved cg enabled))
    (snd (apply_preserved_system_tokens values sys preserved cg enabled)) k"
proof -
  have triv: "preserved_at values values [] i" for i
    by (auto simp: preserved_at_def dget_or_def split: option.splits pyval.splits)
  show ?thesis
  proof (cases "\<not> enabled \<or> preserved = [] \<or> sys = []")
    case True
    with triv show ?thesis by (auto simp: apply_preserved_system_tokens_def)
  next
    case False
    let ?refs = "\<lambda>k. pure_shell_ref (dget values k)" and ?keys = "map fst preserved"
    let ?order = "filter (\<lambda>k. ?refs k = None) ?keys @ filter (\<lambda>k. ?refs k \<noteq> None) ?keys"
    have "distinct ?order" using assms by (auto simp: dict_ok_def)
    then have "preserved_at values
        (fst (fold (preserve_one sys cg ?refs preserved) ?order (values, [])))
        (snd (fold (preserve_one sys cg ?refs preserved) ?order (values, []))) k"
      by (rule preserve_fold [OF _ _ triv prod.collapse [symmetric]]) simp
    with False show ?thesis by (simp only: apply_preserved_system_tokens_def Let_def if_False)
  qed
qed

section \<open>Properties\<close>

definition plain_profiles :: "(string, profile) dict \<Rightarrow> bool" where
  "plain_profiles profiles \<longleftrightarrow>
     dget profiles [] = None \<and>
     list_all (\<lambda>(n, p). dict_ok p \<and>
       (case dget p ''append'' of Some (PTable a) \<Rightarrow> dget a ''build_mode'' = None | _ \<Rightarrow> True)) profiles"

lemma plain_profilesD:
  assumes "plain_profiles profiles"
  shows "appends_no_mode profiles" "dget profiles [] = None" "dget profiles n = Some p \<Longrightarrow> dict_ok p"
  using assms map_of_SomeD [of profiles]
  by (fastforce simp: plain_profiles_def appends_no_mode_def list_all_iff)+

text \<open>C17: a profile that extends another one takes each key from itself, then from its \<open>[append]\<close>
  table merged token by token into the parent's value, then from the parent.\<close>

theorem merge_extends_lookup:
  assumes "merge_extends name profiles [] cg = Inr r" "dget profiles name = Some p" "dict_ok p"
    and "dget p ''extends'' = Some (PStr q)" "dget_or (PTable []) p ''append'' = PTable appends" "dict_ok appends"
  shows "\<exists>parent. merge_extends q profiles [] cg = Inr parent \<and>
    (\<forall>k. case dget (own_keys p) k of
       Some v \<Rightarrow> dget r k = Some v
     | None \<Rightarrow> (case dget appends k of
         None \<Rightarrow> dget r k = dget parent k
       | Some cv \<Rightarrow> \<exists>v ps cs. dget r k = Some (PStr v) \<and> py_split v = merge_tokens cg ps cs \<and>
           val_tokens (dget_or (PStr []) parent k) = Inr ps \<and> val_tokens cv = Inr cs))"
  by (rule merge_extends_child [OF assms])

definition demo_profiles :: "(string, profile) dict" where
  "demo_profiles =
     [(''base'', [(''CFLAGS'', PStr ''-O2 -pipe''), (''build_mode'', PStr ''kernel'')]),
      (''fast'', [(''extends'', PStr ''base''), (''CC'', PStr ''clang''),
                  (''append'', PTable [(''CFLAGS'', PStr ''-O3'')])])]"

lemma demo_fast:
  "merge_extends ''fast'' demo_profiles [] [] =
     Inr [(''CFLAGS'', PStr ''-O3 -pipe''), (''build_mode'', PStr ''kernel''), (''CC'', PStr ''clang'')]"
  by code_simp

theorem merge_extends_lookup_witness:
  "\<exists>parent. merge_extends ''base'' demo_profiles [] [] = Inr parent \<and>
    (\<forall>k. case dget (own_keys (the (dget demo_profiles ''fast''))) k of
       Some v \<Rightarrow> dget [(''CFLAGS'', PStr ''-O3 -pipe''), (''build_mode'', PStr ''kernel''),
           (''CC'', PStr ''clang'')] k = Some v
     | None \<Rightarrow> (case dget [(''CFLAGS'', PStr ''-O3'')] k of
         None \<Rightarrow> dget [(''CFLAGS'', PStr ''-O3 -pipe''), (''build_mode'', PStr ''kernel''),
           (''CC'', PStr ''clang'')] k = dget parent k
       | Some cv \<Rightarrow> \<exists>v ps cs. dget [(''CFLAGS'', PStr ''-O3 -pipe''), (''build_mode'', PStr ''kernel''),
           (''CC'', PStr ''clang'')] k = Some (PStr v) \<and> py_split v = merge_tokens [] ps cs \<and>
           val_tokens (dget_or (PStr []) parent k) = Inr ps \<and> val_tokens cv = Inr cs))"
  by (rule merge_extends_lookup [OF demo_fast]) (simp_all add: demo_profiles_def dict_ok_def dget_or_def)

text \<open>C24: resolving an inheritance chain raises the cycle error exactly when following
  \<open>extends\<close> from the profile enters a cycle.\<close>

theorem merge_extends_cycle_iff:
  "(\<exists>c. merge_extends name profiles [] cg = Inl (CycleDetected c)) = leads_to_cycle profiles name"
  by (rule merge_extends_cycle)

text \<open>In an append merge the child wins: its last token is in the result, a conflict group
  any child token belongs to has at most one member left, a parent token that no child token
  conflicts with is kept, and no token is invented.\<close>

theorem append_merge_child_wins:
  assumes "merge_append_value parent child cg = Inr r" "disjoint_groups cg"
    and "val_tokens parent = Inr ps" "val_tokens child = Inr cs"
  shows "(cs \<noteq> [] \<longrightarrow> last cs \<in> set (py_split r)) \<and>
    (\<forall>(n, ms) \<in> set cg. set cs \<inter> set ms \<noteq> {} \<longrightarrow> length (filter (\<lambda>u. u \<in> set ms) (py_split r)) \<le> 1) \<and>
    (\<forall>u \<in> set ps. survives cg cs u \<longrightarrow> u \<in> set (py_split r)) \<and>
    set (py_split r) \<subseteq> set ps \<union> set cs"
proof -
  have r: "py_split r = merge_tokens cg ps cs"
    using merge_append_value_spec [OF assms(1)] assms(3,4) by auto
  have "length (filter (\<lambda>u. u \<in> set ms) (merge_tokens cg ps cs)) \<le> 1"
    if "(n, ms) \<in> set cg" "set cs \<inter> set ms \<noteq> {}" for n ms
    using merge_tokens_group [OF assms(2) that(1), of ps cs] that(2) by simp
  then show ?thesis
    unfolding r using merge_tokens_last merge_tokens_keeps merge_tokens_set by blast
qed

definition demo_groups :: groups where
  "demo_groups = [(''stack'', [''-fstack-protector-strong'', ''-fno-stack-protector''])]"

lemma demo_merge:
  "merge_append_value (PStr ''-fstack-protector-strong -O2'') (PStr ''-fno-stack-protector'') demo_groups =
     Inr ''-O2 -fno-stack-protector''"
  "disjoint_groups demo_groups"
  "val_tokens (PStr ''-fstack-protector-strong -O2'') = Inr [''-fstack-protector-strong'', ''-O2'']"
  "val_tokens (PStr ''-fno-stack-protector'') = Inr [''-fno-stack-protector'']"
  "survives demo_groups [''-fno-stack-protector''] ''-O2''"
  by code_simp+

theorem append_merge_child_wins_witness:
  "''-O2'' \<in> set (py_split ''-O2 -fno-stack-protector'') \<and>
   ''-fno-stack-protector'' \<in> set (py_split ''-O2 -fno-stack-protector'')"
  using append_merge_child_wins [OF demo_merge(1-4)] demo_merge(5) by simp

text \<open>Restoring the system's tokens lets the profile win: the profile's tokens stay a prefix of
  the result, every restored token is one of the system's that qualifies and that no profile
  token supersedes, none twice, and a second pass restores nothing.\<close>

theorem merge_preserved_profile_wins:
  "py_split (fst (merge_preserved_tokens pv sv preserve cg)) =
     py_split pv @ snd (merge_preserved_tokens pv sv preserve cg) \<and>
   preserved_ok pv sv preserve cg (snd (merge_preserved_tokens pv sv preserve cg)) \<and>
   snd (merge_preserved_tokens (fst (merge_preserved_tokens pv sv preserve cg)) sv preserve cg) = []"
  by (rule merge_preserved_spec)

text \<open>Over a whole map the pass only appends tokens: a string value gains exactly the tokens
  reported for its key, every other value is unchanged and reports none.\<close>

theorem apply_preserved_appends_only:
  assumes "dict_ok preserved"
  shows "preserved_at values (fst (apply_preserved_system_tokens values sys preserved cg enabled))
    (snd (apply_preserved_system_tokens values sys preserved cg enabled)) k"
  by (rule apply_preserved_spec [OF assms])

theorem apply_preserved_appends_only_witness:
  "preserved_at [(''CFLAGS'', PStr ''-O3'')]
     (fst (apply_preserved_system_tokens [(''CFLAGS'', PStr ''-O3'')] [(''CFLAGS'', ''-O2 -pipe'')]
        [(''CFLAGS'', [''-pipe''])] [] True))
     (snd (apply_preserved_system_tokens [(''CFLAGS'', PStr ''-O3'')] [(''CFLAGS'', ''-O2 -pipe'')]
        [(''CFLAGS'', [''-pipe''])] [] True)) ''CFLAGS''"
  by (rule apply_preserved_appends_only) (simp add: dict_ok_def)

text \<open>Expanding a known toolchain keeps every key the profile sets, fills the others from the
  bundle, declares a linker under llvm unless one is declared, and is idempotent.\<close>

theorem expand_toolchain_fills:
  assumes "expand_toolchain p dflt = Inr r" "chosen_toolchain p dflt = Some (PStr t)"
    and "dget TOOLCHAIN_BUNDLES t = Some b"
  shows "(\<forall>k. k \<noteq> ''LDFLAGS'' \<longrightarrow>
      dget r k = (case dget p k of Some v \<Rightarrow> Some v | None \<Rightarrow> map_option PStr (dget b k))) \<and>
    (linker_declared p \<longrightarrow> dget r ''LDFLAGS'' = dget p ''LDFLAGS'') \<and>
    (t = ''llvm'' \<longrightarrow> linker_declared r) \<and> expand_toolchain r dflt = Inr r"
  by (rule expand_toolchain_spec [OF assms])

lemma demo_expand:
  "expand_toolchain [(''CC'', PStr ''gcc-13'')] (Some ''gcc'') = Inr [(''CC'', PStr ''gcc-13''), (''CXX'', PStr ''g++'')]"
  "chosen_toolchain [(''CC'', PStr ''gcc-13'')] (Some ''gcc'') = Some (PStr ''gcc'')"
  "dget TOOLCHAIN_BUNDLES ''gcc'' = Some [(''CC'', ''gcc''), (''CXX'', ''g++'')]"
  by code_simp+

theorem expand_toolchain_fills_witness:
  "expand_toolchain [(''CC'', PStr ''gcc-13''), (''CXX'', PStr ''g++'')] (Some ''gcc'') =
     Inr [(''CC'', PStr ''gcc-13''), (''CXX'', PStr ''g++'')]"
  using expand_toolchain_fills [OF demo_expand] by blast

text \<open>Swapping the toolchain of a package leaves exactly the new bundle's compiler keys, and
  touches no key outside the bundles but \<open>toolchain\<close> and \<open>LDFLAGS\<close>.\<close>

theorem swap_toolchain_replaces:
  assumes "swap_toolchain p t = Inr r" "dget TOOLCHAIN_BUNDLES t = Some b"
  shows "dget r ''toolchain'' = Some (PStr t) \<and>
    (\<forall>k \<in> set BUNDLE_KEYS. dget r k = map_option PStr (dget b k)) \<and>
    (\<forall>k. k \<notin> set BUNDLE_KEYS \<union> {''toolchain'', ''LDFLAGS''} \<longrightarrow> dget r k = dget p k)"
  by (rule swap_toolchain_spec [OF assms])

lemma demo_swap:
  "swap_toolchain [(''CC'', PStr ''clang''), (''AR'', PStr ''llvm-ar''), (''LDFLAGS'', PStr ''-fuse-ld=lld -s'')] ''gcc'' =
     Inr [(''LDFLAGS'', PStr ''-s''), (''toolchain'', PStr ''gcc''), (''CC'', PStr ''gcc''), (''CXX'', PStr ''g++'')]"
  by code_simp

theorem swap_toolchain_replaces_witness:
  "dget [(''LDFLAGS'', PStr ''-s''), (''toolchain'', PStr ''gcc''), (''CC'', PStr ''gcc''), (''CXX'', PStr ''g++'')] ''AR'' =
   map_option PStr (dget [(''CC'', ''gcc''), (''CXX'', ''g++'')] ''AR'')"
proof -
  have "''AR'' \<in> set BUNDLE_KEYS" by code_simp
  with swap_toolchain_replaces [OF demo_swap demo_expand(3)] show ?thesis by blast
qed

text \<open>The profile of a package is that of the matching rule with the highest priority, the
  first of them on a tie, and the configured default when no matching rule names one.\<close>

theorem winning_profile_best:
  "(\<exists>a r b. filter (\<lambda>r. rule_matches g r \<and> r_profile r \<noteq> None) rules = a @ r # b \<and>
      r_profile r = Some (winning_profile cfg (match_rules g rules)) \<and>
      list_all (\<lambda>s. priority s < priority r) a \<and> list_all (\<lambda>s. priority s \<le> priority r) b) \<or>
   (filter (\<lambda>r. rule_matches g r \<and> r_profile r \<noteq> None) rules = [] \<and>
      winning_profile cfg (match_rules g rules) =
        (case d_profile (c_defaults cfg) of None \<Rightarrow> ''bare'' | Some p \<Rightarrow> p))"
proof (cases "pick_winner None (match_rules g rules)")
  case None
  then have "filter (\<lambda>r. rule_matches g r \<and> r_profile r \<noteq> None) rules = []"
    by (auto simp: pick_winner_None match_rules_def filter_empty_conv)
  with None show ?thesis by (simp add: winning_profile_def)
next
  case (Some r)
  from pick_winner_acc [OF Some] obtain a b where ab: "match_rules g rules = a @ r # b" "r_profile r \<noteq> None"
    "\<forall>s \<in> set a. r_profile s \<noteq> None \<longrightarrow> priority s < priority r"
    "\<forall>s \<in> set b. r_profile s \<noteq> None \<longrightarrow> priority s \<le> priority r" by auto
  have "filter (\<lambda>r. rule_matches g r \<and> r_profile r \<noteq> None) rules = filter (\<lambda>r. r_profile r \<noteq> None) (match_rules g rules)"
    by (simp add: match_rules_def conj_commute)
  with ab Some show ?thesis
    by (intro disjI1 exI [of _ "filter (\<lambda>r. r_profile r \<noteq> None) a"] exI [of _ r]
        exI [of _ "filter (\<lambda>r. r_profile r \<noteq> None) b"])
      (auto simp: list_all_iff winning_profile_def)
qed

text \<open>Two profiles have the same flag string exactly when every key that is not one of
  sysforge's own has the same rendered value in both, whatever the order of their keys.\<close>

theorem serialize_flags_iff:
  assumes "one_line p" "one_line q"
  shows "serialize_flags p = serialize_flags q \<longleftrightarrow> flag_view p = flag_view q"
  using serialize_flags_inject [OF assms] serialize_flags_cong by blast

theorem serialize_flags_iff_witness:
  "serialize_flags [(''CC'', PStr ''gcc''), (''jobs'', PInt 4), (''CXX'', PStr ''g++'')] =
   serialize_flags [(''CXX'', PStr ''g++''), (''CC'', PStr ''gcc'')]"
proof -
  let ?p = "[(''CC'', PStr ''gcc''), (''jobs'', PInt 4), (''CXX'', PStr ''g++'')]"
  let ?q = "[(''CXX'', PStr ''g++''), (''CC'', PStr ''gcc'')]"
  have "one_line ?p" "one_line ?q"
    by (auto simp: one_line_def flag_view_def flag_value_def pyval_str_def SYSFORGE_KEYS_def split: if_splits)
  moreover have "flag_view ?p = flag_view ?q"
    by (auto simp: flag_view_def SYSFORGE_KEYS_def)
  ultimately show ?thesis by (simp only: serialize_flags_iff)
qed

text \<open>The build mode found by walking \<open>extends\<close> is the one of the fully merged profile.\<close>

theorem get_build_mode_agrees:
  assumes "plain_profiles (c_profiles cfg)"
    and "merge_extends (winning_profile cfg matched) (c_profiles cfg) [] cg = Inr r"
  shows "get_build_mode matched cfg = normalize_build_mode (dget r ''build_mode'')"
  unfolding get_build_mode_def
  by (rule build_mode_walk_follows [OF assms(2) _ plain_profilesD [OF assms(1)]]) simp_all

definition demo_config :: config where
  "demo_config = \<lparr>c_profiles = demo_profiles,
     c_defaults = \<lparr>d_profile = Some ''fast'', d_toolchain = None, d_append_groups = []\<rparr>, c_overrides = []\<rparr>"

theorem get_build_mode_agrees_witness: "get_build_mode [] demo_config = Inr (Some (PStr ''kernel''))"
proof -
  have "winning_profile demo_config [] = ''fast''" "c_profiles demo_config = demo_profiles"
    by (simp_all add: winning_profile_def demo_config_def)
  then have "get_build_mode [] demo_config = normalize_build_mode (Some (PStr ''kernel''))"
    using get_build_mode_agrees [of demo_config "[]" "[]"] demo_fast
    by (simp add: plain_profiles_def demo_profiles_def dict_ok_def)
  then show ?thesis by (simp add: normalize_build_mode_def REMOVED_BUILD_MODE_def)
qed

section \<open>Edge cases\<close>

text \<open>
  A restoring merge that restores nothing still rejoins the profile's tokens with single
  spaces; the build mode of a package no rule matches is the default profile's; an explicit
  \<open>consumes\<close> is used as it is, without the \<open>makepkg\<close> baseline.
\<close>

lemma merge_preserved_rejoins:
  "merge_preserved_tokens ''-O2  -pipe'' ''-g'' [''-fPIC''] [] = (''-O2 -pipe'', [])"
  by code_simp

lemma get_build_mode_without_rules: "get_build_mode [] demo_config = Inr (Some (PStr ''kernel''))"
  by code_simp

lemma resolve_consumes_verbatim:
  "resolve_consumes [(''consumes'', PList [''rust''])] [(''pkgname'', PStr ''foo'')] m = Inr {''rust''}"
  by (simp add: resolve_consumes_def pkg_display_name_def dget_or_def)

end
