(* ===== verification/Toml.thy ===== *)
theory Toml
  imports PyPrelude
begin

text \<open>
  What the state files need of TOML: basic strings with their escapes, arrays of basic
  strings, bare keys and \<open>key = value\<close> lines, read after the TOML grammar the way
  \<open>tomllib\<close> reads them; a control character in a basic string is an error.  Used by theories
  \<open>PipelineState\<close>, \<open>BuildState\<close> and \<open>StageSentinel\<close>, which hold the writers.
\<close>

section \<open>Lines\<close>

text \<open>\<open>s.replace(c, r)\<close> for a character \<open>c\<close>.\<close>

definition replace_char :: "char \<Rightarrow> string \<Rightarrow> string \<Rightarrow> string" where
  "replace_char c r s = concat (map (\<lambda>x. if x = c then r else [x]) s)"

lemma replace_char_append: "replace_char c r (s @ t) = replace_char c r s @ replace_char c r t"
  by (simp add: replace_char_def)

definition is_control :: "char \<Rightarrow> bool" where
  "is_control c \<longleftrightarrow> (of_char c :: nat) < 32 \<or> of_char c = (127 :: nat)"

definition quoted :: "string \<Rightarrow> string" where
  "quoted s = CHR 0x22 # s @ [CHR 0x22]"

definition pair_line :: "string \<Rightarrow> string \<Rightarrow> string" where
  "pair_line key v = key @ '' = '' @ v"

definition raw_line :: "string \<Rightarrow> string \<Rightarrow> string" where
  "raw_line key v = pair_line key (quoted v)"

section \<open>Reading\<close>

definition bare_char :: "char \<Rightarrow> bool" where
  "bare_char c \<longleftrightarrow> is_alpha c \<or> is_digit c \<or> c = CHR ''_'' \<or> c = CHR ''-''"

definition bare_key :: "string \<Rightarrow> bool" where
  "bare_key k \<longleftrightarrow> k \<noteq> [] \<and> list_all bare_char k"

definition hex_val :: "char \<Rightarrow> nat option" where
  "hex_val c =
     (let n = (of_char c :: nat) in
      if 48 \<le> n \<and> n \<le> 57 then Some (n - 48)
      else if 97 \<le> n \<and> n \<le> 102 then Some (n - 87)
      else if 65 \<le> n \<and> n \<le> 70 then Some (n - 55) else None)"

definition simple_escape :: "char \<Rightarrow> char option" where
  "simple_escape c =
     (if c = CHR 0x5C \<or> c = CHR 0x22 then Some c
      else if c = CHR ''n'' then Some CHR 0x0A
      else if c = CHR ''r'' then Some CHR 0x0D
      else if c = CHR ''t'' then Some CHR 0x09
      else if c = CHR ''b'' then Some CHR 0x08
      else if c = CHR ''f'' then Some CHR 0x0C else None)"

text \<open>An escape after its backslash, and the rest of a basic string after its opening quote.\<close>

definition read_escape :: "string \<Rightarrow> (char \<times> string) option" where
  "read_escape cs =
     (case cs of
        [] \<Rightarrow> None
      | e # r \<Rightarrow>
          if e = CHR ''u'' then
            (case r of
               a # b # h # l # r' \<Rightarrow>
                 (case (hex_val a, hex_val b, hex_val h, hex_val l) of
                    (Some 0, Some 0, Some m, Some n) \<Rightarrow> Some (char_of (16 * m + n), r')
                  | _ \<Rightarrow> None)
             | _ \<Rightarrow> None)
          else map_option (\<lambda>x. (x, r)) (simple_escape e))"

lemma read_escape_length: "read_escape cs = Some (c, r) \<Longrightarrow> length r < length cs"
  by (auto simp: read_escape_def split: list.splits if_splits option.splits nat.splits)

function read_basic :: "string \<Rightarrow> (string \<times> string) option" where
  "read_basic cs =
     (case cs of
        [] \<Rightarrow> None
      | c # r \<Rightarrow>
          if c = CHR 0x22 then Some ([], r)
          else if c = CHR 0x5C then
            (case read_escape r of
               None \<Rightarrow> None
             | Some (x, t) \<Rightarrow> map_option (\<lambda>(v, z). (x # v, z)) (read_basic t))
          else if is_control c \<and> c \<noteq> CHR 0x09 then None
          else map_option (\<lambda>(v, z). (c # v, z)) (read_basic r))"
  by pat_completeness auto
termination
  by (relation "measure length") (auto dest: read_escape_length)

declare read_basic.simps [simp del]

lemma read_basic_Cons:
  "read_basic (c # r) =
     (if c = CHR 0x22 then Some ([], r)
      else if c = CHR 0x5C then
        (case read_escape r of
           None \<Rightarrow> None
         | Some (x, t) \<Rightarrow> map_option (\<lambda>(v, z). (x # v, z)) (read_basic t))
      else if is_control c \<and> c \<noteq> CHR 0x09 then None
      else map_option (\<lambda>(v, z). (c # v, z)) (read_basic r))"
  by (subst read_basic.simps) simp

lemma read_basic_length: "read_basic cs = Some (v, r) \<Longrightarrow> length r < length cs"
proof (induction cs arbitrary: v r rule: read_basic.induct)
  case (1 cs)
  show ?case
  proof (cases cs)
    case Nil
    with 1 show ?thesis by (simp add: read_basic.simps)
  next
    case (Cons c r')
    with 1 show ?thesis
      by (fastforce simp: read_basic_Cons split: if_splits option.splits dest: read_escape_length)
  qed
qed

datatype tval = VStr string | VArr "string list"

function read_elems :: "string \<Rightarrow> string list option" where
  "read_elems s =
     (case s of
        [] \<Rightarrow> None
      | c # r \<Rightarrow>
          if c \<noteq> CHR 0x22 then None
          else
            (case read_basic r of
               None \<Rightarrow> None
             | Some (v, t) \<Rightarrow>
                 if t = '']'' then Some [v]
                 else if starts_with '', '' t then map_option (\<lambda>vs. v # vs) (read_elems (drop 2 t))
                 else None))"
  by pat_completeness auto
termination
  by (relation "measure length") (auto dest!: read_basic_length)

declare read_elems.simps [simp del]

definition read_value :: "string \<Rightarrow> tval option" where
  "read_value s =
     (case s of
        [] \<Rightarrow> None
      | c # r \<Rightarrow>
          if c = CHR 0x22 then
            (case read_basic r of Some (v, t) \<Rightarrow> if t = [] then Some (VStr v) else None | None \<Rightarrow> None)
          else if c = CHR ''['' then (if r = '']'' then Some (VArr []) else map_option VArr (read_elems r))
          else None)"

text \<open>A line \<open>key = value\<close>.\<close>

definition read_pair :: "string \<Rightarrow> (string \<times> tval) option" where
  "read_pair l =
     (case partition1 CHR ''='' l of
        Some (k, v) \<Rightarrow>
          if ends_with '' '' k \<and> starts_with '' '' v \<and> bare_key (butlast k)
          then map_option (\<lambda>x. (butlast k, x)) (read_value (tl v)) else None
      | None \<Rightarrow> None)"

lemma bare_char_not: "bare_char c \<Longrightarrow> c \<noteq> CHR ''='' \<and> c \<noteq> CHR ''.'' \<and> c \<noteq> CHR ''#'' \<and> c \<noteq> CHR ''['' \<and>
    c \<noteq> CHR '']'' \<and> c \<noteq> CHR '' '' \<and> c \<noteq> CHR 0x0A \<and> c \<noteq> CHR 0x22"
  by (auto simp: bare_char_def is_alpha_def is_digit_def less_eq_char_def)

lemma bare_key_clean:
  assumes "bare_key k"
  shows "CHR ''='' \<notin> set k" "CHR ''.'' \<notin> set k" "CHR 0x0A \<notin> set k" "k \<noteq> []"
    "hd k \<noteq> CHR ''#''" "hd k \<noteq> CHR ''[''"
  using assms bare_char_not by (cases k; fastforce simp: bare_key_def list_all_iff)+

lemma read_pair_value:
  assumes "bare_key k" "read_value v = Some x"
  shows "read_pair (pair_line k v) = Some (k, x)"
proof -
  have "partition1 CHR ''='' ((k @ '' '') @ CHR ''='' # CHR '' '' # v) = Some (k @ '' '', CHR '' '' # v)"
    using bare_key_clean(1) [OF assms(1)] by (intro partition1_append) simp
  with assms show ?thesis by (simp add: read_pair_def pair_line_def)
qed

lemma split_on_dot: "CHR ''.'' \<notin> set a \<Longrightarrow> split_on CHR ''.'' (a @ CHR ''.'' # r) = a # split_on CHR ''.'' r"
  by (induction a) auto

lemma split_on_none: "d \<notin> set a \<Longrightarrow> split_on d a = [a]"
  by (induction a) auto

lemma dset_new: "k \<notin> set (map fst d) \<Longrightarrow> dset k v d = d @ [(k, v)]"
  unfolding dset_def by (induction d) auto

lemma dset_last: "k \<notin> set (map fst d) \<Longrightarrow> dset k v (d @ [(k, w)]) = d @ [(k, v)]"
  unfolding dset_def by (induction d) auto

section \<open>Escaped strings\<close>

text \<open>The escapes of the writers of \<open>build_state.py\<close> and \<open>stage_sentinel.py\<close>, and the strings that survive them.\<close>

definition toml_escape :: "string \<Rightarrow> string" where
  "toml_escape s =
     replace_char CHR 0x0D [CHR 0x5C, CHR ''r'']
       (replace_char CHR 0x0A [CHR 0x5C, CHR ''n'']
         (replace_char CHR 0x22 [CHR 0x5C, CHR 0x22]
           (replace_char CHR 0x5C [CHR 0x5C, CHR 0x5C] s)))"

text \<open>The characters a basic string may hold raw or escaped by \<open>_toml_escape\<close>.\<close>

definition text_char :: "char \<Rightarrow> bool" where
  "text_char c \<longleftrightarrow> \<not> is_control c \<or> c = CHR 0x09 \<or> c = CHR 0x0A \<or> c = CHR 0x0D"

definition text_ok :: "string \<Rightarrow> bool" where
  "text_ok s \<longleftrightarrow> list_all text_char s"

definition tesc :: "char \<Rightarrow> string" where
  "tesc c =
     (if c = CHR 0x5C \<or> c = CHR 0x22 then [CHR 0x5C, c]
      else if c = CHR 0x0A then [CHR 0x5C, CHR ''n'']
      else if c = CHR 0x0D then [CHR 0x5C, CHR ''r''] else [c])"

lemma toml_escape_chars: "toml_escape s = concat (map tesc s)"
proof (induction s)
  case Nil
  show ?case by (simp add: toml_escape_def replace_char_def)
next
  case (Cons c s)
  have "toml_escape (c # s) = toml_escape [c] @ toml_escape s"
    by (simp add: toml_escape_def replace_char_def)
  moreover have "toml_escape [c] = tesc c"
    by (simp add: toml_escape_def replace_char_def tesc_def)
  ultimately show ?case using Cons by simp
qed

lemma read_basic_tesc:
  "read_basic (tesc c @ r) = (if text_char c then map_option (\<lambda>(v, t). (c # v, t)) (read_basic r) else None)"
proof -
  have "\<not> is_control CHR 0x5C" "\<not> is_control CHR 0x22" by (simp_all add: is_control_def)
  then show ?thesis
    by (auto simp: tesc_def text_char_def read_basic_Cons read_escape_def simple_escape_def)
qed

lemma read_basic_text:
  "read_basic (toml_escape s @ r) = (if text_ok s then map_option (\<lambda>(v, t). (s @ v, t)) (read_basic r) else None)"
proof (induction s)
  case Nil
  then show ?case by (simp add: toml_escape_chars text_ok_def option.map_id)
next
  case (Cons c s)
  then show ?case
    by (auto simp: toml_escape_chars text_ok_def read_basic_tesc option.map_comp comp_def case_prod_beta)
qed

lemma read_basic_end [simp]: "read_basic (CHR 0x22 # r) = Some ([], r)"
  by (simp add: read_basic_Cons)

lemma read_value_text: "read_value (quoted (toml_escape s)) = (if text_ok s then Some (VStr s) else None)"
  by (simp add: read_value_def quoted_def read_basic_text)

lemma tesc_clean: "CHR 0x0A \<notin> set (tesc c)"
  by (auto simp: tesc_def)

lemma toml_escape_clean: "CHR 0x0A \<notin> set (toml_escape s)"
  by (induction s) (auto simp: toml_escape_chars tesc_clean)

lemma read_elems_quoted:
  assumes "\<And>x r. x \<in> set xs \<Longrightarrow> read_basic (f x @ CHR 0x22 # r) = Some (x, r)" "xs \<noteq> []"
  shows "read_elems (py_join '', '' (map (\<lambda>x. quoted (f x)) xs) @ '']'') = Some xs"
  using assms
proof (induction xs)
  case (Cons x xs)
  have x: "read_basic (f x @ CHR 0x22 # r) = Some (x, r)" for r using Cons.prems by simp
  show ?case
  proof (cases xs)
    case Nil
    then show ?thesis by (subst read_elems.simps) (simp add: quoted_def x)
  next
    case (Cons y ys)
    with Cons.IH Cons.prems have "read_elems (py_join '', '' (map (\<lambda>x. quoted (f x)) xs) @ '']'') = Some xs" by simp
    then show ?thesis
      by (subst read_elems.simps) (simp add: quoted_def x Cons del: py_join.simps(3), simp add: quoted_def x)
  qed
qed simp

lemma split_clean_lines:
  "ls \<noteq> [] \<Longrightarrow> \<forall>l \<in> set ls. d \<notin> set l \<Longrightarrow> split_on d (py_join [d] ls) = ls"
proof (induction "[d]" ls rule: py_join.induct)
  case (3 x y zs)
  have "split_on d (a @ d # r) = a # split_on d r" if "d \<notin> set a" for a r using that by (induction a) auto
  with 3 show ?case by simp
qed (auto simp: split_on_none)

end
