(* ===== verification/PipelineState.thy ===== *)
theory PipelineState
  imports Toml MakepkgFlags
begin

text \<open>
  Model of \<open>sysforge/primitives/pipeline_state.py\<close>: the checkpoint of the pipeline.  The
  class's \<open>_data\<close> dict is the record \<open>pstate\<close>: an absent key is \<open>None\<close>.  Every method is a
  function on it; the clock readings \<open>_now()\<close> it takes are arguments (\<open>t\<close> for the first,
  \<open>u\<close> for the one of \<open>touch\<close>).

  \<open>serialize\<close> is the writer; \<open>toml_load\<close> reads documents of the structure it emits the way
  \<open>tomllib\<close> does, and is \<open>None\<close> on anything else, invalid documents included.

  The lemmas: escaping round trips, a well-formed state is read back as it was written up
  to entries the writer drops, a finished stage stays recorded as finished, and package
  accounting survives an interrupted build.
\<close>

section \<open>State\<close>

record progress =
  pr_built :: "string list option"
  pr_failed :: "string list option"
  pr_skipped :: "string list option"
  pr_remaining :: "string list option"

record stage_data =
  sd_status :: "string option"
  sd_started_at :: "string option"
  sd_completed_at :: "string option"
  sd_first_done_at :: "string option"
  sd_error :: "string option"
  sd_progress :: "progress option"
  sd_errors :: "(string, string) dict option"
  sd_result :: "(string, pyval) dict option"

record pstate =
  ps_started_at :: "string option"
  ps_last_updated :: "string option"
  ps_stages :: "(string, stage_data) dict"

definition empty_stage :: stage_data where
  "empty_stage = \<lparr>sd_status = None, sd_started_at = None, sd_completed_at = None,
     sd_first_done_at = None, sd_error = None, sd_progress = None, sd_errors = None, sd_result = None\<rparr>"

definition empty_state :: pstate where
  "empty_state = \<lparr>ps_started_at = None, ps_last_updated = None, ps_stages = []\<rparr>"

definition STAGE_STATUSES :: "string list" where
  "STAGE_STATUSES = [''pending'', ''running'', ''done'', ''failed'', ''skipped_to'']"

definition or_nil :: "'a list option \<Rightarrow> 'a list" where
  "or_nil x = (case x of None \<Rightarrow> [] | Some xs \<Rightarrow> xs)"

lemma or_nil_simps [simp]: "or_nil None = []" "or_nil (Some xs) = xs"
  by (simp_all add: or_nil_def)

definition or_set :: "'a \<Rightarrow> 'a option \<Rightarrow> 'a option" where
  "or_set v x = (case x of None \<Rightarrow> Some v | Some w \<Rightarrow> Some w)"

section \<open>Writing\<close>

text \<open>\<open>_escape_toml_str\<close>: the replacements one after the other, then the control characters.\<close>

definition escape_control :: "char \<Rightarrow> string" where
  "escape_control c =
     (if is_control c then [CHR 0x5C, CHR ''u'', CHR ''0'', CHR ''0''] @ hex2 (of_char c) else [c])"

definition escape_toml_str :: "string \<Rightarrow> string" where
  "escape_toml_str s =
     (let s1 = replace_char CHR 0x22 [CHR 0x5C, CHR 0x22] (replace_char CHR 0x5C [CHR 0x5C, CHR 0x5C] s);
          s2 = replace_char CHR 0x09 [CHR 0x5C, CHR ''t'']
                 (replace_char CHR 0x0D [CHR 0x5C, CHR ''r'']
                    (replace_char CHR 0x0A [CHR 0x5C, CHR ''n''] s1))
      in concat (map escape_control s2))"

definition array_text :: "string list \<Rightarrow> string" where
  "array_text xs = ''['' @ py_join '', '' (map quoted xs) @ '']''"

definition stage_header :: "string \<Rightarrow> string \<Rightarrow> string" where
  "stage_header name sub = ''[stages.'' @ name @ sub @ '']''"

definition opt_line :: "string \<Rightarrow> string option \<Rightarrow> string list" where
  "opt_line key v = (case v of None \<Rightarrow> [] | Some x \<Rightarrow> [raw_line key x])"

definition list_line :: "string \<Rightarrow> string list option \<Rightarrow> string list" where
  "list_line key v =
     (case v of None \<Rightarrow> [] | Some xs \<Rightarrow> [pair_line key (array_text xs)])"

definition progress_true :: "progress \<Rightarrow> bool" where
  "progress_true p \<longleftrightarrow> \<not> (pr_built p = None \<and> pr_failed p = None \<and> pr_skipped p = None \<and> pr_remaining p = None)"

definition progress_lines :: "string \<Rightarrow> progress option \<Rightarrow> string list" where
  "progress_lines name p =
     (case p of
        None \<Rightarrow> []
      | Some p \<Rightarrow>
          if \<not> progress_true p then []
          else [stage_header name ''.progress''] @ list_line ''built'' (pr_built p) @
               list_line ''failed'' (pr_failed p) @ list_line ''skipped'' (pr_skipped p) @
               list_line ''remaining'' (pr_remaining p) @ [[]])"

definition errors_lines :: "string \<Rightarrow> (string, string) dict option \<Rightarrow> string list" where
  "errors_lines name es =
     (if or_nil es = [] then []
      else [stage_header name ''.errors''] @
           map (\<lambda>(k, e). raw_line k (escape_toml_str e)) (or_nil es) @ [[]])"

definition result_line :: "string \<times> pyval \<Rightarrow> string" where
  "result_line kv =
     (case snd kv of
        PStr s \<Rightarrow> raw_line (fst kv) (escape_toml_str s)
      | v \<Rightarrow> pair_line (fst kv) (pyval_repr v))"

definition result_lines :: "string \<Rightarrow> (string, pyval) dict option \<Rightarrow> string list" where
  "result_lines name r =
     (if or_nil r = [] then []
      else [stage_header name ''.result''] @ map result_line (or_nil r) @ [[]])"

definition written :: "stage_data \<Rightarrow> bool" where
  "written sd \<longleftrightarrow> \<not> (sd_status sd = None \<and> sd_first_done_at sd = None)"

definition stage_lines :: "string \<times> stage_data \<Rightarrow> string list" where
  "stage_lines nsd =
     (let (name, sd) = nsd
      in if \<not> written sd then []
         else [stage_header name ''''] @ opt_line ''status'' (sd_status sd) @
              opt_line ''started_at'' (sd_started_at sd) @
              opt_line ''completed_at'' (sd_completed_at sd) @
              opt_line ''first_done_at'' (sd_first_done_at sd) @
              opt_line ''error'' (map_option escape_toml_str (sd_error sd)) @ [[]] @
              progress_lines name (sd_progress sd) @ errors_lines name (sd_errors sd) @
              result_lines name (sd_result sd))"

definition state_lines :: "pstate \<Rightarrow> string list" where
  "state_lines d =
     [''# SysForge pipeline state'', ''# Do not edit while the pipeline is running.'', []] @
     (if ps_started_at d = None \<and> ps_last_updated d = None then []
      else [''[meta]''] @ opt_line ''started_at'' (ps_started_at d) @
           opt_line ''last_updated'' (ps_last_updated d) @ [[]]) @
     concat (map stage_lines (ps_stages d))"

definition serialize :: "pstate \<Rightarrow> string" where
  "serialize d = py_join [CHR 0x0A] (state_lines d)"

text \<open>\<open>save\<close> and \<open>_load\<close>; the file is its text, or \<open>None\<close> when there is none.\<close>

definition save :: "bool \<Rightarrow> pstate \<Rightarrow> string option \<Rightarrow> string option" where
  "save read_only d file = (if read_only then file else Some (serialize d))"

definition load :: "(string \<Rightarrow> pstate option) \<Rightarrow> string option \<Rightarrow> pstate option" where
  "load loads file = (case file of None \<Rightarrow> Some empty_state | Some text \<Rightarrow> loads text)"

section \<open>Operations\<close>

definition init_meta :: "string \<Rightarrow> string \<Rightarrow> pstate \<Rightarrow> pstate" where
  "init_meta t u d =
     (let d1 = (if ps_started_at d = None then d\<lparr>ps_started_at := Some t\<rparr> else d)
      in d1\<lparr>ps_last_updated := Some u\<rparr>)"

definition touch :: "string \<Rightarrow> pstate \<Rightarrow> pstate" where
  "touch u d = d\<lparr>ps_last_updated := Some u\<rparr>"

definition stage_entry :: "pstate \<Rightarrow> string \<Rightarrow> stage_data" where
  "stage_entry d n = dget_or empty_stage (ps_stages d) n"

definition stage_status :: "pstate \<Rightarrow> string \<Rightarrow> string" where
  "stage_status d n = (case sd_status (stage_entry d n) of None \<Rightarrow> ''pending'' | Some s \<Rightarrow> s)"

text \<open>\<open>stages.setdefault(name, {})\<close> followed by an update of the entry in place.\<close>

definition upd_stage :: "string \<Rightarrow> (stage_data \<Rightarrow> stage_data) \<Rightarrow> pstate \<Rightarrow> pstate" where
  "upd_stage n f d = d\<lparr>ps_stages := dset n (f (stage_entry d n)) (ps_stages d)\<rparr>"

definition clear_error :: "string \<Rightarrow> pstate \<Rightarrow> pstate" where
  "clear_error n d =
     (if dhas (ps_stages d) n then upd_stage n (\<lambda>s. s\<lparr>sd_error := None\<rparr>) d else d)"

definition set_stage :: "string \<Rightarrow> string \<Rightarrow> (stage_data \<Rightarrow> stage_data) \<Rightarrow> pstate \<Rightarrow> pstate" where
  "set_stage u n f d = touch u (upd_stage n f d)"

definition mark_running :: "string \<Rightarrow> string \<Rightarrow> string \<Rightarrow> pstate \<Rightarrow> pstate" where
  "mark_running t u n d =
     set_stage u n (\<lambda>s. s\<lparr>sd_status := Some ''running'', sd_started_at := Some t\<rparr>) (clear_error n d)"

definition mark_done :: "string \<Rightarrow> string \<Rightarrow> string \<Rightarrow> pstate \<Rightarrow> pstate" where
  "mark_done t u n d =
     upd_stage n (\<lambda>s. s\<lparr>sd_first_done_at := or_set t (sd_first_done_at s)\<rparr>)
       (set_stage u n (\<lambda>s. s\<lparr>sd_status := Some ''done'', sd_completed_at := Some t\<rparr>) (clear_error n d))"

definition note_completed :: "string \<Rightarrow> string \<Rightarrow> string \<Rightarrow> pstate \<Rightarrow> pstate" where
  "note_completed t u n d =
     touch u (upd_stage n (\<lambda>s. s\<lparr>sd_first_done_at := or_set t (sd_first_done_at s)\<rparr>) d)"

definition stage_ever_done :: "pstate \<Rightarrow> string \<Rightarrow> bool" where
  "stage_ever_done d n \<longleftrightarrow>
     sd_status (stage_entry d n) = Some ''done'' \<or> sd_first_done_at (stage_entry d n) \<noteq> None"

definition mark_failed :: "string \<Rightarrow> string \<Rightarrow> string \<Rightarrow> string \<Rightarrow> pstate \<Rightarrow> pstate" where
  "mark_failed t u n err d =
     set_stage u n (\<lambda>s. s\<lparr>sd_status := Some ''failed'', sd_completed_at := Some t, sd_error := Some err\<rparr>) d"

definition mark_skipped_to :: "string \<Rightarrow> string \<Rightarrow> pstate \<Rightarrow> pstate" where
  "mark_skipped_to u n d = set_stage u n (\<lambda>s. s\<lparr>sd_status := Some ''skipped_to''\<rparr>) d"

subsection \<open>Package progress\<close>

definition fresh_progress :: progress where
  "fresh_progress = \<lparr>pr_built = Some [], pr_failed = Some [], pr_skipped = Some [], pr_remaining = Some []\<rparr>"

text \<open>\<open>_progress\<close>: the entry exists, has a status and a progress dict.\<close>

definition ensure_progress :: "pstate \<Rightarrow> pstate" where
  "ensure_progress d =
     upd_stage ''packages''
       (\<lambda>s. s\<lparr>sd_status := or_set ''running'' (sd_status s),
              sd_progress := or_set fresh_progress (sd_progress s)\<rparr>) d"

definition progress_of :: "pstate \<Rightarrow> progress" where
  "progress_of d =
     (case sd_progress (stage_entry d ''packages'') of None \<Rightarrow> fresh_progress | Some p \<Rightarrow> p)"

definition on_progress :: "string \<Rightarrow> (progress \<Rightarrow> progress) \<Rightarrow> pstate \<Rightarrow> pstate" where
  "on_progress u f d =
     (let d1 = ensure_progress d
      in touch u (upd_stage ''packages'' (\<lambda>s. s\<lparr>sd_progress := Some (f (progress_of d1))\<rparr>) d1))"

definition without :: "string \<Rightarrow> string list option \<Rightarrow> string list option" where
  "without n xs = Some (filter (\<lambda>m. m \<noteq> n) (or_nil xs))"

definition with_name :: "string \<Rightarrow> string list option \<Rightarrow> string list option" where
  "with_name n xs = (if n \<in> set (or_nil xs) then xs else Some (or_nil xs @ [n]))"

definition accounted :: "progress \<Rightarrow> string set" where
  "accounted p = set (or_nil (pr_remaining p)) \<union> set (or_nil (pr_built p)) \<union>
     set (or_nil (pr_failed p)) \<union> set (or_nil (pr_skipped p))"

definition init_progress :: "string list \<Rightarrow> progress \<Rightarrow> progress" where
  "init_progress names p =
     (if or_nil (pr_remaining p) = [] \<and> or_nil (pr_built p) = [] then p\<lparr>pr_remaining := Some names\<rparr>
      else
        (let lost = filter (\<lambda>n. n \<notin> accounted p) names; remaining = or_nil (pr_remaining p)
         in if lost = [] then p
            else p\<lparr>pr_remaining := Some (filter (\<lambda>n. n \<in> set remaining \<or> n \<in> set lost) names @
                     filter (\<lambda>n. n \<notin> set names) remaining)\<rparr>))"

definition init_package_list :: "string \<Rightarrow> string list \<Rightarrow> pstate \<Rightarrow> pstate" where
  "init_package_list u names d = on_progress u (init_progress names) d"

definition building_progress :: "string \<Rightarrow> progress \<Rightarrow> progress" where
  "building_progress n p = p\<lparr>pr_remaining := without n (pr_remaining p)\<rparr>"

definition mark_package_building :: "string \<Rightarrow> string \<Rightarrow> pstate \<Rightarrow> pstate" where
  "mark_package_building u n d = on_progress u (building_progress n) d"

definition built_progress :: "string \<Rightarrow> progress \<Rightarrow> progress" where
  "built_progress n p =
     p\<lparr>pr_built := with_name n (Some (or_nil (pr_built p))), pr_remaining := without n (pr_remaining p),
       pr_failed := without n (pr_failed p)\<rparr>"

definition mark_package_built :: "string \<Rightarrow> string \<Rightarrow> pstate \<Rightarrow> pstate" where
  "mark_package_built u n d = on_progress u (built_progress n) d"

definition failed_progress :: "string \<Rightarrow> progress \<Rightarrow> progress" where
  "failed_progress n p =
     p\<lparr>pr_failed := with_name n (pr_failed p), pr_remaining := without n (pr_remaining p)\<rparr>"

definition mark_package_failed :: "string \<Rightarrow> string \<Rightarrow> string \<Rightarrow> pstate \<Rightarrow> pstate" where
  "mark_package_failed u n err d =
     touch u (upd_stage ''packages'' (\<lambda>s. s\<lparr>sd_errors := Some (dset n err (or_nil (sd_errors s)))\<rparr>)
       (on_progress u (failed_progress n) d))"

definition skipped_progress :: "string \<Rightarrow> progress \<Rightarrow> progress" where
  "skipped_progress n p =
     p\<lparr>pr_skipped := with_name n (pr_skipped p), pr_remaining := without n (pr_remaining p),
       pr_failed := without n (pr_failed p)\<rparr>"

definition mark_package_skipped :: "string \<Rightarrow> string \<Rightarrow> pstate \<Rightarrow> pstate" where
  "mark_package_skipped u n d = on_progress u (skipped_progress n) d"

text \<open>\<open>get_package_progress\<close> creates the progress dict as a side effect.\<close>

definition get_package_progress :: "pstate \<Rightarrow> progress \<times> pstate" where
  "get_package_progress d = (progress_of (ensure_progress d), ensure_progress d)"

definition get_package_errors :: "pstate \<Rightarrow> (string, string) dict" where
  "get_package_errors d = or_nil (sd_errors (stage_entry d ''packages''))"

subsection \<open>Stage results and the toolchain variant\<close>

definition set_stage_result :: "string \<Rightarrow> string \<Rightarrow> (string, pyval) dict \<Rightarrow> pstate \<Rightarrow> pstate" where
  "set_stage_result u n r d = touch u (upd_stage n (\<lambda>s. s\<lparr>sd_result := Some r\<rparr>) d)"

definition get_stage_result :: "pstate \<Rightarrow> string \<Rightarrow> (string, pyval) dict" where
  "get_stage_result d n = or_nil (sd_result (stage_entry d n))"

definition get_toolchain_variant :: "pstate \<Rightarrow> pyval" where
  "get_toolchain_variant d = dget_or (PStr ''system'') (get_stage_result d ''toolchain'') ''variant''"

definition variant_family :: "string option \<Rightarrow> string option" where
  "variant_family v =
     (if v = Some ''gcc'' then Some ''gcc''
      else if v = Some ''stock_llvm'' \<or> v = Some ''pgo_llvm'' then Some ''llvm''
      else None)"

definition variant_for_compiler :: "string option \<Rightarrow> string option" where
  "variant_for_compiler cc =
     (let name = path_name (case cc of None \<Rightarrow> [] | Some c \<Rightarrow> c)
      in if contains ''clang'' name then Some ''stock_llvm''
         else if contains ''gcc'' name \<or> contains ''g++'' name then Some ''gcc''
         else None)"

definition variant_built_with :: "string option \<Rightarrow> string option \<Rightarrow> string option" where
  "variant_built_with active cc =
     (let own = variant_for_compiler cc; active_family = variant_family active
      in if own = None \<or> active_family = None \<or> variant_family own = active_family then active else own)"

text \<open>\<open>fingerprint method cc\<close> stands for \<open>build_fingerprint.toolchain_fingerprint\<close>.\<close>

definition get_toolchain_fingerprint ::
    "(pyval option \<Rightarrow> string option) \<Rightarrow> pstate \<Rightarrow> string option" where
  "get_toolchain_fingerprint fingerprint d =
     (let result = get_stage_result d ''toolchain'';
          variant = dget_or (PStr ''system'') result ''variant''
      in if variant = PStr ''system'' then None else fingerprint (dget result ''cc''))"

section \<open>Reading\<close>

text \<open>
  The reader of the documents \<open>serialize\<close> emits, after the TOML grammar: basic strings with
  their escapes, arrays of basic strings, bare keys, table headers.
\<close>

definition esc_char :: "char \<Rightarrow> string" where
  "esc_char c =
     (if c = CHR 0x5C \<or> c = CHR 0x22 then [CHR 0x5C, c]
      else if c = CHR 0x0A then [CHR 0x5C, CHR ''n'']
      else if c = CHR 0x0D then [CHR 0x5C, CHR ''r'']
      else if c = CHR 0x09 then [CHR 0x5C, CHR ''t'']
      else escape_control c)"

lemma escape_toml_str_chars: "escape_toml_str s = concat (map esc_char s)"
proof (induction s)
  case Nil
  show ?case by (simp add: escape_toml_str_def replace_char_def)
next
  case (Cons c s)
  have "escape_toml_str (c # s) = escape_toml_str [c] @ escape_toml_str s"
    by (simp add: escape_toml_str_def Let_def replace_char_def)
  moreover have "escape_toml_str [c] = esc_char c"
    by (simp add: escape_toml_str_def Let_def replace_char_def esc_char_def escape_control_def is_control_def)
  ultimately show ?case using Cons by simp
qed

lemma hex_val_digit: "n < 16 \<Longrightarrow> hex_val (digit_chr n) = Some n"
proof -
  assume "n < 16"
  then have "n \<in> set [0..<16]" by simp
  then show ?thesis
    by (simp add: upt_rec) (elim disjE; simp add: hex_val_def digit_chr_def)
qed

lemma high_digit: "of_char (c :: char) div 16 < (16 :: nat)"
  by (rule less_mult_imp_div_less) simp

lemma read_escape_esc_char:
  "esc_char c = CHR 0x5C # e \<Longrightarrow> c = CHR 0x5C \<or> esc_char c \<noteq> [c] \<Longrightarrow> read_escape (e @ r) = Some (c, r)"
proof -
  assume esc: "esc_char c = CHR 0x5C # e" and ne: "c = CHR 0x5C \<or> esc_char c \<noteq> [c]"
  consider "c = CHR 0x5C" | "c = CHR 0x22" | "c = CHR 0x0A" | "c = CHR 0x0D" | "c = CHR 0x09"
    | "c \<notin> {CHR 0x5C, CHR 0x22, CHR 0x0A, CHR 0x0D, CHR 0x09}" "is_control c"
    using ne by (fastforce simp: esc_char_def escape_control_def)
  then show ?thesis
  proof cases
    case 6
    then have e: "e = CHR ''u'' # CHR ''0'' # CHR ''0'' # digit_chr (of_char c div 16) # [digit_chr (of_char c mod 16)]"
      using esc by (simp add: esc_char_def escape_control_def hex2_def)
    have "hex_val (CHR ''0'') = Some 0" by (simp add: hex_val_def)
    moreover have "char_of (16 * (of_char c div 16) + of_char c mod 16 :: nat) = c" by simp
    ultimately show ?thesis
      by (simp add: e read_escape_def hex_val_digit high_digit)
  qed (use esc in \<open>auto simp: esc_char_def read_escape_def simple_escape_def\<close>)
qed

lemma esc_char_shape: "esc_char c = [c] \<and> c \<noteq> CHR 0x5C \<and> c \<noteq> CHR 0x22 \<and> \<not> is_control c \<or>
    (\<exists>e. esc_char c = CHR 0x5C # e) \<and> (c = CHR 0x5C \<or> esc_char c \<noteq> [c])"
  by (auto simp: esc_char_def escape_control_def is_control_def)

lemma read_basic_esc_char: "read_basic (esc_char c @ r) = map_option (\<lambda>(v, t). (c # v, t)) (read_basic r)"
  using esc_char_shape [of c]
proof (elim disjE)
  assume "(\<exists>e. esc_char c = CHR 0x5C # e) \<and> (c = CHR 0x5C \<or> esc_char c \<noteq> [c])"
  then obtain e where "esc_char c = CHR 0x5C # e" "read_escape (e @ r) = Some (c, r)"
    using read_escape_esc_char by blast
  then show ?thesis by (simp add: read_basic_Cons)
qed (simp add: read_basic_Cons)

lemma read_basic_escape: "read_basic (escape_toml_str s @ CHR 0x22 # r) = Some (s, r)"
  by (induction s) (simp_all add: escape_toml_str_chars read_basic_esc_char)

text \<open>A string that needs no escape is written as it is.\<close>

definition plain_char :: "char \<Rightarrow> bool" where
  "plain_char c \<longleftrightarrow> \<not> is_control c \<and> c \<noteq> CHR 0x22 \<and> c \<noteq> CHR 0x5C"

definition plain :: "string \<Rightarrow> bool" where
  "plain s \<longleftrightarrow> list_all plain_char s"

lemma esc_char_plain: "plain_char c \<Longrightarrow> esc_char c = [c]"
  by (auto simp: plain_char_def esc_char_def escape_control_def is_control_def)

lemma escape_plain: "plain s \<Longrightarrow> escape_toml_str s = s"
  by (induction s) (simp_all add: plain_def escape_toml_str_chars esc_char_plain)

lemma digit_chr_clean: "n < 16 \<Longrightarrow> digit_chr n \<noteq> CHR 0x0A"
  using hex_val_digit [of n] by (auto simp: hex_val_def)

lemma esc_char_clean: "CHR 0x0A \<notin> set (esc_char c)"
proof (cases "is_control c")
  case True
  have "digit_chr (of_char c div 16) \<noteq> CHR 0x0A" "digit_chr (of_char c mod 16) \<noteq> CHR 0x0A"
    by (intro digit_chr_clean high_digit, intro digit_chr_clean, simp)
  with True show ?thesis by (simp add: esc_char_def escape_control_def hex2_def)
next
  case False
  then show ?thesis by (simp add: esc_char_def escape_control_def is_control_def)
qed

lemma escape_clean: "CHR 0x0A \<notin> set (escape_toml_str s)"
  by (induction s) (auto simp: escape_toml_str_chars esc_char_clean)

datatype table = Root | Meta | Stage string | Progress string | Errors string | Result string

definition read_header :: "string \<Rightarrow> table option" where
  "read_header l =
     (if starts_with ''['' l \<and> ends_with '']'' l then
        (let parts = split_on CHR ''.'' (butlast (tl l))
         in if \<not> list_all bare_key parts then None
            else (case parts of
                    [a] \<Rightarrow> if a = ''meta'' then Some Meta else None
                  | [a, n] \<Rightarrow> if a = ''stages'' then Some (Stage n) else None
                  | [a, n, x] \<Rightarrow>
                      if a \<noteq> ''stages'' then None
                      else if x = ''progress'' then Some (Progress n)
                      else if x = ''errors'' then Some (Errors n)
                      else if x = ''result'' then Some (Result n)
                      else None
                  | _ \<Rightarrow> None))
      else None)"

definition no_progress :: progress where
  "no_progress = \<lparr>pr_built = None, pr_failed = None, pr_skipped = None, pr_remaining = None\<rparr>"

fun open_table :: "table \<Rightarrow> pstate \<Rightarrow> pstate" where
  "open_table Root d = d"
| "open_table Meta d = d"
| "open_table (Stage n) d = upd_stage n (\<lambda>s. s) d"
| "open_table (Progress n) d = upd_stage n (\<lambda>s. s\<lparr>sd_progress := or_set no_progress (sd_progress s)\<rparr>) d"
| "open_table (Errors n) d = upd_stage n (\<lambda>s. s\<lparr>sd_errors := or_set [] (sd_errors s)\<rparr>) d"
| "open_table (Result n) d = upd_stage n (\<lambda>s. s\<lparr>sd_result := or_set [] (sd_result s)\<rparr>) d"

definition stage_field :: "string \<Rightarrow> string \<Rightarrow> (stage_data \<Rightarrow> stage_data) option" where
  "stage_field k v =
     (if k = ''status'' then Some (\<lambda>s. s\<lparr>sd_status := Some v\<rparr>)
      else if k = ''started_at'' then Some (\<lambda>s. s\<lparr>sd_started_at := Some v\<rparr>)
      else if k = ''completed_at'' then Some (\<lambda>s. s\<lparr>sd_completed_at := Some v\<rparr>)
      else if k = ''first_done_at'' then Some (\<lambda>s. s\<lparr>sd_first_done_at := Some v\<rparr>)
      else if k = ''error'' then Some (\<lambda>s. s\<lparr>sd_error := Some v\<rparr>)
      else None)"

definition progress_field :: "string \<Rightarrow> string list \<Rightarrow> (progress \<Rightarrow> progress) option" where
  "progress_field k v =
     (if k = ''built'' then Some (\<lambda>p. p\<lparr>pr_built := Some v\<rparr>)
      else if k = ''failed'' then Some (\<lambda>p. p\<lparr>pr_failed := Some v\<rparr>)
      else if k = ''skipped'' then Some (\<lambda>p. p\<lparr>pr_skipped := Some v\<rparr>)
      else if k = ''remaining'' then Some (\<lambda>p. p\<lparr>pr_remaining := Some v\<rparr>)
      else None)"

fun put :: "table \<Rightarrow> string \<Rightarrow> tval \<Rightarrow> pstate \<Rightarrow> pstate option" where
  "put Meta k (VStr v) d =
     (if k = ''started_at'' then Some (d\<lparr>ps_started_at := Some v\<rparr>)
      else if k = ''last_updated'' then Some (d\<lparr>ps_last_updated := Some v\<rparr>) else None)"
| "put (Stage n) k (VStr v) d = map_option (\<lambda>f. upd_stage n f d) (stage_field k v)"
| "put (Progress n) k (VArr v) d =
     map_option (\<lambda>f. upd_stage n (\<lambda>s. s\<lparr>sd_progress := map_option f (sd_progress s)\<rparr>) d) (progress_field k v)"
| "put (Errors n) k (VStr v) d =
     Some (upd_stage n (\<lambda>s. s\<lparr>sd_errors := map_option (dset k v) (sd_errors s)\<rparr>) d)"
| "put (Result n) k (VStr v) d =
     Some (upd_stage n (\<lambda>s. s\<lparr>sd_result := map_option (dset k (PStr v)) (sd_result s)\<rparr>) d)"
| "put _ k v d = None"

definition read_line :: "string \<Rightarrow> table \<times> pstate \<Rightarrow> (table \<times> pstate) option" where
  "read_line l st =
     (let (t, d) = st
      in if l = [] \<or> hd l = CHR ''#'' then Some st
         else if hd l = CHR ''['' then map_option (\<lambda>t. (t, open_table t d)) (read_header l)
         else (case read_pair l of
                 None \<Rightarrow> None
               | Some (k, v) \<Rightarrow> map_option (Pair t) (put t k v d)))"

fun read_lines :: "string list \<Rightarrow> table \<times> pstate \<Rightarrow> (table \<times> pstate) option" where
  "read_lines [] st = Some st"
| "read_lines (l # ls) st = (case read_line l st of None \<Rightarrow> None | Some st' \<Rightarrow> read_lines ls st')"

definition toml_load :: "string \<Rightarrow> pstate option" where
  "toml_load text = map_option snd (read_lines (split_on CHR 0x0A text) (Root, empty_state))"

lemma read_lines_append:
  "read_lines (a @ b) st = (case read_lines a st of None \<Rightarrow> None | Some st' \<Rightarrow> read_lines b st')"
  by (induction a st rule: read_lines.induct) (auto split: option.splits)

section \<open>Round trip\<close>

lemma read_line_value:
  assumes "bare_key k" "read_value v = Some x"
  shows "read_line (pair_line k v) (t, d) = map_option (Pair t) (put t k x d)"
  using read_pair_value [OF assms] bare_key_clean [OF assms(1)] by (simp add: read_line_def pair_line_def hd_append)

lemma read_value_quoted: "read_value (quoted (escape_toml_str s)) = Some (VStr s)"
  by (simp add: read_value_def quoted_def read_basic_escape)

lemma read_elems_list:
  assumes "xs \<noteq> []" "list_all plain xs"
  shows "read_elems (py_join '', '' (map quoted xs) @ '']'') = Some xs"
proof -
  have "read_basic (x @ CHR 0x22 # r) = Some (x, r)" if "x \<in> set xs" for x r
    using that assms(2) read_basic_escape [of x r] by (simp add: list_all_iff escape_plain)
  then show ?thesis using read_elems_quoted [of xs "\<lambda>x. x"] assms(1) by simp
qed

lemma read_line_blank [simp]: "read_line [] st = Some st"
  by (cases st) (simp add: read_line_def)

lemma read_value_array:
  assumes "list_all plain xs"
  shows "read_value (array_text xs) = Some (VArr xs)"
proof (cases "xs = []")
  case True
  then show ?thesis by (simp add: read_value_def array_text_def)
next
  case False
  have "py_join '', '' (map quoted xs) @ '']'' \<noteq> '']''"
    using False by (cases xs; cases "tl xs") (auto simp: quoted_def)
  with False assms show ?thesis by (simp add: read_value_def array_text_def read_elems_list)
qed

lemma read_line_list:
  "bare_key k \<Longrightarrow> list_all plain xs \<Longrightarrow>
   read_line (pair_line k (array_text xs)) (t, d) = map_option (Pair t) (put t k (VArr xs) d)"
  by (rule read_line_value [OF _ read_value_array])

lemma read_line_raw:
  "bare_key k \<Longrightarrow> read_line (raw_line k (escape_toml_str s)) (t, d) = map_option (Pair t) (put t k (VStr s) d)"
  by (simp add: raw_line_def read_line_value [OF _ read_value_quoted])

lemma read_line_plain: "bare_key k \<Longrightarrow> plain s \<Longrightarrow> read_line (raw_line k s) (t, d) = map_option (Pair t) (put t k (VStr s) d)"
  using read_line_raw [of k s t d] by (simp add: escape_plain)

lemma literal_keys: "bare_key ''stages''" "bare_key ''meta''" "bare_key ''progress''" "bare_key ''errors''"
    "bare_key ''result''" "bare_key ''status''" "bare_key ''started_at''" "bare_key ''completed_at''"
    "bare_key ''first_done_at''" "bare_key ''error''" "bare_key ''built''" "bare_key ''failed''"
    "bare_key ''skipped''" "bare_key ''remaining''" "bare_key ''last_updated''"
  by code_simp+

lemma read_line_header:
  assumes "bare_key n"
  shows "read_line (stage_header n []) (t, d) = Some (Stage n, open_table (Stage n) d)"
    and "read_line (stage_header n ''.progress'') (t, d) = Some (Progress n, open_table (Progress n) d)"
    and "read_line (stage_header n ''.errors'') (t, d) = Some (Errors n, open_table (Errors n) d)"
    and "read_line (stage_header n ''.result'') (t, d) = Some (Result n, open_table (Result n) d)"
proof -
  note n = bare_key_clean(2) [OF assms]
  have two: "split_on CHR ''.'' (''stages.'' @ n) = [''stages'', n]"
    using n by (simp add: split_on_none)
  have three: "split_on CHR ''.'' (''stages.'' @ n @ CHR ''.'' # x) = [''stages'', n, x]"
    if "CHR ''.'' \<notin> set x" for x
    using n that by (simp add: split_on_dot split_on_none)
  have tl: "butlast (tl (stage_header n x)) = ''stages.'' @ n @ x" for x
    by (simp add: stage_header_def butlast_append)
  have ends: "starts_with ''['' (stage_header n x) \<and> ends_with '']'' (stage_header n x)" for x
    by (simp add: stage_header_def ends_with_def)
  have hd: "stage_header n x \<noteq> [] \<and> hd (stage_header n x) = CHR ''[''" for x
    by (simp add: stage_header_def)
  have line: "read_line (stage_header n x) (t, d) =
      map_option (\<lambda>t. (t, open_table t d)) (read_header (stage_header n x))" for x
    using hd [of x] by (simp add: read_line_def)
  show "read_line (stage_header n []) (t, d) = Some (Stage n, open_table (Stage n) d)"
    using two assms by (simp add: line read_header_def ends tl literal_keys)
  show "read_line (stage_header n ''.progress'') (t, d) = Some (Progress n, open_table (Progress n) d)"
    "read_line (stage_header n ''.errors'') (t, d) = Some (Errors n, open_table (Errors n) d)"
    "read_line (stage_header n ''.result'') (t, d) = Some (Result n, open_table (Result n) d)"
    using three assms by (simp_all add: line read_header_def ends tl literal_keys)
qed

text \<open>The state being read: finished stages \<open>S\<close>, then the stage \<open>n\<close> with the entry \<open>x\<close>.\<close>

definition at_stage :: "pstate \<Rightarrow> string \<Rightarrow> stage_data \<Rightarrow> pstate" where
  "at_stage d n x = d\<lparr>ps_stages := ps_stages d @ [(n, x)]\<rparr>"

lemma upd_stage_new:
  assumes "n \<notin> set (map fst (ps_stages d))"
  shows "upd_stage n f d = at_stage d n (f empty_stage)"
proof -
  have "dget (ps_stages d) n = None" using assms by (simp add: map_of_eq_None_iff)
  with assms show ?thesis
    by (simp add: upd_stage_def at_stage_def dset_new stage_entry_def dget_or_def)
qed

lemma upd_stage_at:
  assumes "n \<notin> set (map fst (ps_stages d))"
  shows "upd_stage n f (at_stage d n x) = at_stage d n (f x)"
proof -
  have "dget (ps_stages d) n = None" using assms by (simp add: map_of_eq_None_iff)
  then have "dget (ps_stages d @ [(n, x)]) n = Some x" by (simp add: map_add_def)
  with assms show ?thesis
    by (simp add: upd_stage_def at_stage_def stage_entry_def dget_or_def dset_last)
qed

definition opt_plain :: "string option \<Rightarrow> bool" where
  "opt_plain v \<longleftrightarrow> (case v of None \<Rightarrow> True | Some s \<Rightarrow> plain s)"

lemma read_opt_line:
  assumes "opt_plain v" "bare_key k"
  shows "read_lines (opt_line k v @ ls) (t, d) =
    (case v of None \<Rightarrow> read_lines ls (t, d)
     | Some s \<Rightarrow> (case put t k (VStr s) d of None \<Rightarrow> None | Some d' \<Rightarrow> read_lines ls (t, d')))"
  using assms by (cases v; cases "put t k (VStr (the v)) d") (simp_all add: opt_line_def opt_plain_def read_line_plain)

lemma read_opt_error:
  "read_lines (opt_line ''error'' (map_option escape_toml_str v) @ ls) (t, d) =
    (case v of None \<Rightarrow> read_lines ls (t, d)
     | Some s \<Rightarrow> (case put t ''error'' (VStr s) d of None \<Rightarrow> None | Some d' \<Rightarrow> read_lines ls (t, d')))"
  by (cases v; cases "put t ''error'' (VStr (the v)) d") (simp_all add: opt_line_def read_line_raw literal_keys)

lemma read_list_line:
  assumes "list_all plain (or_nil v)" "bare_key k"
  shows "read_lines (list_line k v @ ls) (t, d) =
    (case v of None \<Rightarrow> read_lines ls (t, d)
     | Some xs \<Rightarrow> (case put t k (VArr xs) d of None \<Rightarrow> None | Some d' \<Rightarrow> read_lines ls (t, d')))"
  using assms by (cases v; cases "put t k (VArr (the v)) d") (simp_all add: list_line_def or_nil_def read_line_list)

lemma opt_line_None [simp]: "opt_line k None = []"
  by (simp add: opt_line_def)

lemma read_error_line:
  "read_lines (opt_line ''error'' (Some (escape_toml_str s)) @ ls) (t, d) =
    (case put t ''error'' (VStr s) d of None \<Rightarrow> None | Some d' \<Rightarrow> read_lines ls (t, d'))"
  using read_opt_error [of "Some s"] by simp

definition wf_progress :: "progress \<Rightarrow> bool" where
  "wf_progress p \<longleftrightarrow> list_all plain (or_nil (pr_built p) @ or_nil (pr_failed p) @ or_nil (pr_skipped p) @ or_nil (pr_remaining p))"

definition is_str :: "pyval \<Rightarrow> bool" where
  "is_str v = (case v of PStr _ \<Rightarrow> True | _ \<Rightarrow> False)"

definition wf_stage :: "stage_data \<Rightarrow> bool" where
  "wf_stage x \<longleftrightarrow> opt_plain (sd_status x) \<and> opt_plain (sd_started_at x) \<and> opt_plain (sd_completed_at x) \<and>
     opt_plain (sd_first_done_at x) \<and> (case sd_progress x of None \<Rightarrow> True | Some p \<Rightarrow> wf_progress p) \<and>
     list_all bare_key (map fst (or_nil (sd_errors x))) \<and> dict_ok (or_nil (sd_errors x)) \<and>
     list_all bare_key (map fst (or_nil (sd_result x))) \<and> dict_ok (or_nil (sd_result x)) \<and>
     list_all is_str (map snd (or_nil (sd_result x)))"

text \<open>What the file keeps of an entry: empty tables are not written.\<close>

definition norm_stage :: "stage_data \<Rightarrow> stage_data" where
  "norm_stage x = x\<lparr>sd_progress := (case sd_progress x of None \<Rightarrow> None | Some p \<Rightarrow> if progress_true p then Some p else None),
     sd_errors := (if or_nil (sd_errors x) = [] then None else sd_errors x),
     sd_result := (if or_nil (sd_result x) = [] then None else sd_result x)\<rparr>"

definition norm_state :: "pstate \<Rightarrow> pstate" where
  "norm_state d = d\<lparr>ps_stages := map (\<lambda>(n, x). (n, norm_stage x)) (filter (\<lambda>(n, x). written x) (ps_stages d))\<rparr>"

definition wf_state :: "pstate \<Rightarrow> bool" where
  "wf_state d \<longleftrightarrow> opt_plain (ps_started_at d) \<and> opt_plain (ps_last_updated d) \<and> dict_ok (ps_stages d) \<and>
     list_all (\<lambda>(n, x). bare_key n \<and> wf_stage x) (ps_stages d)"

lemma read_scalars:
  assumes "wf_stage x" "n \<notin> set (map fst (ps_stages d))"
  shows "read_lines (opt_line ''status'' (sd_status x) @ opt_line ''started_at'' (sd_started_at x) @
      opt_line ''completed_at'' (sd_completed_at x) @ opt_line ''first_done_at'' (sd_first_done_at x) @
      opt_line ''error'' (map_option escape_toml_str (sd_error x)) @ [[]] @ ls) (Stage n, at_stage d n empty_stage) =
    read_lines ls (Stage n, at_stage d n (x\<lparr>sd_progress := None, sd_errors := None, sd_result := None\<rparr>))"
proof -
  obtain a b c e f g h i where x: "x = \<lparr>sd_status = a, sd_started_at = b, sd_completed_at = c,
      sd_first_done_at = e, sd_error = f, sd_progress = g, sd_errors = h, sd_result = i\<rparr>"
    by (cases x)
  have "opt_plain a" "opt_plain b" "opt_plain c" "opt_plain e"
    using assms(1) by (simp_all add: x wf_stage_def)
  then show ?thesis
    by (cases a; cases b; cases c; cases e; cases f;
        simp add: x literal_keys read_opt_line read_error_line stage_field_def upd_stage_at [OF assms(2)] empty_stage_def)
qed

lemma read_progress:
  assumes "case p of None \<Rightarrow> True | Some q \<Rightarrow> wf_progress q" "bare_key n" "n \<notin> set (map fst (ps_stages d))"
    and "sd_progress x = None"
  shows "\<exists>t'. read_lines (progress_lines n p @ ls) (t, at_stage d n x) =
    read_lines ls (t', at_stage d n (x\<lparr>sd_progress := (case p of None \<Rightarrow> None | Some q \<Rightarrow> if progress_true q then Some q else None)\<rparr>))"
proof (cases "p = None \<or> \<not> progress_true (the p)")
  case True
  then have "progress_lines n p = []" by (cases p) (simp_all add: progress_lines_def)
  moreover have "x\<lparr>sd_progress := None\<rparr> = x" using assms(4) by simp
  ultimately show ?thesis using True by (auto split: option.splits)
next
  case False
  then obtain q where q: "p = Some q" "progress_true q" by auto
  obtain a b c e where qe: "q = \<lparr>pr_built = a, pr_failed = b, pr_skipped = c, pr_remaining = e\<rparr>"
    by (cases q)
  have pl: "list_all plain (or_nil a)" "list_all plain (or_nil b)" "list_all plain (or_nil c)" "list_all plain (or_nil e)"
    using assms(1) by (simp_all add: q(1) qe wf_progress_def)
  have "read_lines (list_line ''built'' a @ list_line ''failed'' b @ list_line ''skipped'' c @ list_line ''remaining'' e @ [[]] @ ls)
      (Progress n, at_stage d n (x\<lparr>sd_progress := Some no_progress\<rparr>)) =
    read_lines ls (Progress n, at_stage d n (x\<lparr>sd_progress := Some q\<rparr>))"
    using pl
    by (cases a; cases b; cases c; cases e;
        simp add: literal_keys read_list_line progress_field_def upd_stage_at [OF assms(3)] qe no_progress_def)
  then show ?thesis
    using q assms(4)
    by (intro exI [of _ "Progress n"])
      (simp add: progress_lines_def read_line_header(2) [OF assms(2)] upd_stage_at [OF assms(3)] or_set_def qe)
qed

lemma read_error_entries:
  assumes "n \<notin> set (map fst (ps_stages d))"
  shows "list_all bare_key (map fst es) \<Longrightarrow> dict_ok (es0 @ es) \<Longrightarrow>
    read_lines (map (\<lambda>(k, e). raw_line k (escape_toml_str e)) es @ ls)
      (Errors n, at_stage d n (x\<lparr>sd_errors := Some es0\<rparr>)) =
    read_lines ls (Errors n, at_stage d n (x\<lparr>sd_errors := Some (es0 @ es)\<rparr>))"
proof (induction es arbitrary: es0)
  case Nil
  then show ?case by simp
next
  case (Cons e es)
  obtain k v where e: "e = (k, v)" by (cases e)
  with Cons.prems(2) have "k \<notin> set (map fst es0)" "dict_ok ((es0 @ [(k, v)]) @ es)"
    by (auto simp: dict_ok_def)
  with Cons.IH [of "es0 @ [(k, v)]"] Cons.prems(1) e show ?case
    by (simp add: read_line_raw upd_stage_at [OF assms] dset_new del: set_map)
qed

lemma read_errors:
  assumes "list_all bare_key (map fst (or_nil es))" "dict_ok (or_nil es)" "bare_key n"
    and "n \<notin> set (map fst (ps_stages d))" "sd_errors x = None"
  shows "\<exists>t'. read_lines (errors_lines n es @ ls) (t, at_stage d n x) =
    read_lines ls (t', at_stage d n (x\<lparr>sd_errors := (if or_nil es = [] then None else es)\<rparr>))"
proof (cases "or_nil es = []")
  case True
  moreover have "x\<lparr>sd_errors := None\<rparr> = x" using assms(5) by simp
  ultimately show ?thesis by (auto simp: errors_lines_def simp del: stage_data.update_convs)
next
  case False
  then obtain fs where fs: "es = Some fs" "fs \<noteq> []" by (auto simp: or_nil_def split: option.splits)
  with assms(1,2) have "list_all bare_key (map fst fs)" "dict_ok ([] @ fs)" by (simp_all add: or_nil_def)
  from read_error_entries [OF assms(4) this] fs assms(3,5) show ?thesis
    by (intro exI [of _ "Errors n"])
      (simp add: errors_lines_def or_nil_def or_set_def read_line_header upd_stage_at [OF assms(4)])
qed

lemma read_result_entries:
  assumes "n \<notin> set (map fst (ps_stages d))"
  shows "list_all bare_key (map fst rs) \<Longrightarrow> list_all is_str (map snd rs) \<Longrightarrow> dict_ok (rs0 @ rs) \<Longrightarrow>
    read_lines (map result_line rs @ ls) (Result n, at_stage d n (x\<lparr>sd_result := Some rs0\<rparr>)) =
    read_lines ls (Result n, at_stage d n (x\<lparr>sd_result := Some (rs0 @ rs)\<rparr>))"
proof (induction rs arbitrary: rs0)
  case Nil
  then show ?case by simp
next
  case (Cons r rs)
  obtain k v where r: "r = (k, PStr v)"
    using Cons.prems(2) by (cases r) (auto simp: is_str_def split: pyval.splits)
  with Cons.prems(3) have "k \<notin> set (map fst rs0)" "dict_ok ((rs0 @ [(k, PStr v)]) @ rs)"
    by (auto simp: dict_ok_def)
  with Cons.IH [of "rs0 @ [(k, PStr v)]"] Cons.prems(1,2) r show ?case
    by (simp add: result_line_def read_line_raw upd_stage_at [OF assms] dset_new del: set_map)
qed

lemma read_result:
  assumes "list_all bare_key (map fst (or_nil rs))" "list_all is_str (map snd (or_nil rs))" "dict_ok (or_nil rs)"
    and "bare_key n" "n \<notin> set (map fst (ps_stages d))" "sd_result x = None"
  shows "\<exists>t'. read_lines (result_lines n rs @ ls) (t, at_stage d n x) =
    read_lines ls (t', at_stage d n (x\<lparr>sd_result := (if or_nil rs = [] then None else rs)\<rparr>))"
proof (cases "or_nil rs = []")
  case True
  moreover have "x\<lparr>sd_result := None\<rparr> = x" using assms(6) by simp
  ultimately show ?thesis by (auto simp: result_lines_def simp del: stage_data.update_convs)
next
  case False
  then obtain fs where fs: "rs = Some fs" "fs \<noteq> []" by (auto simp: or_nil_def split: option.splits)
  with assms(1,2,3) have "list_all bare_key (map fst fs)" "list_all is_str (map snd fs)" "dict_ok ([] @ fs)"
    by (simp_all add: or_nil_def)
  from read_result_entries [OF assms(5) this] fs assms(4,6) show ?thesis
    by (intro exI [of _ "Result n"])
      (simp add: result_lines_def or_nil_def or_set_def read_line_header upd_stage_at [OF assms(5)])
qed

lemma read_stage:
  assumes "wf_stage x" "bare_key n" "n \<notin> set (map fst (ps_stages d))"
  shows "\<exists>t'. read_lines (stage_lines (n, x) @ ls) (t, d) =
    read_lines ls (t', if written x then at_stage d n (norm_stage x) else d)"
proof (cases "written x")
  case False
  then show ?thesis by (auto simp: stage_lines_def)
next
  case True
  let ?x0 = "x\<lparr>sd_progress := None, sd_errors := None, sd_result := None\<rparr>"
  let ?p = "case sd_progress x of None \<Rightarrow> None | Some q \<Rightarrow> if progress_true q then Some q else None"
  let ?e = "if or_nil (sd_errors x) = [] then None else sd_errors x"
  let ?r = "if or_nil (sd_result x) = [] then None else sd_result x"
  have wf: "case sd_progress x of None \<Rightarrow> True | Some q \<Rightarrow> wf_progress q"
    "list_all bare_key (map fst (or_nil (sd_errors x)))" "dict_ok (or_nil (sd_errors x))"
    "list_all bare_key (map fst (or_nil (sd_result x)))" "list_all is_str (map snd (or_nil (sd_result x)))"
    "dict_ok (or_nil (sd_result x))"
    using assms(1) by (simp_all add: wf_stage_def)
  have none: "sd_progress ?x0 = None" "sd_errors (?x0\<lparr>sd_progress := ?p\<rparr>) = None"
    "sd_result (?x0\<lparr>sd_progress := ?p, sd_errors := ?e\<rparr>) = None"
    by simp_all
  let ?rest = "progress_lines n (sd_progress x) @ errors_lines n (sd_errors x) @ result_lines n (sd_result x) @ ls"
  have "read_lines (stage_lines (n, x) @ ls) (t, d) = read_lines ?rest (Stage n, at_stage d n ?x0)"
    using read_scalars [OF assms(1,3), of ?rest] True
    by (simp add: stage_lines_def read_line_header [OF assms(2)] upd_stage_new [OF assms(3)])
  also obtain t1 where "\<dots> = read_lines (errors_lines n (sd_errors x) @ result_lines n (sd_result x) @ ls)
      (t1, at_stage d n (?x0\<lparr>sd_progress := ?p\<rparr>))"
    using read_progress [OF wf(1) assms(2,3) none(1)] by blast
  also obtain t2 where "\<dots> = read_lines (result_lines n (sd_result x) @ ls)
      (t2, at_stage d n (?x0\<lparr>sd_progress := ?p, sd_errors := ?e\<rparr>))"
    using read_errors [OF wf(2,3) assms(2,3) none(2)] by blast
  also obtain t3 where "\<dots> = read_lines ls (t3, at_stage d n (?x0\<lparr>sd_progress := ?p, sd_errors := ?e, sd_result := ?r\<rparr>))"
    using read_result [OF wf(4,5,6) assms(2,3) none(3)] by blast
  also have "?x0\<lparr>sd_progress := ?p, sd_errors := ?e, sd_result := ?r\<rparr> = norm_stage x"
    by (simp add: norm_stage_def)
  finally show ?thesis using True by auto
qed

lemma read_stages:
  "list_all (\<lambda>(n, x). bare_key n \<and> wf_stage x) ss \<Longrightarrow> distinct (map fst (ps_stages d) @ map fst ss) \<Longrightarrow>
   \<exists>t'. read_lines (concat (map stage_lines ss)) (t, d) =
     Some (t', d\<lparr>ps_stages := ps_stages d @ map (\<lambda>(n, x). (n, norm_stage x)) (filter (\<lambda>(n, x). written x) ss)\<rparr>)"
proof (induction ss arbitrary: t d)
  case Nil
  then show ?case by simp
next
  case (Cons s ss)
  obtain n x where s: "s = (n, x)" by (cases s)
  let ?d = "if written x then at_stage d n (norm_stage x) else d"
  have n: "n \<notin> set (map fst (ps_stages d))" using Cons.prems(2) s by auto
  obtain t1 where "read_lines (stage_lines (n, x) @ concat (map stage_lines ss)) (t, d) =
      read_lines (concat (map stage_lines ss)) (t1, ?d)"
    using read_stage [of x n d "concat (map stage_lines ss)" t] Cons.prems(1) n s by auto
  moreover have "distinct (map fst (ps_stages ?d) @ map fst ss)"
    using Cons.prems(2) s by (auto simp: at_stage_def)
  ultimately show ?case
    using Cons.IH [of ?d t1] Cons.prems(1) s by (auto simp: at_stage_def)
qed

lemma plain_clean: "plain s \<Longrightarrow> CHR 0x0A \<notin> set s"
proof -
  have "\<not> plain_char CHR 0x0A" by (simp add: plain_char_def is_control_def)
  then show "plain s \<Longrightarrow> CHR 0x0A \<notin> set s" by (auto simp only: plain_def list_all_iff)
qed

lemma raw_line_clean: "bare_key k \<Longrightarrow> CHR 0x0A \<notin> set v \<Longrightarrow> CHR 0x0A \<notin> set (raw_line k v)"
  using bare_key_clean(3) [of k] by (simp add: raw_line_def pair_line_def quoted_def)

lemma opt_line_clean:
  assumes "bare_key k" "\<And>s. v = Some s \<Longrightarrow> CHR 0x0A \<notin> set s" "l \<in> set (opt_line k v)"
  shows "CHR 0x0A \<notin> set l"
  using assms by (cases v) (simp_all add: opt_line_def raw_line_clean)

lemma join_clean: "c \<notin> set sep \<Longrightarrow> (\<And>x. x \<in> set xs \<Longrightarrow> c \<notin> set x) \<Longrightarrow> c \<notin> set (py_join sep xs)"
  by (induction sep xs rule: py_join.induct) auto

lemma array_text_clean: "list_all plain xs \<Longrightarrow> CHR 0x0A \<notin> set (array_text xs)"
proof -
  assume "list_all plain xs"
  then have "CHR 0x0A \<notin> set (py_join '', '' (map quoted xs))"
    by (intro join_clean) (auto simp: list_all_iff quoted_def plain_clean)
  then show ?thesis by (simp add: array_text_def)
qed

lemma list_line_clean:
  assumes "bare_key k" "list_all plain (or_nil v)" "l \<in> set (list_line k v)"
  shows "CHR 0x0A \<notin> set l"
  using assms bare_key_clean(3) [of k]
  by (cases v) (simp_all add: list_line_def pair_line_def or_nil_def array_text_clean)

lemma stage_header_clean: "bare_key n \<Longrightarrow> CHR 0x0A \<notin> set x \<Longrightarrow> CHR 0x0A \<notin> set (stage_header n x)"
  using bare_key_clean(3) [of n] by (simp add: stage_header_def)

lemma stage_lines_clean:
  assumes "wf_stage x" "bare_key n" "l \<in> set (stage_lines (n, x))"
  shows "CHR 0x0A \<notin> set l"
proof -
  have p: "CHR 0x0A \<notin> set l" if l: "l \<in> set (progress_lines n (sd_progress x))" for l
  proof (cases "sd_progress x")
    case None
    with l show ?thesis by (simp add: progress_lines_def)
  next
    case (Some q)
    with assms(1) have "list_all plain (or_nil (pr_built q))" "list_all plain (or_nil (pr_failed q))"
      "list_all plain (or_nil (pr_skipped q))" "list_all plain (or_nil (pr_remaining q))"
      by (simp_all add: wf_stage_def wf_progress_def)
    note this [THEN list_line_clean [rotated]]
    with l Some assms(2) show ?thesis
      by (auto simp: progress_lines_def stage_header_clean literal_keys split: if_splits)
  qed
  have ent: "CHR 0x0A \<notin> set (raw_line (fst ke) (escape_toml_str (snd ke)))" if "ke \<in> set (or_nil (sd_errors x))" for ke
    by (rule raw_line_clean) (use that assms(1) in \<open>simp_all add: wf_stage_def list_all_iff escape_clean\<close>)
  have e: "CHR 0x0A \<notin> set l" if "l \<in> set (errors_lines n (sd_errors x))" for l
    using that assms(2) ent by (auto simp: errors_lines_def stage_header_clean split: if_splits)
  have res: "CHR 0x0A \<notin> set (result_line kv)" if "kv \<in> set (or_nil (sd_result x))" for kv
  proof -
    have "bare_key (fst kv)" "is_str (snd kv)"
      using that assms(1) by (simp_all add: wf_stage_def list_all_iff)
    then show ?thesis
      by (auto simp: result_line_def is_str_def escape_clean raw_line_clean split: pyval.splits)
  qed
  have r: "CHR 0x0A \<notin> set l" if "l \<in> set (result_lines n (sd_result x))" for l
    using that assms(2) res by (auto simp: result_lines_def stage_header_clean split: if_splits)
  have o: "CHR 0x0A \<notin> set l" if "opt_plain v" "bare_key k" "l \<in> set (opt_line k v)" for v k l
    by (rule opt_line_clean [OF that(2) _ that(3)]) (use that(1) in \<open>simp add: opt_plain_def plain_clean\<close>)
  have err: "CHR 0x0A \<notin> set l" if "l \<in> set (opt_line ''error'' (map_option escape_toml_str v))" for v l
    by (rule opt_line_clean [OF literal_keys(10) _ that]) (auto simp: escape_clean)
  have plains: "opt_plain (sd_status x)" "opt_plain (sd_started_at x)" "opt_plain (sd_completed_at x)"
    "opt_plain (sd_first_done_at x)"
    using assms(1) by (simp_all add: wf_stage_def)
  note opts = o [OF plains(1) literal_keys(6)] o [OF plains(2) literal_keys(7)]
    o [OF plains(3) literal_keys(8)] o [OF plains(4) literal_keys(9)]
  show ?thesis
    using assms(2,3) p e r opts err
    by (auto simp: stage_lines_def stage_header_clean split: if_splits)
qed


lemma state_lines_clean:
  assumes "wf_state d" "l \<in> set (state_lines d)"
  shows "CHR 0x0A \<notin> set l"
proof -
  have st: "CHR 0x0A \<notin> set l" if "nx \<in> set (ps_stages d)" "l \<in> set (stage_lines nx)" for l nx
    using that assms(1) stage_lines_clean [of "snd nx" "fst nx" l] by (auto simp: wf_state_def list_all_iff)
  have o: "CHR 0x0A \<notin> set l" if "opt_plain v" "bare_key k" "l \<in> set (opt_line k v)" for v k l
    by (rule opt_line_clean [OF that(2) _ that(3)]) (use that(1) in \<open>simp add: opt_plain_def plain_clean\<close>)
  have "opt_plain (ps_started_at d)" "opt_plain (ps_last_updated d)"
    using assms(1) by (simp_all add: wf_state_def)
  note o [OF this(1) literal_keys(7)] o [OF this(2) literal_keys(15)]
  with assms(2) st show ?thesis
    by (auto simp: state_lines_def split: if_splits)
qed

lemma read_meta_header: "read_line ''[meta]'' (t, d) = Some (Meta, d)"
proof -
  have "read_header ''[meta]'' = Some Meta" by code_simp
  then show ?thesis by (simp add: read_line_def)
qed

lemma read_comment: "read_line (CHR ''#'' # l) st = Some st"
  by (cases st) (simp add: read_line_def)

lemma load_serialize:
  assumes "wf_state d"
  shows "toml_load (serialize d) = Some (norm_state d)"
proof -
  obtain a b ss where d: "d = \<lparr>ps_started_at = a, ps_last_updated = b, ps_stages = ss\<rparr>" by (cases d)
  let ?ls = "state_lines d" and ?body = "concat (map stage_lines ss)"
  let ?d0 = "\<lparr>ps_started_at = a, ps_last_updated = b, ps_stages = []\<rparr>"
  have split: "split_on CHR 0x0A (serialize d) = ?ls"
    unfolding serialize_def
    by (rule split_on_join_comma) (use state_lines_clean [OF assms] in \<open>auto simp: state_lines_def\<close>)
  have pl: "opt_plain a" "opt_plain b" and ok: "list_all (\<lambda>(n, x). bare_key n \<and> wf_stage x) ss"
    "distinct (map fst (ps_stages ?d0) @ map fst ss)"
    using assms by (simp_all add: d wf_state_def dict_ok_def)
  let ?t = "if a = None \<and> b = None then Root else Meta"
  have "read_lines ?ls (Root, empty_state) = read_lines ?body (?t, ?d0)"
    using pl
    by (cases a; cases b; simp add: d state_lines_def read_comment read_meta_header empty_state_def
        read_opt_line literal_keys)
  moreover obtain t' where "read_lines ?body (?t, ?d0) =
      Some (t', ?d0\<lparr>ps_stages := map (\<lambda>(n, x). (n, norm_stage x)) (filter (\<lambda>(n, x). written x) ss)\<rparr>)"
    using read_stages [OF ok, of ?t] by auto
  ultimately have "toml_load (serialize d) =
      Some (?d0\<lparr>ps_stages := map (\<lambda>(n, x). (n, norm_stage x)) (filter (\<lambda>(n, x). written x) ss)\<rparr>)"
    by (simp add: toml_load_def split)
  then show ?thesis by (simp add: d norm_state_def)
qed

section \<open>Stage status\<close>

lemma stage_entry_upd [simp]:
  "stage_entry (upd_stage n f d) m = (if m = n then f (stage_entry d n) else stage_entry d m)"
  by (simp add: stage_entry_def upd_stage_def dget_or_def)

lemma stage_entry_touch [simp]: "stage_entry (touch u d) m = stage_entry d m"
  by (simp add: stage_entry_def touch_def)

lemma stage_entry_init_meta [simp]: "stage_entry (init_meta t u d) m = stage_entry d m"
  by (simp add: stage_entry_def init_meta_def Let_def)

lemma stage_entry_clear_error [simp]:
  "stage_entry (clear_error n d) m = (if m = n then (stage_entry d n)\<lparr>sd_error := None\<rparr> else stage_entry d m)"
proof (cases "dhas (ps_stages d) n")
  case True
  then show ?thesis by (simp add: clear_error_def)
next
  case False
  then have "stage_entry d n = empty_stage" by (simp add: stage_entry_def dget_or_def dhas_def)
  with False show ?thesis by (simp add: clear_error_def empty_stage_def)
qed

lemmas mark_defs = mark_running_def mark_done_def note_completed_def mark_failed_def mark_skipped_to_def
  set_stage_def

text \<open>Every method that changes the state, with the clock readings it takes.\<close>

datatype state_op =
    InitMeta string string
  | Touch string
  | MarkRunning string string string
  | MarkDone string string string
  | NoteCompleted string string string
  | MarkFailed string string string string
  | MarkSkippedTo string string
  | InitPackages string "string list"
  | PkgBuilding string string
  | PkgBuilt string string
  | PkgFailed string string string
  | PkgSkipped string string
  | GetProgress
  | SetResult string string "(string, pyval) dict"

fun exec :: "state_op \<Rightarrow> pstate \<Rightarrow> pstate" where
  "exec (InitMeta t u) d = init_meta t u d"
| "exec (Touch u) d = touch u d"
| "exec (MarkRunning t u n) d = mark_running t u n d"
| "exec (MarkDone t u n) d = mark_done t u n d"
| "exec (NoteCompleted t u n) d = note_completed t u n d"
| "exec (MarkFailed t u n e) d = mark_failed t u n e d"
| "exec (MarkSkippedTo u n) d = mark_skipped_to u n d"
| "exec (InitPackages u ns) d = init_package_list u ns d"
| "exec (PkgBuilding u n) d = mark_package_building u n d"
| "exec (PkgBuilt u n) d = mark_package_built u n d"
| "exec (PkgFailed u n e) d = mark_package_failed u n e d"
| "exec (PkgSkipped u n) d = mark_package_skipped u n d"
| "exec GetProgress d = snd (get_package_progress d)"
| "exec (SetResult u n r) d = set_stage_result u n r d"

definition exec_all :: "state_op list \<Rightarrow> pstate \<Rightarrow> pstate" where
  "exec_all ops d = fold exec ops d"

text \<open>The states a process can hold: a fresh one, changed by the methods.\<close>

inductive reachable :: "pstate \<Rightarrow> bool" where
  fresh: "reachable empty_state"
| step: "reachable d \<Longrightarrow> reachable (exec op d)"

lemma ensure_entry:
  "stage_entry (ensure_progress d) n =
     (if n = ''packages'' then (stage_entry d n)\<lparr>sd_status := or_set ''running'' (sd_status (stage_entry d n)),
        sd_progress := or_set fresh_progress (sd_progress (stage_entry d n))\<rparr> else stage_entry d n)"
  by (simp add: ensure_progress_def)

lemma progress_of_ensure [simp]: "progress_of (ensure_progress d) = progress_of d"
  by (simp add: progress_of_def ensure_entry or_set_def split: option.splits)

lemma on_progress_entry:
  "stage_entry (on_progress u f d) n =
     (if n = ''packages'' then (stage_entry d n)\<lparr>sd_status := or_set ''running'' (sd_status (stage_entry d n)),
        sd_progress := Some (f (progress_of d))\<rparr> else stage_entry d n)"
  by (simp add: on_progress_def Let_def ensure_entry)

lemmas package_defs = init_package_list_def mark_package_building_def mark_package_built_def
  mark_package_failed_def mark_package_skipped_def

text \<open>A stage that is done has its first completion recorded, and only a failed or skipped stage
  carries an error.\<close>

definition stage_inv :: "stage_data \<Rightarrow> bool" where
  "stage_inv s \<longleftrightarrow>
     (sd_status s = Some ''done'' \<longrightarrow> sd_first_done_at s \<noteq> None) \<and>
     (sd_status s \<in> {None, Some ''running'', Some ''done''} \<longrightarrow> sd_error s = None) \<and>
     (\<forall>x. sd_status s = Some x \<longrightarrow> x \<in> set STAGE_STATUSES)"

definition state_inv :: "pstate \<Rightarrow> bool" where
  "state_inv d \<longleftrightarrow> (\<forall>n. stage_inv (stage_entry d n))"

lemma state_invI: "(\<And>n. stage_inv (stage_entry d n)) \<Longrightarrow> state_inv d"
  by (simp add: state_inv_def)

lemma stage_inv_progress:
  "stage_inv s \<Longrightarrow> stage_inv (s\<lparr>sd_status := or_set ''running'' (sd_status s), sd_progress := p\<rparr>)"
  by (auto simp: stage_inv_def or_set_def STAGE_STATUSES_def split: option.splits)

lemma exec_inv:
  assumes "state_inv d"
  shows "state_inv (exec op d)"
proof (rule state_invI)
  fix n
  have inv: "stage_inv (stage_entry d m)" for m
    using assms by (simp add: state_inv_def)
  show "stage_inv (stage_entry (exec op d) n)"
  proof (cases op)
    case (PkgFailed u m e)
    have "stage_inv (stage_entry (on_progress u (failed_progress m) d) k)" for k
      using inv stage_inv_progress by (simp add: on_progress_entry)
    moreover have "stage_inv (s\<lparr>sd_errors := es\<rparr>) = stage_inv s" for s es
      by (simp add: stage_inv_def)
    ultimately show ?thesis by (simp add: PkgFailed mark_package_failed_def)
  next
    case GetProgress
    with inv stage_inv_progress show ?thesis by (simp add: get_package_progress_def ensure_entry)
  next
    case (MarkRunning t u m)
    with inv [of n] show ?thesis by (auto simp: mark_defs stage_inv_def STAGE_STATUSES_def)
  next
    case (MarkDone t u m)
    with inv [of n] show ?thesis by (auto simp: mark_defs stage_inv_def or_set_def STAGE_STATUSES_def split: option.splits)
  next
    case (MarkFailed t u m e)
    with inv [of n] show ?thesis by (auto simp: mark_defs stage_inv_def STAGE_STATUSES_def)
  next
    case (MarkSkippedTo u m)
    with inv [of n] show ?thesis by (auto simp: mark_defs stage_inv_def STAGE_STATUSES_def)
  next
    case (NoteCompleted t u m)
    with inv [of n] show ?thesis by (auto simp: mark_defs stage_inv_def or_set_def split: option.splits)
  next
    case (SetResult u m r)
    with inv [of n] show ?thesis by (auto simp: set_stage_result_def stage_inv_def)
  qed (use inv stage_inv_progress in \<open>simp_all add: package_defs on_progress_entry\<close>)
qed

lemma empty_inv: "state_inv empty_state"
  by (simp add: state_inv_def stage_inv_def stage_entry_def empty_state_def dget_or_def empty_stage_def)

lemma reachable_inv: "reachable d \<Longrightarrow> state_inv d"
  by (induction rule: reachable.induct) (simp_all add: empty_inv exec_inv)

lemma first_done_kept: "sd_first_done_at (stage_entry d n) = Some t \<Longrightarrow>
    sd_first_done_at (stage_entry (exec op d) n) = Some t"
  by (cases op) (auto simp: mark_defs package_defs on_progress_entry ensure_entry
      get_package_progress_def set_stage_result_def or_set_def)

lemma ever_done_first: "state_inv d \<Longrightarrow> stage_ever_done d n \<longleftrightarrow> sd_first_done_at (stage_entry d n) \<noteq> None"
  by (auto simp: state_inv_def stage_inv_def stage_ever_done_def)

lemma reachable_exec_all: "reachable d \<Longrightarrow> reachable (exec_all ops d)"
  by (induction ops arbitrary: d) (simp_all add: exec_all_def reachable.step)

lemma ever_done_kept:
  "reachable d \<Longrightarrow> stage_ever_done d n \<Longrightarrow>
   stage_ever_done (exec_all ops d) n \<and>
   sd_first_done_at (stage_entry (exec_all ops d) n) = sd_first_done_at (stage_entry d n)"
proof (induction ops arbitrary: d)
  case Nil
  then show ?case by (simp add: exec_all_def)
next
  case (Cons op ops)
  obtain t where "sd_first_done_at (stage_entry d n) = Some t"
    using Cons.prems ever_done_first reachable_inv by blast
  then have t: "sd_first_done_at (stage_entry (exec op d) n) = sd_first_done_at (stage_entry d n)"
    "stage_ever_done (exec op d) n"
    using first_done_kept by (auto simp: stage_ever_done_def)
  have "reachable (exec op d)" using Cons.prems(1) by (rule reachable.step)
  from Cons.IH [OF this t(2)] t(1) show ?case by (simp add: exec_all_def)
qed

section \<open>Well-formed states\<close>

fun op_ok :: "state_op \<Rightarrow> bool" where
  "op_ok (InitMeta t u) = (plain t \<and> plain u)"
| "op_ok (Touch u) = plain u"
| "op_ok (MarkRunning t u n) = (plain t \<and> plain u \<and> bare_key n)"
| "op_ok (MarkDone t u n) = (plain t \<and> plain u \<and> bare_key n)"
| "op_ok (NoteCompleted t u n) = (plain t \<and> plain u \<and> bare_key n)"
| "op_ok (MarkFailed t u n e) = (plain t \<and> plain u \<and> bare_key n)"
| "op_ok (MarkSkippedTo u n) = (plain u \<and> bare_key n)"
| "op_ok (InitPackages u ns) = (plain u \<and> list_all plain ns)"
| "op_ok (PkgBuilding u n) = plain u"
| "op_ok (PkgBuilt u n) = (plain u \<and> plain n)"
| "op_ok (PkgFailed u n e) = (plain u \<and> plain n \<and> bare_key n)"
| "op_ok (PkgSkipped u n) = (plain u \<and> plain n)"
| "op_ok GetProgress = True"
| "op_ok (SetResult u n r) = (plain u \<and> bare_key n \<and> list_all bare_key (map fst r) \<and> dict_ok r \<and> list_all is_str (map snd r))"

lemma dset_set: "set (dset k v d) \<subseteq> insert (k, v) (set d)"
  unfolding dset_def by (induction d) auto

lemma wf_state_touch: "wf_state d \<Longrightarrow> plain u \<Longrightarrow> wf_state (touch u d)"
  by (simp add: wf_state_def touch_def opt_plain_def)

lemma wf_state_upd:
  assumes "wf_state d" "bare_key n" "wf_stage (f (stage_entry d n))"
  shows "wf_state (upd_stage n f d)"
proof -
  have "list_all (\<lambda>(n, x). bare_key n \<and> wf_stage x) (dset n (f (stage_entry d n)) (ps_stages d))"
    using assms dset_set [of n "f (stage_entry d n)" "ps_stages d"] by (fastforce simp: wf_state_def list_all_iff)
  with assms(1) show ?thesis by (simp add: wf_state_def upd_stage_def)
qed

lemma wf_empty_stage: "wf_stage empty_stage"
  by (simp add: empty_stage_def wf_stage_def opt_plain_def dict_ok_def)

lemma wf_entry:
  assumes "wf_state d"
  shows "wf_stage (stage_entry d n)"
proof (cases "dget (ps_stages d) n")
  case None
  then show ?thesis by (simp add: stage_entry_def dget_or_def wf_empty_stage)
next
  case (Some x)
  then have "(n, x) \<in> set (ps_stages d)" by (rule map_of_SomeD)
  with assms have "wf_stage x" by (auto simp: wf_state_def list_all_iff)
  with Some show ?thesis by (simp add: stage_entry_def dget_or_def)
qed

lemma wf_clear_error: "wf_state d \<Longrightarrow> bare_key n \<Longrightarrow> wf_state (clear_error n d)"
  using wf_entry [of d n] by (auto simp: clear_error_def wf_stage_def intro!: wf_state_upd)

lemma plain_words: "plain ''running''" "plain ''done''" "plain ''failed''" "plain ''skipped_to''"
  by code_simp+

lemma packages_bare: "bare_key ''packages''"
  by code_simp

lemma wf_fresh: "wf_progress fresh_progress"
  by (simp add: wf_progress_def fresh_progress_def or_nil_def)

lemma wf_progress_of: "wf_state d \<Longrightarrow> wf_progress (progress_of d)"
  using wf_entry [of d "''packages''"] wf_fresh by (auto simp: progress_of_def wf_stage_def split: option.splits)

lemma wf_ensure: "wf_state d \<Longrightarrow> wf_state (ensure_progress d)"
  using wf_entry [of d "''packages''"] wf_fresh
  by (auto simp: ensure_progress_def packages_bare wf_stage_def or_set_def opt_plain_def plain_words
      intro!: wf_state_upd split: option.splits)

lemma wf_on_progress:
  assumes "wf_state d" "plain u" "wf_progress (f (progress_of d))"
  shows "wf_state (on_progress u f d)"
proof -
  have "wf_stage (stage_entry (ensure_progress d) ''packages'')"
    by (intro wf_entry wf_ensure assms)
  then show ?thesis
    using assms by (auto simp: on_progress_def Let_def wf_stage_def
        intro!: wf_state_touch wf_state_upd wf_ensure packages_bare)
qed

lemma plain_without: "list_all plain (or_nil xs) \<Longrightarrow> list_all plain (or_nil (without n xs))"
  by (simp add: without_def or_nil_def list_all_iff)

lemma plain_with: "list_all plain (or_nil xs) \<Longrightarrow> plain n \<Longrightarrow> list_all plain (or_nil (with_name n xs))"
  by (auto simp: with_name_def or_nil_def list_all_iff split: option.splits)

lemma wf_init_progress:
  assumes "wf_progress p" "list_all plain ns"
  shows "wf_progress (init_progress ns p)"
  using assms by (auto simp: init_progress_def wf_progress_def or_nil_def Let_def list_all_iff)

lemma wf_progress_ops:
  assumes "wf_progress p"
  shows "wf_progress (building_progress n p)"
    and "plain n \<Longrightarrow> wf_progress (built_progress n p)"
    and "plain n \<Longrightarrow> wf_progress (failed_progress n p)"
    and "plain n \<Longrightarrow> wf_progress (skipped_progress n p)"
  using assms
  by (simp_all add: wf_progress_def building_progress_def built_progress_def failed_progress_def
      skipped_progress_def plain_without plain_with)

lemma exec_wf:
  assumes "wf_state d" "op_ok op"
  shows "wf_state (exec op d)"
proof (cases op)
  case (InitMeta t u)
  with assms show ?thesis by (auto simp: init_meta_def wf_state_def opt_plain_def Let_def)
next
  case (Touch u)
  with assms show ?thesis by (simp add: wf_state_touch)
next
  case (MarkRunning t u n)
  with assms wf_entry [OF assms(1), of n] show ?thesis
    by (auto simp: mark_defs wf_stage_def opt_plain_def plain_words intro!: wf_state_touch wf_state_upd wf_clear_error)
next
  case (MarkDone t u n)
  with assms wf_entry [OF assms(1), of n] show ?thesis
    by (auto simp: mark_defs wf_stage_def opt_plain_def plain_words or_set_def intro!: wf_state_touch wf_state_upd wf_clear_error
        split: option.splits)
next
  case (NoteCompleted t u n)
  with assms wf_entry [OF assms(1), of n] show ?thesis
    by (auto simp: mark_defs wf_stage_def opt_plain_def or_set_def intro!: wf_state_touch wf_state_upd split: option.splits)
next
  case (MarkFailed t u n e)
  with assms wf_entry [OF assms(1), of n] show ?thesis
    by (auto simp: mark_defs wf_stage_def opt_plain_def plain_words intro!: wf_state_touch wf_state_upd)
next
  case (MarkSkippedTo u n)
  with assms wf_entry [OF assms(1), of n] show ?thesis
    by (auto simp: mark_defs wf_stage_def opt_plain_def plain_words intro!: wf_state_touch wf_state_upd)
next
  case (PkgFailed u n e)
  let ?d = "on_progress u (failed_progress n) d"
  have d: "wf_state ?d"
    using assms PkgFailed by (simp add: wf_on_progress wf_progress_ops wf_progress_of)
  let ?es = "or_nil (sd_errors (stage_entry ?d ''packages''))"
  have w: "wf_stage (stage_entry ?d ''packages'')" by (rule wf_entry [OF d])
  have "set (map fst (dset n e ?es)) = insert n (set (map fst ?es))"
    by (rule dkeys_dset)
  with w assms(2) PkgFailed have "list_all bare_key (map fst (dset n e ?es))"
    by (simp add: wf_stage_def list_all_iff del: set_map)
  with w have "wf_stage ((stage_entry ?d ''packages'')\<lparr>sd_errors := Some (dset n e ?es)\<rparr>)"
    by (simp add: wf_stage_def)
  then show ?thesis
    using d assms PkgFailed by (simp add: mark_package_failed_def wf_state_touch wf_state_upd packages_bare)
next
  case (SetResult u n r)
  with assms wf_entry [OF assms(1), of n] show ?thesis
    by (auto simp: set_stage_result_def wf_stage_def or_nil_def intro!: wf_state_touch wf_state_upd)
next
  case GetProgress
  with assms show ?thesis by (simp add: get_package_progress_def wf_ensure)
qed (use assms in \<open>simp_all add: package_defs wf_on_progress wf_init_progress wf_progress_ops wf_progress_of\<close>)

lemma exec_all_wf: "wf_state d \<Longrightarrow> list_all op_ok ops \<Longrightarrow> wf_state (exec_all ops d)"
  by (induction ops arbitrary: d) (simp_all add: exec_all_def exec_wf)

lemma empty_wf: "wf_state empty_state"
  by (simp add: wf_state_def empty_state_def opt_plain_def)

section \<open>Package accounting\<close>

lemma init_progress_accounts: "set names \<subseteq> accounted (init_progress names p)"
  by (auto simp: init_progress_def accounted_def or_nil_def Let_def filter_empty_conv split: option.splits)

lemma init_progress_keeps: "accounted p \<subseteq> accounted (init_progress names p)"
  by (auto simp: init_progress_def accounted_def or_nil_def Let_def split: option.splits)

lemma init_progress_idem: "init_progress names (init_progress names p) = init_progress names p"
proof -
  let ?q = "init_progress names p"
  have "filter (\<lambda>n. n \<notin> accounted ?q) names = []"
    using init_progress_accounts [of names p] by (auto simp: filter_empty_conv)
  moreover have "?q\<lparr>pr_remaining := Some names\<rparr> = ?q"
    if q: "or_nil (pr_remaining ?q) = [] \<and> or_nil (pr_built ?q) = []"
  proof (cases "or_nil (pr_remaining p) = [] \<and> or_nil (pr_built p) = []")
    case True
    then show ?thesis by (simp add: init_progress_def)
  next
    case False
    let ?lost = "filter (\<lambda>n. n \<notin> accounted p) names"
    have "?lost \<noteq> []" using False q by (auto simp: init_progress_def)
    then have "or_nil (pr_remaining ?q) \<noteq> []"
      using False by (auto simp: init_progress_def or_nil_def Let_def filter_empty_conv)
    with q show ?thesis by simp
  qed
  ultimately show ?thesis
    by (simp add: init_progress_def [of names ?q])
qed

lemma built_not_remaining:
  assumes "set (or_nil (pr_built p)) \<inter> set (or_nil (pr_remaining p)) = {}"
  shows "set (or_nil (pr_built (init_progress names p))) \<inter> set (or_nil (pr_remaining (init_progress names p))) = {}"
    and "set (or_nil (pr_built (building_progress n p))) \<inter> set (or_nil (pr_remaining (building_progress n p))) = {}"
    and "set (or_nil (pr_built (built_progress n p))) \<inter> set (or_nil (pr_remaining (built_progress n p))) = {}"
    and "set (or_nil (pr_built (failed_progress n p))) \<inter> set (or_nil (pr_remaining (failed_progress n p))) = {}"
    and "set (or_nil (pr_built (skipped_progress n p))) \<inter> set (or_nil (pr_remaining (skipped_progress n p))) = {}"
  using assms
  by (auto simp: init_progress_def building_progress_def built_progress_def failed_progress_def
      skipped_progress_def without_def with_name_def accounted_def or_nil_def Let_def split: option.splits if_splits)

lemma progress_of_upd [simp]:
  "n \<noteq> ''packages'' \<Longrightarrow> progress_of (upd_stage n f d) = progress_of d"
  by (simp add: progress_of_def)

lemma progress_of_keep:
  assumes "\<And>s. sd_progress (f s) = sd_progress s"
  shows "progress_of (upd_stage n f d) = progress_of d"
  using assms by (simp add: progress_of_def)

lemma progress_of_touch [simp]: "progress_of (touch u d) = progress_of d"
  by (simp add: progress_of_def)

lemma progress_of_on [simp]: "progress_of (on_progress u f d) = f (progress_of d)"
  by (simp add: progress_of_def [of "on_progress u f d"] on_progress_entry)

lemma progress_of_clear [simp]: "progress_of (clear_error n d) = progress_of d"
  by (simp add: progress_of_def)

definition no_rebuild :: "pstate \<Rightarrow> bool" where
  "no_rebuild d \<longleftrightarrow>
     set (or_nil (pr_built (progress_of d))) \<inter> set (or_nil (pr_remaining (progress_of d))) = {}"

lemma exec_no_rebuild: "no_rebuild d \<Longrightarrow> no_rebuild (exec op d)"
  unfolding no_rebuild_def
  by (cases op) (simp_all add: mark_defs package_defs progress_of_keep built_not_remaining
      set_stage_result_def get_package_progress_def progress_of_def [of "init_meta _ _ _"]
      flip: progress_of_def)

lemma reachable_no_rebuild: "reachable d \<Longrightarrow> no_rebuild d"
proof (induction rule: reachable.induct)
  case fresh
  show ?case
    by (simp add: no_rebuild_def progress_of_def empty_state_def stage_entry_def dget_or_def empty_stage_def
        fresh_progress_def or_nil_def)
qed (rule exec_no_rebuild)

text \<open>The progress table of the packages stage survives a save and a reload.\<close>

lemma norm_entry:
  assumes "dict_ok (ps_stages d)"
  shows "stage_entry (norm_state d) n = (if written (stage_entry d n) then norm_stage (stage_entry d n) else empty_stage)"
proof -
  have "dict_ok ss \<Longrightarrow> dget (map (\<lambda>(n, x). (n, norm_stage x)) (filter (\<lambda>(n, x). written x) ss)) n =
      (case dget ss n of None \<Rightarrow> None | Some x \<Rightarrow> if written x then Some (norm_stage x) else None)" for ss
  proof (induction ss)
    case Nil
    then show ?case by simp
  next
    case (Cons s ss)
    obtain k x where s: "s = (k, x)" by (cases s)
    with Cons.prems have k: "dget ss k = None" "dict_ok ss" by (auto simp: dict_ok_def map_of_eq_None_iff)
    show ?case
    proof (cases "k = n")
      case True
      with Cons.IH k s show ?thesis by simp
    next
      case False
      with Cons.IH k(2) s show ?thesis by simp
    qed
  qed
  from this [OF assms] show ?thesis
    by (auto simp: stage_entry_def norm_state_def dget_or_def written_def empty_stage_def split: option.splits)
qed

lemma reload_progress:
  assumes "wf_state d" "sd_status (stage_entry d ''packages'') \<noteq> None"
    and "sd_progress (stage_entry d ''packages'') = Some p" "progress_true p"
  shows "progress_of (norm_state d) = progress_of d"
  using assms by (simp add: progress_of_def norm_entry wf_state_def written_def norm_stage_def)

lemma requeued:
  assumes "n \<in> set names" "n \<notin> set (or_nil (pr_built p))" "n \<notin> set (or_nil (pr_failed p))"
    "n \<notin> set (or_nil (pr_skipped p))"
  shows "n \<in> set (or_nil (pr_remaining (init_progress names (building_progress n p))))"
proof -
  let ?q = "building_progress n p"
  have "n \<notin> accounted ?q"
    using assms by (auto simp: accounted_def building_progress_def without_def or_nil_def)
  with assms(1) have "n \<in> set (filter (\<lambda>n. n \<notin> accounted ?q) names)" by simp
  then show ?thesis
    using assms(1) by (auto simp: init_progress_def or_nil_def Let_def filter_empty_conv)
qed

section \<open>Properties\<close>

text \<open>An escaped string, closed by a quote, reads back as itself whatever its characters, and
  its escaped form has no line break.\<close>

theorem escape_toml_str_roundtrip:
  "read_basic (escape_toml_str s @ CHR 0x22 # r) = Some (s, r) \<and> CHR 0x0A \<notin> set (escape_toml_str s)"
  by (simp add: read_basic_escape escape_clean)


definition demo_ops :: "state_op list" where
  "demo_ops = [InitMeta ''T0'' ''T0'', MarkRunning ''T1'' ''T1'' ''packages'',
     InitPackages ''T2'' [''bash'', ''zlib''], PkgBuilding ''T3'' ''bash'',
     PkgFailed ''T4'' ''bash'' [CHR 0x22, CHR 0x0A, CHR 0x07],
     SetResult ''T5'' ''toolchain'' [(''cc'', PStr ''/usr/bin/gcc'')]]"

lemma demo_ops_ok: "list_all op_ok demo_ops"
  by code_simp


text \<open>Once a stage has completed, no later method call of any kind makes it read as never done,
  and its first completion time is never overwritten.\<close>

theorem stage_ever_done_permanent:
  assumes "reachable d" "stage_ever_done d n"
  shows "stage_ever_done (exec_all ops d) n \<and>
    sd_first_done_at (stage_entry (exec_all ops d) n) = sd_first_done_at (stage_entry d n)"
  by (rule ever_done_kept [OF assms])

theorem stage_ever_done_permanent_witness:
  "stage_ever_done (exec_all [MarkFailed ''T3'' ''T3'' ''kernel'' ''boom'']
     (exec (MarkDone ''T1'' ''T1'' ''kernel'') empty_state)) ''kernel''"
  using stage_ever_done_permanent [OF reachable.step [OF reachable.fresh], of "MarkDone ''T1'' ''T1'' ''kernel''"
      "''kernel''" "[MarkFailed ''T3'' ''T3'' ''kernel'' ''boom'']"]
  by (simp add: mark_defs stage_ever_done_def or_set_def split: option.splits)

text \<open>C20: a package whose build was interrupted is queued again: after the state written at the
  start of its build is reloaded, \<open>init_package_list\<close> puts it back in \<open>remaining\<close>, and every
  listed package is in some bucket.\<close>

theorem interrupted_package_requeued:
  assumes "wf_state d" "plain u" "n \<in> set names" "n \<notin> set (or_nil (pr_built (progress_of d)))"
    and "n \<notin> set (or_nil (pr_failed (progress_of d)))" "n \<notin> set (or_nil (pr_skipped (progress_of d)))"
    and "load toml_load (save False (mark_package_building u n d) file) = Some e"
  shows "n \<in> set (or_nil (pr_remaining (progress_of (init_package_list v names e)))) \<and>
    set names \<subseteq> accounted (progress_of (init_package_list v names e))"
proof -
  let ?d = "mark_package_building u n d"
  have wf: "wf_state ?d"
    using assms(1,2) by (simp add: mark_package_building_def wf_on_progress wf_progress_ops wf_progress_of)
  have e: "e = norm_state ?d"
    using assms(7) by (simp add: save_def load_def load_serialize [OF wf])
  have ent: "sd_status (stage_entry ?d ''packages'') \<noteq> None"
    "sd_progress (stage_entry ?d ''packages'') = Some (building_progress n (progress_of d))"
    by (simp_all add: mark_package_building_def on_progress_entry or_set_def split: option.splits)
  have "progress_true (building_progress n (progress_of d))"
    by (cases "progress_of d") (simp add: building_progress_def progress_true_def without_def)
  from reload_progress [OF wf ent this] have "progress_of e = building_progress n (progress_of d)"
    by (simp add: e mark_package_building_def)
  then show ?thesis
    using assms requeued init_progress_accounts by (simp add: init_package_list_def)
qed

theorem interrupted_package_requeued_witness:
  "''zlib'' \<in> set (or_nil (pr_remaining (progress_of (init_package_list ''T9'' [''bash'', ''zlib'']
     (norm_state (mark_package_building ''T5'' ''zlib'' (init_package_list ''T2'' [''bash'', ''zlib''] empty_state)))))))"
proof -
  let ?d = "init_package_list ''T2'' [''bash'', ''zlib''] empty_state"
  have d: "wf_state ?d"
    using exec_wf [OF empty_wf, of "InitPackages ''T2'' [''bash'', ''zlib'']"]
    by (simp add: plain_def plain_char_def is_control_def)
  have u: "plain ''T5''" by code_simp
  have "wf_state (mark_package_building ''T5'' ''zlib'' ?d)"
    using exec_wf [OF d, of "PkgBuilding ''T5'' ''zlib''"] u by simp
  then have "load toml_load (save False (mark_package_building ''T5'' ''zlib'' ?d) None) =
      Some (norm_state (mark_package_building ''T5'' ''zlib'' ?d))"
    by (simp add: save_def load_def load_serialize)
  moreover have "progress_of ?d = fresh_progress\<lparr>pr_remaining := Some [''bash'', ''zlib'']\<rparr>"
    by code_simp
  ultimately show ?thesis
    using interrupted_package_requeued [OF d u, of "''zlib''" "[''bash'', ''zlib'']" None]
    by (simp add: fresh_progress_def)
qed

text \<open>C25: \<open>init_package_list\<close> is idempotent and loses no package, and in every reachable state no
  package is both built and still to build.\<close>

theorem package_accounting:
  assumes "reachable d"
  shows "init_progress names (init_progress names (progress_of d)) = init_progress names (progress_of d) \<and>
    accounted (progress_of d) \<union> set names \<subseteq> accounted (progress_of (init_package_list u names d)) \<and>
    set (or_nil (pr_built (progress_of (init_package_list u names d)))) \<inter>
      set (or_nil (pr_remaining (progress_of (init_package_list u names d)))) = {}"
  using reachable_no_rebuild [OF reachable.step [OF assms, of "InitPackages u names"]]
    init_progress_idem init_progress_accounts init_progress_keeps
  by (simp add: no_rebuild_def init_package_list_def)

theorem package_accounting_witness:
  "set (or_nil (pr_built (progress_of (init_package_list ''T1'' [''bash''] empty_state)))) \<inter>
   set (or_nil (pr_remaining (progress_of (init_package_list ''T1'' [''bash''] empty_state)))) = {}"
  using package_accounting [OF reachable.fresh] by blast

text \<open>The variant recorded for a build is of the family of the compiler that built it whenever
  both families are known, the active variant otherwise, and recording it again changes nothing.\<close>

theorem variant_built_with_family:
  "variant_family (variant_built_with active cc) =
     (if variant_for_compiler cc = None \<or> variant_family active = None then variant_family active
      else variant_family (variant_for_compiler cc)) \<and>
   variant_built_with (variant_built_with active cc) cc = variant_built_with active cc"
  by (auto simp: variant_built_with_def Let_def)

section \<open>A package name that is no bare key\<close>

text \<open>
  Package names may hold a \<open>+\<close> or an \<open>@\<close>, which no bare key of TOML does, and the writer does
  not quote the keys of the errors table.
\<close>

lemma split_on_append: "split_on d (x @ d # r) = split_on d x @ split_on d r"
  by (induction x) (auto split: list.splits)

lemma split_on_join: "ls \<noteq> [] \<Longrightarrow> split_on d (py_join [d] ls) = concat (map (split_on d) ls)"
  by (induction "[d]" ls rule: py_join.induct) (simp_all add: split_on_append)

lemma read_lines_stuck: "(\<And>st. read_line l st = None) \<Longrightarrow> l \<in> set ls \<Longrightarrow> read_lines ls st = None"
  by (induction ls arbitrary: st) (auto split: option.splits)

definition pkg_char :: "char \<Rightarrow> bool" where
  "pkg_char c \<longleftrightarrow> bare_char c \<or> c \<in> {CHR ''@'', CHR ''.'', CHR ''+''}"

lemma pkg_char_not: "pkg_char c \<Longrightarrow> c \<noteq> CHR ''='' \<and> c \<noteq> CHR ''#'' \<and> c \<noteq> CHR ''['' \<and> c \<noteq> CHR 0x0A"
  by (auto simp: pkg_char_def dest: bare_char_not)

lemma read_line_bad_key:
  assumes "list_all pkg_char n" "CHR ''+'' \<in> set n \<or> CHR ''@'' \<in> set n"
  shows "read_line (raw_line n v) st = None"
proof -
  have "partition1 CHR ''='' ((n @ '' '') @ CHR ''='' # CHR '' '' # quoted v) = Some (n @ '' '', CHR '' '' # quoted v)"
    using assms(1) by (intro partition1_append) (auto simp: list_all_iff dest: pkg_char_not)
  moreover have "\<not> bare_char CHR ''+''" "\<not> bare_char CHR ''@''"
    by (simp_all add: bare_char_def is_alpha_def is_digit_def less_eq_char_def)
  with assms(2) have "\<not> bare_key n" by (auto simp: bare_key_def list_all_iff)
  ultimately have "read_pair (raw_line n v) = None"
    by (simp add: read_pair_def raw_line_def pair_line_def)
  moreover obtain c cs where "n = c # cs" "pkg_char c"
    using assms by (cases n) auto
  ultimately show ?thesis
    using pkg_char_not [of c] by (cases st) (simp add: read_line_def raw_line_def pair_line_def)
qed

lemma unreadable_after_failure:
  assumes "list_all pkg_char n" "CHR ''+'' \<in> set n \<or> CHR ''@'' \<in> set n"
  shows "toml_load (serialize (mark_package_failed u n e d)) = None"
proof -
  let ?d = "mark_package_failed u n e d" and ?l = "raw_line n (escape_toml_str e)"
  let ?s = "stage_entry ?d ''packages''"
  have "dget (ps_stages ?d) ''packages'' = Some ?s"
    by (simp add: mark_package_failed_def touch_def stage_entry_def upd_stage_def dget_or_def)
  then have in_stages: "(''packages'', ?s) \<in> set (ps_stages ?d)" by (rule map_of_SomeD)
  have "written ?s"
    by (simp add: mark_package_failed_def on_progress_entry written_def or_set_def split: option.splits)
  moreover have "dget (or_nil (sd_errors ?s)) n = Some e"
    by (simp add: mark_package_failed_def)
  then have err: "(n, e) \<in> set (or_nil (sd_errors ?s))" by (rule map_of_SomeD)
  then have "?l \<in> set (errors_lines ''packages'' (sd_errors ?s))"
    by (auto simp: errors_lines_def intro!: image_eqI [of _ _ "(n, e)"])
  ultimately have "?l \<in> set (stage_lines (''packages'', ?s))"
    by (simp add: stage_lines_def)
  with in_stages have l: "?l \<in> set (state_lines ?d)"
    by (auto simp: state_lines_def intro!: bexI [of _ "(''packages'', ?s)"])
  have "CHR 0x0A \<notin> set n" using assms(1) by (auto simp: list_all_iff dest: pkg_char_not)
  then have "CHR 0x0A \<notin> set ?l" by (simp add: raw_line_def pair_line_def quoted_def escape_clean)
  then have "split_on CHR 0x0A ?l = [?l]" by (rule split_on_none)
  moreover have "split_on CHR 0x0A (serialize ?d) = concat (map (split_on CHR 0x0A) (state_lines ?d))"
    unfolding serialize_def by (rule split_on_join) (simp add: state_lines_def)
  ultimately have "?l \<in> set (split_on CHR 0x0A (serialize ?d))" using l by force
  from read_lines_stuck [OF read_line_bad_key [OF assms] this] show ?thesis by (simp add: toml_load_def)
qed

text \<open>Once a package whose name has a \<open>+\<close> or an \<open>@\<close> has failed, the saved checkpoint cannot be
  read back, whatever else it holds.\<close>

theorem failed_package_unreadable:
  assumes "list_all pkg_char n" "CHR ''+'' \<in> set n \<or> CHR ''@'' \<in> set n"
  shows "load toml_load (save False (mark_package_failed u n e d) file) = None"
  by (simp add: save_def load_def unreadable_after_failure [OF assms])

theorem failed_package_unreadable_witness:
  "load toml_load (save False (mark_package_failed ''T'' ''libc++'' ''boom'' empty_state) None) = None"
  by (rule failed_package_unreadable) code_simp+

lemma errors_key_bare:
  "toml_load (serialize (mark_package_failed ''T'' ''zlib'' ''boom'' empty_state)) =
     Some (norm_state (mark_package_failed ''T'' ''zlib'' ''boom'' empty_state))"
  by code_simp

end
