(* ===== verification/PipelineRunner.thy ===== *)
theory PipelineRunner
  imports PipelineState "HOL-Library.Sublist"
begin

text \<open>
  Model of \<open>sysforge/pipeline/runner.py\<close>: the sequencing of the pipeline's stages over the
  checkpoint of theory \<open>PipelineState\<close>.  What a stage's \<open>run\<close> does to the state and to the
  file, and what it raises, is the parameter \<open>run\<close>; so are the clock readings \<open>now\<close>, the
  effective user and the interrupts that can land in the change report.  Banners, logs and
  probes are not modelled.

  The locale \<open>checkpoint\<close> is what the runner needs of its store: the marks set the status of
  one stage only, and a save followed by a load keeps every status.  It is interpreted on
  the methods of \<open>PipelineState\<close>.
\<close>

section \<open>Data\<close>

text \<open>What a stage can raise; \<open>BaseErr\<close> is a \<open>BaseException\<close> outside \<open>Exception\<close>.\<close>

datatype exn =
    RuntimeErr string
  | NotImplErr string
  | RebootReq string
  | OtherErr string string
  | BaseErr string

record stage_def =
  st_name :: string
  st_depends :: "string list"
  st_stateless :: bool
  st_makepkg_bearing :: bool
  st_reports_changes :: bool
  st_before_empty :: bool

record run_options =
  o_resume :: bool
  o_start_from :: "string option"
  o_dry_run :: bool

text \<open>The state object, its file, and the names of the stages that ran.\<close>

record run_state =
  rs_data :: pstate
  rs_file :: "string option"
  rs_trace :: "string list"

datatype outcome = Finished | Exited nat | Raised exn

type_synonym stage_run = "string \<Rightarrow> pstate \<times> string option \<Rightarrow> exn option \<times> pstate \<times> string option"

text \<open>
  The interrupts of one stage's change report: one that lands in the snapshot before the stage
  runs, and one in the reporting after it.
\<close>

record report_env =
  re_before :: "string \<Rightarrow> string option"
  re_after :: "string \<Rightarrow> string option"

section \<open>Operations\<close>

definition validate_stages :: "stage_def list \<Rightarrow> string option" where
  "validate_stages stages =
     map_option st_name
       (find (\<lambda>s. \<not> list_all (\<lambda>dep. dep \<in> set (map st_name stages)) (st_depends s)) stages)"

fun find_resume_index :: "stage_def list \<Rightarrow> pstate \<Rightarrow> nat" where
  "find_resume_index [] d = 0"
| "find_resume_index (s # ss) d =
     (if stage_status d (st_name s) \<notin> {''done'', ''skipped_to''} then 0
      else Suc (find_resume_index ss d))"

definition run_stage_with_change_report ::
    "report_env \<Rightarrow> stage_run \<Rightarrow> stage_def \<Rightarrow> run_state \<Rightarrow> exn option \<times> run_state" where
  "run_stage_with_change_report env run st r =
     (let n = st_name st;
          go = (let (err, d, f) = run n (rs_data r, rs_file r)
                in (err, r\<lparr>rs_data := d, rs_file := f, rs_trace := rs_trace r @ [n]\<rparr>))
      in if \<not> st_reports_changes st then go
         else if \<not> st_before_empty st \<and> re_before env n \<noteq> None then (map_option BaseErr (re_before env n), r)
         else (let (err, r') = go
               in (case err of Some e \<Rightarrow> (Some e, r') | None \<Rightarrow> (map_option BaseErr (re_after env n), r'))))"

text \<open>\<open>str(e)\<close> for a \<open>RuntimeError\<close> (a \<open>NotImplementedError\<close> is one), else with the type's name.\<close>

definition exn_detail :: "exn \<Rightarrow> string" where
  "exn_detail e =
     (case e of
        RuntimeErr m \<Rightarrow> m
      | NotImplErr m \<Rightarrow> m
      | RebootReq m \<Rightarrow> ''BootstrapRebootRequired: '' @ m
      | OtherErr t m \<Rightarrow> t @ '': '' @ m
      | BaseErr m \<Rightarrow> m)"

definition with_data :: "pstate \<Rightarrow> run_state \<Rightarrow> run_state" where
  "with_data d r = r\<lparr>rs_data := d\<rparr>"

definition saved :: "bool \<Rightarrow> run_state \<Rightarrow> run_state" where
  "saved dry r = r\<lparr>rs_file := save dry (rs_data r) (rs_file r)\<rparr>"

text \<open>
  The stages from index \<open>i\<close> on.  \<open>Inl\<close> is the end of the run, \<open>Inr\<close> the state after the loop.
\<close>

definition run_one ::
    "report_env \<Rightarrow> stage_run \<Rightarrow> (nat \<Rightarrow> string) \<Rightarrow> bool \<Rightarrow> nat \<Rightarrow> stage_def \<Rightarrow> run_state
     \<Rightarrow> (outcome \<times> run_state) + run_state" where
  "run_one env run now root i st r =
     (let n = st_name st in
      if st_makepkg_bearing st \<and> root then Inl (Exited 2, r)
      else
        (let r1 = saved False (with_data (mark_running (now (4 * i)) (now (4 * i + 1)) n (rs_data r)) r);
             (err, r2) = run_stage_with_change_report env run st r1;
             fail = (\<lambda>m. saved False (with_data
                       (mark_failed (now (4 * i + 2)) (now (4 * i + 3)) n m (rs_data r2)) r2))
         in case err of
              None \<Rightarrow> Inr (saved False (with_data
                        (mark_done (now (4 * i + 2)) (now (4 * i + 3)) n (rs_data r2)) r2))
            | Some e \<Rightarrow>
                (case e of
                   NotImplErr m \<Rightarrow> Inl (Exited 1, fail m)
                 | RebootReq m \<Rightarrow> Inl (Exited 0, saved False r2)
                 | BaseErr m \<Rightarrow> Inl (Raised e, r2)
                 | _ \<Rightarrow> Inl (Exited 1, fail (exn_detail e)))))"

fun run_stages ::
    "report_env \<Rightarrow> stage_run \<Rightarrow> (nat \<Rightarrow> string) \<Rightarrow> bool \<Rightarrow> bool \<Rightarrow> nat \<Rightarrow> nat \<Rightarrow> stage_def list \<Rightarrow> run_state
     \<Rightarrow> outcome \<times> run_state" where
  "run_stages env run now root dry start i [] r = (Finished, r)"
| "run_stages env run now root dry start i (st # sts) r =
     (if i < start \<or> stage_status (rs_data r) (st_name st) = ''done'' \<or> dry
      then run_stages env run now root dry start (Suc i) sts r
      else (case run_one env run now root i st r of
              Inl end \<Rightarrow> end
            | Inr r' \<Rightarrow> run_stages env run now root dry start (Suc i) sts r'))"

text \<open>The marks of \<open>--start-from\<close> on the stages before it.\<close>

definition skip_earlier :: "(nat \<Rightarrow> string) \<Rightarrow> stage_def list \<Rightarrow> pstate \<Rightarrow> pstate" where
  "skip_earlier now stages d =
     fold (\<lambda>st d. if stage_status d (st_name st) = ''done'' then d
                  else mark_skipped_to (now 0) (st_name st) d) stages d"

fun stage_index :: "string \<Rightarrow> stage_def list \<Rightarrow> nat option" where
  "stage_index n [] = None"
| "stage_index n (s # ss) = (if st_name s = n then Some 0 else map_option Suc (stage_index n ss))"

text \<open>Where the run starts: \<open>Inl\<close> when it ends at once.\<close>

definition start_point ::
    "(nat \<Rightarrow> string) \<Rightarrow> run_options \<Rightarrow> stage_def list \<Rightarrow> run_state \<Rightarrow> (outcome \<times> run_state) + (nat \<times> run_state)" where
  "start_point now opts stages r =
     (if truthy (o_start_from opts) then
        (case stage_index (the (o_start_from opts)) stages of
           None \<Rightarrow> Inl (Exited 1, r)
         | Some i \<Rightarrow>
             (let r1 = (if o_resume opts then r
                        else with_data (skip_earlier now (take i stages) (rs_data r)) r)
              in Inr (i, if o_dry_run opts then r1 else saved (o_dry_run opts) r1)))
      else if o_resume opts then
        (let i = find_resume_index stages (rs_data r)
         in if i = length stages then Inl (Finished, r) else Inr (i, r))
      else Inr (0, r))"

definition run_pipeline ::
    "(string \<Rightarrow> pstate option) \<Rightarrow> report_env \<Rightarrow> stage_run \<Rightarrow> (nat \<Rightarrow> string) \<Rightarrow> bool \<Rightarrow> run_options
     \<Rightarrow> stage_def list \<Rightarrow> string option \<Rightarrow> outcome \<times> run_state" where
  "run_pipeline loads env run now root opts stages file =
     (let r0 = \<lparr>rs_data = empty_state, rs_file = file, rs_trace = []\<rparr>
      in case validate_stages stages of
           Some n \<Rightarrow> (Raised (OtherErr ''ValueError'' n), r0)
         | None \<Rightarrow>
             (case load loads file of
                None \<Rightarrow> (Raised (OtherErr ''TOMLDecodeError'' []), r0)
              | Some d \<Rightarrow>
                  (let r = with_data d r0
                   in if file \<noteq> None \<and> \<not> o_resume opts \<and> \<not> truthy (o_start_from opts) then (Exited 1, r)
                      else (case start_point now opts stages r of
                              Inl end \<Rightarrow> end
                            | Inr (i, r1) \<Rightarrow>
                                (let r2 = with_data (init_meta (now 0) (now 1) (rs_data r1)) r1;
                                     r3 = (if o_dry_run opts then r2 else saved (o_dry_run opts) r2)
                                 in run_stages env run now root (o_dry_run opts) i 0 stages r3)))))"

text \<open>
  \<open>run_stage_standalone\<close>: \<open>writable\<close> says that the state directory can be written, else the
  checkpoint warns and goes on.
\<close>

definition checkpoint_file :: "bool \<Rightarrow> bool \<Rightarrow> run_state \<Rightarrow> run_state" where
  "checkpoint_file writable dry r = (if writable then saved dry r else r)"

definition run_stage_standalone ::
    "(string \<Rightarrow> pstate option) \<Rightarrow> report_env \<Rightarrow> stage_run \<Rightarrow> (nat \<Rightarrow> string) \<Rightarrow> bool \<Rightarrow> bool \<Rightarrow> stage_def
     \<Rightarrow> string option \<Rightarrow> outcome \<times> run_state" where
  "run_stage_standalone loads env run now writable dry st file =
     (let r0 = \<lparr>rs_data = empty_state, rs_file = file, rs_trace = []\<rparr>; n = st_name st;
          tracks = (\<not> st_stateless st \<and> \<not> dry)
      in case load loads file of
           None \<Rightarrow> (Raised (OtherErr ''TOMLDecodeError'' []), r0)
         | Some d \<Rightarrow>
             (let r = with_data d r0;
                  r1 = (if tracks then checkpoint_file writable dry
                          (with_data (mark_running (now 0) (now 1) n (rs_data r)) r) else r);
                  (err, r2) =
                    (if dry then run_stage_with_change_report env run (st\<lparr>st_reports_changes := False\<rparr>) r1
                     else run_stage_with_change_report env run st r1)
              in case err of
                   None \<Rightarrow>
                     (Finished,
                      if tracks then checkpoint_file writable dry
                        (with_data (mark_done (now 2) (now 3) n (rs_data r2)) r2)
                      else if \<not> dry then checkpoint_file writable dry
                        (with_data (note_completed (now 2) (now 3) n (rs_data r2)) r2)
                      else r2)
                 | Some (BaseErr m) \<Rightarrow> (Raised (BaseErr m), r2)
                 | Some e \<Rightarrow>
                     (Exited 1,
                      if tracks then checkpoint_file writable dry
                        (with_data (mark_failed (now 2) (now 3) n (exn_detail e) (rs_data r2)) r2)
                      else r2)))"

section \<open>The store of the runner\<close>

definition closed :: "string \<Rightarrow> bool" where
  "closed s \<longleftrightarrow> s = ''done'' \<or> s = ''skipped_to''"

fun first_open :: "(string \<Rightarrow> string) \<Rightarrow> string list \<Rightarrow> nat" where
  "first_open status [] = 0"
| "first_open status (n # ns) = (if closed (status n) then Suc (first_open status ns) else 0)"

lemma first_open_prefix: "list_all (\<lambda>n. closed (status n)) ns \<Longrightarrow> first_open status (ns @ ms) = length ns + first_open status ms"
  by (induction ns) auto

lemma find_resume_index_open: "find_resume_index stages d = first_open (stage_status d) (map st_name stages)"
  by (induction stages) (auto simp: closed_def)

locale checkpoint =
  fixes valid :: "'s \<Rightarrow> bool"
    and status :: "'s \<Rightarrow> string \<Rightarrow> string"
    and begin_mark ok_mark fail_mark :: "string \<Rightarrow> 's \<Rightarrow> 's"
    and store :: "'s \<Rightarrow> 'f"
    and fetch :: "'f \<Rightarrow> 's option"
  assumes status_begin: "status (begin_mark n s) m = (if m = n then ''running'' else status s m)"
    and status_ok: "status (ok_mark n s) m = (if m = n then ''done'' else status s m)"
    and status_fail: "status (fail_mark n s) m = (if m = n then ''failed'' else status s m)"
    and fetch_store: "valid s \<Longrightarrow> \<exists>s'. fetch (store s) = Some s' \<and> status s' = status s"
begin

text \<open>A stored state is resumed at its first open stage.\<close>

lemma reopened:
  assumes "valid t" "list_all (\<lambda>m. closed (status t m)) ns" "\<not> closed (status t n)"
  shows "\<exists>s'. fetch (store t) = Some s' \<and> first_open (status s') (ns @ n # ms) = length ns"
proof -
  obtain s' where "fetch (store t) = Some s'" "status s' = status t"
    using fetch_store [OF assms(1)] by blast
  with assms(2,3) first_open_prefix [of "status t" ns "n # ms"] show ?thesis by auto
qed

text \<open>A stage that failed, or was cut off while it ran, is where the next run resumes.\<close>

lemma failed_or_cut_off_reopens:
  assumes "list_all (\<lambda>m. closed (status s m)) ns" "n \<notin> set ns"
    and "t = fail_mark n s \<or> t = begin_mark n s" "valid t"
  shows "\<exists>s'. fetch (store t) = Some s' \<and> first_open (status s') (ns @ n # ms) = length ns"
proof (rule reopened [OF assms(4)])
  show "list_all (\<lambda>m. closed (status t m)) ns"
    using assms(1,2,3) by (auto simp: list_all_iff status_begin status_fail)
  show "\<not> closed (status t n)"
    using assms(3) by (auto simp: status_begin status_fail closed_def)
qed

lemma done_stays_closed:
  "list_all (\<lambda>m. closed (status s m)) ns \<Longrightarrow> list_all (\<lambda>m. closed (status (ok_mark n s) m)) (ns @ [n])"
  by (auto simp: list_all_iff status_ok closed_def)

end

lemma status_mark_running: "stage_status (mark_running t u n d) m = (if m = n then ''running'' else stage_status d m)"
  by (simp add: stage_status_def mark_defs)

lemma status_mark_done: "stage_status (mark_done t u n d) m = (if m = n then ''done'' else stage_status d m)"
  by (simp add: stage_status_def mark_defs)

lemma status_mark_failed: "stage_status (mark_failed t u n e d) m = (if m = n then ''failed'' else stage_status d m)"
  by (simp add: stage_status_def mark_defs)

lemma status_mark_skipped: "stage_status (mark_skipped_to u n d) m = (if m = n then ''skipped_to'' else stage_status d m)"
  by (simp add: stage_status_def mark_defs)

lemma status_init_meta: "stage_status (init_meta t u d) = stage_status d"
  by (rule ext) (simp add: stage_status_def)

lemmas status_marks = status_mark_running status_mark_done status_mark_failed status_mark_skipped status_init_meta

lemma status_norm: "wf_state d \<Longrightarrow> stage_status (norm_state d) = stage_status d"
  by (rule ext) (auto simp: stage_status_def norm_entry wf_state_def norm_stage_def written_def empty_stage_def)

interpretation toml: checkpoint wf_state stage_status "mark_running t u" "mark_done t u" "\<lambda>n. mark_failed t u n e"
    serialize toml_load for t u e
  by unfold_locales (auto simp: status_marks load_serialize status_norm)

section \<open>Change reports\<close>

lemma change_report_stage:
  assumes "run_stage_with_change_report env run st r = (err, r')" "rs_trace r' \<noteq> rs_trace r"
  shows "rs_data r' = fst (snd (run (st_name st) (rs_data r, rs_file r))) \<and>
    (fst (run (st_name st) (rs_data r, rs_file r)) \<noteq> None \<longrightarrow> err = fst (run (st_name st) (rs_data r, rs_file r)))"
  using assms
  by (auto simp: run_stage_with_change_report_def Let_def case_prod_beta split: if_splits option.splits)

text \<open>What a stage promises: it keeps the state well formed and leaves every status alone.\<close>

definition stage_contract :: "stage_run \<Rightarrow> bool" where
  "stage_contract run \<longleftrightarrow>
     (\<forall>n d f. wf_state d \<and> stage_status d n = ''running'' \<longrightarrow>
        wf_state (fst (snd (run n (d, f)))) \<and> stage_status (fst (snd (run n (d, f)))) = stage_status d)"

lemma change_report_keeps:
  assumes "stage_contract run" "wf_state (rs_data r)" "stage_status (rs_data r) (st_name st) = ''running''"
    and "run_stage_with_change_report env run st r = (err, r')"
  shows "wf_state (rs_data r')" "stage_status (rs_data r') = stage_status (rs_data r)"
    "rs_trace r' = rs_trace r @ [st_name st] \<or> rs_trace r' = rs_trace r \<and> (\<exists>m. err = Some (BaseErr m))"
  using assms
  by (auto simp: run_stage_with_change_report_def stage_contract_def Let_def case_prod_beta
      split: if_splits option.splits)

section \<open>One stage\<close>

lemma wf_marks:
  assumes "wf_state d" "plain t" "plain u" "bare_key n"
  shows "wf_state (mark_running t u n d)" "wf_state (mark_done t u n d)" "wf_state (mark_failed t u n e d)"
    "wf_state (mark_skipped_to u n d)"
  using assms exec_wf [of d "MarkRunning t u n"] exec_wf [of d "MarkDone t u n"]
    exec_wf [of d "MarkFailed t u n e"] exec_wf [of d "MarkSkippedTo u n"] by simp_all

definition now_ok :: "(nat \<Rightarrow> string) \<Rightarrow> bool" where
  "now_ok now \<longleftrightarrow> (\<forall>i. plain (now i))"

lemma saved_simps [simp]: "rs_data (saved dry r) = rs_data r" "rs_trace (saved dry r) = rs_trace r"
  "rs_file (saved False r) = Some (serialize (rs_data r))" "saved True r = r"
  by (simp_all add: saved_def save_def)

lemma with_data_simps [simp]: "rs_data (with_data d r) = d" "rs_trace (with_data d r) = rs_trace r"
  "rs_file (with_data d r) = rs_file r"
  by (simp_all add: with_data_def)

lemma run_one_cases:
  assumes "stage_contract run" "now_ok now" "wf_state (rs_data r)" "bare_key (st_name st)"
  shows "case run_one env run now root i st r of
      Inr r' \<Rightarrow> wf_state (rs_data r') \<and> rs_trace r' = rs_trace r @ [st_name st] \<and>
        rs_file r' = Some (serialize (rs_data r')) \<and>
        (\<forall>m. stage_status (rs_data r') m = (if m = st_name st then ''done'' else stage_status (rs_data r) m))
    | Inl (out, r') \<Rightarrow> out \<noteq> Finished \<and> wf_state (rs_data r') \<and>
        (out = Exited 1 \<longrightarrow> rs_trace r' = rs_trace r @ [st_name st] \<and>
           rs_file r' = Some (serialize (rs_data r')) \<and>
           stage_status (rs_data r') (st_name st) = ''failed'') \<and>
        (\<forall>m. m \<noteq> st_name st \<longrightarrow> stage_status (rs_data r') m = stage_status (rs_data r) m) \<and>
        (rs_trace r' = rs_trace r \<or> rs_trace r' = rs_trace r @ [st_name st])"
proof (cases "st_makepkg_bearing st \<and> root")
  case True
  with assms(3) show ?thesis by (simp add: run_one_def)
next
  case False
  let ?n = "st_name st"
  let ?r1 = "saved False (with_data (mark_running (now (4 * i)) (now (4 * i + 1)) ?n (rs_data r)) r)"
  obtain err r2 where step: "run_stage_with_change_report env run st ?r1 = (err, r2)" by fastforce
  have now: "plain (now k)" for k using assms(2) by (simp add: now_ok_def)
  have wf1: "wf_state (rs_data ?r1)" using assms(3,4) now by (simp add: wf_marks)
  have "stage_status (rs_data ?r1) ?n = ''running''" by (simp add: status_marks)
  note keep = change_report_keeps [OF assms(1) wf1 this step]
  have st2: "stage_status (rs_data r2) m = (if m = ?n then ''running'' else stage_status (rs_data r) m)" for m
    using keep(2) by (simp add: status_marks)
  show ?thesis
  proof (cases err)
    case None
    then show ?thesis
      using False keep step st2 assms(4) now by (auto simp: run_one_def Let_def status_marks wf_marks)
  next
    case (Some e)
    then show ?thesis
      using False keep step st2 assms(4) now
      by (cases e) (auto simp: run_one_def Let_def status_marks wf_marks)
  qed
qed

section \<open>The loop\<close>

abbreviation names :: "stage_def list \<Rightarrow> string list" where
  "names sts \<equiv> map st_name sts"

definition all_closed :: "run_state \<Rightarrow> string list \<Rightarrow> bool" where
  "all_closed r ns \<longleftrightarrow> list_all (\<lambda>n. closed (stage_status (rs_data r) n)) ns"

text \<open>The state of a run that a failing stage ended: that stage ran last, its status is failed, the
  stages before it are closed, and the file holds the state.\<close>

definition stopped_at :: "stage_def list \<Rightarrow> stage_def list \<Rightarrow> run_state \<Rightarrow> bool" where
  "stopped_at pre sts r \<longleftrightarrow>
     (\<exists>done st post. sts = done @ st # post \<and> rs_trace r \<noteq> [] \<and> last (rs_trace r) = st_name st \<and>
        all_closed r (names (pre @ done)) \<and> stage_status (rs_data r) (st_name st) = ''failed'' \<and>
        rs_file r = Some (serialize (rs_data r)) \<and> wf_state (rs_data r))"

lemma stopped_at_step: "stopped_at (pre @ [st]) sts r \<Longrightarrow> stopped_at pre (st # sts) r"
  unfolding stopped_at_def by (metis append.assoc append_Cons append_Nil)

lemma run_stages_spec:
  assumes "stage_contract run" "now_ok now"
  shows "run_stages env run now root False start i sts r = (out, r') \<Longrightarrow>
    distinct (names (pre @ sts)) \<Longrightarrow> list_all bare_key (names sts) \<Longrightarrow> wf_state (rs_data r) \<Longrightarrow>
    all_closed r (names (pre @ take (start - i) sts)) \<Longrightarrow>
    (out = Finished \<longrightarrow> all_closed r' (names (pre @ sts))) \<and>
    (out = Exited 1 \<longrightarrow> stopped_at pre sts r') \<and>
    (\<exists>ran. rs_trace r' = rs_trace r @ ran \<and> subseq ran (names sts) \<and>
       list_all (\<lambda>n. stage_status (rs_data r) n \<noteq> ''done'') ran)"
proof (induction sts arbitrary: i pre r)
  case Nil
  then show ?case by (auto intro: list_emb_Nil)
next
  case (Cons st sts)
  let ?n = "st_name st" and ?s = "stage_status (rs_data r)"
  show ?case
  proof (cases "i < start \<or> ?s ?n = ''done''")
    case True
    have "all_closed r (names ((pre @ [st]) @ take (start - Suc i) sts))"
    proof (cases "start - i")
      case 0
      then have "start - Suc i = 0" "?s ?n = ''done''" using True by auto
      with Cons.prems(5) 0 show ?thesis by (simp add: all_closed_def closed_def)
    next
      case (Suc k)
      then have "start - Suc i = k" by simp
      with Cons.prems(5) Suc show ?thesis by (simp add: all_closed_def)
    qed
    moreover have "run_stages env run now root False start (Suc i) sts r = (out, r')"
      using True Cons.prems(1) by auto
    ultimately have "(out = Finished \<longrightarrow> all_closed r' (names ((pre @ [st]) @ sts))) \<and>
        (out = Exited 1 \<longrightarrow> stopped_at (pre @ [st]) sts r') \<and>
        (\<exists>ran. rs_trace r' = rs_trace r @ ran \<and> subseq ran (names sts) \<and> list_all (\<lambda>n. ?s n \<noteq> ''done'') ran)"
      using Cons.prems(2,3,4) by (intro Cons.IH) simp_all
    then show ?thesis
      by (auto intro: stopped_at_step)
  next
    case False
    then have start: "start - i = 0" "start - Suc i = 0" by auto
    note one = run_one_cases [OF assms Cons.prems(4), of st env root i]
    have bare: "bare_key ?n" using Cons.prems(3) by simp
    show ?thesis
    proof (cases "run_one env run now root i st r")
      case (Inl e)
      then have e: "e = (out, r')" using False Cons.prems(1) by simp
      have other: "stage_status (rs_data r') m = ?s m" if "m \<noteq> ?n" for m
        using one bare Inl e that by simp
      have "stage_status (rs_data r') m = ?s m" if "m \<in> set (names pre)" for m
        by (rule other) (use that Cons.prems(2) in \<open>auto simp del: set_map\<close>)
      then have "all_closed r' (names pre)"
        using Cons.prems(5) start by (simp add: all_closed_def list_all_iff)
      moreover have "out \<noteq> Finished" "wf_state (rs_data r')"
        "rs_trace r' = rs_trace r \<or> rs_trace r' = rs_trace r @ [?n]"
        "out = Exited 1 \<Longrightarrow> rs_trace r' = rs_trace r @ [?n] \<and> rs_file r' = Some (serialize (rs_data r')) \<and>
           stage_status (rs_data r') ?n = ''failed''"
        using one bare Inl e by auto
      moreover have "out = Exited 1 \<longrightarrow> stopped_at pre (st # sts) r'"
        unfolding stopped_at_def using calculation
        by (intro impI exI [of _ "[]"] exI [of _ st] exI [of _ sts]) auto
      ultimately show ?thesis using False by auto
    next
      case (Inr r1)
      then have run: "run_stages env run now root False start (Suc i) sts r1 = (out, r')"
        using False Cons.prems(1) by simp
      have r1: "wf_state (rs_data r1)" "rs_trace r1 = rs_trace r @ [?n]"
        "\<And>m. stage_status (rs_data r1) m = (if m = ?n then ''done'' else ?s m)"
        using one bare Inr by auto
      have "all_closed r1 (names ((pre @ [st]) @ take (start - Suc i) sts))"
        using Cons.prems(5) start r1(3) by (auto simp: all_closed_def list_all_iff closed_def)
      with Cons.IH [OF run, of "pre @ [st]"] Cons.prems(2,3) r1(1)
      obtain ran where "(out = Finished \<longrightarrow> all_closed r' (names ((pre @ [st]) @ sts)))"
        "(out = Exited 1 \<longrightarrow> stopped_at (pre @ [st]) sts r')"
        "rs_trace r' = rs_trace r1 @ ran" "subseq ran (names sts)"
        "list_all (\<lambda>n. stage_status (rs_data r1) n \<noteq> ''done'') ran"
        by auto
      moreover have "?s m \<noteq> ''done''" if "m \<in> set ran" for m
        using calculation(5) that r1(3) by (auto simp: list_all_iff split: if_splits)
      ultimately show ?thesis
        using r1(2) False by (auto simp: list_all_iff intro!: stopped_at_step exI [of _ "?n # ran"])
    qed
  qed
qed

lemma stopped_at_resume:
  assumes "stopped_at [] stages r"
  shows "\<exists>d. toml_load (the (rs_file r)) = Some d \<and> find_resume_index stages d < length stages \<and>
    st_name (stages ! find_resume_index stages d) = last (rs_trace r)"
proof -
  obtain dn st post where s: "stages = dn @ st # post" "last (rs_trace r) = st_name st"
    "all_closed r (names dn)" "stage_status (rs_data r) (st_name st) = ''failed''"
    "rs_file r = Some (serialize (rs_data r))" "wf_state (rs_data r)"
    using assms by (auto simp: stopped_at_def)
  obtain d where "toml_load (serialize (rs_data r)) = Some d"
    "first_open (stage_status d) (names dn @ st_name st # names post) = length (names dn)"
    using toml.reopened [OF s(6), of "names dn" "st_name st" "names post"] s(3,4)
    by (auto simp: all_closed_def closed_def)
  with s(1,2,5) show ?thesis by (auto simp: find_resume_index_open)
qed

section \<open>Dry runs and the guard\<close>

lemma run_stages_dry: "run_stages env run now root True start i sts r = (Finished, r)"
  by (induction sts arbitrary: i) auto

lemma start_point_dry:
  assumes "start_point now opts stages r = Inr (i, r1)" "o_dry_run opts"
  shows "rs_file r1 = rs_file r \<and> rs_trace r1 = rs_trace r"
  using assms by (auto simp: start_point_def Let_def split: if_splits option.splits)

lemma start_point_end:
  assumes "start_point now opts stages r = Inl (out, r1)"
  shows "r1 = r"
  using assms by (auto simp: start_point_def Let_def split: if_splits option.splits)

lemma run_pipeline_dry:
  assumes "o_dry_run opts" "run_pipeline loads env run now root opts stages file = (out, r)"
  shows "rs_file r = file \<and> rs_trace r = []"
  using assms
  by (auto simp: run_pipeline_def Let_def run_stages_dry
      split: option.splits if_splits sum.splits prod.splits dest!: start_point_dry start_point_end)

section \<open>The whole run\<close>

lemma wf_mark_skipped: "wf_state d \<Longrightarrow> plain u \<Longrightarrow> bare_key n \<Longrightarrow> wf_state (mark_skipped_to u n d)"
  using exec_wf [of d "MarkSkippedTo u n"] by simp

lemma skip_earlier_spec:
  assumes "now_ok now" "wf_state d" "list_all bare_key (names sts)"
  shows "wf_state (skip_earlier now sts d) \<and>
    (\<forall>m. stage_status (skip_earlier now sts d) m =
       (if m \<in> set (names sts) \<and> stage_status d m \<noteq> ''done'' then ''skipped_to'' else stage_status d m))"
  using assms(2,3)
proof (induction sts arbitrary: d)
  case Nil
  then show ?case by (simp add: skip_earlier_def)
next
  case (Cons st sts)
  let ?d = "if stage_status d (st_name st) = ''done'' then d else mark_skipped_to (now 0) (st_name st) d"
  have "wf_state ?d" using Cons.prems assms(1) by (simp add: wf_mark_skipped now_ok_def)
  from Cons.IH [OF this] Cons.prems(2) show ?case
    by (auto simp: skip_earlier_def status_marks)
qed

lemma stage_index_take:
  "stage_index n sts = Some i \<Longrightarrow> i < length sts \<and> st_name (sts ! i) = n"
  by (induction n sts arbitrary: i rule: stage_index.induct) (auto split: if_splits)

lemma take_first_open: "list_all (\<lambda>n. closed (status n)) (take (first_open status ns) ns)"
  by (induction ns) auto

text \<open>The state the loop starts from.\<close>

lemma start_point_spec:
  assumes "start_point now opts stages r = Inr (i, r1)" "now_ok now" "wf_state (rs_data r)"
    and "list_all bare_key (names stages)"
  shows "wf_state (rs_data r1) \<and> rs_trace r1 = rs_trace r \<and>
    (\<forall>m. stage_status (rs_data r) m = ''done'' \<longrightarrow> stage_status (rs_data r1) m = ''done'') \<and>
    (\<not> (o_resume opts \<and> truthy (o_start_from opts)) \<longrightarrow> all_closed r1 (names (take i stages)))"
proof -
  have bare: "list_all bare_key (names (take k stages))" for k
    using assms(4) by (auto simp: list_all_iff dest: in_set_takeD)
  note skip = skip_earlier_spec [OF assms(2,3) bare]
  consider k where "truthy (o_start_from opts)" "stage_index (the (o_start_from opts)) stages = Some k"
    | "\<not> truthy (o_start_from opts)"
    using assms(1) by (cases "truthy (o_start_from opts)") (auto simp: start_point_def split: option.splits)
  then show ?thesis
  proof cases
    case 1
    with assms(1) skip [of k] assms(3) show ?thesis
      by (auto simp: start_point_def Let_def all_closed_def list_all_iff closed_def split: if_splits)
  next
    case 2
    show ?thesis
    proof (cases "o_resume opts")
      case True
      with 2 assms(1) have "i = find_resume_index stages (rs_data r)" "r1 = r"
        by (auto simp: start_point_def Let_def split: if_splits)
      with take_first_open [of "stage_status (rs_data r)" "names stages"] assms(3) show ?thesis
        by (simp add: find_resume_index_open all_closed_def take_map)
    next
      case False
      with 2 assms(1,3) show ?thesis by (simp add: start_point_def all_closed_def)
    qed
  qed
qed

text \<open>A run that reaches the loop.\<close>

lemma run_pipeline_loop:
  assumes "run_pipeline loads env run now root opts stages file = (out, r)" "\<not> o_dry_run opts"
    and "load loads file = Some d" "now_ok now" "wf_state d" "list_all bare_key (names stages)"
    and "stage_contract run" "distinct (names stages)"
  shows "(rs_trace r = [] \<and> (out = Finished \<longrightarrow> all_closed r (names stages))) \<or>
    (\<exists>i r3. run_stages env run now root False i 0 stages r3 = (out, r) \<and> wf_state (rs_data r3) \<and>
       rs_trace r3 = [] \<and> (\<forall>m. stage_status d m = ''done'' \<longrightarrow> stage_status (rs_data r3) m = ''done'') \<and>
       (\<not> (o_resume opts \<and> truthy (o_start_from opts)) \<longrightarrow> all_closed r3 (names (take i stages))))"
proof -
  let ?r = "with_data d \<lparr>rs_data = empty_state, rs_file = file, rs_trace = []\<rparr>"
  consider "validate_stages stages \<noteq> None"
    | "validate_stages stages = None" "file \<noteq> None \<and> \<not> o_resume opts \<and> \<not> truthy (o_start_from opts)"
    | "validate_stages stages = None" "\<not> (file \<noteq> None \<and> \<not> o_resume opts \<and> \<not> truthy (o_start_from opts))"
    by blast
  then show ?thesis
  proof cases
    case 1
    with assms(1) show ?thesis by (auto simp: run_pipeline_def)
  next
    case 2
    with assms(1,3) show ?thesis by (auto simp: run_pipeline_def)
  next
    case 3
    show ?thesis
    proof (cases "start_point now opts stages ?r")
      case (Inl e)
      obtain out' r' where e: "e = (out', r')" by (cases e)
      with Inl 3 assms(1,3) have "out' = out" "r' = r" by (auto simp: run_pipeline_def Let_def)
      with Inl e have p: "start_point now opts stages ?r = Inl (out, r)" by simp
      then have "r = ?r" by (rule start_point_end)
      moreover have "all_closed ?r (names stages)" if "out = Finished"
        using p that take_first_open [of "stage_status d" "names stages"]
        by (auto simp: start_point_def Let_def all_closed_def find_resume_index_open take_map split: if_splits option.splits)
      ultimately show ?thesis by simp
    next
      case (Inr ir)
      obtain i r1 where "ir = (i, r1)" by (cases ir)
      with Inr have p: "start_point now opts stages ?r = Inr (i, r1)" by simp
      let ?r3 = "saved False (with_data (init_meta (now 0) (now 1) (rs_data r1)) r1)"
      have sp: "wf_state (rs_data r1) \<and> rs_trace r1 = [] \<and>
          (\<forall>m. stage_status d m = ''done'' \<longrightarrow> stage_status (rs_data r1) m = ''done'') \<and>
          (\<not> (o_resume opts \<and> truthy (o_start_from opts)) \<longrightarrow> all_closed r1 (names (take i stages)))"
        using start_point_spec [OF p assms(4) _ assms(6)] assms(5) by simp
      have "run_stages env run now root False i 0 stages ?r3 = (out, r)"
        using assms(1,2,3) 3 p by (auto simp: run_pipeline_def Let_def)
      moreover have "wf_state (rs_data ?r3)"
        using exec_wf [of "rs_data r1" "InitMeta (now 0) (now 1)"] sp assms(4) by (simp add: now_ok_def)
      ultimately show ?thesis
        using sp by (intro disjI2 exI [of _ i] exI [of _ ?r3]) (simp add: status_init_meta all_closed_def)
    qed
  qed
qed

section \<open>Properties\<close>

definition pipeline_ok :: "stage_run \<Rightarrow> (nat \<Rightarrow> string) \<Rightarrow> stage_def list \<Rightarrow> string option \<Rightarrow> pstate \<Rightarrow> bool" where
  "pipeline_ok run now stages file d \<longleftrightarrow>
     stage_contract run \<and> now_ok now \<and> distinct (names stages) \<and> list_all bare_key (names stages) \<and>
     load toml_load file = Some d \<and> wf_state d"

text \<open>C26: when a stage fails, a later \<open>--resume\<close> starts at exactly that stage: the file the run
  leaves is readable and its first open stage is the one that ran last.\<close>

theorem resume_restarts_failed_stage:
  assumes "pipeline_ok run now stages file d"
    and "run_pipeline toml_load env run now root opts stages file = (Exited 1, r)" "rs_trace r \<noteq> []"
    and "\<not> o_dry_run opts" "\<not> (o_resume opts \<and> truthy (o_start_from opts))"
  shows "\<exists>e. load toml_load (rs_file r) = Some e \<and> find_resume_index stages e < length stages \<and>
    st_name (stages ! find_resume_index stages e) = last (rs_trace r)"
proof -
  have ok: "stage_contract run" "now_ok now" "distinct (names stages)" "list_all bare_key (names stages)"
    "load toml_load file = Some d" "wf_state d"
    using assms(1) by (simp_all add: pipeline_ok_def)
  obtain i r3 where loop: "run_stages env run now root False i 0 stages r3 = (Exited 1, r)"
    "wf_state (rs_data r3)" "all_closed r3 (names (take i stages))"
    using run_pipeline_loop [OF assms(2,4) ok(5,2,6,4,1,3)] assms(3,5) by auto
  have "stopped_at [] stages r"
    using run_stages_spec [OF ok(1,2) loop(1), of "[]"] ok(3,4) loop(2,3) by simp
  from stopped_at_resume [OF this] show ?thesis
    using \<open>stopped_at [] stages r\<close> by (auto simp: load_def stopped_at_def)
qed


text \<open>A dry run, and a run refused because a checkpoint exists, leave the file as it is and run
  no stage.\<close>

theorem run_pipeline_no_effect:
  assumes "o_dry_run opts \<or> (file \<noteq> None \<and> \<not> o_resume opts \<and> \<not> truthy (o_start_from opts))"
    and "run_pipeline loads env run now root opts stages file = (out, r)"
  shows "rs_file r = file \<and> rs_trace r = []"
proof (cases "o_dry_run opts")
  case True
  then show ?thesis using assms(2) by (rule run_pipeline_dry)
next
  case False
  with assms show ?thesis by (auto simp: run_pipeline_def Let_def split: option.splits)
qed

text \<open>A stage run on its own records its outcome the way the pipeline does: a stage that keeps
  state reads as done, failed or, after an interrupt, running, no other status changes, and the
  file holds the final state; any stage that succeeded reads as completed from then on.\<close>

theorem run_stage_standalone_records:
  assumes "stage_contract run" "now_ok now" "bare_key (st_name st)" "load toml_load file = Some d" "wf_state d"
    and "run_stage_standalone toml_load env run now True False st file = (out, r)"
  shows "(out = Finished \<longrightarrow> stage_ever_done (rs_data r) (st_name st)) \<and>
    (out = Finished \<or> (\<not> st_stateless st \<and> out = Exited 1) \<longrightarrow> rs_file r = Some (serialize (rs_data r))) \<and>
    (\<not> st_stateless st \<longrightarrow> (\<forall>m. stage_status (rs_data r) m =
       (if m = st_name st then (case out of Finished \<Rightarrow> ''done'' | Exited _ \<Rightarrow> ''failed'' | Raised _ \<Rightarrow> ''running'')
        else stage_status d m)))"
proof -
  let ?n = "st_name st"
  let ?r = "with_data d \<lparr>rs_data = empty_state, rs_file = file, rs_trace = []\<rparr>"
  let ?r1 = "if \<not> st_stateless st then saved False (with_data (mark_running (now 0) (now 1) ?n d) ?r) else ?r"
  obtain err r2 where step: "run_stage_with_change_report env run st ?r1 = (err, r2)" by fastforce
  have now: "plain (now k)" for k using assms(2) by (simp add: now_ok_def)
  have st2: "stage_status (rs_data r2) m = (if m = ?n then ''running'' else stage_status d m)"
    if "\<not> st_stateless st" for m
  proof -
    have "wf_state (rs_data ?r1)" "stage_status (rs_data ?r1) ?n = ''running''"
      using that assms(3,5) now by (simp_all add: wf_marks status_marks)
    from change_report_keeps(2) [OF assms(1) this step] that show ?thesis by (simp add: status_marks)
  qed
  have out: "(out, r) = (case err of
      None \<Rightarrow> (Finished, saved False (with_data
        (if st_stateless st then note_completed (now 2) (now 3) ?n (rs_data r2)
         else mark_done (now 2) (now 3) ?n (rs_data r2)) r2))
    | Some (BaseErr m) \<Rightarrow> (Raised (BaseErr m), r2)
    | Some e \<Rightarrow> (Exited 1, if st_stateless st then r2
        else saved False (with_data (mark_failed (now 2) (now 3) ?n (exn_detail e) (rs_data r2)) r2)))"
  proof (cases err)
    case None
    with assms(4,6) step show ?thesis
      by (cases "st_stateless st") (simp_all add: run_stage_standalone_def Let_def checkpoint_file_def)
  next
    case (Some e)
    with assms(4,6) step show ?thesis
      by (cases "st_stateless st"; cases e) (simp_all add: run_stage_standalone_def Let_def checkpoint_file_def)
  qed
  have ever: "stage_ever_done (note_completed t u ?n x) ?n" "stage_ever_done (mark_done t u ?n x) ?n" for t u x
    by (auto simp: stage_ever_done_def mark_defs or_set_def split: option.splits)
  show ?thesis
  proof (cases err)
    case None
    with out ever st2 show ?thesis by (auto simp: status_marks)
  next
    case (Some e)
    with out st2 show ?thesis by (cases e) (auto simp: status_marks)
  qed
qed

section \<open>Examples\<close>

definition demo_stage :: "string \<Rightarrow> string list \<Rightarrow> stage_def" where
  "demo_stage n deps = \<lparr>st_name = n, st_depends = deps, st_stateless = False, st_makepkg_bearing = False,
     st_reports_changes = False, st_before_empty = False\<rparr>"

definition demo_stages :: "stage_def list" where
  "demo_stages = [demo_stage ''toolchain'' [], demo_stage ''packages'' [''toolchain''], demo_stage ''kernel'' [''packages'']]"

definition demo_run :: stage_run where
  "demo_run n df = (if n = ''packages'' then Some (RuntimeErr ''boom'') else None, fst df, snd df)"

definition demo_opts :: run_options where
  "demo_opts = \<lparr>o_resume = False, o_start_from = None, o_dry_run = False\<rparr>"

definition demo_env :: report_env where
  "demo_env = \<lparr>re_before = (\<lambda>_. None), re_after = (\<lambda>_. None)\<rparr>"

definition demo_now :: "nat \<Rightarrow> string" where
  "demo_now k = ''T''"

definition demo_final :: run_state where
  "demo_final = snd (run_pipeline toml_load demo_env demo_run demo_now False demo_opts demo_stages None)"

lemma demo_pipeline_ok: "pipeline_ok demo_run demo_now demo_stages None empty_state"
proof -
  have "plain ''T''" "list_all bare_key (names demo_stages)" by code_simp+
  then show ?thesis
    by (simp add: pipeline_ok_def stage_contract_def demo_run_def now_ok_def demo_now_def load_def empty_wf)
      (simp add: demo_stages_def demo_stage_def)
qed

lemma demo_fails:
  "run_pipeline toml_load demo_env demo_run demo_now False demo_opts demo_stages None = (Exited 1, demo_final)"
  "rs_trace demo_final = [''toolchain'', ''packages'']"
  by code_simp+

theorem resume_restarts_failed_stage_witness:
  "\<exists>e. load toml_load (rs_file demo_final) = Some e \<and> find_resume_index demo_stages e < length demo_stages \<and>
    st_name (demo_stages ! find_resume_index demo_stages e) = last [''toolchain'', ''packages'']"
  using resume_restarts_failed_stage [OF demo_pipeline_ok demo_fails(1)] demo_fails(2)
  by (simp add: demo_opts_def)


theorem run_pipeline_no_effect_witness:
  "rs_file (snd (run_pipeline toml_load demo_env demo_run demo_now False demo_opts demo_stages (Some []))) = Some []"
proof -
  obtain out r where r: "run_pipeline toml_load demo_env demo_run demo_now False demo_opts demo_stages (Some []) = (out, r)"
    by fastforce
  from run_pipeline_no_effect [OF _ r] have "rs_file r = Some []" by (simp add: demo_opts_def)
  then show ?thesis by (simp add: r)
qed

theorem run_stage_standalone_records_witness:
  "stage_ever_done (rs_data (snd (run_stage_standalone toml_load demo_env demo_run demo_now True False
     (demo_stage ''kernel'' []) None))) ''kernel''"
proof -
  let ?s = "run_stage_standalone toml_load demo_env demo_run demo_now True False (demo_stage ''kernel'' []) None"
  obtain r where r: "?s = (Finished, r)"
    by (cases ?s; cases "fst ?s") (simp_all add: run_stage_standalone_def demo_run_def demo_stage_def load_def Let_def
        run_stage_with_change_report_def)
  have "bare_key (st_name (demo_stage ''kernel'' []))" by code_simp
  from run_stage_standalone_records [OF _ _ this _ empty_wf r] demo_pipeline_ok
  have "stage_ever_done (rs_data r) (st_name (demo_stage ''kernel'' []))"
    by (simp add: pipeline_ok_def load_def)
  then show ?thesis by (simp add: r) (simp add: demo_stage_def)
qed

text \<open>
  A list in which a stage comes before the one it depends on passes the validation: it checks
  that the names exist, not their order.
\<close>

lemma validate_ignores_order:
  "validate_stages [demo_stage ''kernel'' [''packages''], demo_stage ''packages'' []] = None"
  by code_simp

end
