(* ===== verification/AurResolve.thy ===== *)
theory AurResolve
  imports PyPrelude
begin

text \<open>
  Model of \<open>sysforge/primitives/aur_resolve.py\<close>: the recursive resolution of AUR
  dependencies into a build order.  The three dicts and lists the recursion mutates are the
  record \<open>rstate\<close>; pacman, the AUR RPC and the PKGBUILD lookup are the record \<open>resolver_env\<close>
  of functions.  The recursion can be endless on an endless dependency chain, so it takes
  fuel; \<open>Inl OutOfFuel\<close> is no result.

  The lemmas: one unit of fuel more than there are packages in the AUR is enough, the order
  puts every dependency before the first place of its dependent, and every listed name has a
  record.
\<close>

section \<open>Data\<close>

datatype dep_source = SrcAur | SrcRepo | SrcInstalled | SrcUnknown

record resolved_dep =
  rd_name :: string
  rd_source :: dep_source
  rd_pkgbuild_path :: "string option"
  rd_depth :: nat
  rd_required_by :: "string list"

datatype dep_error = CycleError string string | OutOfFuel

record rstate =
  rv_visited :: "(string, resolved_dep) dict"
  rv_in_progress :: "string list"
  rv_order :: "string list"

text \<open>
  \<open>pacman -T\<close> (exit code and output), \<open>repo_packages\<close>, \<open>aur_info\<close> (a dict from name to depends
  and makedepends) and the PKGBUILD of a name: its path and dependency arrays, or \<open>None\<close> when
  it cannot be found or parsed.
\<close>

record resolver_env =
  env_probe :: "string list \<Rightarrow> int \<times> string"
  env_repo :: "string list \<Rightarrow> string list"
  env_aur :: "string list \<Rightarrow> (string, string list \<times> string list) dict"
  env_pkgbuild :: "string \<Rightarrow> (string \<times> string list \<times> string list) option"

section \<open>Helpers\<close>

text \<open>The part of a string before the first occurrence of another.\<close>

fun before_sub :: "string \<Rightarrow> string \<Rightarrow> string option" where
  "before_sub p [] = (if p = [] then Some [] else None)"
| "before_sub p (c # cs) =
     (if starts_with p (c # cs) then Some [] else map_option (\<lambda>h. c # h) (before_sub p cs))"

definition VERSION_OPS :: "string list" where
  "VERSION_OPS = [''>='', ''<='', ''!='', ''='', ''>'', ''<'']"

fun strip_ops :: "string list \<Rightarrow> string \<Rightarrow> string" where
  "strip_ops [] dep = dep"
| "strip_ops (p # ps) dep = (case before_sub p dep of Some h \<Rightarrow> h | None \<Rightarrow> strip_ops ps dep)"

definition strip_version :: "string \<Rightarrow> string" where
  "strip_version dep = strip_ops VERSION_OPS dep"

definition is_soname :: "string \<Rightarrow> bool" where
  "is_soname dep = contains ''.so'' (strip_version dep)"

definition looks_unresolved :: "string \<Rightarrow> bool" where
  "looks_unresolved dep = list_ex (\<lambda>c. c \<in> set dep) [CHR ''$'', CHR ''{'', CHR ''}'', CHR 0x60, CHR ''('']"

definition deps_need_rpc_rescue :: "string list \<Rightarrow> string list \<Rightarrow> bool" where
  "deps_need_rpc_rescue depends makedepends = list_ex looks_unresolved (depends @ makedepends)"

definition get_missing_deps :: "resolver_env \<Rightarrow> string list \<Rightarrow> string list" where
  "get_missing_deps env specs =
     (if specs = [] then []
      else (let (code, out) = env_probe env ([''pacman'', ''-T''] @ specs)
            in if code = 0 then []
               else map py_strip (filter (\<lambda>s. py_strip s \<noteq> []) (splitlines out))))"

definition get_pkgname :: "(string, pyval) dict \<Rightarrow> pyval" where
  "get_pkgname g =
     (let base = dget g ''pkgbase'';
          v = (if base \<noteq> None \<and> pyval_true (the base) then the base
               else dget_or (PStr ''unknown'') g ''pkgname'')
      in case v of
           PList xs \<Rightarrow> PStr (case xs of [] \<Rightarrow> ''unknown'' | x # _ \<Rightarrow> x)
         | _ \<Rightarrow> v)"

definition get_deps_from_aur_rpc ::
    "string \<Rightarrow> (string, string list \<times> string list) dict \<Rightarrow> string list \<times> string list" where
  "get_deps_from_aur_rpc name aur_data = dget_or ([], []) aur_data name"

section \<open>Resolution\<close>

definition new_dep :: "string \<Rightarrow> dep_source \<Rightarrow> nat \<Rightarrow> string \<Rightarrow> resolved_dep" where
  "new_dep name src depth req =
     \<lparr>rd_name = name, rd_source = src, rd_pkgbuild_path = None, rd_depth = depth, rd_required_by = [req]\<rparr>"

definition visit :: "string \<Rightarrow> resolved_dep \<Rightarrow> rstate \<Rightarrow> rstate" where
  "visit name dep st = st\<lparr>rv_visited := dset name dep (rv_visited st)\<rparr>"

definition add_requirer :: "string \<Rightarrow> resolved_dep \<Rightarrow> resolved_dep" where
  "add_requirer req dep =
     (if req \<in> set (rd_required_by dep) then dep else dep\<lparr>rd_required_by := rd_required_by dep @ [req]\<rparr>)"

text \<open>The name map of one dependency list: a spec whose name is new, or a record of the requirer.\<close>

fun map_specs :: "string \<Rightarrow> string list \<Rightarrow> rstate \<Rightarrow> (string, string) dict \<Rightarrow> rstate \<times> (string, string) dict" where
  "map_specs req [] st m = (st, m)"
| "map_specs req (spec # specs) st m =
     (if looks_unresolved spec then map_specs req specs st m
      else
        (let name = strip_version spec in
         if name \<noteq> [] \<and> dhas (rv_visited st) name
         then map_specs req specs (visit name (add_requirer req (the (dget (rv_visited st) name))) st) m
         else if name \<noteq> [] \<and> \<not> dhas m name then map_specs req specs st (dset name spec m)
         else map_specs req specs st m))"

definition visit_all :: "dep_source \<Rightarrow> nat \<Rightarrow> string \<Rightarrow> string list \<Rightarrow> rstate \<Rightarrow> rstate" where
  "visit_all src depth req names st = fold (\<lambda>n st. visit n (new_dep n src depth req) st) names st"

text \<open>Everything of one call before its loop over the AUR candidates.\<close>

definition classify ::
    "resolver_env \<Rightarrow> string list \<Rightarrow> nat \<Rightarrow> string \<Rightarrow> rstate \<Rightarrow> rstate \<times> string list" where
  "classify env dep_specs depth req st =
     (let specs = filter (\<lambda>d. \<not> is_soname d) dep_specs
      in if specs = [] then (st, [])
         else
           (let (st1, name_map) = map_specs req specs st []
            in if name_map = [] then (st1, [])
               else
                 (let names = map fst name_map;
                      missing_names = map strip_version (get_missing_deps env (map snd name_map));
                      st2 = visit_all SrcInstalled depth req (filter (\<lambda>n. n \<notin> set missing_names) names) st1;
                      missing = filter (\<lambda>n. n \<in> set missing_names) names
                  in if missing = [] then (st2, [])
                     else
                       (let repo_set = env_repo env missing;
                            st3 = visit_all SrcRepo depth req (filter (\<lambda>n. n \<in> set repo_set) missing) st2
                        in (st3, filter (\<lambda>n. n \<notin> set repo_set) missing)))))"

text \<open>The dependencies of an AUR package, and the PKGBUILD path they came with.\<close>

definition child_deps ::
    "resolver_env \<Rightarrow> bool \<Rightarrow> (string, string list \<times> string list) dict \<Rightarrow> string
     \<Rightarrow> string option \<times> string list" where
  "child_deps env fetch aur_data name =
     (let (rpc_deps, rpc_makedeps) = get_deps_from_aur_rpc name aur_data
      in if \<not> fetch then (None, rpc_deps @ rpc_makedeps)
         else (case env_pkgbuild env name of
                 None \<Rightarrow> (None, rpc_deps @ rpc_makedeps)
               | Some (path, deps, makedeps) \<Rightarrow>
                   if deps_need_rpc_rescue deps makedeps \<and> (rpc_deps \<noteq> [] \<or> rpc_makedeps \<noteq> [])
                   then (Some path, rpc_deps @ rpc_makedeps)
                   else (Some path, deps @ makedeps)))"

function (sequential) resolve_deps ::
    "resolver_env \<Rightarrow> bool \<Rightarrow> nat \<Rightarrow> string list \<Rightarrow> nat \<Rightarrow> string \<Rightarrow> rstate \<Rightarrow> dep_error + rstate"
  and resolve_candidates ::
    "resolver_env \<Rightarrow> bool \<Rightarrow> nat \<Rightarrow> (string, string list \<times> string list) dict \<Rightarrow> string list
     \<Rightarrow> nat \<Rightarrow> string \<Rightarrow> rstate \<Rightarrow> dep_error + rstate" where
  "resolve_deps env fetch 0 dep_specs depth req st = Inl OutOfFuel"
| "resolve_deps env fetch (Suc fuel) dep_specs depth req st =
     (let (st1, cands) = classify env dep_specs depth req st
      in if cands = [] then Inr st1
         else resolve_candidates env fetch fuel (env_aur env cands) cands depth req st1)"
| "resolve_candidates env fetch fuel aur_data [] depth req st = Inr st"
| "resolve_candidates env fetch fuel aur_data (name # names) depth req st =
     (if \<not> dhas aur_data name
      then resolve_candidates env fetch fuel aur_data names depth req
             (visit name (new_dep name SrcUnknown depth req) st)
      else if name \<in> set (rv_in_progress st) then Inl (CycleError name req)
      else
        (let (path, deps) = child_deps env fetch aur_data name;
             st1 = st\<lparr>rv_in_progress := name # rv_in_progress st\<rparr>
         in rbind (resolve_deps env fetch fuel deps (Suc depth) name st1) (\<lambda>st2.
              (let st3 = st2\<lparr>rv_in_progress := removeAll name (rv_in_progress st2)\<rparr>;
                   dep = (new_dep name SrcAur depth req)\<lparr>rd_pkgbuild_path := path\<rparr>;
                   st4 = visit name dep st3
               in resolve_candidates env fetch fuel aur_data names depth req
                    (st4\<lparr>rv_order := rv_order st4 @ [name]\<rparr>)))))"
  by pat_completeness auto
termination
  by (relation "inv_image (less_than <*lex*> less_than)
        (\<lambda>x. case x of
           Inl (env, fetch, fuel, specs, depth, req, st) \<Rightarrow> (fuel, 0)
         | Inr (env, fetch, fuel, aur_data, names, depth, req, st) \<Rightarrow> (fuel, Suc (length names)))") auto

definition fresh_rstate :: rstate where
  "fresh_rstate = \<lparr>rv_visited = [], rv_in_progress = [], rv_order = []\<rparr>"

text \<open>\<open>[visited[name] for name in order]\<close>; \<open>None\<close> is the \<open>KeyError\<close>.\<close>

fun lookup_all :: "(string, resolved_dep) dict \<Rightarrow> string list \<Rightarrow> resolved_dep list option" where
  "lookup_all v [] = Some []"
| "lookup_all v (n # ns) =
     (case dget v n of None \<Rightarrow> None | Some d \<Rightarrow> map_option (\<lambda>ds. d # ds) (lookup_all v ns))"

text \<open>A root package: its display name and its dependency lists.\<close>

definition resolve_aur_deps ::
    "resolver_env \<Rightarrow> bool \<Rightarrow> nat \<Rightarrow> string \<times> string list \<times> string list
     \<Rightarrow> dep_error + resolved_dep list option" where
  "resolve_aur_deps env fetch fuel root =
     (let (name, deps, makedeps) = root
      in rbind (resolve_deps env fetch fuel (deps @ makedeps) 0 name fresh_rstate) (\<lambda>st.
           Inr (lookup_all (rv_visited st) (rv_order st))))"

fun resolve_batch ::
    "resolver_env \<Rightarrow> bool \<Rightarrow> nat \<Rightarrow> (string \<times> string list \<times> string list) list \<Rightarrow> rstate \<Rightarrow> dep_error + rstate" where
  "resolve_batch env fetch fuel [] st = Inr st"
| "resolve_batch env fetch fuel ((name, deps, makedeps) # roots) st =
     rbind (resolve_deps env fetch fuel (deps @ makedeps) 0 name st) (\<lambda>st1.
     resolve_batch env fetch fuel roots st1)"

definition resolve_aur_deps_batch ::
    "resolver_env \<Rightarrow> bool \<Rightarrow> nat \<Rightarrow> (string \<times> string list \<times> string list) list
     \<Rightarrow> dep_error + resolved_dep list option" where
  "resolve_aur_deps_batch env fetch fuel roots =
     rbind (resolve_batch env fetch fuel roots fresh_rstate) (\<lambda>st.
     Inr (lookup_all (rv_visited st) (rv_order st)))"

definition resolve_all_deps ::
    "resolver_env \<Rightarrow> bool \<Rightarrow> nat \<Rightarrow> string \<times> string list \<times> string list
     \<Rightarrow> dep_error + resolved_dep list option" where
  "resolve_all_deps env fetch fuel root =
     (let (name, deps, makedeps) = root
      in rbind (resolve_deps env fetch fuel (deps @ makedeps) 0 name fresh_rstate) (\<lambda>st.
           Inr (map_option (\<lambda>aur. aur @ filter (\<lambda>d. rd_source d \<noteq> SrcAur) (map snd (rv_visited st)))
                  (lookup_all (rv_visited st) (rv_order st)))))"

section \<open>What a resolution state records\<close>

definition source_of :: "rstate \<Rightarrow> string \<Rightarrow> dep_source option" where
  "source_of st n = map_option rd_source (dget (rv_visited st) n)"

definition named :: "rstate \<Rightarrow> bool" where
  "named st \<longleftrightarrow> (\<forall>n d. dget (rv_visited st) n = Some d \<longrightarrow> rd_name d = n)"

lemma new_dep_simps [simp]: "rd_name (new_dep n src depth req) = n" "rd_source (new_dep n src depth req) = src"
  by (simp_all add: new_dep_def)

lemma add_requirer_simps [simp]: "rd_name (add_requirer req d) = rd_name d" "rd_source (add_requirer req d) = rd_source d"
  by (simp_all add: add_requirer_def)

lemma visit_simps [simp]: "rv_in_progress (visit n d st) = rv_in_progress st" "rv_order (visit n d st) = rv_order st"
  "source_of (visit n d st) m = (if m = n then Some (rd_source d) else source_of st m)"
  by (simp_all add: visit_def source_of_def)

lemma named_visit: "named st \<Longrightarrow> rd_name d = n \<Longrightarrow> named (visit n d st)"
  by (simp add: named_def visit_def)

lemma dhas_source: "dhas (rv_visited st) n \<longleftrightarrow> source_of st n \<noteq> None"
  by (simp add: dhas_def source_of_def)

lemma visit_all_simps [simp]:
  "rv_in_progress (visit_all src depth req ns st) = rv_in_progress st"
  "rv_order (visit_all src depth req ns st) = rv_order st"
  "source_of (visit_all src depth req ns st) m = (if m \<in> set ns then Some src else source_of st m)"
  by (induction ns arbitrary: st) (simp_all add: visit_all_def)

lemma named_visit_all: "named st \<Longrightarrow> named (visit_all src depth req ns st)"
  by (induction ns arbitrary: st) (simp_all add: visit_all_def named_visit)

text \<open>The names a dependency list asks for.\<close>

definition dep_names :: "string list \<Rightarrow> string list" where
  "dep_names specs =
     filter (\<lambda>n. n \<noteq> []) (map strip_version (filter (\<lambda>s. \<not> is_soname s \<and> \<not> looks_unresolved s) specs))"

definition spec_map :: "(string, string) dict \<Rightarrow> bool" where
  "spec_map m \<longleftrightarrow> (\<forall>k s. dget m k = Some s \<longrightarrow> strip_version s = k \<and> tok_ok s) \<and> dict_ok m"

lemma map_specs_spec:
  "map_specs req specs st m = (st', m') \<Longrightarrow> \<forall>s \<in> set specs. tok_ok s \<Longrightarrow> spec_map m \<Longrightarrow>
   rv_in_progress st' = rv_in_progress st \<and> rv_order st' = rv_order st \<and> source_of st' = source_of st \<and>
   (named st \<longrightarrow> named st') \<and> spec_map m' \<and>
   set (map fst m') = set (map fst m) \<union>
     {n. source_of st n = None \<and> n \<noteq> [] \<and> (\<exists>s \<in> set specs. \<not> looks_unresolved s \<and> strip_version s = n)}"
proof (induction req specs st m arbitrary: st' m' rule: map_specs.induct)
  case (1 req st m)
  then show ?case by simp
next
  case (2 req spec specs st m)
  let ?n = "strip_version spec"
  consider "looks_unresolved spec"
    | "\<not> looks_unresolved spec" "?n \<noteq> [] \<and> dhas (rv_visited st) ?n"
    | "\<not> looks_unresolved spec" "\<not> (?n \<noteq> [] \<and> dhas (rv_visited st) ?n)" "?n \<noteq> [] \<and> \<not> dhas m ?n"
    | "\<not> looks_unresolved spec" "\<not> (?n \<noteq> [] \<and> dhas (rv_visited st) ?n)" "\<not> (?n \<noteq> [] \<and> \<not> dhas m ?n)"
    by blast
  then show ?case
  proof cases
    case 1
    with 2(1) [OF 1, of st' m'] 2(5-7) show ?thesis by auto
  next
    case c: 2
    let ?st = "visit ?n (add_requirer req (the (dget (rv_visited st) ?n))) st"
    obtain d where d: "dget (rv_visited st) ?n = Some d" using c(2) by (auto simp: dhas_def)
    then have "source_of ?st = source_of st" by (auto simp: source_of_def visit_def)
    moreover have "named st \<Longrightarrow> named ?st" using d by (intro named_visit) (auto simp: named_def)
    ultimately show ?thesis
      using 2(2) [OF c(1) refl c(2), of st' m'] 2(5-7) c d by (auto simp: source_of_def)
  next
    case 3
    have "spec_map (dset ?n spec m)" using 2(6,7) by (simp add: spec_map_def)
    with 2(3) [OF 3(1) refl 3(2,3), of st' m'] 2(5,6) 3 show ?thesis
      by (auto simp: dkeys_dset dhas_source simp del: set_map)
  next
    case 4
    then have "?n \<in> set (map fst m) \<or> ?n = []" by (auto simp: dhas_def map_of_eq_None_iff)
    with 2(4) [OF 4(1) refl 4(2,3), of st' m'] 2(5-7) 4 show ?thesis
      by (auto simp del: set_map)
  qed
qed

section \<open>Environments that answer by name\<close>

text \<open>
  The behaviour of pacman and the AUR that the order relies on: a spec is unsatisfied, a name
  is in the repositories, and a name is known to the AUR, each independently of what else is
  asked for; and no dependency spec is empty or has white space in it.
\<close>

definition answers_by_name ::
    "resolver_env \<Rightarrow> bool \<Rightarrow> (string \<Rightarrow> bool) \<Rightarrow> (string \<Rightarrow> bool) \<Rightarrow>
     (string \<Rightarrow> (string list \<times> string list) option) \<Rightarrow> bool" where
  "answers_by_name env fetch missing repo aur \<longleftrightarrow>
     (\<forall>specs. (\<forall>s \<in> set specs. tok_ok s) \<longrightarrow>
        get_missing_deps env specs = filter (\<lambda>s. missing (strip_version s)) specs) \<and>
     (\<forall>ns n. \<forall>s \<in> set (snd (child_deps env fetch (env_aur env ns) n)). tok_ok s) \<and>
     (\<forall>ns. set (env_repo env ns) = {n \<in> set ns. repo n}) \<and>
     (\<forall>ns n. dget (env_aur env ns) n = (if n \<in> set ns then aur n else None))"

definition class_of ::
    "(string \<Rightarrow> bool) \<Rightarrow> (string \<Rightarrow> bool) \<Rightarrow> (string \<Rightarrow> (string list \<times> string list) option) \<Rightarrow> string \<Rightarrow> dep_source" where
  "class_of missing repo aur n =
     (if \<not> missing n then SrcInstalled else if repo n then SrcRepo
      else if aur n = None then SrcUnknown else SrcAur)"

text \<open>The names an AUR package depends on.\<close>

definition kids :: "resolver_env \<Rightarrow> bool \<Rightarrow> string \<Rightarrow> string list" where
  "kids env fetch n = dep_names (snd (child_deps env fetch (env_aur env [n]) n))"

lemma child_deps_kids:
  assumes "answers_by_name env fetch missing repo aur" "n \<in> set ns"
  shows "child_deps env fetch (env_aur env ns) n = child_deps env fetch (env_aur env [n]) n"
  using assms by (simp add: answers_by_name_def child_deps_def get_deps_from_aur_rpc_def dget_or_def)

lemma child_deps_ok:
  "answers_by_name env fetch missing repo aur \<Longrightarrow> \<forall>s \<in> set (snd (child_deps env fetch (env_aur env ns) n)). tok_ok s"
  by (simp add: answers_by_name_def)

definition sound :: "(string \<Rightarrow> dep_source) \<Rightarrow> rstate \<Rightarrow> bool" where
  "sound cls st \<longleftrightarrow> named st \<and>
     (\<forall>n s. source_of st n = Some s \<longrightarrow> s = cls n) \<and>
     (\<forall>n. n \<in> set (rv_order st) \<longleftrightarrow> source_of st n = Some SrcAur)"

lemma dep_names_iff:
  "n \<in> set (dep_names specs) \<longleftrightarrow>
     n \<noteq> [] \<and> (\<exists>s \<in> set specs. \<not> is_soname s \<and> \<not> looks_unresolved s \<and> strip_version s = n)"
  by (auto simp: dep_names_def)

lemma spec_map_strip: "spec_map m \<Longrightarrow> map strip_version (map snd m) = map fst m"
proof -
  assume m: "spec_map m"
  have "strip_version (snd x) = fst x" if "x \<in> set m" for x
  proof -
    have "dget m (fst x) = Some (snd x)" using m that by (simp add: spec_map_def dict_ok_def)
    with m show ?thesis by (auto simp: spec_map_def)
  qed
  then show ?thesis by simp
qed

lemma visit_all_Nil [simp]: "visit_all src depth req [] st = st"
  by (simp add: visit_all_def)

lemma missing_names:
  assumes "answers_by_name env fetch missing repo aur" "spec_map m"
  shows "map strip_version (get_missing_deps env (map snd m)) = filter missing (map fst m)"
proof -
  have vals: "\<forall>s \<in> set (map snd m). tok_ok s"
  proof
    fix s assume "s \<in> set (map snd m)"
    then obtain k where "(k, s) \<in> set m" by auto
    with assms(2) have "dget m k = Some s" by (simp add: spec_map_def dict_ok_def)
    with assms(2) show "tok_ok s" by (simp add: spec_map_def)
  qed
  have "map strip_version (get_missing_deps env (map snd m)) =
      map strip_version (filter (\<lambda>s. missing (strip_version s)) (map snd m))"
    using assms(1) vals by (simp add: answers_by_name_def)
  also have "\<dots> = filter missing (map strip_version (map snd m))"
    by (induction m) auto
  finally show ?thesis by (simp only: spec_map_strip [OF assms(2)])
qed

lemma classify_eq:
  assumes "answers_by_name env fetch missing repo aur"
    and "map_specs req (filter (\<lambda>d. \<not> is_soname d) specs) st [] = (st1, m)"
    and "\<forall>s \<in> set specs. tok_ok s"
  shows "classify env specs depth req st =
    (visit_all SrcRepo depth req (filter repo (filter missing (map fst m)))
       (visit_all SrcInstalled depth req (filter (\<lambda>n. \<not> missing n) (map fst m)) st1),
     filter (\<lambda>n. \<not> repo n) (filter missing (map fst m)))"
proof -
  let ?names = "map fst m" and ?mis = "filter missing (map fst m)"
  have sp: "spec_map m"
    using map_specs_spec [OF assms(2)] assms(3) by (simp add: spec_map_def)
  have in_missing: "filter (\<lambda>n. n \<notin> set ?mis) ?names = filter (\<lambda>n. \<not> missing n) ?names"
    "filter (\<lambda>n. n \<in> set ?mis) ?names = ?mis"
    by (auto intro!: filter_cong)
  have in_repo: "filter (\<lambda>n. n \<in> set (env_repo env ?mis)) ?mis = filter repo ?mis"
    "filter (\<lambda>n. n \<notin> set (env_repo env ?mis)) ?mis = filter (\<lambda>n. \<not> repo n) ?mis"
    using assms(1) by (auto simp: answers_by_name_def intro!: filter_cong)
  have all_ok: "filter (\<lambda>n. \<not> missing n) ?names = ?names" if "?mis = []"
    using that by (simp add: filter_empty_conv filter_id_conv)
  show ?thesis
  proof (cases "filter (\<lambda>d. \<not> is_soname d) specs = []")
    case True
    with assms(2) have "st1 = st" "m = []" by simp_all
    with True show ?thesis by (simp add: classify_def)
  next
    case False
    then show ?thesis
      unfolding classify_def Let_def assms(2) missing_names [OF assms(1) sp] prod.case
      by (cases "m = []"; cases "?mis = []"; simp only: if_False in_missing in_repo if_True; simp add: all_ok)
  qed
qed

lemma classify_spec:
  assumes "answers_by_name env fetch missing repo aur" "classify env specs depth req st = (st', cands)"
    and "sound (class_of missing repo aur) st" "\<forall>s \<in> set specs. tok_ok s"
  shows "rv_in_progress st' = rv_in_progress st \<and> rv_order st' = rv_order st \<and>
    sound (class_of missing repo aur) st' \<and>
    (\<forall>n. source_of st n \<noteq> None \<longrightarrow> source_of st' n \<noteq> None) \<and>
    (\<forall>n \<in> set cands. missing n \<and> \<not> repo n \<and> n \<in> set (dep_names specs)) \<and>
    (\<forall>n \<in> set (dep_names specs). source_of st' n \<noteq> None \<or> n \<in> set cands)"
proof -
  obtain st1 m where m: "map_specs req (filter (\<lambda>d. \<not> is_soname d) specs) st [] = (st1, m)" by fastforce
  have ms: "rv_in_progress st1 = rv_in_progress st" "rv_order st1 = rv_order st" "source_of st1 = source_of st"
    "named st \<Longrightarrow> named st1"
    "set (map fst m) = {n. source_of st n = None \<and> n \<in> set (dep_names specs)}"
    using map_specs_spec [OF m] assms(4) by (auto simp: spec_map_def dep_names_iff simp del: set_map)
  let ?inst = "filter (\<lambda>n. \<not> missing n) (map fst m)" and ?repo = "filter repo (filter missing (map fst m))"
  have st': "st' = visit_all SrcRepo depth req ?repo (visit_all SrcInstalled depth req ?inst st1)"
    and cands: "cands = filter (\<lambda>n. \<not> repo n) (filter missing (map fst m))"
    using classify_eq [OF assms(1) m assms(4), of depth] assms(2) by simp_all
  have src: "source_of st' n =
      (if n \<in> set (map fst m) \<and> missing n \<and> repo n then Some SrcRepo
       else if n \<in> set (map fst m) \<and> \<not> missing n then Some SrcInstalled else source_of st n)" for n
    by (simp add: st' ms(3) del: set_map)
  have cls: "s = class_of missing repo aur n" if "source_of st' n = Some s" for n s
  proof (cases "n \<in> set (map fst m) \<and> (missing n \<longrightarrow> repo n)")
    case True
    with that show ?thesis by (auto simp: src class_of_def simp del: set_map split: if_splits)
  next
    case False
    with that have "source_of st n = Some s" by (auto simp: src simp del: set_map split: if_splits)
    with assms(3) show ?thesis by (simp add: sound_def)
  qed
  have ord: "n \<in> set (rv_order st') \<longleftrightarrow> source_of st' n = Some SrcAur" for n
  proof (cases "n \<in> set (map fst m)")
    case True
    then have "source_of st n = None" using ms(5) by blast
    with True assms(3) ms(2,3) show ?thesis by (simp add: src sound_def st' del: set_map)
  next
    case False
    with assms(3) ms(2,3) show ?thesis by (simp add: src sound_def st' del: set_map)
  qed
  have "named st'" using assms(3) ms(4) by (simp add: sound_def st' named_visit_all)
  with cls ord have "sound (class_of missing repo aur) st'" by (auto simp: sound_def)
  moreover have "n \<in> set cands \<longleftrightarrow> n \<in> set (map fst m) \<and> missing n \<and> \<not> repo n" for n
    by (auto simp: cands)
  ultimately show ?thesis
    using ms(1,2,3,5) by (auto simp: src st' simp del: set_map)
qed

section \<open>The recursion restores in_progress, and ends\<close>

lemma map_specs_in_progress:
  "map_specs req specs st m = (st', m') \<Longrightarrow> rv_in_progress st' = rv_in_progress st"
  by (induction req specs st m rule: map_specs.induct) (auto simp: Let_def split: if_splits)

lemma classify_in_progress:
  "classify env specs depth req st = (st', cands) \<Longrightarrow> rv_in_progress st' = rv_in_progress st"
  by (auto simp: classify_def Let_def dest!: map_specs_in_progress split: if_splits prod.splits)

lemma rbind_Inl_iff: "rbind r f = Inl e \<longleftrightarrow> r = Inl e \<or> (\<exists>x. r = Inr x \<and> f x = Inl e)"
  by (cases r) simp_all

text \<open>The state one AUR candidate leaves behind when its own dependencies are resolved.\<close>

definition finish :: "string \<Rightarrow> resolved_dep \<Rightarrow> rstate \<Rightarrow> rstate" where
  "finish name dep st =
     (let st1 = visit name dep (st\<lparr>rv_in_progress := removeAll name (rv_in_progress st)\<rparr>)
      in st1\<lparr>rv_order := rv_order st1 @ [name]\<rparr>)"

lemma source_of_update [simp]:
  "source_of (st\<lparr>rv_in_progress := ip\<rparr>) = source_of st" "source_of (st\<lparr>rv_order := ord\<rparr>) = source_of st"
  "named (st\<lparr>rv_in_progress := ip\<rparr>) = named st" "named (st\<lparr>rv_order := ord\<rparr>) = named st"
  by (simp_all add: source_of_def named_def fun_eq_iff)

lemma finish_simps [simp]:
  "rv_in_progress (finish n d st) = removeAll n (rv_in_progress st)"
  "rv_order (finish n d st) = rv_order st @ [n]"
  "source_of (finish n d st) m = (if m = n then Some (rd_source d) else source_of st m)"
  by (simp_all add: finish_def Let_def)

definition aur_dep :: "string \<Rightarrow> nat \<Rightarrow> string \<Rightarrow> string option \<Rightarrow> resolved_dep" where
  "aur_dep name depth req path = (new_dep name SrcAur depth req)\<lparr>rd_pkgbuild_path := path\<rparr>"

lemma aur_dep_simps [simp]: "rd_name (aur_dep n depth req p) = n" "rd_source (aur_dep n depth req p) = SrcAur"
  by (simp_all add: aur_dep_def)

lemma resolve_candidates_Cons:
  "resolve_candidates env fetch fuel aur_data (name # names) depth req st =
     (if \<not> dhas aur_data name
      then resolve_candidates env fetch fuel aur_data names depth req
             (visit name (new_dep name SrcUnknown depth req) st)
      else if name \<in> set (rv_in_progress st) then Inl (CycleError name req)
      else
        rbind (resolve_deps env fetch fuel (snd (child_deps env fetch aur_data name)) (Suc depth) name
                 (st\<lparr>rv_in_progress := name # rv_in_progress st\<rparr>)) (\<lambda>st2.
          resolve_candidates env fetch fuel aur_data names depth req
            (finish name (aur_dep name depth req (fst (child_deps env fetch aur_data name))) st2)))"
  by (simp add: finish_def aur_dep_def Let_def split: prod.split)

text \<open>An induction rule over successful runs, one case per branch of the code.\<close>

lemma resolve_run_induct [consumes 1, case_names finished candidates nil unknown aur]:
  fixes P :: "nat \<Rightarrow> string list \<Rightarrow> nat \<Rightarrow> string \<Rightarrow> rstate \<Rightarrow> rstate \<Rightarrow> bool"
    and Q :: "nat \<Rightarrow> (string, string list \<times> string list) dict \<Rightarrow> string list \<Rightarrow> nat \<Rightarrow> string \<Rightarrow> rstate \<Rightarrow> rstate \<Rightarrow> bool"
  assumes run: "resolve_deps env fetch fuel specs depth req st = Inr st'"
    and fin: "\<And>fuel specs depth req st st1. classify env specs depth req st = (st1, []) \<Longrightarrow>
      P (Suc fuel) specs depth req st st1"
    and cands: "\<And>fuel specs depth req st st1 cands st'. classify env specs depth req st = (st1, cands) \<Longrightarrow>
      cands \<noteq> [] \<Longrightarrow> Q fuel (env_aur env cands) cands depth req st1 st' \<Longrightarrow> P (Suc fuel) specs depth req st st'"
    and nil: "\<And>fuel aur_data depth req st. Q fuel aur_data [] depth req st st"
    and unknown: "\<And>fuel aur_data name names depth req st st'. \<not> dhas aur_data name \<Longrightarrow>
      Q fuel aur_data names depth req (visit name (new_dep name SrcUnknown depth req) st) st' \<Longrightarrow>
      Q fuel aur_data (name # names) depth req st st'"
    and aur: "\<And>fuel aur_data name names depth req st st2 st'. dhas aur_data name \<Longrightarrow>
      name \<notin> set (rv_in_progress st) \<Longrightarrow>
      P fuel (snd (child_deps env fetch aur_data name)) (Suc depth) name
        (st\<lparr>rv_in_progress := name # rv_in_progress st\<rparr>) st2 \<Longrightarrow>
      Q fuel aur_data names depth req
        (finish name (aur_dep name depth req (fst (child_deps env fetch aur_data name))) st2) st' \<Longrightarrow>
      Q fuel aur_data (name # names) depth req st st'"
  shows "P fuel specs depth req st st'"
proof -
  have "(\<forall>st'. resolve_deps env fetch fuel specs depth req st = Inr st' \<longrightarrow> P fuel specs depth req st st')"
    for fuel specs depth req st
  proof (induction fuel arbitrary: specs depth req st)
    case 0
    then show ?case by simp
  next
    case (Suc fuel)
    have Q: "Q fuel aur_data names depth req st st'"
      if "resolve_candidates env fetch fuel aur_data names depth req st = Inr st'" for aur_data names depth req st st'
      using that
    proof (induction names arbitrary: st)
      case Nil
      then show ?case using nil by simp
    next
      case (Cons name names)
      show ?case
      proof (cases "dhas aur_data name")
        case False
        with Cons show ?thesis by (intro unknown) (simp_all add: resolve_candidates_Cons)
      next
        case True
        with Cons.prems obtain st2 where "name \<notin> set (rv_in_progress st)"
          "resolve_deps env fetch fuel (snd (child_deps env fetch aur_data name)) (Suc depth) name
             (st\<lparr>rv_in_progress := name # rv_in_progress st\<rparr>) = Inr st2"
          "resolve_candidates env fetch fuel aur_data names depth req
            (finish name (aur_dep name depth req (fst (child_deps env fetch aur_data name))) st2) = Inr st'"
          by (auto simp: resolve_candidates_Cons rbind_Inr_iff simp del: resolve_candidates.simps split: if_splits)
        with True Suc.IH Cons.IH show ?thesis by (intro aur) blast+
      qed
    qed
    show ?case
    proof (intro allI impI)
      fix st'
      assume run: "resolve_deps env fetch (Suc fuel) specs depth req st = Inr st'"
      obtain st1 cs where c: "classify env specs depth req st = (st1, cs)" by fastforce
      show "P (Suc fuel) specs depth req st st'"
      proof (cases "cs = []")
        case True
        with run c fin show ?thesis by simp
      next
        case False
        with run c have "resolve_candidates env fetch fuel (env_aur env cs) cs depth req st1 = Inr st'"
          by simp
        from cands [OF c False Q [OF this]] show ?thesis .
      qed
    qed
  qed
  with run show ?thesis by blast
qed

lemma resolve_deps_in_progress:
  "resolve_deps env fetch fuel specs depth req st = Inr st' \<Longrightarrow> rv_in_progress st' = rv_in_progress st"
  by (induction rule: resolve_run_induct
        [where Q = "\<lambda>fuel aur_data names depth req st st'. rv_in_progress st' = rv_in_progress st"])
    (auto dest: classify_in_progress)

definition aur_within :: "resolver_env \<Rightarrow> string set \<Rightarrow> bool" where
  "aur_within env U \<longleftrightarrow> finite U \<and> (\<forall>ns n. dhas (env_aur env ns) n \<longrightarrow> n \<in> U)"

lemma card_minus_less:
  assumes "finite U" "n \<in> U" "n \<notin> S" "card (U - S) \<le> k"
  shows "card (U - insert n S) < k"
proof -
  have "U - insert n S \<subset> U - S" using assms by auto
  then have "card (U - insert n S) < card (U - S)" using assms(1) by (intro psubset_card_mono) auto
  with assms(4) show ?thesis by simp
qed

lemma resolve_deps_ends:
  "aur_within env U \<Longrightarrow> card (U - set (rv_in_progress st)) < fuel \<Longrightarrow>
   resolve_deps env fetch fuel specs depth req st \<noteq> Inl OutOfFuel"
proof (induction fuel arbitrary: specs depth req st)
  case 0
  then show ?case by simp
next
  case (Suc fuel)
  have Q: "resolve_candidates env fetch fuel (env_aur env ns) names depth req st \<noteq> Inl OutOfFuel"
    if "card (U - set (rv_in_progress st)) \<le> fuel" for ns names depth req st
    using that
  proof (induction names arbitrary: st)
    case Nil
    then show ?case by simp
  next
    case (Cons name names)
    let ?st = "st\<lparr>rv_in_progress := name # rv_in_progress st\<rparr>"
    show ?case
    proof (cases "dhas (env_aur env ns) name \<and> name \<notin> set (rv_in_progress st)")
      case True
      then have "card (U - set (rv_in_progress ?st)) < fuel"
        using Suc.prems(1) Cons.prems by (auto simp: aur_within_def intro: card_minus_less)
      with Suc.IH [OF Suc.prems(1)] have no:
        "resolve_deps env fetch fuel deps d n ?st \<noteq> Inl OutOfFuel" for deps d n by blast
      show ?thesis
        using True Cons no by (auto simp: resolve_candidates_Cons rbind_Inl_iff simp del: resolve_candidates.simps
          dest!: resolve_deps_in_progress)
    next
      case False
      with Cons show ?thesis by (auto simp: resolve_candidates_Cons simp del: resolve_candidates.simps)
    qed
  qed
  obtain st1 cs where c: "classify env specs depth req st = (st1, cs)" by fastforce
  with Q [of st1] Suc.prems(2) classify_in_progress [OF c] show ?case by simp
qed

lemma resolve_batch_ends:
  "aur_within env U \<Longrightarrow> card U < fuel \<Longrightarrow> rv_in_progress st = [] \<Longrightarrow>
   resolve_batch env fetch fuel roots st \<noteq> Inl OutOfFuel"
proof (induction env fetch fuel roots st rule: resolve_batch.induct)
  case (1 env fetch fuel st)
  then show ?case by simp
next
  case (2 env fetch fuel name deps makedeps roots st)
  have "resolve_deps env fetch fuel (deps @ makedeps) 0 name st \<noteq> Inl OutOfFuel"
    using 2(2-4) by (intro resolve_deps_ends) auto
  with 2 show ?case by (auto simp: rbind_Inl_iff dest!: resolve_deps_in_progress)
qed

section \<open>The build order\<close>

text \<open>Every dependency of a listed package that is itself to be built stands before it.\<close>

definition deps_first :: "(string \<Rightarrow> string list) \<Rightarrow> (string \<Rightarrow> dep_source) \<Rightarrow> string list \<Rightarrow> bool" where
  "deps_first ks cls ord \<longleftrightarrow>
     (\<forall>i < length ord. \<forall>k \<in> set (ks (ord ! i)). cls k = SrcAur \<longrightarrow> k \<in> set (take i ord))"

lemma deps_first_Nil [simp]: "deps_first ks cls []"
  by (simp add: deps_first_def)

lemma deps_first_snoc:
  "deps_first ks cls ord \<Longrightarrow> (\<And>k. k \<in> set (ks n) \<Longrightarrow> cls k = SrcAur \<Longrightarrow> k \<in> set ord) \<Longrightarrow>
   deps_first ks cls (ord @ [n])"
  by (simp add: deps_first_def nth_append less_Suc_eq)

text \<open>The dependency edges between packages to be built, inside a set of names.\<close>

definition dep_edges :: "(string \<Rightarrow> string list) \<Rightarrow> (string \<Rightarrow> dep_source) \<Rightarrow> string set \<Rightarrow> (string \<times> string) set" where
  "dep_edges ks cls R = {(a, b). a \<in> R \<and> cls a = SrcAur \<and> b \<in> set (ks a) \<and> cls b = SrcAur}"

definition closed_deps :: "(string \<Rightarrow> string list) \<Rightarrow> (string \<Rightarrow> dep_source) \<Rightarrow> string set \<Rightarrow> bool" where
  "closed_deps ks cls R \<longleftrightarrow> (\<forall>n \<in> R. cls n = SrcAur \<longrightarrow> set (ks n) \<subseteq> R)"

lemma deps_first_acyclic:
  assumes "deps_first ks cls ord" "\<And>n. n \<in> R \<Longrightarrow> cls n = SrcAur \<Longrightarrow> n \<in> set ord"
  shows "acyclic (dep_edges ks cls R)"
proof -
  define pos where "pos n = (LEAST i. i < length ord \<and> ord ! i = n)" for n
  have at: "pos n < length ord \<and> ord ! pos n = n" if "n \<in> set ord" for n
  proof -
    from that have "\<exists>i. i < length ord \<and> ord ! i = n" by (simp add: in_set_conv_nth)
    from LeastI_ex [OF this] show ?thesis by (simp add: pos_def)
  qed
  have first: "pos n < i" if "n \<in> set (take i ord)" for n i
  proof -
    from that obtain j where "j < i" "j < length ord" "ord ! j = n" by (auto simp: in_set_conv_nth)
    with Least_le [of "\<lambda>i. i < length ord \<and> ord ! i = n" j] show ?thesis by (simp add: pos_def)
  qed
  have "pos b < pos a" if "(a, b) \<in> dep_edges ks cls R" for a b
  proof -
    have "a \<in> set ord" "b \<in> set (ks a)" "cls b = SrcAur" using that assms(2) by (auto simp: dep_edges_def)
    with assms(1) at [of a] have "b \<in> set (take (pos a) ord)" unfolding deps_first_def by metis
    then show ?thesis by (rule first)
  qed
  then have "(dep_edges ks cls R)\<inverse> \<subseteq> measure pos" by auto
  then have "wf ((dep_edges ks cls R)\<inverse>)" using wf_measure wf_subset by blast
  then show ?thesis by (metis wf_acyclic acyclic_converse)
qed

definition settled :: "(string \<Rightarrow> string list) \<Rightarrow> (string \<Rightarrow> dep_source) \<Rightarrow> string set \<Rightarrow> rstate \<Rightarrow> bool" where
  "settled ks cls R st \<longleftrightarrow> sound cls st \<and> deps_first ks cls (rv_order st) \<and> set (rv_order st) \<subseteq> R"

definition extends :: "rstate \<Rightarrow> rstate \<Rightarrow> bool" where
  "extends st st' \<longleftrightarrow> (\<forall>n. source_of st n \<noteq> None \<longrightarrow> source_of st' n \<noteq> None)"

lemma settled_unknown:
  "settled ks cls R st \<Longrightarrow> cls name = SrcUnknown \<Longrightarrow> settled ks cls R (visit name (new_dep name SrcUnknown depth req) st)"
  by (auto simp: settled_def sound_def named_visit)

lemma named_finish: "named st \<Longrightarrow> rd_name d = n \<Longrightarrow> named (finish n d st)"
  by (simp add: finish_def Let_def named_visit)

lemma settled_finish:
  assumes "settled ks cls R st" "cls name = SrcAur" "name \<in> R"
    and "\<And>k. k \<in> set (ks name) \<Longrightarrow> source_of st k \<noteq> None"
  shows "settled ks cls R (finish name (aur_dep name depth req path) st)"
proof -
  have "k \<in> set (rv_order st)" if "k \<in> set (ks name)" "cls k = SrcAur" for k
    using assms(1) assms(4) [OF that(1)] that(2) by (auto simp: settled_def sound_def)
  then have "deps_first ks cls (rv_order st @ [name])"
    using assms(1) by (intro deps_first_snoc) (auto simp: settled_def)
  moreover have "sound cls (finish name (aur_dep name depth req path) st)"
    using assms(1,2) by (auto simp: settled_def sound_def named_finish)
  ultimately show ?thesis using assms(1,3) by (simp add: settled_def)
qed

lemma class_aur:
  assumes "answers_by_name env fetch missing repo aur" "missing n" "\<not> repo n" "n \<in> set ns"
  shows "class_of missing repo aur n = (if dhas (env_aur env ns) n then SrcAur else SrcUnknown)"
  using assms by (simp add: answers_by_name_def class_of_def dhas_def)

lemma resolve_deps_settles:
  assumes "resolve_deps env fetch fuel specs depth req st = Inr st'"
    and env: "answers_by_name env fetch missing repo aur"
    and R: "closed_deps (kids env fetch) (class_of missing repo aur) R" "set (dep_names specs) \<subseteq> R"
    and "\<forall>s \<in> set specs. tok_ok s" "settled (kids env fetch) (class_of missing repo aur) R st"
  shows "settled (kids env fetch) (class_of missing repo aur) R st' \<and> extends st st' \<and>
    (\<forall>n \<in> set (dep_names specs). source_of st' n \<noteq> None)"
  using assms(1,4,5,6)
proof (induction rule: resolve_run_induct
    [where Q = "\<lambda>fuel aur_data names depth req st st'.
       \<forall>ns. aur_data = env_aur env ns \<longrightarrow> set names \<subseteq> set ns \<inter> R \<longrightarrow> (\<forall>n \<in> set names. missing n \<and> \<not> repo n) \<longrightarrow>
         settled (kids env fetch) (class_of missing repo aur) R st \<longrightarrow>
         settled (kids env fetch) (class_of missing repo aur) R st' \<and> extends st st' \<and>
         (\<forall>n \<in> set names. source_of st' n \<noteq> None)"])
  case (finished fuel specs depth req st st1)
  then show ?case
    using classify_spec [OF env finished(1)] finished(3) by (auto simp: settled_def extends_def)
next
  case (candidates fuel specs depth req st st1 cands st')
  have c: "sound (class_of missing repo aur) st" using candidates(6) by (simp add: settled_def)
  note cs = classify_spec [OF env candidates(1) c candidates(5)]
  then have "settled (kids env fetch) (class_of missing repo aur) R st1"
    using candidates(6) by (simp add: settled_def)
  with cs candidates(3,4) have "settled (kids env fetch) (class_of missing repo aur) R st' \<and> extends st1 st' \<and>
         (\<forall>n \<in> set cands. source_of st' n \<noteq> None)"
    by blast
  with cs show ?case unfolding extends_def by blast
next
  case (nil fuel aur_data depth req st)
  then show ?case by (simp add: extends_def)
next
  case (unknown fuel aur_data name names depth req st st')
  show ?case
  proof (intro allI impI)
    fix ns
    let ?st = "visit name (new_dep name SrcUnknown depth req) st"
    assume a: "aur_data = env_aur env ns" "set (name # names) \<subseteq> set ns \<inter> R"
      "\<forall>n \<in> set (name # names). missing n \<and> \<not> repo n" "settled (kids env fetch) (class_of missing repo aur) R st"
    then have "class_of missing repo aur name = SrcUnknown" using unknown(1) by (simp add: class_aur [OF env, of name ns])
    with a(4) have "settled (kids env fetch) (class_of missing repo aur) R ?st" by (rule settled_unknown)
    with unknown(2) a have i: "settled (kids env fetch) (class_of missing repo aur) R st' \<and> extends ?st st' \<and>
         (\<forall>n \<in> set names. source_of st' n \<noteq> None)" by simp
    then show "settled (kids env fetch) (class_of missing repo aur) R st' \<and> extends st st' \<and>
         (\<forall>n \<in> set (name # names). source_of st' n \<noteq> None)"
      by (auto simp: extends_def split: if_splits)
  qed
next
  case (aur fuel aur_data name names depth req st st2 st')
  show ?case
  proof (intro allI impI)
    fix ns
    let ?cd = "child_deps env fetch aur_data name"
    let ?st = "st\<lparr>rv_in_progress := name # rv_in_progress st\<rparr>"
    let ?fin = "finish name (aur_dep name depth req (fst ?cd)) st2"
    assume a: "aur_data = env_aur env ns" "set (name # names) \<subseteq> set ns \<inter> R"
      "\<forall>n \<in> set (name # names). missing n \<and> \<not> repo n" "settled (kids env fetch) (class_of missing repo aur) R st"
    then have cls: "class_of missing repo aur name = SrcAur" using class_aur [OF env, of name ns] aur(1) by simp
    have kids: "dep_names (snd ?cd) = kids env fetch name"
      using a(1,2) child_deps_kids [OF env, of name ns] by (simp add: kids_def)
    have sub: "set (dep_names (snd ?cd)) \<subseteq> R"
      using R(1) cls a(2) by (simp add: kids closed_deps_def)
    have ok: "\<forall>s \<in> set (snd ?cd). tok_ok s" using child_deps_ok [OF env] a(1) by simp
    have "settled (kids env fetch) (class_of missing repo aur) R ?st" using a(4) by (simp add: settled_def sound_def)
    note i = aur(4) [OF sub ok this]
    then have "settled (kids env fetch) (class_of missing repo aur) R ?fin"
      using cls a(2) by (intro settled_finish) (simp_all add: kids)
    with aur(3) a have "settled (kids env fetch) (class_of missing repo aur) R st' \<and> extends ?fin st' \<and>
         (\<forall>n \<in> set names. source_of st' n \<noteq> None)" by simp
    moreover have "extends st ?fin" using i by (simp add: extends_def)
    moreover have "source_of ?fin name \<noteq> None" by simp
    ultimately show "settled (kids env fetch) (class_of missing repo aur) R st' \<and> extends st st' \<and>
         (\<forall>n \<in> set (name # names). source_of st' n \<noteq> None)"
      unfolding extends_def by fastforce
  qed
qed

section \<open>Cycles\<close>

text \<open>
  The packages in progress are a path of dependency edges that ends at the requirer.
\<close>

definition on_path :: "(string \<Rightarrow> string list) \<Rightarrow> (string \<Rightarrow> dep_source) \<Rightarrow> string set \<Rightarrow> string list \<Rightarrow> string \<Rightarrow> string set \<Rightarrow> bool" where
  "on_path ks cls R ip req D \<longleftrightarrow>
     (\<forall>p \<in> set ip. (p, req) \<in> (dep_edges ks cls R)\<^sup>*) \<and>
     (ip \<noteq> [] \<longrightarrow> req \<in> R \<and> cls req = SrcAur \<and> D \<subseteq> set (ks req))"

lemma on_path_mono: "on_path ks cls R ip req D \<Longrightarrow> D' \<subseteq> D \<Longrightarrow> on_path ks cls R ip req D'"
  by (auto simp: on_path_def)

lemma on_path_push:
  assumes "on_path ks cls R ip req D" "name \<in> D" "name \<in> R" "cls name = SrcAur"
  shows "on_path ks cls R (name # ip) name (set (ks name))"
proof -
  have "(p, name) \<in> (dep_edges ks cls R)\<^sup>*" if "p \<in> set ip" for p
  proof -
    have "(p, req) \<in> (dep_edges ks cls R)\<^sup>*" "(req, name) \<in> dep_edges ks cls R"
      using assms that by (auto simp: on_path_def dep_edges_def)
    then show ?thesis by (rule rtrancl_into_rtrancl)
  qed
  with assms(3,4) show ?thesis by (auto simp: on_path_def)
qed

lemma on_path_cycle:
  "on_path ks cls R ip req D \<Longrightarrow> name \<in> D \<Longrightarrow> cls name = SrcAur \<Longrightarrow> name \<in> set ip \<Longrightarrow>
   (req, name) \<in> dep_edges ks cls R \<and> (name, req) \<in> (dep_edges ks cls R)\<^sup>*"
  by (auto simp: on_path_def dep_edges_def)

lemma resolve_deps_cycle:
  assumes env: "answers_by_name env fetch missing repo aur"
    and R: "closed_deps (kids env fetch) (class_of missing repo aur) R"
  shows "resolve_deps env fetch fuel specs depth req st = Inl (CycleError a b) \<Longrightarrow>
    set (dep_names specs) \<subseteq> R \<Longrightarrow> \<forall>s \<in> set specs. tok_ok s \<Longrightarrow> settled (kids env fetch) (class_of missing repo aur) R st \<Longrightarrow>
    on_path (kids env fetch) (class_of missing repo aur) R (rv_in_progress st) req (set (dep_names specs)) \<Longrightarrow>
    (b, a) \<in> dep_edges (kids env fetch) (class_of missing repo aur) R \<and>
    (a, b) \<in> (dep_edges (kids env fetch) (class_of missing repo aur) R)\<^sup>*"
proof (induction fuel arbitrary: specs depth req st)
  case 0
  then show ?case by simp
next
  case (Suc fuel)
  let ?ks = "kids env fetch" and ?cls = "class_of missing repo aur"
  have Q: "(b, a) \<in> dep_edges ?ks ?cls R \<and> (a, b) \<in> (dep_edges ?ks ?cls R)\<^sup>*"
    if "resolve_candidates env fetch fuel (env_aur env ns) names depth req st = Inl (CycleError a b)"
      "set names \<subseteq> set ns \<inter> R" "\<forall>n \<in> set names. missing n \<and> \<not> repo n" "settled ?ks ?cls R st"
      "on_path ?ks ?cls R (rv_in_progress st) req (set names)" for ns names st
    using that
  proof (induction names arbitrary: st)
    case Nil
    then show ?case by simp
  next
    case (Cons name names)
    have cls: "?cls name = (if dhas (env_aur env ns) name then SrcAur else SrcUnknown)"
      using Cons.prems by (intro class_aur [OF env]) auto
    have sub: "on_path ?ks ?cls R (rv_in_progress st) req (set names)"
      using Cons.prems(5) by (rule on_path_mono) auto
    show ?case
    proof (cases "dhas (env_aur env ns) name")
      case False
      with cls Cons.prems(4) have "settled ?ks ?cls R (visit name (new_dep name SrcUnknown depth req) st)"
        by (intro settled_unknown) simp_all
      with False Cons sub show ?thesis
        by (simp add: resolve_candidates_Cons del: resolve_candidates.simps)
    next
      case True
      with cls have aur: "?cls name = SrcAur" by simp
      show ?thesis
      proof (cases "name \<in> set (rv_in_progress st)")
        case in_ip: True
        with True Cons.prems(1) have "a = name" "b = req"
          by (simp_all add: resolve_candidates_Cons del: resolve_candidates.simps)
        with on_path_cycle [OF Cons.prems(5) _ aur in_ip] show ?thesis by simp
      next
        case not_ip: False
        let ?st = "st\<lparr>rv_in_progress := name # rv_in_progress st\<rparr>"
        let ?cd = "child_deps env fetch (env_aur env ns) name"
        have ks: "dep_names (snd ?cd) = ?ks name"
          using Cons.prems(2) child_deps_kids [OF env, of name ns] by (simp add: kids_def)
        have ok: "\<forall>s \<in> set (snd ?cd). tok_ok s" using child_deps_ok [OF env] .
        have kR: "set (dep_names (snd ?cd)) \<subseteq> R"
          using R aur Cons.prems(2) by (simp add: ks closed_deps_def)
        have st: "settled ?ks ?cls R ?st" using Cons.prems(4) by (simp add: settled_def sound_def)
        have push: "on_path ?ks ?cls R (rv_in_progress ?st) name (set (dep_names (snd ?cd)))"
          using on_path_push [OF Cons.prems(5) _ _ aur] Cons.prems(2) ks by simp
        from True not_ip Cons.prems(1)
        consider "resolve_deps env fetch fuel (snd ?cd) (Suc depth) name ?st = Inl (CycleError a b)"
          | st2 where "resolve_deps env fetch fuel (snd ?cd) (Suc depth) name ?st = Inr st2"
            "resolve_candidates env fetch fuel (env_aur env ns) names depth req
               (finish name (aur_dep name depth req (fst ?cd)) st2) = Inl (CycleError a b)"
          by (auto simp: resolve_candidates_Cons rbind_Inl_iff simp del: resolve_candidates.simps)
        then show ?thesis
        proof cases
          case 1
          from Suc.IH [OF 1 kR ok st push] show ?thesis .
        next
          case 2
          from resolve_deps_settles [OF 2(1) env R kR ok st]
          have "settled ?ks ?cls R (finish name (aur_dep name depth req (fst ?cd)) st2)"
            using aur Cons.prems(2) by (intro settled_finish) (simp_all add: ks)
          moreover have "rv_in_progress st2 = name # rv_in_progress st"
            using resolve_deps_in_progress [OF 2(1)] by simp
          ultimately show ?thesis using Cons.IH [OF 2(2)] Cons.prems sub not_ip by simp
        qed
      qed
    qed
  qed
  obtain st1 cs where c: "classify env specs depth req st = (st1, cs)" by fastforce
  have "sound ?cls st" using Suc.prems(4) by (simp add: settled_def)
  note cs = classify_spec [OF env c this Suc.prems(3)]
  have "cs \<noteq> [] \<and> resolve_candidates env fetch fuel (env_aur env cs) cs depth req st1 = Inl (CycleError a b)"
    using Suc.prems(1) c by (simp split: if_splits)
  moreover have "settled ?ks ?cls R st1" using Suc.prems(4) cs by (simp add: settled_def)
  moreover have "on_path ?ks ?cls R (rv_in_progress st1) req (set cs)"
    using on_path_mono [OF Suc.prems(5), of "set cs"] cs by auto
  ultimately show ?case using Q [of cs cs st1] cs Suc.prems(2) by blast
qed

section \<open>The whole resolution\<close>

inductive needed :: "(string \<Rightarrow> string list) \<Rightarrow> (string \<Rightarrow> dep_source) \<Rightarrow> string list \<Rightarrow> string \<Rightarrow> bool"
  for ks cls ns where
  root: "n \<in> set ns \<Longrightarrow> needed ks cls ns n"
| dep: "needed ks cls ns m \<Longrightarrow> cls m = SrcAur \<Longrightarrow> k \<in> set (ks m) \<Longrightarrow> needed ks cls ns k"

definition root_specs :: "(string \<times> string list \<times> string list) list \<Rightarrow> string list" where
  "root_specs roots = concat (map (\<lambda>(name, deps, makedeps). deps @ makedeps) roots)"

definition root_names :: "(string \<times> string list \<times> string list) list \<Rightarrow> string list" where
  "root_names roots = concat (map (\<lambda>(name, deps, makedeps). dep_names (deps @ makedeps)) roots)"

lemma closed_needed: "closed_deps ks cls {n. needed ks cls ns n}"
  by (auto simp: closed_deps_def intro: needed.dep)

lemma resolve_batch_settles:
  assumes "resolve_batch env fetch fuel roots st = Inr st'"
    and "answers_by_name env fetch missing repo aur"
    and "closed_deps (kids env fetch) (class_of missing repo aur) R" "set (root_names roots) \<subseteq> R"
    and "\<forall>s \<in> set (root_specs roots). tok_ok s"
    and "settled (kids env fetch) (class_of missing repo aur) R st"
  shows "settled (kids env fetch) (class_of missing repo aur) R st' \<and> extends st st' \<and>
    (\<forall>n \<in> set (root_names roots). source_of st' n \<noteq> None)"
  using assms
proof (induction env fetch fuel roots st rule: resolve_batch.induct)
  case (1 env fetch fuel st)
  then show ?case by (simp add: extends_def root_names_def)
next
  case (2 env fetch fuel name deps makedeps roots st)
  from 2(2) obtain st1 where st1: "resolve_deps env fetch fuel (deps @ makedeps) 0 name st = Inr st1"
    "resolve_batch env fetch fuel roots st1 = Inr st'" by (auto simp: rbind_Inr_iff)
  have sub: "set (dep_names (deps @ makedeps)) \<subseteq> R" "set (root_names roots) \<subseteq> R"
    using 2(5) by (auto simp: root_names_def)
  have ok: "\<forall>s \<in> set (deps @ makedeps). tok_ok s" "\<forall>s \<in> set (root_specs roots). tok_ok s"
    using 2(6) by (auto simp: root_specs_def)
  note s = resolve_deps_settles [OF st1(1) 2(3,4) sub(1) ok(1) 2(7)]
  then show ?case
    using 2(1) [OF st1(2)] s 2(3,4) sub(2) ok(2) unfolding extends_def by (auto simp: root_names_def)
qed

lemma resolve_batch_cycle:
  assumes "resolve_batch env fetch fuel roots st = Inl (CycleError a b)"
    and "answers_by_name env fetch missing repo aur"
    and "closed_deps (kids env fetch) (class_of missing repo aur) R" "set (root_names roots) \<subseteq> R"
    and "\<forall>s \<in> set (root_specs roots). tok_ok s"
    and "settled (kids env fetch) (class_of missing repo aur) R st" "rv_in_progress st = []"
  shows "(b, a) \<in> dep_edges (kids env fetch) (class_of missing repo aur) R \<and>
    (a, b) \<in> (dep_edges (kids env fetch) (class_of missing repo aur) R)\<^sup>*"
  using assms
proof (induction env fetch fuel roots st rule: resolve_batch.induct)
  case (1 env fetch fuel st)
  then show ?case by simp
next
  case (2 env fetch fuel name deps makedeps roots st)
  note IH = 2(1) and prems = 2(2-8)
  have sub: "set (dep_names (deps @ makedeps)) \<subseteq> R" "set (root_names roots) \<subseteq> R"
    using 2(5) by (auto simp: root_names_def)
  have ok: "\<forall>s \<in> set (deps @ makedeps). tok_ok s" "\<forall>s \<in> set (root_specs roots). tok_ok s"
    using 2(6) by (auto simp: root_specs_def)
  from 2(2) consider "resolve_deps env fetch fuel (deps @ makedeps) 0 name st = Inl (CycleError a b)"
    | st1 where "resolve_deps env fetch fuel (deps @ makedeps) 0 name st = Inr st1"
        "resolve_batch env fetch fuel roots st1 = Inl (CycleError a b)" by (auto simp: rbind_Inl_iff)
  then show ?case
  proof cases
    case 1
    with resolve_deps_cycle [OF 2(3,4) 1 sub(1) ok(1) 2(7)] 2(8) show ?thesis by (simp add: on_path_def)
  next
    case (2 st1)
    have "settled (kids env fetch) (class_of missing repo aur) R st1"
      using resolve_deps_settles [OF 2(1) prems(2,3) sub(1) ok(1) prems(6)] by blast
    moreover have "rv_in_progress st1 = []" using resolve_deps_in_progress [OF 2(1)] prems(7) by simp
    ultimately show ?thesis using IH [OF 2(2) prems(2,3) sub(2) ok(2)] by blast
  qed
qed

lemma lookup_all_spec:
  "named st \<Longrightarrow> \<forall>n \<in> set ns. source_of st n = Some src \<Longrightarrow>
   \<exists>ds. lookup_all (rv_visited st) ns = Some ds \<and> map rd_name ds = ns \<and> (\<forall>d \<in> set ds. rd_source d = src)"
proof (induction ns)
  case Nil
  then show ?case by simp
next
  case (Cons n ns)
  then obtain d ds where "dget (rv_visited st) n = Some d" "rd_source d = src" "rd_name d = n"
    "lookup_all (rv_visited st) ns = Some ds" "map rd_name ds = ns" "\<forall>d \<in> set ds. rd_source d = src"
    by (auto simp: source_of_def named_def)
  then show ?case by simp
qed

lemma settled_fresh: "settled ks cls R fresh_rstate"
  by (simp add: settled_def sound_def named_def source_of_def fresh_rstate_def)

lemma in_order_needed:
  assumes "sound cls st" "deps_first ks cls (rv_order st)" "\<forall>n \<in> set ns. source_of st n \<noteq> None"
  shows "needed ks cls ns n \<Longrightarrow> cls n = SrcAur \<Longrightarrow> n \<in> set (rv_order st)"
proof (induction rule: needed.induct)
  case (root n)
  then obtain s where "source_of st n = Some s" using assms(3) by auto
  with root assms(1) show ?case by (auto simp: sound_def)
next
  case (dep m k)
  then obtain i where "i < length (rv_order st)" "rv_order st ! i = m" by (auto simp: in_set_conv_nth)
  with dep assms(2) have "k \<in> set (take i (rv_order st))" by (auto simp: deps_first_def)
  then show ?case by (rule in_set_takeD)
qed

lemma resolve_batch_order:
  assumes env: "answers_by_name env fetch missing repo aur" and ok: "\<forall>s \<in> set (root_specs roots). tok_ok s"
    and run: "resolve_batch env fetch fuel roots fresh_rstate = Inr st"
  shows "named st \<and> (\<forall>n \<in> set (rv_order st). source_of st n = Some SrcAur) \<and>
    deps_first (kids env fetch) (class_of missing repo aur) (rv_order st) \<and>
    (\<forall>n. n \<in> set (rv_order st) \<longleftrightarrow>
      needed (kids env fetch) (class_of missing repo aur) (root_names roots) n \<and> class_of missing repo aur n = SrcAur)"
proof -
  let ?ks = "kids env fetch" and ?cls = "class_of missing repo aur"
  let ?R = "{n. needed ?ks ?cls (root_names roots) n}"
  have "set (root_names roots) \<subseteq> ?R" by (auto intro: needed.root)
  from resolve_batch_settles [OF run env closed_needed this ok settled_fresh]
  have s: "sound ?cls st" "deps_first ?ks ?cls (rv_order st)" "set (rv_order st) \<subseteq> ?R"
    and v: "\<forall>n \<in> set (root_names roots). source_of st n \<noteq> None" by (simp_all add: settled_def)
  have "n \<in> set (rv_order st) \<longleftrightarrow> needed ?ks ?cls (root_names roots) n \<and> ?cls n = SrcAur" for n
  proof
    assume n: "n \<in> set (rv_order st)"
    with s(1) have "source_of st n = Some SrcAur" by (simp add: sound_def)
    with s(1) have "?cls n = SrcAur" by (metis sound_def)
    with n s(3) show "needed ?ks ?cls (root_names roots) n \<and> ?cls n = SrcAur" by auto
  next
    assume "needed ?ks ?cls (root_names roots) n \<and> ?cls n = SrcAur"
    then show "n \<in> set (rv_order st)" using in_order_needed [OF s(1,2) v] by blast
  qed
  moreover have "named st" "\<forall>n \<in> set (rv_order st). source_of st n = Some SrcAur"
    using s(1) unfolding sound_def by blast+
  ultimately show ?thesis using s(2) by blast
qed

lemma batch_result:
  assumes "answers_by_name env fetch missing repo aur" "\<forall>s \<in> set (root_specs roots). tok_ok s"
    "resolve_aur_deps_batch env fetch fuel roots = Inr r"
  shows "\<exists>ds. r = Some ds \<and> (\<forall>d \<in> set ds. rd_source d = SrcAur) \<and>
    deps_first (kids env fetch) (class_of missing repo aur) (map rd_name ds) \<and>
    (\<forall>n. n \<in> set (map rd_name ds) \<longleftrightarrow>
      needed (kids env fetch) (class_of missing repo aur) (root_names roots) n \<and> class_of missing repo aur n = SrcAur)"
proof -
  from assms(3) obtain st where st: "resolve_batch env fetch fuel roots fresh_rstate = Inr st"
    "r = lookup_all (rv_visited st) (rv_order st)"
    by (auto simp: resolve_aur_deps_batch_def rbind_Inr_iff)
  note o = resolve_batch_order [OF assms(1,2) st(1)]
  then obtain ds where "lookup_all (rv_visited st) (rv_order st) = Some ds" "map rd_name ds = rv_order st"
    "\<forall>d \<in> set ds. rd_source d = SrcAur" using lookup_all_spec by blast
  with o st(2) show ?thesis by metis
qed


lemma batch_acyclic:
  assumes env: "answers_by_name env fetch missing repo aur" and ok: "\<forall>s \<in> set (root_specs roots). tok_ok s"
    and fuel: "aur_within env U" "card U < fuel"
  shows "(\<exists>r. resolve_aur_deps_batch env fetch fuel roots = Inr r) \<longleftrightarrow>
    acyclic (dep_edges (kids env fetch) (class_of missing repo aur)
      {n. needed (kids env fetch) (class_of missing repo aur) (root_names roots) n})"
    (is "?ok \<longleftrightarrow> acyclic ?E")
proof
  assume ?ok
  then obtain st where "resolve_batch env fetch fuel roots fresh_rstate = Inr st"
    by (auto simp: resolve_aur_deps_batch_def rbind_Inr_iff)
  note o = resolve_batch_order [OF env ok this]
  show "acyclic ?E"
  proof (rule deps_first_acyclic)
    show "deps_first (kids env fetch) (class_of missing repo aur) (rv_order st)" using o by blast
  next
    fix n
    assume "n \<in> {n. needed (kids env fetch) (class_of missing repo aur) (root_names roots) n}"
      "class_of missing repo aur n = SrcAur"
    with o show "n \<in> set (rv_order st)" by blast
  qed
next
  assume ac: "acyclic ?E"
  show ?ok
  proof (cases "resolve_batch env fetch fuel roots fresh_rstate")
    case (Inr st)
    then show ?thesis by (simp add: resolve_aur_deps_batch_def)
  next
    case (Inl e)
    have ends: "resolve_batch env fetch fuel roots fresh_rstate \<noteq> Inl OutOfFuel"
      using resolve_batch_ends [OF fuel] by (simp add: fresh_rstate_def)
    with Inl obtain a b where "e = CycleError a b" by (cases e) auto
    with Inl have run: "resolve_batch env fetch fuel roots fresh_rstate = Inl (CycleError a b)" by simp
    have R: "set (root_names roots) \<subseteq> {n. needed (kids env fetch) (class_of missing repo aur) (root_names roots) n}"
      by (auto intro: needed.root)
    have ip: "rv_in_progress fresh_rstate = []" by (simp add: fresh_rstate_def)
    from resolve_batch_cycle [OF run env closed_needed R ok settled_fresh ip]
    have "(b, a) \<in> ?E" "(a, b) \<in> ?E\<^sup>*" by blast+
    then have "(a, a) \<in> ?E\<^sup>+" by (rule rtrancl_into_trancl1 [rotated])
    with ac show ?thesis by (simp add: acyclic_def)
  qed
qed


section \<open>Concrete environments\<close>

text \<open>
  A machine on which pacman prints the specs whose name is in a list, the repositories are
  empty, and the AUR is a table.
\<close>

definition table_env :: "string list \<Rightarrow> (string, string list \<times> string list) dict \<Rightarrow> resolver_env" where
  "table_env miss aur =
     \<lparr>env_probe = (\<lambda>args. let out = filter (\<lambda>s. strip_version s \<in> set miss) (drop 2 args)
                        in (if out = [] then 0 else 127, concat (map (\<lambda>s. s @ [CHR 0x0A]) out))),
      env_repo = (\<lambda>ns. []),
      env_aur = (\<lambda>ns. filter (\<lambda>p. fst p \<in> set ns) aur),
      env_pkgbuild = (\<lambda>n. None)\<rparr>"

lemma dget_filter_key: "dget (filter (\<lambda>p. fst p \<in> S) aur) n = (if n \<in> S then dget aur n else None)"
  by (induction aur) auto

lemma table_missing:
  "\<forall>s \<in> set specs. tok_ok s \<Longrightarrow>
   get_missing_deps (table_env miss aur) specs = filter (\<lambda>s. strip_version s \<in> set miss) specs"
proof -
  assume ok: "\<forall>s \<in> set specs. tok_ok s"
  let ?out = "filter (\<lambda>s. strip_version s \<in> set miss) specs"
  have o: "\<forall>s \<in> set ?out. tok_ok s" using ok by simp
  then have strip: "\<forall>s \<in> set ?out. py_strip s = s \<and> s \<noteq> []" by (auto simp: strip_tok tok_ok_def)
  then have "filter (\<lambda>s. py_strip s \<noteq> []) ?out = ?out" by (intro filter_True) auto
  with strip have "map py_strip (filter (\<lambda>s. py_strip s \<noteq> []) ?out) = ?out" by (metis map_idI)
  with splitlines_tokens [OF o] show ?thesis
    by (simp add: get_missing_deps_def table_env_def Let_def del: filter_filter)
qed

lemma table_answers:
  assumes "\<forall>(k, d, m) \<in> set aur. \<forall>s \<in> set (d @ m). tok_ok s"
  shows "answers_by_name (table_env miss aur) False (\<lambda>n. n \<in> set miss) (\<lambda>n. False) (dget aur)"
proof -
  have "tok_ok s" if "s \<in> set (snd (child_deps (table_env miss aur) False (env_aur (table_env miss aur) ns) n))" for s ns n
  proof -
    obtain d m where dm: "dget_or ([], []) (env_aur (table_env miss aur) ns) n = (d, m)" by fastforce
    with that have s: "s \<in> set (d @ m)" by (simp add: child_deps_def get_deps_from_aur_rpc_def)
    then have "dget aur n = Some (d, m)"
      using dm by (auto simp: dget_or_def table_env_def dget_filter_key split: option.splits if_splits)
    then have "(n, d, m) \<in> set aur" by (rule map_of_SomeD)
    with assms s show ?thesis by fastforce
  qed
  then show ?thesis
    by (simp add: answers_by_name_def table_missing) (simp add: table_env_def dget_filter_key)
qed

definition demo_aur :: "(string, string list \<times> string list) dict" where
  "demo_aur = [(''yay'', [''libyay>=2''], []), (''libyay'', [''go-tool''], []), (''go-tool'', [], [])]"

definition loop_aur :: "(string, string list \<times> string list) dict" where
  "loop_aur = [(''a'', [''b''], []), (''b'', [''c=1''], []), (''c'', [], [''a''])]"

lemma table_within: "aur_within (table_env miss aur) (set (map fst aur))"
  by (auto simp: aur_within_def table_env_def dhas_def dget_filter_key 
    intro: image_eqI [OF _ map_of_SomeD] split: if_splits)

lemma demo_run:
  "resolve_aur_deps_batch (table_env (map fst demo_aur) demo_aur) False 4 [(''root'', [''yay'', ''glibc''], [])] =
   Inr (Some (map (\<lambda>(n, depth, req). new_dep n SrcAur depth req)
     [(''go-tool'', 2, ''libyay''), (''libyay'', 1, ''yay''), (''yay'', 0, ''root'')]))"
  by code_simp

lemma loop_run:
  "resolve_aur_deps_batch (table_env (map fst loop_aur) loop_aur) False 4 [(''root'', [''a''], [])] =
   Inl (CycleError ''a'' ''c'')"
  by code_simp

text \<open>
  The candidates of one list are fixed before the loop, so a package that an earlier candidate
  has already resolved is resolved and listed again, and its record is overwritten: the
  requirer \<open>a\<close> of \<open>b\<close> is lost.
\<close>

lemma shared_dep_listed_twice:
  "resolve_aur_deps (table_env [''a'', ''b''] [(''a'', [''b''], []), (''b'', [], [])]) False 3
     (''root'', [''a'', ''b''], []) =
   Inr (Some [new_dep ''b'' SrcAur 0 ''root'', new_dep ''a'' SrcAur 0 ''root'', new_dep ''b'' SrcAur 0 ''root''])"
  by code_simp



end
