(* ===== verification/BuildState.thy ===== *)
theory BuildState
  imports Toml "HOL-Library.Multiset"
begin

text \<open>
  Model of \<open>sysforge/primitives/build_state.py\<close>: the record of what is installed and how it
  was built.  The instance's four dicts are the record \<open>bstate\<close>; an entry is a dict of
  strings and booleans.  Every method that changes the state is an operation on the record;
  clock readings are arguments.  \<open>serialize_state\<close> is the writer, \<open>load_state\<close> a reader of
  the documents it emits after the TOML grammar, \<open>None\<close> on anything else.
  \<open>resolve_installed_name\<close> of \<open>install_reconcile.py\<close> is here because
  \<open>reconcile_external_installs\<close> calls it.

  The lemmas: what a demotion changes; a refused install followed by the installation of the
  artifact restores the record; the sync makes the names exactly the installed ones; every
  operation keeps the entries well typed, and a saved state reads back, but for the booleans
  of the reverted builds.
\<close>

type_synonym entry = "(string, pyval) dict"

record bstate =
  bs_packages :: "(string, entry) dict"
  bs_failures :: "(string, entry) dict"
  bs_reverted :: "(string, entry) dict"
  bs_reviewed :: "(string, string) dict"

definition empty_bstate :: bstate where
  "empty_bstate = \<lparr>bs_packages = [], bs_failures = [], bs_reverted = [], bs_reviewed = []\<rparr>"

section \<open>Constants and helpers\<close>

definition ENTRY_KEYS :: "string list" where
  "ENTRY_KEYS =
     [''pkgver'', ''pkgrel'', ''epoch'', ''pkgbase'', ''pkgbuild_dir'', ''build_mode'', ''flags_string'',
      ''built_at'', ''built_upstream_commit'', ''source'', ''owner_stage'', ''toolchain_variant'',
      ''toolchain_fingerprint'', ''reviewed_commit'', ''origin_pkgbase'', ''build_seconds'',
      ''sandboxed'', ''build_inputs'', ''compiles'']"

definition BUILD_MODE_SOURCE :: string where "BUILD_MODE_SOURCE = ''source_built''"
definition BUILD_MODE_PACMAN :: string where "BUILD_MODE_PACMAN = ''pacman''"
definition BUILD_MODE_BOLT :: string where "BUILD_MODE_BOLT = ''bolt_llvm''"

definition is_source_build_mode :: "string option \<Rightarrow> bool" where
  "is_source_build_mode mode \<longleftrightarrow> mode = Some BUILD_MODE_SOURCE \<or> mode = Some BUILD_MODE_BOLT"

text \<open>\<open>entry.get(key)\<close> where the code expects a string.\<close>

definition get_str :: "entry \<Rightarrow> string \<Rightarrow> string option" where
  "get_str e k = (case dget e k of Some (PStr s) \<Rightarrow> Some s | _ \<Rightarrow> None)"

text \<open>The last \<open>n\<close> elements, \<open>xs[-n:]\<close>.\<close>

definition last_n :: "nat \<Rightarrow> 'a list \<Rightarrow> 'a list" where
  "last_n n xs = drop (length xs - n) xs"

definition truncate_error :: "string \<Rightarrow> string" where
  "truncate_error err =
     (let s = py_strip err;
          ls = splitlines s;
          s1 = (if length ls > 6 then py_join [CHR 0x0A] (last_n 6 ls) else s)
      in if length s1 > 600 then last_n 600 s1 else s1)"

definition parse_pacman_version :: "string \<Rightarrow> string \<times> string \<times> string" where
  "parse_pacman_version v =
     (if v = [] then (''0'', [], ''1'')
      else
        (let (epoch, rest) = (case partition1 CHR '':'' v of Some (e, r) \<Rightarrow> (e, r) | None \<Rightarrow> (''0'', v));
             (pkgver, pkgrel) = (case rpartition1 CHR ''-'' rest of Some (p, r) \<Rightarrow> (p, r) | None \<Rightarrow> (rest, ''1''))
         in (epoch, pkgver, pkgrel)))"

fun group_by_pkgbase ::
    "(string \<times> entry) list \<Rightarrow> (string, string list) dict \<Rightarrow> (string, entry) dict
     \<Rightarrow> (string, string list) dict \<times> (string, entry) dict" where
  "group_by_pkgbase [] names entries = (names, entries)"
| "group_by_pkgbase ((pn, e) # pkgs) names entries =
     (let base = (case get_str e ''pkgbase'' of Some b \<Rightarrow> b | None \<Rightarrow> pn)
      in group_by_pkgbase pkgs (dset base (dget_or [] names base @ [pn]) names)
           (if dhas entries base then entries else dset base e entries))"

definition strip_chars :: "string \<Rightarrow> string \<Rightarrow> string" where
  "strip_chars cs s = rev (dropWhile (\<lambda>c. c \<in> set cs) (rev (dropWhile (\<lambda>c. c \<in> set cs) s)))"

text \<open>\<open>expand\<close> stands for the expansion of variables and of \<open>~\<close> in a path.\<close>

fun builddir_line :: "(string \<Rightarrow> string) \<Rightarrow> string list \<Rightarrow> string option" where
  "builddir_line expand [] = None"
| "builddir_line expand (l # ls) =
     (case partition1 CHR ''='' l of
        None \<Rightarrow> builddir_line expand ls
      | Some (k, v) \<Rightarrow>
          (let value = strip_chars [CHR 0x22, CHR 0x27] (py_strip v)
           in if py_strip k = ''BUILDDIR'' \<and> value \<noteq> [] then Some (expand value)
              else builddir_line expand ls))"

definition recorded_builddir :: "(string \<Rightarrow> string) \<Rightarrow> entry option \<Rightarrow> string option" where
  "recorded_builddir expand entry =
     (let e = (case entry of None \<Rightarrow> [] | Some e \<Rightarrow> e)
      in builddir_line expand (splitlines (pyval_str (dget_or (PStr []) e ''flags_string''))))"

section \<open>Recording builds\<close>

record build_info =
  bi_pkgver :: string
  bi_pkgrel :: string
  bi_epoch :: string
  bi_pkgbase :: string
  bi_pkgbuild_dir :: string
  bi_build_mode :: "string option"
  bi_flags_string :: "string option"
  bi_built_at :: "string option"
  bi_built_upstream_commit :: "string option"
  bi_source :: "string option"
  bi_owner_stage :: "string option"
  bi_toolchain_variant :: "string option"
  bi_toolchain_fingerprint :: "string option"
  bi_reviewed_commit :: "string option"
  bi_origin_pkgbase :: "string option"
  bi_build_seconds :: "int option"
  bi_sandboxed :: "bool option"
  bi_build_inputs :: "string option"
  bi_compiles :: "bool option"

definition set_field :: "string \<Rightarrow> pyval option \<Rightarrow> entry \<Rightarrow> entry" where
  "set_field k v e = (case v of None \<Rightarrow> e | Some x \<Rightarrow> dset k x e)"

text \<open>A sticky field: the caller's value, else the prior record's.\<close>

definition sticky :: "entry \<Rightarrow> string \<times> pyval option \<Rightarrow> entry \<Rightarrow> entry" where
  "sticky prior kv e = (case snd kv of Some x \<Rightarrow> dset (fst kv) x e | None \<Rightarrow> set_field (fst kv) (dget prior (fst kv)) e)"

definition sticky_fields :: "build_info \<Rightarrow> (string \<times> pyval option) list" where
  "sticky_fields b =
     [(''source'', map_option PStr (bi_source b)),
      (''owner_stage'', map_option PStr (bi_owner_stage b)),
      (''toolchain_variant'', map_option PStr (bi_toolchain_variant b)),
      (''toolchain_fingerprint'', map_option PStr (bi_toolchain_fingerprint b)),
      (''reviewed_commit'', map_option PStr (bi_reviewed_commit b)),
      (''origin_pkgbase'', map_option PStr (bi_origin_pkgbase b)),
      (''sandboxed'', map_option PBool (bi_sandboxed b)),
      (''build_inputs'', map_option PStr (bi_build_inputs b)),
      (''compiles'', map_option PBool (bi_compiles b))]"

definition build_ring :: "entry \<Rightarrow> int option \<Rightarrow> string list" where
  "build_ring prior secs =
     (let ring = filter (\<lambda>s. s \<noteq> []) (split_on CHR '','' (case get_str prior ''build_seconds'' of Some s \<Rightarrow> s | None \<Rightarrow> []))
      in case secs of None \<Rightarrow> ring | Some n \<Rightarrow> last_n 5 (ring @ [int_str n]))"

definition build_entry :: "string \<Rightarrow> build_info \<Rightarrow> entry \<Rightarrow> entry" where
  "build_entry now b prior =
     (let e0 = [(''pkgver'', PStr (bi_pkgver b)), (''pkgrel'', PStr (bi_pkgrel b)), (''epoch'', PStr (bi_epoch b)),
                (''pkgbase'', PStr (bi_pkgbase b)), (''pkgbuild_dir'', PStr (bi_pkgbuild_dir b)),
                (''built_at'', PStr (if truthy (bi_built_at b) then the (bi_built_at b) else now))];
          e1 = set_field ''built_upstream_commit'' (map_option PStr (bi_built_upstream_commit b))
                 (set_field ''flags_string'' (map_option PStr (bi_flags_string b))
                   (set_field ''build_mode'' (map_option PStr (bi_build_mode b)) e0));
          e2 = fold (sticky prior) (sticky_fields b) e1;
          ring = build_ring prior (bi_build_seconds b)
      in if ring = [] then e2 else dset ''build_seconds'' (PStr (py_join '','' ring)) e2)"

definition drop_reverted :: "string \<Rightarrow> bstate \<Rightarrow> bstate" where
  "drop_reverted p s = s\<lparr>bs_reverted := filter (\<lambda>(a, e). dget e ''pkgname'' \<noteq> Some (PStr p)) (bs_reverted s)\<rparr>"

definition set_entry :: "string \<Rightarrow> entry \<Rightarrow> bstate \<Rightarrow> bstate" where
  "set_entry p e s = s\<lparr>bs_packages := dset p e (bs_packages s)\<rparr>"

definition clear_failure :: "string \<Rightarrow> bstate \<Rightarrow> bstate \<times> bool" where
  "clear_failure base s = (s\<lparr>bs_failures := dpop base (bs_failures s)\<rparr>, dhas (bs_failures s) base)"

definition record_build :: "string \<Rightarrow> string \<Rightarrow> build_info \<Rightarrow> bstate \<Rightarrow> bstate" where
  "record_build now p b s =
     fst (clear_failure (bi_pkgbase b)
       (drop_reverted p (set_entry p (build_entry now b (dget_or [] (bs_packages s) p)) s)))"

section \<open>Refused installs\<close>

definition BUILD_FACTS :: "string list" where
  "BUILD_FACTS = [''build_seconds'', ''reviewed_commit'']"

definition sans_build_facts :: "entry \<Rightarrow> entry" where
  "sans_build_facts e = filter (\<lambda>(k, v). k \<notin> set BUILD_FACTS) e"

text \<open>Equality of dicts, whatever the order of their keys.\<close>

definition dict_eq :: "('k, 'v) dict \<Rightarrow> ('k, 'v) dict \<Rightarrow> bool" where
  "dict_eq d e \<longleftrightarrow> list_all (\<lambda>k. dget d k = dget e k) (map fst d @ map fst e)"

definition revert_record :: "string \<Rightarrow> entry option \<Rightarrow> string option \<Rightarrow> bstate \<Rightarrow> bstate" where
  "revert_record p prior artifact s =
     (let current = dget_or [] (bs_packages s) p;
          s1 = (if truthy artifact \<and> current \<noteq> [] \<and>
                   \<not> dict_eq (sans_build_facts current) (sans_build_facts (case prior of None \<Rightarrow> [] | Some e \<Rightarrow> e))
                then s\<lparr>bs_reverted := dset (the artifact) (dmerge [(''pkgname'', PStr p)] current) (bs_reverted s)\<rparr>
                else s)
      in case prior of
           None \<Rightarrow> s1\<lparr>bs_packages := dpop p (bs_packages s1)\<rparr>
         | Some e \<Rightarrow> set_entry p (fold (\<lambda>k. set_field k (dget current k)) BUILD_FACTS e) s1)"

definition restore_reverted :: "string \<Rightarrow> bstate \<Rightarrow> bstate \<times> string option" where
  "restore_reverted artifact s =
     (case dget (bs_reverted s) artifact of
        None \<Rightarrow> (s, None)
      | Some e \<Rightarrow>
          (let s1 = s\<lparr>bs_reverted := dpop artifact (bs_reverted s)\<rparr>
           in if truthy (get_str e ''pkgname'')
              then (set_entry (the (get_str e ''pkgname'')) (dpop ''pkgname'' e) s1, get_str e ''pkgname'')
              else (s1, None)))"

section \<open>The other operations\<close>

definition delete_entry :: "string \<Rightarrow> bstate \<Rightarrow> bstate \<times> bool" where
  "delete_entry p s = (s\<lparr>bs_packages := dpop p (bs_packages s)\<rparr>, dhas (bs_packages s) p)"

definition resolve_installed_name :: "bstate \<Rightarrow> string \<Rightarrow> string" where
  "resolve_installed_name s name =
     (let entries = bs_packages s in
      if dhas entries name then name
      else (case find (\<lambda>k. dget (dget_or [] entries k) ''origin_pkgbase'' = Some (PStr name)) (py_sorted (map fst entries)) of
              Some k \<Rightarrow> k
            | None \<Rightarrow> (let renamed = name @ ''-'' @ RENAME_SUFFIX in if dhas entries renamed then renamed else name)))"

definition demote_targets :: "bstate \<Rightarrow> string \<Rightarrow> string list" where
  "demote_targets s name =
     (let key = resolve_installed_name s name; e = dget_or [] (bs_packages s) key in
      if e = [] then []
      else key # (if truthy (get_str e ''pkgbase'')
                  then map fst (filter (\<lambda>(pn, x). dget x ''pkgbase'' = dget e ''pkgbase'') (bs_packages s))
                  else []))"

definition demotable :: "entry \<Rightarrow> bool" where
  "demotable e \<longleftrightarrow>
     is_source_build_mode (get_str e ''build_mode'') \<and>
     \<not> (dhas e ''owner_stage'' \<and> pyval_true (the (dget e ''owner_stage'')))"

definition demoted_entry :: "entry \<Rightarrow> entry" where
  "demoted_entry e =
     dset ''build_mode'' (PStr BUILD_MODE_PACMAN)
       (fold (\<lambda>k. set_field k (dget e k)) [''pkgver'', ''pkgrel'', ''epoch'', ''pkgbase''] [])"

fun demote_all :: "string list \<Rightarrow> bstate \<Rightarrow> bstate \<times> string list" where
  "demote_all [] s = (s, [])"
| "demote_all (n # ns) s =
     (let e = dget_or [] (bs_packages s) n in
      if demotable e
      then (let (s', ds) = demote_all ns (set_entry n (demoted_entry e) s) in (s', n # ds))
      else demote_all ns s)"

definition reconcile_external_installs :: "string list \<Rightarrow> bstate \<Rightarrow> bstate \<times> string list" where
  "reconcile_external_installs names s = demote_all (sorted_set (concat (map (demote_targets s) names))) s"

definition record_failure ::
    "string \<Rightarrow> string \<Rightarrow> string \<Rightarrow> string option \<Rightarrow> string option \<Rightarrow> string option \<Rightarrow> string option
     \<Rightarrow> string option \<Rightarrow> bstate \<Rightarrow> bstate" where
  "record_failure now base err pkgver signature fix_cmd failed_at kind s =
     (let opt = (\<lambda>k v e. if truthy v then dset k (PStr (the v)) e else e);
          e0 = [(''failed_at'', PStr (if truthy failed_at then the failed_at else now)),
                (''error'', PStr (truncate_error err))]
      in s\<lparr>bs_failures := dset base
             (opt ''kind'' kind (opt ''fix_cmd'' fix_cmd (opt ''signature'' signature (opt ''pkgver'' pkgver e0))))
             (bs_failures s)\<rparr>)"

definition set_reviewed :: "string \<Rightarrow> string \<Rightarrow> bstate \<Rightarrow> bstate" where
  "set_reviewed base commit s = s\<lparr>bs_reviewed := dset base commit (bs_reviewed s)\<rparr>"

definition reviewed_commit :: "bstate \<Rightarrow> string \<Rightarrow> string list \<Rightarrow> string option" where
  "reviewed_commit s base names =
     (if truthy (dget (bs_reviewed s) base) then dget (bs_reviewed s) base
      else (case find (\<lambda>n. truthy (get_str (dget_or [] (bs_packages s) n) ''reviewed_commit'')) names of
              None \<Rightarrow> None
            | Some n \<Rightarrow> get_str (dget_or [] (bs_packages s) n) ''reviewed_commit''))"

definition pacman_entry :: "string \<Rightarrow> entry" where
  "pacman_entry v =
     (let (epoch, pkgver, pkgrel) = parse_pacman_version v
      in [(''pkgver'', PStr pkgver), (''pkgrel'', PStr pkgrel), (''epoch'', PStr epoch), (''build_mode'', PStr ''pacman'')])"

definition sync_with_installed :: "(string, string) dict \<Rightarrow> bstate \<Rightarrow> bstate \<times> nat \<times> nat" where
  "sync_with_installed installed s =
     (let removed = filter (\<lambda>n. \<not> dhas installed n) (map fst (bs_packages s));
          added = filter (\<lambda>n. \<not> dhas (bs_packages s) n) (map fst installed);
          s1 = fold (\<lambda>n s. drop_reverted n (fst (delete_entry n s))) removed s;
          s2 = fold (\<lambda>n. set_entry n (pacman_entry (the (dget installed n)))) added s1
      in (s2, length added, length removed))"

definition set_build_mode :: "string \<Rightarrow> string \<Rightarrow> bstate \<Rightarrow> bstate \<times> bool" where
  "set_build_mode p mode s =
     (case dget (bs_packages s) p of
        None \<Rightarrow> (s, False)
      | Some e \<Rightarrow> (set_entry p (dset ''build_mode'' (PStr mode) e) s, True))"

text \<open>The records a save would roll back: \<open>loaded\<close> holds each entry's \<open>built_at\<close> when it was loaded.\<close>

definition built_at :: "entry \<Rightarrow> string" where
  "built_at e = (case get_str e ''built_at'' of Some t \<Rightarrow> t | None \<Rightarrow> [])"

definition lost_updates :: "(string, entry) dict \<Rightarrow> (string, entry) dict \<Rightarrow> (string, string) dict \<Rightarrow> string list" where
  "lost_updates disk mine loaded =
     filter
       (\<lambda>n. let at = built_at (dget_or [] disk n) in
            (case (dget mine n, dget loaded n) of
               (Some e, _) \<Rightarrow> at \<noteq> [] \<and> (built_at e = [] \<or> at > built_at e)
             | (None, Some t) \<Rightarrow> at \<noteq> [] \<and> (t = [] \<or> at > t)
             | (None, None) \<Rightarrow> True))
       (py_sorted (map fst disk))"

section \<open>Writing\<close>

definition by_key :: "('k::linorder \<times> 'v) list \<Rightarrow> ('k \<times> 'v) list" where
  "by_key d = sort_key fst d"

definition escape_key :: "string \<Rightarrow> string" where
  "escape_key k = replace_char CHR 0x22 [CHR 0x5C, CHR 0x22] (replace_char CHR 0x5C [CHR 0x5C, CHR 0x5C] k)"

definition string_line :: "entry \<Rightarrow> string \<Rightarrow> string list" where
  "string_line e k =
     (case dget e k of None \<Rightarrow> [] | Some v \<Rightarrow> [raw_line k (toml_escape (pyval_str v))])"

definition field_line :: "entry \<Rightarrow> string \<Rightarrow> string list" where
  "field_line e k =
     (case dget e k of
        Some (PBool b) \<Rightarrow> [pair_line k (if b then ''true'' else ''false'')]
      | _ \<Rightarrow> string_line e k)"

definition quote_key :: "string \<Rightarrow> string" where
  "quote_key k = quoted (escape_key k)"

definition package_lines :: "string \<times> entry \<Rightarrow> string list" where
  "package_lines pe =
     (''['' @ quote_key (fst pe) @ '']'') # concat (map (field_line (snd pe)) ENTRY_KEYS) @ [[]]"

definition FAILURE_KEYS :: "string list" where
  "FAILURE_KEYS = [''failed_at'', ''kind'', ''pkgver'', ''signature'', ''fix_cmd'', ''error'']"

definition failure_lines :: "string \<times> entry \<Rightarrow> string list" where
  "failure_lines pe =
     (''[failures.'' @ quote_key (fst pe) @ '']'') # concat (map (string_line (snd pe)) FAILURE_KEYS) @ [[]]"

definition reverted_lines :: "string \<times> entry \<Rightarrow> string list" where
  "reverted_lines pe =
     (''[reverted.'' @ quote_key (fst pe) @ '']'') #
     concat (map (string_line (snd pe)) (''pkgname'' # ENTRY_KEYS)) @ [[]]"

definition reviewed_line :: "string \<times> string \<Rightarrow> string" where
  "reviewed_line kc = pair_line (quote_key (fst kc)) (quoted (toml_escape (snd kc)))"

definition state_file_lines :: "bstate \<Rightarrow> string list" where
  "state_file_lines s =
     [''# SysForge build state'', ''# Records per-package build metadata for use by sysforge update.'', []] @
     concat (map package_lines (by_key (bs_packages s))) @
     (if bs_failures s = [] then []
      else [''# Build failures and review refusals (kind = '' @ quoted ''review'' @ ''); each clears on the next successful build.'', []] @
           concat (map failure_lines (by_key (bs_failures s)))) @
     (if bs_reverted s = [] then []
      else [''# Builds whose install was refused, restored if the artifact installs.'', []] @
           concat (map reverted_lines (by_key (bs_reverted s)))) @
     (if bs_reviewed s = [] then []
      else [''# PKGBUILD review baseline: the source HEAD last accepted, by pkgbase.'', ''[reviewed]''] @
           map reviewed_line (by_key (bs_reviewed s)) @ [[]])"

definition serialize_state :: "bstate \<Rightarrow> string" where
  "serialize_state s = py_join [CHR 0x0A] (state_file_lines s)"

section \<open>Reading\<close>

text \<open>The table a line belongs to.\<close>

datatype btable = TRoot | TPackage string | TFailure string | TReverted string | TReviewed

definition read_quoted_header :: "string \<Rightarrow> string \<Rightarrow> string option" where
  "read_quoted_header p l =
     (if starts_with p l then
        (case read_basic (drop (length p) l) of
           Some (n, r) \<Rightarrow> if r = '']'' then Some n else None
         | None \<Rightarrow> None)
      else None)"

definition read_bheader :: "string \<Rightarrow> btable option" where
  "read_bheader l =
     (if l = ''[reviewed]'' then Some TReviewed
      else (case read_quoted_header (''['' @ [CHR 0x22]) l of
              Some n \<Rightarrow> if n \<in> {''failures'', ''reverted'', ''reviewed''} then None else Some (TPackage n)
            | None \<Rightarrow>
                (case read_quoted_header (''[failures.'' @ [CHR 0x22]) l of
                   Some n \<Rightarrow> Some (TFailure n)
                 | None \<Rightarrow> map_option TReverted (read_quoted_header (''[reverted.'' @ [CHR 0x22]) l))))"

text \<open>Opening a table twice is an error.\<close>

definition new_table :: "string \<Rightarrow> (string, entry) dict \<Rightarrow> (string, entry) dict option" where
  "new_table n d = (if dhas d n then None else Some (d @ [(n, [])]))"

fun open_btable :: "btable \<Rightarrow> bstate \<Rightarrow> bstate option" where
  "open_btable (TPackage n) s = map_option (\<lambda>d. s\<lparr>bs_packages := d\<rparr>) (new_table n (bs_packages s))"
| "open_btable (TFailure n) s = map_option (\<lambda>d. s\<lparr>bs_failures := d\<rparr>) (new_table n (bs_failures s))"
| "open_btable (TReverted n) s = map_option (\<lambda>d. s\<lparr>bs_reverted := d\<rparr>) (new_table n (bs_reverted s))"
| "open_btable t s = (if bs_reviewed s = [] then Some s else None)"

definition read_field :: "string \<Rightarrow> pyval option" where
  "read_field v =
     (if v = ''true'' then Some (PBool True) else if v = ''false'' then Some (PBool False)
      else (case read_value v of Some (VStr s) \<Rightarrow> Some (PStr s) | _ \<Rightarrow> None))"

definition read_field_line :: "string \<Rightarrow> (string \<times> pyval) option" where
  "read_field_line l =
     (case partition1 CHR ''='' l of
        Some (k, v) \<Rightarrow>
          if ends_with '' '' k \<and> starts_with '' '' v \<and> bare_key (butlast k)
          then map_option (Pair (butlast k)) (read_field (tl v)) else None
      | None \<Rightarrow> None)"

definition read_reviewed_line :: "string \<Rightarrow> (string \<times> string) option" where
  "read_reviewed_line l =
     (case l of
        [] \<Rightarrow> None
      | c # r \<Rightarrow>
          if c \<noteq> CHR 0x22 then None
          else (case read_basic r of
                  Some (k, t) \<Rightarrow>
                    if starts_with '' = '' t
                    then (case read_value (drop 3 t) of Some (VStr v) \<Rightarrow> Some (k, v) | _ \<Rightarrow> None)
                    else None
                | None \<Rightarrow> None))"

text \<open>A repeated key is an error.\<close>

definition add_field :: "string \<Rightarrow> string \<Rightarrow> pyval \<Rightarrow> (string, entry) dict \<Rightarrow> (string, entry) dict option" where
  "add_field n k v d =
     (let e = dget_or [] d n in if dhas e k then None else Some (dset n (e @ [(k, v)]) d))"

fun put_field :: "btable \<Rightarrow> string \<Rightarrow> pyval \<Rightarrow> bstate \<Rightarrow> bstate option" where
  "put_field (TPackage n) k v s = map_option (\<lambda>d. s\<lparr>bs_packages := d\<rparr>) (add_field n k v (bs_packages s))"
| "put_field (TFailure n) k v s = map_option (\<lambda>d. s\<lparr>bs_failures := d\<rparr>) (add_field n k v (bs_failures s))"
| "put_field (TReverted n) k v s = map_option (\<lambda>d. s\<lparr>bs_reverted := d\<rparr>) (add_field n k v (bs_reverted s))"
| "put_field _ k v s = None"

definition read_state_line :: "string \<Rightarrow> btable \<times> bstate \<Rightarrow> (btable \<times> bstate) option" where
  "read_state_line l st =
     (let (t, s) = st
      in if l = [] \<or> hd l = CHR ''#'' then Some st
         else if hd l = CHR ''['' then
           (case read_bheader l of
              None \<Rightarrow> None
            | Some t' \<Rightarrow> map_option (Pair t') (open_btable t' s))
         else if t = TReviewed then
           (case read_reviewed_line l of
              None \<Rightarrow> None
            | Some (k, c) \<Rightarrow>
                if dhas (bs_reviewed s) k then None else Some (t, s\<lparr>bs_reviewed := bs_reviewed s @ [(k, c)]\<rparr>))
         else (case read_field_line l of
                 None \<Rightarrow> None
               | Some (k, v) \<Rightarrow> map_option (Pair t) (put_field t k v s)))"

fun read_state_lines :: "string list \<Rightarrow> btable \<times> bstate \<Rightarrow> (btable \<times> bstate) option" where
  "read_state_lines [] st = Some st"
| "read_state_lines (l # ls) st =
     (case read_state_line l st of None \<Rightarrow> None | Some st' \<Rightarrow> read_state_lines ls st')"

definition load_state :: "string \<Rightarrow> bstate option" where
  "load_state text = map_option snd (read_state_lines (split_on CHR 0x0A text) (TRoot, empty_bstate))"

section \<open>Entries\<close>

lemma set_field_get [simp]: "dget (set_field k v e) j = (if j = k \<and> v \<noteq> None then v else dget e j)"
  by (auto simp: set_field_def split: option.split)

lemma fold_set_fields:
  "dget (fold (\<lambda>k. set_field k (f k)) ks e) j = (if j \<in> set ks \<and> f j \<noteq> None then f j else dget e j)"
  by (induction ks arbitrary: e) auto

lemma get_entry [simp]: "dget (bs_packages (set_entry p e s)) q = (if q = p then Some e else dget (bs_packages s) q)"
  by (simp add: set_entry_def)

lemma set_entry_simps [simp]: "bs_failures (set_entry p e s) = bs_failures s"
  "bs_reverted (set_entry p e s) = bs_reverted s" "bs_reviewed (set_entry p e s) = bs_reviewed s"
  by (simp_all add: set_entry_def)

lemma drop_reverted_simps [simp]: "bs_packages (drop_reverted p s) = bs_packages s"
  "bs_failures (drop_reverted p s) = bs_failures s" "bs_reviewed (drop_reverted p s) = bs_reviewed s"
  by (simp_all add: drop_reverted_def)

lemma dget_or_set [simp]: "dget_or x (dset k v d) j = (if j = k then v else dget_or x d j)"
  by (simp add: dget_or_def)

section \<open>Demotion\<close>

definition IDENTITY_KEYS :: "string list" where
  "IDENTITY_KEYS = [''pkgver'', ''pkgrel'', ''epoch'', ''pkgbase'']"

lemma demoted_entry_get:
  "dget (demoted_entry e) k =
   (if k = ''build_mode'' then Some (PStr BUILD_MODE_PACMAN) else if k \<in> set IDENTITY_KEYS then dget e k else None)"
proof -
  have "demoted_entry e = dset ''build_mode'' (PStr BUILD_MODE_PACMAN) (fold (\<lambda>k. set_field k (dget e k)) IDENTITY_KEYS [])"
    by (simp add: demoted_entry_def IDENTITY_KEYS_def)
  then show ?thesis by (simp add: fold_set_fields)
qed

lemma not_demotable_demoted: "\<not> demotable (demoted_entry e)"
  by (simp add: demotable_def get_str_def demoted_entry_get is_source_build_mode_def
      BUILD_MODE_PACMAN_def BUILD_MODE_SOURCE_def BUILD_MODE_BOLT_def)

lemma not_demotable_Nil [simp]: "\<not> demotable []"
  by (simp add: demotable_def get_str_def is_source_build_mode_def)

lemma demote_all_spec:
  "distinct ns \<Longrightarrow> demote_all ns s = (s', ds) \<Longrightarrow>
   ds = filter (\<lambda>n. demotable (dget_or [] (bs_packages s) n)) ns \<and>
   (\<forall>m. dget (bs_packages s') m =
      (if m \<in> set ds then Some (demoted_entry (dget_or [] (bs_packages s) m)) else dget (bs_packages s) m)) \<and>
   bs_failures s' = bs_failures s \<and> bs_reverted s' = bs_reverted s \<and> bs_reviewed s' = bs_reviewed s"
proof (induction ns arbitrary: s s' ds)
  case Nil
  then show ?case by simp
next
  case (Cons n ns)
  let ?e = "dget_or [] (bs_packages s) n"
  show ?case
  proof (cases "demotable ?e")
    case False
    with Cons show ?thesis by simp
  next
    case True
    then obtain ds' where d: "demote_all ns (set_entry n (demoted_entry ?e) s) = (s', ds')" "ds = n # ds'"
      using Cons.prems(2) by (auto split: prod.splits)
    have same: "dget_or [] (bs_packages (set_entry n (demoted_entry ?e) s)) m = dget_or [] (bs_packages s) m"
      if "m \<in> set ns" for m
      using that Cons.prems(1) by (auto simp: set_entry_def)
    have n: "n \<notin> set ns" using Cons.prems(1) by simp
    have IH: "ds' = filter (\<lambda>m. demotable (dget_or [] (bs_packages (set_entry n (demoted_entry ?e) s)) m)) ns"
      "\<And>m. dget (bs_packages s') m = (if m \<in> set ds'
         then Some (demoted_entry (dget_or [] (bs_packages (set_entry n (demoted_entry ?e) s)) m))
         else dget (bs_packages (set_entry n (demoted_entry ?e) s)) m)"
      "bs_failures s' = bs_failures s" "bs_reverted s' = bs_reverted s" "bs_reviewed s' = bs_reviewed s"
      using Cons.IH [OF _ d(1)] Cons.prems(1) by auto
    have ds': "ds' = filter (\<lambda>m. demotable (dget_or [] (bs_packages s) m)) ns"
      unfolding IH(1) using same by (auto intro: filter_cong)
    then have sub: "set ds' \<subseteq> set ns" by auto
    have "dget (bs_packages s') m =
        (if m \<in> set ds then Some (demoted_entry (dget_or [] (bs_packages s) m)) else dget (bs_packages s) m)" for m
      unfolding IH(2) using sub n same [of m] by (auto simp: d(2))
    with True ds' IH(3-5) show ?thesis by (simp add: d(2))
  qed
qed

definition targets_of :: "bstate \<Rightarrow> string list \<Rightarrow> string set" where
  "targets_of s names = (\<Union>x \<in> set names. set (demote_targets s x))"

lemma reconcile_spec:
  assumes "reconcile_external_installs names s = (s', ds)"
  shows "sorted ds" "distinct ds"
    "set ds = {n \<in> targets_of s names. demotable (dget_or [] (bs_packages s) n)}"
    "\<And>m. dget (bs_packages s') m =
      (if m \<in> set ds then Some (demoted_entry (dget_or [] (bs_packages s) m)) else dget (bs_packages s) m)"
    "bs_failures s' = bs_failures s" "bs_reverted s' = bs_reverted s" "bs_reviewed s' = bs_reviewed s"
proof -
  let ?ns = "sorted_set (concat (map (demote_targets s) names))"
  have d: "distinct ?ns" "sorted ?ns" "set ?ns = targets_of s names"
    by (simp_all add: sorted_set_def targets_of_def)
  have spec: "ds = filter (\<lambda>n. demotable (dget_or [] (bs_packages s) n)) ?ns \<and>
   (\<forall>m. dget (bs_packages s') m =
      (if m \<in> set ds then Some (demoted_entry (dget_or [] (bs_packages s) m)) else dget (bs_packages s) m)) \<and>
   bs_failures s' = bs_failures s \<and> bs_reverted s' = bs_reverted s \<and> bs_reviewed s' = bs_reviewed s"
    using demote_all_spec [OF d(1)] assms unfolding reconcile_external_installs_def by blast
  then show "sorted ds" "distinct ds"
    "set ds = {n \<in> targets_of s names. demotable (dget_or [] (bs_packages s) n)}"
    "\<And>m. dget (bs_packages s') m =
      (if m \<in> set ds then Some (demoted_entry (dget_or [] (bs_packages s) m)) else dget (bs_packages s) m)"
    "bs_failures s' = bs_failures s" "bs_reverted s' = bs_reverted s" "bs_reviewed s' = bs_reviewed s"
    using d by (auto intro: sorted_wrt_filter)
qed

lemma demote_targets_iff:
  "n \<in> set (demote_targets s x) \<longleftrightarrow>
     dget_or [] (bs_packages s) (resolve_installed_name s x) \<noteq> [] \<and>
     (n = resolve_installed_name s x \<or>
      truthy (get_str (dget_or [] (bs_packages s) (resolve_installed_name s x)) ''pkgbase'') \<and>
      (\<exists>y. (n, y) \<in> set (bs_packages s) \<and>
        dget y ''pkgbase'' = dget (dget_or [] (bs_packages s) (resolve_installed_name s x)) ''pkgbase''))"
proof -
  define k e where "k = resolve_installed_name s x" and "e = dget_or [] (bs_packages s) k"
  have "demote_targets s x = (if e = [] then []
      else k # (if truthy (get_str e ''pkgbase'')
                then map fst (filter (\<lambda>(pn, y). dget y ''pkgbase'' = dget e ''pkgbase'') (bs_packages s)) else []))"
    by (simp add: demote_targets_def Let_def k_def e_def)
  then have "n \<in> set (demote_targets s x) \<longleftrightarrow> e \<noteq> [] \<and> (n = k \<or> truthy (get_str e ''pkgbase'') \<and>
      (\<exists>y. (n, y) \<in> set (bs_packages s) \<and> dget y ''pkgbase'' = dget e ''pkgbase''))"
    by (cases "truthy (get_str e ''pkgbase'')") force+
  then show ?thesis by (simp only: k_def e_def)
qed

text \<open>A target's siblings, the entries that share its pkgbase, are targets.\<close>

lemma demote_targets_siblings:
  assumes "dict_ok (bs_packages s)" "n \<in> set (demote_targets s x)"
    and "truthy (get_str (dget_or [] (bs_packages s) n) ''pkgbase'')"
    and "dget (bs_packages s) m = Some e" "dget e ''pkgbase'' = dget (dget_or [] (bs_packages s) n) ''pkgbase''"
  shows "m \<in> set (demote_targets s x)"
proof -
  let ?k = "resolve_installed_name s x"
  let ?ke = "dget_or [] (bs_packages s) ?k"
  have ne: "?ke \<noteq> []" using assms(2) unfolding demote_targets_iff by (rule conjunct1)
  have base: "dget (dget_or [] (bs_packages s) n) ''pkgbase'' = dget ?ke ''pkgbase''"
  proof (cases "n = ?k")
    case True
    show ?thesis by (simp only: True)
  next
    case False
    then obtain y where y: "(n, y) \<in> set (bs_packages s)" "dget y ''pkgbase'' = dget ?ke ''pkgbase''"
      using assms(2) unfolding demote_targets_iff by blast
    then have "dget (bs_packages s) n = Some y" using assms(1) by (simp add: dict_ok_def)
    with y(2) show ?thesis by (simp add: dget_or_def)
  qed
  then have tr: "truthy (get_str ?ke ''pkgbase'')" using assms(3) by (simp add: get_str_def)
  have "(m, e) \<in> set (bs_packages s)" by (rule map_of_SomeD [OF assms(4)])
  moreover have "dget e ''pkgbase'' = dget ?ke ''pkgbase''" using base assms(5) by simp
  ultimately have "\<exists>y. (m, y) \<in> set (bs_packages s) \<and> dget y ''pkgbase'' = dget ?ke ''pkgbase''"
    by (intro exI conjI)
  then show ?thesis unfolding demote_targets_iff by (intro conjI disjI2 ne tr)
qed

definition entry_of :: "bstate \<Rightarrow> string \<Rightarrow> entry" where
  "entry_of s n = dget_or [] (bs_packages s) n"

text \<open>What a demotion promises.\<close>

definition demotion_sticks :: "string list \<Rightarrow> bstate \<Rightarrow> bstate \<Rightarrow> string list \<Rightarrow> bool" where
  "demotion_sticks names s s' ds \<longleftrightarrow>
     (\<forall>n \<in> set ds. \<not> demotable (entry_of s' n) \<and> demotable (entry_of s n) \<and>
        (\<forall>k \<in> set IDENTITY_KEYS. dget (entry_of s' n) k = dget (entry_of s n) k) \<and>
        get_str (entry_of s' n) ''build_mode'' = Some BUILD_MODE_PACMAN) \<and>
     (\<forall>n. n \<notin> set ds \<longrightarrow> dget (bs_packages s') n = dget (bs_packages s) n) \<and>
     (\<forall>x \<in> set names. demotable (entry_of s (resolve_installed_name s x)) \<longrightarrow> resolve_installed_name s x \<in> set ds) \<and>
     (\<forall>n m. n \<in> set ds \<longrightarrow> truthy (get_str (entry_of s n) ''pkgbase'') \<longrightarrow>
        dget (entry_of s m) ''pkgbase'' = dget (entry_of s n) ''pkgbase'' \<longrightarrow> demotable (entry_of s m) \<longrightarrow> m \<in> set ds)"

lemma demotable_tracked: "demotable (entry_of s n) \<Longrightarrow> dget (bs_packages s) n = Some (entry_of s n)"
  by (cases "dget (bs_packages s) n") (simp_all add: entry_of_def dget_or_def)

lemma reconcile_sticks:
  assumes ok: "dict_ok (bs_packages s)" and run: "reconcile_external_installs names s = (s', ds)"
  shows "demotion_sticks names s s' ds"
proof -
  note spec = reconcile_spec [OF run, folded entry_of_def]
  have after: "entry_of s' n = demoted_entry (entry_of s n)" if "n \<in> set ds" for n
    using that spec(4) [of n] by (simp add: entry_of_def dget_or_def)
  have kept: "dget (bs_packages s') n = dget (bs_packages s) n" if "n \<notin> set ds" for n
    using that spec(4) [of n] by simp
  have each: "\<not> demotable (entry_of s' n) \<and> demotable (entry_of s n) \<and>
      (\<forall>k \<in> set IDENTITY_KEYS. dget (entry_of s' n) k = dget (entry_of s n) k) \<and>
      get_str (entry_of s' n) ''build_mode'' = Some BUILD_MODE_PACMAN" if n: "n \<in> set ds" for n
  proof -
    have "demotable (entry_of s n)" using n spec(3) by simp
    moreover have "dget (demoted_entry (entry_of s n)) k = dget (entry_of s n) k" if "k \<in> set IDENTITY_KEYS" for k
      using that by (auto simp: demoted_entry_get IDENTITY_KEYS_def)
    moreover have "get_str (demoted_entry (entry_of s n)) ''build_mode'' = Some BUILD_MODE_PACMAN"
      by (simp add: get_str_def demoted_entry_get)
    ultimately show ?thesis by (simp add: after [OF n] not_demotable_demoted)
  qed
  have root: "resolve_installed_name s x \<in> set ds"
    if "x \<in> set names" "demotable (entry_of s (resolve_installed_name s x))" for x
  proof -
    have "entry_of s (resolve_installed_name s x) \<noteq> []" using that(2) by (metis not_demotable_Nil)
    then have "resolve_installed_name s x \<in> set (demote_targets s x)"
      unfolding demote_targets_iff entry_of_def by (intro conjI disjI1 refl)
    with that show ?thesis unfolding spec(3) targets_of_def by blast
  qed
  have sib: "m \<in> set ds" if n: "n \<in> set ds" "truthy (get_str (entry_of s n) ''pkgbase'')"
    "dget (entry_of s m) ''pkgbase'' = dget (entry_of s n) ''pkgbase''" and m: "demotable (entry_of s m)" for n m
  proof -
    obtain x where x: "x \<in> set names" "n \<in> set (demote_targets s x)"
      using n(1) unfolding spec(3) targets_of_def by blast
    have "m \<in> set (demote_targets s x)"
      by (rule demote_targets_siblings [OF ok x(2) n(2) [unfolded entry_of_def] demotable_tracked [OF m]
            n(3) [unfolded entry_of_def [of s n]]])
    with x(1) m show ?thesis unfolding spec(3) targets_of_def by blast
  qed
  show ?thesis
    unfolding demotion_sticks_def using each kept root sib by blast
qed

text \<open>An external install demotes exactly what it should: every tracked package it resolves to
  and every member of its pkgbase that is built from source and owned by no stage becomes a
  plain pacman record that keeps its version identity, so the next update leaves it alone; no
  other record changes.\<close>

theorem external_install_demotes:
  assumes "dict_ok (bs_packages s)" and "reconcile_external_installs names s = (s', ds)"
  shows "demotion_sticks names s s' ds"
  using assms by (rule reconcile_sticks)

section \<open>Sync with the installed packages\<close>

lemma fold_delete:
  "dget (bs_packages (fold (\<lambda>n s. drop_reverted n (fst (delete_entry n s))) ns s)) m =
     (if m \<in> set ns then None else dget (bs_packages s) m)"
  by (induction ns arbitrary: s) (auto simp: delete_entry_def)

lemma drop_delete:
  "bs_reverted (drop_reverted n (fst (delete_entry n s))) =
   filter (\<lambda>(a, e). dget e ''pkgname'' \<noteq> Some (PStr n)) (bs_reverted s)"
  by (simp add: drop_reverted_def delete_entry_def)

lemma fold_delete_simps:
  "bs_failures (fold (\<lambda>n s. drop_reverted n (fst (delete_entry n s))) ns s) = bs_failures s"
  "bs_reviewed (fold (\<lambda>n s. drop_reverted n (fst (delete_entry n s))) ns s) = bs_reviewed s"
  by (induction ns arbitrary: s) (simp_all add: delete_entry_def)

lemma fold_delete_reverted:
  "bs_reverted (fold (\<lambda>n s. drop_reverted n (fst (delete_entry n s))) ns s) =
     filter (\<lambda>(a, e). \<forall>n \<in> set ns. dget e ''pkgname'' \<noteq> Some (PStr n)) (bs_reverted s)"
proof (induction ns arbitrary: s)
  case Nil
  then show ?case by (simp add: case_prod_beta)
next
  case (Cons n ns)
  show ?case
    unfolding fold.simps comp_apply Cons.IH drop_delete filter_filter
    by (rule filter_cong) auto
qed

lemma fold_set_entry:
  "dget (bs_packages (fold (\<lambda>n. set_entry n (f n)) ns s)) m = (if m \<in> set ns then Some (f m) else dget (bs_packages s) m)"
  by (induction ns arbitrary: s) auto

lemma fold_set_entry_simps:
  "bs_failures (fold (\<lambda>n. set_entry n (f n)) ns s) = bs_failures s"
  "bs_reviewed (fold (\<lambda>n. set_entry n (f n)) ns s) = bs_reviewed s"
  "bs_reverted (fold (\<lambda>n. set_entry n (f n)) ns s) = bs_reverted s"
  by (induction ns arbitrary: s) simp_all

lemma dhas_keys: "dhas d n \<longleftrightarrow> n \<in> set (map fst d)"
  by (simp add: dhas_def map_of_eq_None_iff del: set_map) (simp add: image_iff)

lemma sync_get:
  assumes "sync_with_installed installed s = (s', a, r)"
  shows "dget (bs_packages s') n =
     (case dget installed n of
        None \<Rightarrow> None
      | Some v \<Rightarrow> (case dget (bs_packages s) n of None \<Rightarrow> Some (pacman_entry v) | Some e \<Rightarrow> Some e))"
proof -
  have keys: "n \<in> set (map fst installed) \<longleftrightarrow> dget installed n \<noteq> None"
    "n \<in> set (map fst (bs_packages s)) \<longleftrightarrow> dget (bs_packages s) n \<noteq> None"
    using dhas_keys [of installed n] dhas_keys [of "bs_packages s" n] by (auto simp: dhas_def)
  show ?thesis
    using assms keys
    by (auto simp: sync_with_installed_def Let_def fold_set_entry fold_delete dhas_def simp del: set_map
        split: option.splits)
qed

definition synced :: "(string, string) dict \<Rightarrow> bstate \<Rightarrow> bstate \<Rightarrow> bool" where
  "synced installed s s' \<longleftrightarrow>
     (\<forall>n. dhas (bs_packages s') n \<longleftrightarrow> dhas installed n) \<and>
     (\<forall>n. dhas installed n \<longrightarrow> dget (bs_packages s') n =
        (if dhas (bs_packages s) n then dget (bs_packages s) n else Some (pacman_entry (the (dget installed n))))) \<and>
     (\<forall>art e. (art, e) \<in> set (bs_reverted s') \<longleftrightarrow> (art, e) \<in> set (bs_reverted s) \<and>
        (\<forall>n. dget e ''pkgname'' = Some (PStr n) \<longrightarrow> dhas (bs_packages s) n \<longrightarrow> dhas installed n)) \<and>
     bs_failures s' = bs_failures s \<and> bs_reviewed s' = bs_reviewed s"

lemma sync_synced:
  assumes run: "sync_with_installed installed s = (s', a, r)"
  shows "synced installed s s'"
    and "a = 0 \<and> r = 0 \<longleftrightarrow> (\<forall>n. dhas (bs_packages s) n \<longleftrightarrow> dhas installed n)"
proof -
  let ?removed = "filter (\<lambda>n. \<not> dhas installed n) (map fst (bs_packages s))"
  let ?added = "filter (\<lambda>n. \<not> dhas (bs_packages s) n) (map fst installed)"
  have rem: "n \<in> set ?removed \<longleftrightarrow> dhas (bs_packages s) n \<and> \<not> dhas installed n" for n
    using dhas_keys [of "bs_packages s" n] by auto
  have s': "s' = fold (\<lambda>n. set_entry n (pacman_entry (the (dget installed n)))) ?added
      (fold (\<lambda>n s. drop_reverted n (fst (delete_entry n s))) ?removed s)"
    and ar: "a = length ?added" "r = length ?removed"
    using run by (simp_all add: sync_with_installed_def Let_def)
  have rev: "bs_reverted s' = filter (\<lambda>(art, e). \<forall>n \<in> set ?removed. dget e ''pkgname'' \<noteq> Some (PStr n)) (bs_reverted s)"
    and oth: "bs_failures s' = bs_failures s" "bs_reviewed s' = bs_reviewed s"
    unfolding s' by (simp_all only: fold_set_entry_simps fold_delete_simps fold_delete_reverted)
  have "(art, e) \<in> set (bs_reverted s') \<longleftrightarrow> (art, e) \<in> set (bs_reverted s) \<and>
      (\<forall>n. dget e ''pkgname'' = Some (PStr n) \<longrightarrow> dhas (bs_packages s) n \<longrightarrow> dhas installed n)" for art e
    unfolding rev using rem by auto
  moreover have "dhas (bs_packages s') n \<longleftrightarrow> dhas installed n" for n
    using sync_get [OF run, of n] by (auto simp: dhas_def split: option.splits)
  moreover have "dget (bs_packages s') n =
      (if dhas (bs_packages s) n then dget (bs_packages s) n else Some (pacman_entry (the (dget installed n))))"
    if "dhas installed n" for n
    using sync_get [OF run, of n] that by (auto simp: dhas_def split: option.splits)
  ultimately show "synced installed s s'" using oth by (simp add: synced_def)
  show "a = 0 \<and> r = 0 \<longleftrightarrow> (\<forall>n. dhas (bs_packages s) n \<longleftrightarrow> dhas installed n)"
    unfolding ar length_0_conv filter_empty_conv by (auto simp: dhas_keys simp del: set_map)
qed

lemma sync_again:
  assumes "\<forall>n. dhas (bs_packages s) n \<longleftrightarrow> dhas installed n"
  shows "sync_with_installed installed s = (s, 0, 0)"
proof -
  have "filter (\<lambda>n. \<not> dhas installed n) (map fst (bs_packages s)) = []"
    "filter (\<lambda>n. \<not> dhas (bs_packages s) n) (map fst installed) = []"
    unfolding filter_empty_conv using assms by (auto simp: dhas_keys simp del: set_map)
  then show ?thesis by (simp add: sync_with_installed_def Let_def)
qed

text \<open>After a sync the tracked names are exactly the installed ones: a record that stays is
  untouched, a new one carries the parsed pacman version, a stash of a refused build goes with
  its package; and a second sync against the same list changes nothing.\<close>

theorem sync_matches_installed:
  assumes "sync_with_installed installed s = (s', a, r)"
  shows "synced installed s s' \<and> sync_with_installed installed s' = (s', 0, 0) \<and>
    (a = 0 \<and> r = 0 \<longleftrightarrow> (\<forall>n. dhas (bs_packages s) n \<longleftrightarrow> dhas installed n))"
proof -
  note s = sync_synced [OF assms]
  have "\<forall>n. dhas (bs_packages s') n \<longleftrightarrow> dhas installed n" using s(1) by (simp add: synced_def)
  with s sync_again show ?thesis by blast
qed

section \<open>A refused install, and the artifact installed after all\<close>

lemma dict_ok_set_field [simp]: "dict_ok e \<Longrightarrow> dict_ok (set_field k v e)"
  by (simp add: set_field_def split: option.split)

lemma dict_ok_sticky [simp]: "dict_ok e \<Longrightarrow> dict_ok (sticky prior kv e)"
  by (simp add: sticky_def split: option.split)

lemma dict_ok_fold_sticky: "dict_ok e \<Longrightarrow> dict_ok (fold (sticky prior) fs e)"
  by (induction fs arbitrary: e) simp_all

lemma sticky_get:
  "dget (sticky prior kv e) k =
   (if k = fst kv then (case snd kv of Some x \<Rightarrow> Some x | None \<Rightarrow>
      (case dget prior k of Some x \<Rightarrow> Some x | None \<Rightarrow> dget e k)) else dget e k)"
  by (auto simp: sticky_def split: option.split)

lemma fold_sticky_get:
  "distinct (map fst fs) \<Longrightarrow> dget (fold (sticky prior) fs e) k =
   (case map_of fs k of
      None \<Rightarrow> dget e k
    | Some (Some x) \<Rightarrow> Some x
    | Some None \<Rightarrow> (case dget prior k of Some x \<Rightarrow> Some x | None \<Rightarrow> dget e k))"
proof (induction fs arbitrary: e)
  case Nil
  then show ?case by simp
next
  case (Cons f fs)
  then have "map_of fs (fst f) = None" by (simp add: map_of_eq_None_iff)
  with Cons show ?case by (cases f) (auto simp: sticky_get split: option.splits)
qed

definition base_entry :: "string \<Rightarrow> build_info \<Rightarrow> entry" where
  "base_entry now b =
     set_field ''built_upstream_commit'' (map_option PStr (bi_built_upstream_commit b))
       (set_field ''flags_string'' (map_option PStr (bi_flags_string b))
         (set_field ''build_mode'' (map_option PStr (bi_build_mode b))
           [(''pkgver'', PStr (bi_pkgver b)), (''pkgrel'', PStr (bi_pkgrel b)), (''epoch'', PStr (bi_epoch b)),
            (''pkgbase'', PStr (bi_pkgbase b)), (''pkgbuild_dir'', PStr (bi_pkgbuild_dir b)),
            (''built_at'', PStr (if truthy (bi_built_at b) then the (bi_built_at b) else now))]))"

lemma build_entry_base:
  "build_entry now b prior =
     (let e2 = fold (sticky prior) (sticky_fields b) (base_entry now b); ring = build_ring prior (bi_build_seconds b)
      in if ring = [] then e2 else dset ''build_seconds'' (PStr (py_join '','' ring)) e2)"
  by (simp add: build_entry_def base_entry_def Let_def)

lemma dict_ok_base: "dict_ok (base_entry now b)"
  unfolding base_entry_def by (intro dict_ok_set_field) (simp add: dict_ok_def)

lemma dict_ok_build_entry [simp]: "dict_ok (build_entry now b prior)"
  by (simp add: build_entry_base Let_def dict_ok_fold_sticky dict_ok_base)

lemma sticky_fields_distinct: "distinct (map fst (sticky_fields b))"
  by (simp add: sticky_fields_def)

lemma build_entry_pkgname [simp]: "dget (build_entry now b prior) ''pkgname'' = None"
  by (simp add: build_entry_base Let_def fold_sticky_get [OF sticky_fields_distinct])
    (simp add: sticky_fields_def base_entry_def)

lemma record_get [simp]:
  "dget (bs_packages (record_build now p b s)) q =
   (if q = p then Some (build_entry now b (dget_or [] (bs_packages s) p)) else dget (bs_packages s) q)"
  by (simp add: record_build_def clear_failure_def)

lemma build_entry_nonempty [simp]: "build_entry now b prior \<noteq> []"
proof
  assume "build_entry now b prior = []"
  then have "dget (build_entry now b prior) ''pkgver'' = None" by simp
  then show False
    by (simp add: build_entry_base Let_def fold_sticky_get [OF sticky_fields_distinct] split: if_splits)
      (simp_all add: sticky_fields_def base_entry_def)
qed

lemma dict_eq_iff: "dict_eq d e \<longleftrightarrow> (\<forall>k. dget d k = dget e k)"
proof
  assume eq: "dict_eq d e"
  show "\<forall>k. dget d k = dget e k"
  proof
    fix k
    show "dget d k = dget e k"
    proof (cases "k \<in> set (map fst d @ map fst e)")
      case True
      with eq show ?thesis unfolding dict_eq_def list_all_iff by blast
    next
      case False
      then have "dget d k = None" "dget e k = None" by (auto simp: map_of_eq_None_iff)
      then show ?thesis by simp
    qed
  qed
qed (simp add: dict_eq_def list_all_iff)

lemma sans_get: "dget (sans_build_facts e) k = (if k \<in> set BUILD_FACTS then None else dget e k)"
proof (induction e)
  case Nil
  then show ?case by (simp add: sans_build_facts_def)
next
  case (Cons a e)
  then show ?case by (cases a) (auto simp: sans_build_facts_def)
qed

definition prior_entry :: "entry option \<Rightarrow> entry" where
  "prior_entry prior = (case prior of None \<Rightarrow> [] | Some e \<Rightarrow> e)"

text \<open>The entry a revert leaves: the prior one with the facts of the build that happened.\<close>

lemma revert_get:
  "dget (bs_packages (revert_record p prior art s)) q =
   (if q \<noteq> p then dget (bs_packages s) q
    else map_option (fold (\<lambda>k. set_field k (dget (dget_or [] (bs_packages s) p) k)) BUILD_FACTS) prior)"
  by (auto simp: revert_record_def Let_def split: option.split)

lemma revert_reverted:
  "bs_reverted (revert_record p prior art s) =
   (if truthy art \<and> dget_or [] (bs_packages s) p \<noteq> [] \<and>
       \<not> (\<forall>k. k \<notin> set BUILD_FACTS \<longrightarrow> dget (dget_or [] (bs_packages s) p) k = dget (prior_entry prior) k)
    then dset (the art) (dmerge [(''pkgname'', PStr p)] (dget_or [] (bs_packages s) p)) (bs_reverted s)
    else bs_reverted s)"
  by (auto simp: revert_record_def Let_def dict_eq_iff sans_get prior_entry_def split: option.split)

lemma stash_pop:
  "dict_ok e \<Longrightarrow> dget e ''pkgname'' = None \<Longrightarrow> dget (dpop ''pkgname'' (dmerge [(''pkgname'', PStr p)] e)) k = dget e k"
  by (auto simp: dget_dmerge split: option.split)

lemma restore_stash:
  assumes "dget (bs_reverted s) art = Some (dmerge [(''pkgname'', PStr p)] e)" "dict_ok e" "dget e ''pkgname'' = None" "p \<noteq> []"
  shows "\<exists>s'. restore_reverted art s = (s', Some p) \<and>
    (\<forall>q. q \<noteq> p \<longrightarrow> dget (bs_packages s') q = dget (bs_packages s) q) \<and>
    (\<exists>e'. dget (bs_packages s') p = Some e' \<and> (\<forall>k. dget e' k = dget e k)) \<and>
    dget (bs_reverted s') art = None"
proof -
  have "dget (dmerge [(''pkgname'', PStr p)] e) ''pkgname'' = Some (PStr p)"
    using assms(2,3) by (simp add: dget_dmerge)
  with assms stash_pop [OF assms(2,3)] show ?thesis
    by (simp add: restore_reverted_def get_str_def Let_def)
qed


section \<open>Well-typed states\<close>

text \<open>The boolean fields are booleans, all others strings, and every field has a place in the file.\<close>

definition right_kind :: "string \<Rightarrow> pyval \<Rightarrow> bool" where
  "right_kind k v \<longleftrightarrow>
     (if k = ''sandboxed'' \<or> k = ''compiles'' then (case v of PBool _ \<Rightarrow> True | _ \<Rightarrow> False)
      else (case v of PStr _ \<Rightarrow> True | _ \<Rightarrow> False))"

definition entry_ok :: "string list \<Rightarrow> entry \<Rightarrow> bool" where
  "entry_ok ks e \<longleftrightarrow> dict_ok e \<and> (\<forall>k v. dget e k = Some v \<longrightarrow> k \<in> set ks \<and> right_kind k v)"

definition all_ok :: "string list \<Rightarrow> (string, entry) dict \<Rightarrow> bool" where
  "all_ok ks d \<longleftrightarrow> dict_ok d \<and> (\<forall>n e. dget d n = Some e \<longrightarrow> entry_ok ks e)"

definition state_ok :: "bstate \<Rightarrow> bool" where
  "state_ok s \<longleftrightarrow>
     all_ok ENTRY_KEYS (bs_packages s) \<and> all_ok FAILURE_KEYS (bs_failures s) \<and>
     all_ok (''pkgname'' # ENTRY_KEYS) (bs_reverted s) \<and> dict_ok (bs_reviewed s)"

lemma right_kind_simps [simp]:
  "right_kind k (PStr s) \<longleftrightarrow> k \<noteq> ''sandboxed'' \<and> k \<noteq> ''compiles''"
  "right_kind k (PBool b) \<longleftrightarrow> k = ''sandboxed'' \<or> k = ''compiles''"
  by (auto simp: right_kind_def)

lemma entry_ok_Nil [simp]: "entry_ok ks []"
  by (simp add: entry_ok_def)

lemma entry_ok_dset: "entry_ok ks e \<Longrightarrow> k \<in> set ks \<Longrightarrow> right_kind k v \<Longrightarrow> entry_ok ks (dset k v e)"
  by (simp add: entry_ok_def)

lemma entry_ok_set_field:
  "entry_ok ks e \<Longrightarrow> (\<And>x. v = Some x \<Longrightarrow> k \<in> set ks \<and> right_kind k x) \<Longrightarrow> entry_ok ks (set_field k v e)"
  by (cases v) (simp_all add: set_field_def entry_ok_dset)

lemma entry_ok_get: "entry_ok ks e \<Longrightarrow> dget e k = Some x \<Longrightarrow> k \<in> set ks \<and> right_kind k x"
  by (simp add: entry_ok_def)

lemma entry_ok_fold_fields: "entry_ok ks e \<Longrightarrow> entry_ok ks f \<Longrightarrow> entry_ok ks (fold (\<lambda>k. set_field k (dget f k)) js e)"
  by (induction js arbitrary: e) (simp_all add: entry_ok_set_field entry_ok_get)

lemma entry_ok_sticky:
  assumes "entry_ok ks e" "entry_ok ks prior" "\<And>x. snd kv = Some x \<Longrightarrow> fst kv \<in> set ks \<and> right_kind (fst kv) x"
  shows "entry_ok ks (sticky prior kv e)"
  using assms by (cases "snd kv") (simp_all add: sticky_def entry_ok_set_field entry_ok_get entry_ok_dset)

lemma entry_ok_fold_sticky:
  "entry_ok ks e \<Longrightarrow> entry_ok ks prior \<Longrightarrow>
   (\<And>k x. (k, Some x) \<in> set fs \<Longrightarrow> k \<in> set ks \<and> right_kind k x) \<Longrightarrow> entry_ok ks (fold (sticky prior) fs e)"
proof (induction fs arbitrary: e)
  case Nil
  then show ?case by simp
next
  case (Cons f fs)
  have f: "entry_ok ks (sticky prior f e)" using Cons.prems by (intro entry_ok_sticky) (cases f, auto)+
  have "entry_ok ks (fold (sticky prior) fs (sticky prior f e))"
    by (rule Cons.IH [OF f Cons.prems(2)]) (rule Cons.prems(3), simp)
  then show ?case by simp
qed

lemma entry_keys: "{''pkgver'', ''pkgrel'', ''epoch'', ''pkgbase'', ''pkgbuild_dir'', ''build_mode'', ''flags_string'',
    ''built_at'', ''built_upstream_commit'', ''source'', ''owner_stage'', ''toolchain_variant'',
    ''toolchain_fingerprint'', ''reviewed_commit'', ''origin_pkgbase'', ''build_seconds'',
    ''sandboxed'', ''build_inputs'', ''compiles''} = set ENTRY_KEYS"
  by (simp add: ENTRY_KEYS_def)

lemma entry_ok_base: "entry_ok ENTRY_KEYS (base_entry now b)"
proof -
  have "entry_ok ENTRY_KEYS
      [(''pkgver'', PStr (bi_pkgver b)), (''pkgrel'', PStr (bi_pkgrel b)), (''epoch'', PStr (bi_epoch b)),
       (''pkgbase'', PStr (bi_pkgbase b)), (''pkgbuild_dir'', PStr (bi_pkgbuild_dir b)),
       (''built_at'', PStr (if truthy (bi_built_at b) then the (bi_built_at b) else now))]"
    unfolding entry_ok_def by (auto simp: dict_ok_def ENTRY_KEYS_def split: if_splits)
  then show ?thesis
    unfolding base_entry_def by (intro entry_ok_set_field) (auto simp: ENTRY_KEYS_def)
qed

lemma sticky_fields_ok: "(k, Some x) \<in> set (sticky_fields b) \<Longrightarrow> k \<in> set ENTRY_KEYS \<and> right_kind k x"
  by (auto simp: sticky_fields_def ENTRY_KEYS_def dest!: sym [of "Some x"])

lemma entry_ok_build: "entry_ok ENTRY_KEYS prior \<Longrightarrow> entry_ok ENTRY_KEYS (build_entry now b prior)"
proof -
  assume "entry_ok ENTRY_KEYS prior"
  then have e: "entry_ok ENTRY_KEYS (fold (sticky prior) (sticky_fields b) (base_entry now b))"
    by (intro entry_ok_fold_sticky entry_ok_base sticky_fields_ok)
  have "''build_seconds'' \<in> set ENTRY_KEYS" by (simp add: ENTRY_KEYS_def)
  with e show ?thesis by (simp add: build_entry_base Let_def entry_ok_dset)
qed

lemma all_ok_get: "all_ok ks d \<Longrightarrow> entry_ok ks (dget_or [] d n)"
  by (auto simp: all_ok_def dget_or_def split: option.split)

lemma all_ok_dset: "all_ok ks d \<Longrightarrow> entry_ok ks e \<Longrightarrow> all_ok ks (dset n e d)"
  by (simp add: all_ok_def)

lemma all_ok_dpop: "all_ok ks d \<Longrightarrow> all_ok ks (dpop n d)"
  by (simp add: all_ok_def)

lemma all_ok_filter: "all_ok ks d \<Longrightarrow> all_ok ks (filter P d)"
proof -
  assume ok: "all_ok ks d"
  then have "dict_ok (filter P d)" by (simp add: all_ok_def dict_ok_def distinct_map inj_on_def)
  moreover have "entry_ok ks e" if "dget (filter P d) n = Some e" for n e
  proof -
    have "(n, e) \<in> set d" using map_of_SomeD [OF that] by simp
    with ok have "dget d n = Some e" by (simp add: all_ok_def dict_ok_def)
    with ok show ?thesis by (simp add: all_ok_def)
  qed
  ultimately show ?thesis by (simp add: all_ok_def)
qed

lemma state_ok_set_entry: "state_ok s \<Longrightarrow> entry_ok ENTRY_KEYS e \<Longrightarrow> state_ok (set_entry p e s)"
  by (simp add: state_ok_def set_entry_def all_ok_dset)

lemma state_ok_drop: "state_ok s \<Longrightarrow> state_ok (drop_reverted p s)"
  by (simp add: state_ok_def drop_reverted_def all_ok_filter)

lemma state_ok_delete: "state_ok s \<Longrightarrow> state_ok (fst (delete_entry p s))"
  by (simp add: state_ok_def delete_entry_def all_ok_dpop)

lemma state_ok_clear: "state_ok s \<Longrightarrow> state_ok (fst (clear_failure base s))"
  by (simp add: state_ok_def clear_failure_def all_ok_dpop)

lemma state_ok_entry: "state_ok s \<Longrightarrow> entry_ok ENTRY_KEYS (dget_or [] (bs_packages s) p)"
  by (simp add: state_ok_def all_ok_get)

lemma state_ok_record: "state_ok s \<Longrightarrow> state_ok (record_build now p b s)"
  by (simp add: record_build_def state_ok_clear state_ok_drop state_ok_set_entry entry_ok_build state_ok_entry)

lemma entry_ok_stash:
  "entry_ok ks e \<Longrightarrow> entry_ok (''pkgname'' # ks) (dmerge [(''pkgname'', PStr p)] e)"
  by (auto simp: entry_ok_def dget_dmerge dict_ok_def [of "[_]"] split: option.splits if_splits)

lemma state_ok_revert:
  assumes "state_ok s" "\<And>e. prior = Some e \<Longrightarrow> entry_ok ENTRY_KEYS e"
  shows "state_ok (revert_record p prior art s)"
proof -
  let ?cur = "dget_or [] (bs_packages s) p"
  define s1 where "s1 = (if truthy art \<and> ?cur \<noteq> [] \<and>
                   \<not> dict_eq (sans_build_facts ?cur) (sans_build_facts (prior_entry prior))
                then s\<lparr>bs_reverted := dset (the art) (dmerge [(''pkgname'', PStr p)] ?cur) (bs_reverted s)\<rparr> else s)"
  have s1: "state_ok s1"
    using assms(1) state_ok_entry [OF assms(1)] by (simp add: s1_def state_ok_def all_ok_dset entry_ok_stash)
  have "revert_record p prior art s = (case prior of None \<Rightarrow> s1\<lparr>bs_packages := dpop p (bs_packages s1)\<rparr>
         | Some e \<Rightarrow> set_entry p (fold (\<lambda>k. set_field k (dget ?cur k)) BUILD_FACTS e) s1)"
    by (cases prior) (simp_all add: revert_record_def Let_def s1_def prior_entry_def)
  moreover have "state_ok (s1\<lparr>bs_packages := dpop p (bs_packages s1)\<rparr>)"
    using s1 by (simp add: state_ok_def all_ok_dpop)
  ultimately show ?thesis
    using s1 assms(2) state_ok_entry [OF assms(1)]
    by (cases prior) (simp_all add: state_ok_set_entry entry_ok_fold_fields)
qed

lemma state_ok_restore:
  assumes "state_ok s"
  shows "state_ok (fst (restore_reverted art s))"
proof (cases "dget (bs_reverted s) art")
  case None
  with assms show ?thesis by (simp add: restore_reverted_def)
next
  case (Some e)
  then have e: "entry_ok (''pkgname'' # ENTRY_KEYS) e" using assms by (auto simp: state_ok_def all_ok_def)
  have s1: "state_ok (s\<lparr>bs_reverted := dpop art (bs_reverted s)\<rparr>)" using assms by (simp add: state_ok_def all_ok_dpop)
  have "entry_ok ENTRY_KEYS (dpop ''pkgname'' e)" using e by (auto simp: entry_ok_def)
  with Some s1 show ?thesis by (simp add: restore_reverted_def Let_def state_ok_set_entry)
qed

lemma entry_ok_demoted: "entry_ok ENTRY_KEYS e \<Longrightarrow> entry_ok ENTRY_KEYS (demoted_entry e)"
  unfolding demoted_entry_def
  by (intro entry_ok_dset entry_ok_fold_fields) (simp_all add: ENTRY_KEYS_def)

lemma state_ok_demote: "state_ok s \<Longrightarrow> state_ok (fst (demote_all ns s))"
  by (induction ns arbitrary: s)
    (simp_all add: Let_def case_prod_beta state_ok_set_entry entry_ok_demoted state_ok_entry)

lemma entry_ok_pacman: "entry_ok ENTRY_KEYS (pacman_entry v)"
  by (cases "parse_pacman_version v")
    (auto simp: pacman_entry_def entry_ok_def dict_ok_def ENTRY_KEYS_def split: if_splits)

lemma state_ok_fold: "state_ok s \<Longrightarrow> (\<And>x s. state_ok s \<Longrightarrow> state_ok (f x s)) \<Longrightarrow> state_ok (fold f xs s)"
  by (induction xs arbitrary: s) simp_all

lemma state_ok_sync: "state_ok s \<Longrightarrow> state_ok (fst (sync_with_installed installed s))"
  unfolding sync_with_installed_def Let_def fst_conv
  by (intro state_ok_fold state_ok_set_entry entry_ok_pacman state_ok_drop state_ok_delete)

lemma state_ok_failure:
  assumes "state_ok s"
  shows "state_ok (record_failure now base err pv sg fx at kd s)"
proof -
  let ?opt = "\<lambda>k v e. if truthy v then dset k (PStr (the v)) e else e"
  have opt: "entry_ok FAILURE_KEYS (?opt k v e)"
    if "entry_ok FAILURE_KEYS e" "k \<in> {''kind'', ''fix_cmd'', ''signature'', ''pkgver''}" for k v e
    using that by (auto simp: FAILURE_KEYS_def intro!: entry_ok_dset)
  have e0: "entry_ok FAILURE_KEYS [(''failed_at'', PStr (if truthy at then the at else now)), (''error'', PStr (truncate_error err))]"
    by (auto simp: entry_ok_def dict_ok_def FAILURE_KEYS_def split: if_splits)
  have "entry_ok FAILURE_KEYS
     (?opt ''kind'' kd (?opt ''fix_cmd'' fx (?opt ''signature'' sg (?opt ''pkgver'' pv
        [(''failed_at'', PStr (if truthy at then the at else now)), (''error'', PStr (truncate_error err))]))))"
    by (intro opt e0) simp_all
  with assms show ?thesis by (simp add: record_failure_def Let_def state_ok_def all_ok_dset)
qed

lemma state_ok_mode: "state_ok s \<Longrightarrow> state_ok (fst (set_build_mode p m s))"
proof (cases "dget (bs_packages s) p")
  case (Some e)
  assume ok: "state_ok s"
  with Some have "entry_ok ENTRY_KEYS e" by (auto simp: state_ok_def all_ok_def)
  then have "entry_ok ENTRY_KEYS (dset ''build_mode'' (PStr m) e)" by (intro entry_ok_dset) (simp_all add: ENTRY_KEYS_def)
  with Some ok show ?thesis by (simp add: set_build_mode_def state_ok_set_entry)
qed (simp add: set_build_mode_def)

text \<open>The operations as data, and their runs.\<close>

datatype build_op =
    Record string string build_info
  | Revert string "entry option" "string option"
  | Restore string
  | Delete string
  | Demote "string list"
  | Fail string string string "string option" "string option" "string option" "string option" "string option"
  | Clear string
  | Review string string
  | Sync "(string, string) dict"
  | Mode string string

fun run_op :: "build_op \<Rightarrow> bstate \<Rightarrow> bstate" where
  "run_op (Record now p b) s = record_build now p b s"
| "run_op (Revert p prior art) s = revert_record p prior art s"
| "run_op (Restore art) s = fst (restore_reverted art s)"
| "run_op (Delete p) s = fst (delete_entry p s)"
| "run_op (Demote names) s = fst (reconcile_external_installs names s)"
| "run_op (Fail now base err pv sg fx at kd) s = record_failure now base err pv sg fx at kd s"
| "run_op (Clear base) s = fst (clear_failure base s)"
| "run_op (Review base c) s = set_reviewed base c s"
| "run_op (Sync installed) s = fst (sync_with_installed installed s)"
| "run_op (Mode p m) s = fst (set_build_mode p m s)"

fun op_prior_ok :: "build_op \<Rightarrow> bool" where
  "op_prior_ok (Revert p (Some e) art) = entry_ok ENTRY_KEYS e"
| "op_prior_ok _ = True"

lemma state_ok_run_op: "state_ok s \<Longrightarrow> op_prior_ok op \<Longrightarrow> state_ok (run_op op s)"
proof (induction op s rule: run_op.induct)
  case (2 p prior art s)
  then show ?case by (cases prior) (auto intro: state_ok_revert)
next
  case (8 base c s)
  then show ?case by (simp add: set_reviewed_def state_ok_def)
qed (simp_all add: state_ok_record state_ok_restore state_ok_delete reconcile_external_installs_def state_ok_demote
    state_ok_failure state_ok_clear state_ok_sync state_ok_mode)

lemma state_ok_empty [simp]: "state_ok empty_bstate"
  by (simp add: state_ok_def empty_bstate_def all_ok_def)

lemma state_ok_run: "list_all op_prior_ok ops \<Longrightarrow> state_ok s \<Longrightarrow> state_ok (fold run_op ops s)"
  by (induction ops arbitrary: s) (simp_all add: state_ok_run_op)


section \<open>Escaped strings\<close>

definition key_ok :: "string \<Rightarrow> bool" where
  "key_ok s \<longleftrightarrow> list_all (\<lambda>c. \<not> is_control c) s"

lemma key_ok_plain: "key_ok k \<Longrightarrow> escape_key k = toml_escape k \<and> text_ok k"
proof (induction k)
  case Nil
  show ?case by (simp add: escape_key_def toml_escape_def replace_char_def text_ok_def)
next
  case (Cons c k)
  have "escape_key (c # k) = escape_key [c] @ escape_key k"
    by (simp add: escape_key_def replace_char_def)
  moreover have c: "\<not> is_control c" using Cons.prems by (simp add: key_ok_def)
  then have "escape_key [c] = tesc c"
    by (auto simp: escape_key_def replace_char_def tesc_def is_control_def)
  moreover have "text_char c" using c by (simp add: text_char_def)
  ultimately show ?case using Cons by (simp add: toml_escape_chars key_ok_def text_ok_def)
qed

section \<open>Reading single lines\<close>

lemma read_state_lines_append:
  "read_state_lines (a @ b) st = (case read_state_lines a st of None \<Rightarrow> None | Some st' \<Rightarrow> read_state_lines b st')"
  by (induction a st rule: read_state_lines.induct) (auto split: option.splits)

lemma read_state_blank [simp]: "read_state_line [] st = Some st"
  by (cases st) (simp add: read_state_line_def)

lemma read_state_comment: "read_state_line (CHR ''#'' # l) st = Some st"
  by (cases st) (simp add: read_state_line_def)

lemma read_field_line_pair: "bare_key k \<Longrightarrow> read_field_line (pair_line k v) = map_option (Pair k) (read_field v)"
proof -
  assume k: "bare_key k"
  have "partition1 CHR ''='' ((k @ '' '') @ CHR ''='' # CHR '' '' # v) = Some (k @ '' '', CHR '' '' # v)"
    using bare_key_clean(1) [OF k] by (intro partition1_append) simp
  with k show ?thesis by (simp add: read_field_line_def pair_line_def)
qed

lemma read_state_field:
  assumes "bare_key k" "t \<noteq> TReviewed"
  shows "read_state_line (pair_line k v) (t, s) =
    (case read_field v of None \<Rightarrow> None | Some x \<Rightarrow> map_option (Pair t) (put_field t k x s))"
  using read_field_line_pair [OF assms(1), of v] bare_key_clean [OF assms(1)] assms(2)
  by (simp add: read_state_line_def hd_append pair_line_def split: option.split)

lemma read_field_text: "read_field (quoted (toml_escape s)) = (if text_ok s then Some (PStr s) else None)"
  by (simp add: read_field_def read_value_text) (simp add: quoted_def)

lemma read_field_bool [simp]: "read_field ''true'' = Some (PBool True)" "read_field ''false'' = Some (PBool False)"
  by (simp_all add: read_field_def)

lemma header_lines:
  assumes "key_ok n"
  shows "n \<notin> {''failures'', ''reverted'', ''reviewed''} \<Longrightarrow>
      read_bheader (''['' @ quote_key n @ '']'') = Some (TPackage n)"
    and "read_bheader (''[failures.'' @ quote_key n @ '']'') = Some (TFailure n)"
    and "read_bheader (''[reverted.'' @ quote_key n @ '']'') = Some (TReverted n)"
proof -
  have rb: "read_basic (escape_key n @ [CHR 0x22, CHR '']'']) = Some (n, '']'')"
    using assms by (simp add: key_ok_plain read_basic_text)
  show "n \<notin> {''failures'', ''reverted'', ''reviewed''} \<Longrightarrow>
      read_bheader (''['' @ quote_key n @ '']'') = Some (TPackage n)"
    "read_bheader (''[failures.'' @ quote_key n @ '']'') = Some (TFailure n)"
    "read_bheader (''[reverted.'' @ quote_key n @ '']'') = Some (TReverted n)"
    by (simp_all add: read_bheader_def read_quoted_header_def quote_key_def quoted_def rb)
qed

section \<open>Reading one kind of table\<close>

text \<open>The fields of an entry in file order, with the values as they read back.\<close>

definition pick :: "(pyval \<Rightarrow> pyval) \<Rightarrow> entry \<Rightarrow> string list \<Rightarrow> entry" where
  "pick val e ks = concat (map (\<lambda>k. case dget e k of None \<Rightarrow> [] | Some v \<Rightarrow> [(k, val v)]) ks)"

lemma pick_keys: "fst ` set (pick val e ks) \<subseteq> set ks"
  by (auto simp: pick_def split: option.splits)

lemma pick_get: "distinct ks \<Longrightarrow> dget (pick val e ks) k = (if k \<in> set ks then map_option val (dget e k) else None)"
proof (induction ks)
  case Nil
  then show ?case by (simp add: pick_def)
next
  case (Cons j ks)
  have "pick val e (j # ks) = (case dget e j of None \<Rightarrow> [] | Some v \<Rightarrow> [(j, val v)]) @ pick val e ks"
    by (simp add: pick_def)
  with Cons show ?case by (cases "dget e j") (auto simp: map_add_def)
qed

text \<open>
  A section of the file: tables of one kind.  \<open>open_ok\<close> and \<open>put_ok\<close> say what its header and
  the insertion of a field do to the state, \<open>line_ok\<close> that a field has one line, which reads
  back as \<open>val\<close> of the field.
\<close>

locale table_section =
  fixes upd :: "(string, entry) dict \<Rightarrow> bstate \<Rightarrow> bstate"
    and tab :: "string \<Rightarrow> btable"
    and header :: "string \<Rightarrow> string"
    and line :: "entry \<Rightarrow> string \<Rightarrow> string list"
    and val :: "pyval \<Rightarrow> pyval"
    and name_ok :: "string \<Rightarrow> bool"
    and good :: "entry \<Rightarrow> bool"
    and ks :: "string list"
  assumes open_ok: "name_ok n \<Longrightarrow> n \<notin> set (map fst d) \<Longrightarrow>
      read_state_line (header n) (t, upd d s) = Some (tab n, upd (d @ [(n, [])]) s)"
    and put_ok: "n \<notin> set (map fst d) \<Longrightarrow> k \<notin> set (map fst acc) \<Longrightarrow>
      put_field (tab n) k v (upd (d @ [(n, acc)]) s) = Some (upd (d @ [(n, acc @ [(k, v)])]) s)"
    and line_none: "dget e k = None \<Longrightarrow> line e k = []"
    and line_ok: "good e \<Longrightarrow> k \<in> set ks \<Longrightarrow> dget e k = Some v \<Longrightarrow>
      \<exists>l. line e k = [l] \<and> (\<forall>n st. read_state_line l (tab n, st) = map_option (Pair (tab n)) (put_field (tab n) k (val v) st))"
    and distinct_ks: "distinct ks"
begin

lemma read_fields:
  assumes "good e" "n \<notin> set (map fst d)"
  shows "set js \<subseteq> set ks \<Longrightarrow> distinct js \<Longrightarrow> fst ` set acc \<inter> set js = {} \<Longrightarrow>
    read_state_lines (concat (map (line e) js)) (tab n, upd (d @ [(n, acc)]) s) =
    Some (tab n, upd (d @ [(n, acc @ pick val e js)]) s)"
proof (induction js arbitrary: acc)
  case Nil
  then show ?case by (simp add: pick_def)
next
  case (Cons k js)
  show ?case
  proof (cases "dget e k")
    case None
    with Cons show ?thesis by (simp add: pick_def line_none)
  next
    case (Some v)
    have "k \<in> set ks" using Cons.prems(1) by simp
    from line_ok [OF assms(1) this Some] obtain l where l: "line e k = [l]"
      "read_state_line l (tab n, st) = map_option (Pair (tab n)) (put_field (tab n) k (val v) st)" for st
      by blast
    have "k \<notin> set (map fst acc)" using Cons.prems(3) by auto
    from put_ok [OF assms(2) this] have put:
      "put_field (tab n) k (val v) (upd (d @ [(n, acc)]) s) = Some (upd (d @ [(n, acc @ [(k, val v)])]) s)" .
    have "read_state_lines (concat (map (line e) js)) (tab n, upd (d @ [(n, acc @ [(k, val v)])]) s) =
        Some (tab n, upd (d @ [(n, (acc @ [(k, val v)]) @ pick val e js)]) s)"
      using Cons.prems by (intro Cons.IH) auto
    with Some l put show ?thesis by (simp add: pick_def)
  qed
qed

lemma read_tables:
  "distinct (map fst (d @ ps)) \<Longrightarrow> list_all (\<lambda>(n, e). name_ok n \<and> good e) ps \<Longrightarrow>
   \<exists>t'. read_state_lines (concat (map (\<lambda>(n, e). header n # concat (map (line e) ks) @ [[]]) ps)) (t, upd d s) =
     Some (t', upd (d @ map (\<lambda>(n, e). (n, pick val e ks)) ps) s)"
proof (induction ps arbitrary: d t)
  case Nil
  then show ?case by simp
next
  case (Cons p ps)
  obtain n e where p: "p = (n, e)" by (cases p)
  have n: "name_ok n" "good e" "n \<notin> set (map fst d)" using Cons.prems by (auto simp: p)
  have "read_state_lines (concat (map (line e) ks)) (tab n, upd (d @ [(n, [])]) s) =
      Some (tab n, upd (d @ [(n, [] @ pick val e ks)]) s)"
    by (rule read_fields [OF n(2,3)]) (simp_all add: distinct_ks)
  then have one: "read_state_lines (header n # concat (map (line e) ks) @ [[]]) (t, upd d s) =
      Some (tab n, upd (d @ [(n, pick val e ks)]) s)"
    by (simp add: open_ok [OF n(1,3)] read_state_lines_append)
  have "distinct (map fst ((d @ [(n, pick val e ks)]) @ ps))" using Cons.prems(1) by (simp add: p)
  from Cons.IH [OF this, of "tab n"] Cons.prems(2) obtain t' where
    "read_state_lines (concat (map (\<lambda>(n, e). header n # concat (map (line e) ks) @ [[]]) ps))
       (tab n, upd (d @ [(n, pick val e ks)]) s) =
     Some (t', upd ((d @ [(n, pick val e ks)]) @ map (\<lambda>(n, e). (n, pick val e ks)) ps) s)"
    by auto
  moreover have "concat (map (\<lambda>(n, e). header n # concat (map (line e) ks) @ [[]]) (p # ps)) =
      (header n # concat (map (line e) ks) @ [[]]) @ concat (map (\<lambda>(n, e). header n # concat (map (line e) ks) @ [[]]) ps)"
    by (simp add: p)
  ultimately show ?case by (simp only: read_state_lines_append one option.case prod.case) (simp add: p)
qed

end

section \<open>The three sections\<close>

lemma new_table_new: "n \<notin> set (map fst d) \<Longrightarrow> new_table n d = Some (d @ [(n, [])])"
  by (simp add: new_table_def dhas_def map_of_eq_None_iff)

lemma add_field_last:
  "n \<notin> set (map fst d) \<Longrightarrow> k \<notin> set (map fst acc) \<Longrightarrow>
   add_field n k v (d @ [(n, acc)]) = Some (d @ [(n, acc @ [(k, v)])])"
proof -
  assume n: "n \<notin> set (map fst d)" and k: "k \<notin> set (map fst acc)"
  have "dget d n = None" "dget acc k = None" using n k by (simp_all add: map_of_eq_None_iff)
  with n show ?thesis by (simp add: add_field_def Let_def dget_or_def dhas_def dset_last map_add_def)
qed

text \<open>All strings of an entry can be read back.\<close>

definition texts_ok :: "entry \<Rightarrow> bool" where
  "texts_ok e \<longleftrightarrow> (\<forall>k s. dget e k = Some (PStr s) \<longrightarrow> text_ok s)"

definition plain_name :: "string \<Rightarrow> bool" where
  "plain_name n \<longleftrightarrow> key_ok n \<and> n \<notin> {''failures'', ''reverted'', ''reviewed''}"

lemma ENTRY_KEYS_bare: "list_all bare_key ENTRY_KEYS" "list_all bare_key FAILURE_KEYS" "bare_key ''pkgname''"
  by code_simp+

lemma ENTRY_KEYS_distinct: "distinct ENTRY_KEYS" "distinct FAILURE_KEYS" "distinct (''pkgname'' # ENTRY_KEYS)"
  by code_simp+

text \<open>A saved value that is no boolean, and a boolean written as a string.\<close>

definition as_text :: "pyval \<Rightarrow> pyval" where
  "as_text v = PStr (pyval_str v)"

lemma string_line_reads:
  assumes "bare_key k" "dget e k = Some v" "text_ok (pyval_str v)"
  shows "\<exists>l. string_line e k = [l] \<and>
    (\<forall>t st. t \<noteq> TReviewed \<longrightarrow> read_state_line l (t, st) = map_option (Pair t) (put_field t k (as_text v) st))"
  using assms by (simp add: string_line_def raw_line_def read_state_field read_field_text as_text_def)

lemma bool_texts: "text_ok ''True''" "text_ok ''False''"
  by code_simp+

lemma text_of_value: "entry_ok js e \<Longrightarrow> texts_ok e \<Longrightarrow> dget e k = Some v \<Longrightarrow> text_ok (pyval_str v)"
  using entry_ok_get [of js e k v]
  by (cases v) (auto simp: right_kind_def texts_ok_def pyval_str_def bool_texts split: if_splits)

lemma field_line_reads:
  assumes "bare_key k" "dget e k = Some v" "entry_ok js e" "texts_ok e"
  shows "\<exists>l. field_line e k = [l] \<and>
    (\<forall>t st. t \<noteq> TReviewed \<longrightarrow> read_state_line l (t, st) = map_option (Pair t) (put_field t k v st))"
proof (cases v)
  case (PBool b)
  with assms show ?thesis by (cases b) (simp_all add: field_line_def read_state_field)
next
  case (PStr x)
  with string_line_reads [OF assms(1,2)] text_of_value [OF assms(3,4,2)] assms(2) show ?thesis
    by (simp add: field_line_def as_text_def pyval_str_def)
qed (use entry_ok_get [OF assms(3,2)] in \<open>simp_all add: right_kind_def split: if_splits\<close>)

interpretation package_section: table_section "\<lambda>d s. s\<lparr>bs_packages := d\<rparr>" TPackage
  "\<lambda>n. ''['' @ quote_key n @ '']''" field_line id plain_name "\<lambda>e. entry_ok ENTRY_KEYS e \<and> texts_ok e" ENTRY_KEYS
proof unfold_locales
  show "read_state_line (''['' @ quote_key n @ '']'') (t, s\<lparr>bs_packages := d\<rparr>) =
      Some (TPackage n, s\<lparr>bs_packages := d @ [(n, [])]\<rparr>)"
    if "plain_name n" "n \<notin> set (map fst d)" for n d t s
    using that header_lines(1) [of n] new_table_new [of n d] by (simp add: plain_name_def read_state_line_def)
  show "put_field (TPackage n) k v (s\<lparr>bs_packages := d @ [(n, acc)]\<rparr>) =
      Some (s\<lparr>bs_packages := d @ [(n, acc @ [(k, v)])]\<rparr>)"
    if "n \<notin> set (map fst d)" "k \<notin> set (map fst acc)" for n d k acc v s
    using add_field_last [OF that] by simp
  show "field_line e k = []" if "dget e k = None" for e k
    using that by (simp add: field_line_def string_line_def)
  show "\<exists>l. field_line e k = [l] \<and> (\<forall>n st. read_state_line l (TPackage n, st) =
      map_option (Pair (TPackage n)) (put_field (TPackage n) k (id v) st))"
    if "entry_ok ENTRY_KEYS e \<and> texts_ok e" "k \<in> set ENTRY_KEYS" "dget e k = Some v" for e k v
  proof -
    have "bare_key k" using that(2) ENTRY_KEYS_bare(1) by (simp add: list_all_iff)
    from field_line_reads [OF this that(3), of ENTRY_KEYS] that(1) show ?thesis by fastforce
  qed
  show "distinct ENTRY_KEYS" by (rule ENTRY_KEYS_distinct)
qed


interpretation failure_section: table_section "\<lambda>d s. s\<lparr>bs_failures := d\<rparr>" TFailure
  "\<lambda>n. ''[failures.'' @ quote_key n @ '']''" string_line as_text key_ok "\<lambda>e. entry_ok FAILURE_KEYS e \<and> texts_ok e" FAILURE_KEYS
proof unfold_locales
  show "read_state_line (''[failures.'' @ quote_key n @ '']'') (t, s\<lparr>bs_failures := d\<rparr>) =
      Some (TFailure n, s\<lparr>bs_failures := d @ [(n, [])]\<rparr>)"
    if "key_ok n" "n \<notin> set (map fst d)" for n d t s
    using that header_lines(2) [of n] new_table_new [of n d] by (simp add: read_state_line_def)
  show "put_field (TFailure n) k v (s\<lparr>bs_failures := d @ [(n, acc)]\<rparr>) =
      Some (s\<lparr>bs_failures := d @ [(n, acc @ [(k, v)])]\<rparr>)"
    if "n \<notin> set (map fst d)" "k \<notin> set (map fst acc)" for n d k acc v s
    using add_field_last [OF that] by simp
  show "string_line e k = []" if "dget e k = None" for e k
    using that by (simp add: string_line_def)
  show "\<exists>l. string_line e k = [l] \<and> (\<forall>n st. read_state_line l (TFailure n, st) =
      map_option (Pair (TFailure n)) (put_field (TFailure n) k (as_text v) st))"
    if "entry_ok FAILURE_KEYS e \<and> texts_ok e" "k \<in> set FAILURE_KEYS" "dget e k = Some v" for e k v
  proof -
    have "bare_key k" using that(2) ENTRY_KEYS_bare(2) by (simp add: list_all_iff)
    from string_line_reads [OF this that(3)] text_of_value [OF _ _ that(3)] that(1) show ?thesis by auto
  qed
  show "distinct FAILURE_KEYS" by (rule ENTRY_KEYS_distinct)
qed

interpretation reverted_section: table_section "\<lambda>d s. s\<lparr>bs_reverted := d\<rparr>" TReverted
  "\<lambda>n. ''[reverted.'' @ quote_key n @ '']''" string_line as_text key_ok
  "\<lambda>e. entry_ok (''pkgname'' # ENTRY_KEYS) e \<and> texts_ok e" "''pkgname'' # ENTRY_KEYS"
proof unfold_locales
  show "read_state_line (''[reverted.'' @ quote_key n @ '']'') (t, s\<lparr>bs_reverted := d\<rparr>) =
      Some (TReverted n, s\<lparr>bs_reverted := d @ [(n, [])]\<rparr>)"
    if "key_ok n" "n \<notin> set (map fst d)" for n d t s
    using that header_lines(3) [of n] new_table_new [of n d] by (simp add: read_state_line_def)
  show "put_field (TReverted n) k v (s\<lparr>bs_reverted := d @ [(n, acc)]\<rparr>) =
      Some (s\<lparr>bs_reverted := d @ [(n, acc @ [(k, v)])]\<rparr>)"
    if "n \<notin> set (map fst d)" "k \<notin> set (map fst acc)" for n d k acc v s
    using add_field_last [OF that] by simp
  show "string_line e k = []" if "dget e k = None" for e k
    using that by (simp add: string_line_def)
  show "\<exists>l. string_line e k = [l] \<and> (\<forall>n st. read_state_line l (TReverted n, st) =
      map_option (Pair (TReverted n)) (put_field (TReverted n) k (as_text v) st))"
    if "entry_ok (''pkgname'' # ENTRY_KEYS) e \<and> texts_ok e" "k \<in> set (''pkgname'' # ENTRY_KEYS)" "dget e k = Some v" for e k v
  proof -
    have "bare_key k" using that(2) ENTRY_KEYS_bare(1,3) by (auto simp: list_all_iff)
    from string_line_reads [OF this that(3)] text_of_value [OF _ _ that(3)] that(1) show ?thesis by auto
  qed
  show "distinct (''pkgname'' # ENTRY_KEYS)" by (rule ENTRY_KEYS_distinct)
qed

section \<open>Saving and loading\<close>

definition saveable :: "bstate \<Rightarrow> bool" where
  "saveable s \<longleftrightarrow> state_ok s \<and>
     (\<forall>n e. dget (bs_packages s) n = Some e \<longrightarrow> plain_name n \<and> texts_ok e) \<and>
     (\<forall>n e. dget (bs_failures s) n = Some e \<longrightarrow> key_ok n \<and> texts_ok e) \<and>
     (\<forall>n e. dget (bs_reverted s) n = Some e \<longrightarrow> key_ok n \<and> texts_ok e) \<and>
     (\<forall>n c. dget (bs_reviewed s) n = Some c \<longrightarrow> key_ok n \<and> text_ok c)"

definition reread :: "bstate \<Rightarrow> bstate" where
  "reread s =
     \<lparr>bs_packages = map (\<lambda>(n, e). (n, pick id e ENTRY_KEYS)) (by_key (bs_packages s)),
      bs_failures = map (\<lambda>(n, e). (n, pick as_text e FAILURE_KEYS)) (by_key (bs_failures s)),
      bs_reverted = map (\<lambda>(n, e). (n, pick as_text e (''pkgname'' # ENTRY_KEYS))) (by_key (bs_reverted s)),
      bs_reviewed = by_key (bs_reviewed s)\<rparr>"

lemma by_key_simps [simp]: "set (by_key d) = set d" "by_key d = [] \<longleftrightarrow> d = []" "dict_ok (by_key d) \<longleftrightarrow> dict_ok d"
proof -
  show "set (by_key d) = set d" by (simp add: by_key_def)
  then show "by_key d = [] \<longleftrightarrow> d = []" by (metis set_empty)
  have "mset (map fst (by_key d)) = mset (map fst d)" unfolding by_key_def mset_map by simp
  then show "dict_ok (by_key d) \<longleftrightarrow> dict_ok d" unfolding dict_ok_def by (metis mset_eq_imp_distinct_iff)
qed

lemma member_get: "dict_ok d \<Longrightarrow> (n, e) \<in> set d \<longleftrightarrow> dget d n = Some e"
  by (simp add: dict_ok_def)

lemma by_key_get: "dict_ok d \<Longrightarrow> dget (by_key d) n = dget d n"
proof -
  assume "dict_ok d"
  then have "dget (by_key d) n = Some e \<longleftrightarrow> dget d n = Some e" for e
    using member_get [of d n e] member_get [of "by_key d" n e] by simp
  then show ?thesis by (metis not_Some_eq)
qed

lemma dget_map_snd: "dget (map (\<lambda>(n, e). (n, f e)) d) n = map_option f (dget d n)"
  by (induction d) auto

lemma section_lines:
  "concat (map package_lines d) = concat (map (\<lambda>(n, e). (''['' @ quote_key n @ '']'') # concat (map (field_line e) ENTRY_KEYS) @ [[]]) d)"
  "concat (map failure_lines d) =
    concat (map (\<lambda>(n, e). (''[failures.'' @ quote_key n @ '']'') # concat (map (string_line e) FAILURE_KEYS) @ [[]]) d)"
  "concat (map reverted_lines d) = concat (map (\<lambda>(n, e). (''[reverted.'' @ quote_key n @ '']'') #
      concat (map (string_line e) (''pkgname'' # ENTRY_KEYS)) @ [[]]) d)"
proof -
  have "package_lines = (\<lambda>(n, e). (''['' @ quote_key n @ '']'') # concat (map (field_line e) ENTRY_KEYS) @ [[]])"
    "failure_lines = (\<lambda>(n, e). (''[failures.'' @ quote_key n @ '']'') # concat (map (string_line e) FAILURE_KEYS) @ [[]])"
    "reverted_lines = (\<lambda>(n, e). (''[reverted.'' @ quote_key n @ '']'') #
      concat (map (string_line e) (''pkgname'' # ENTRY_KEYS)) @ [[]])"
    by (simp_all only: fun_eq_iff package_lines_def failure_lines_def reverted_lines_def case_prod_beta simp_thms)
  then show "concat (map package_lines d) =
      concat (map (\<lambda>(n, e). (''['' @ quote_key n @ '']'') # concat (map (field_line e) ENTRY_KEYS) @ [[]]) d)"
    "concat (map failure_lines d) =
      concat (map (\<lambda>(n, e). (''[failures.'' @ quote_key n @ '']'') # concat (map (string_line e) FAILURE_KEYS) @ [[]]) d)"
    "concat (map reverted_lines d) = concat (map (\<lambda>(n, e). (''[reverted.'' @ quote_key n @ '']'') #
      concat (map (string_line e) (''pkgname'' # ENTRY_KEYS)) @ [[]]) d)"
    by (simp_all only:)
qed

lemma read_reviewed_text:
  "key_ok k \<Longrightarrow> text_ok c \<Longrightarrow> read_reviewed_line (reviewed_line (k, c)) = Some (k, c)"
proof -
  assume k: "key_ok k" and c: "text_ok c"
  have esc: "escape_key k = toml_escape k" "text_ok k" using key_ok_plain [OF k] by simp_all
  have "reviewed_line (k, c) = CHR 0x22 # toml_escape k @ CHR 0x22 # '' = '' @ quoted (toml_escape c)"
    by (simp add: reviewed_line_def pair_line_def quote_key_def quoted_def [of "toml_escape k"] quoted_def [of "escape_key k"] esc)
  moreover have "read_basic (toml_escape k @ CHR 0x22 # '' = '' @ quoted (toml_escape c)) =
      Some (k, '' = '' @ quoted (toml_escape c))" by (simp add: read_basic_text esc)
  ultimately show ?thesis using c by (simp add: read_reviewed_line_def read_value_text)
qed

lemma read_reviewed:
  "distinct (map fst (d @ rs)) \<Longrightarrow> list_all (\<lambda>(k, c). key_ok k \<and> text_ok c) rs \<Longrightarrow>
   read_state_lines (map reviewed_line rs) (TReviewed, s\<lparr>bs_reviewed := d\<rparr>) = Some (TReviewed, s\<lparr>bs_reviewed := d @ rs\<rparr>)"
proof (induction rs arbitrary: d)
  case Nil
  then show ?case by simp
next
  case (Cons r rs)
  obtain k c where r: "r = (k, c)" by (cases r)
  have line: "read_reviewed_line (reviewed_line r) = Some (k, c)" using Cons.prems(2) by (simp add: r read_reviewed_text)
  have "dget d k = None" using Cons.prems(1) by (auto simp: r map_of_eq_None_iff)
  moreover have "reviewed_line r \<noteq> [] \<and> hd (reviewed_line r) = CHR 0x22"
    by (simp add: reviewed_line_def pair_line_def quote_key_def quoted_def)
  ultimately have "read_state_line (reviewed_line r) (TReviewed, s\<lparr>bs_reviewed := d\<rparr>) =
      Some (TReviewed, s\<lparr>bs_reviewed := d @ [r]\<rparr>)"
    using line by (simp add: read_state_line_def dhas_def r)
  with Cons.IH [of "d @ [r]"] Cons.prems show ?case by simp
qed

lemma read_reviewed_header:
  "bs_reviewed s = [] \<Longrightarrow> read_state_line ''[reviewed]'' (t, s) = Some (TReviewed, s)"
  by (simp add: read_state_line_def read_bheader_def)

lemma load_lines:
  assumes "saveable s"
  shows "\<exists>t. read_state_lines (state_file_lines s) (TRoot, empty_bstate) = Some (t, reread s)"
proof -
  have ok: "dict_ok (bs_packages s)" "dict_ok (bs_failures s)" "dict_ok (bs_reverted s)" "dict_ok (bs_reviewed s)"
    using assms by (simp_all add: saveable_def state_ok_def all_ok_def)
  let ?p = "by_key (bs_packages s)" and ?f = "by_key (bs_failures s)" and ?r = "by_key (bs_reverted s)"
    and ?w = "by_key (bs_reviewed s)"
  have all: "list_all (\<lambda>(n, e). plain_name n \<and> entry_ok ENTRY_KEYS e \<and> texts_ok e) ?p"
    "list_all (\<lambda>(n, e). key_ok n \<and> entry_ok FAILURE_KEYS e \<and> texts_ok e) ?f"
    "list_all (\<lambda>(n, e). key_ok n \<and> entry_ok (''pkgname'' # ENTRY_KEYS) e \<and> texts_ok e) ?r"
    "list_all (\<lambda>(k, c). key_ok k \<and> text_ok c) ?w"
    using assms ok by (auto simp: list_all_iff saveable_def state_ok_def all_ok_def member_get)
  have dist: "distinct (map fst ([] @ ?p))" "distinct (map fst ([] @ ?f))" "distinct (map fst ([] @ ?r))"
    "distinct (map fst ([] @ ?w))" using ok by (simp_all flip: dict_ok_def)
  define s1 where "s1 = empty_bstate\<lparr>bs_packages := map (\<lambda>(n, e). (n, pick id e ENTRY_KEYS)) ?p\<rparr>"
  define s2 where "s2 = s1\<lparr>bs_failures := map (\<lambda>(n, e). (n, pick as_text e FAILURE_KEYS)) ?f\<rparr>"
  define s3 where "s3 = s2\<lparr>bs_reverted := map (\<lambda>(n, e). (n, pick as_text e (''pkgname'' # ENTRY_KEYS))) ?r\<rparr>"
  have e: "empty_bstate\<lparr>bs_packages := []\<rparr> = empty_bstate" "s1\<lparr>bs_failures := []\<rparr> = s1" "s2\<lparr>bs_reverted := []\<rparr> = s2"
    "s3\<lparr>bs_reviewed := []\<rparr> = s3" by (simp_all add: s1_def s2_def s3_def empty_bstate_def)
  obtain t1 where 1: "read_state_lines (concat (map package_lines ?p)) (TRoot, empty_bstate) = Some (t1, s1)"
    using package_section.read_tables [OF dist(1) all(1), of TRoot empty_bstate] unfolding section_lines e s1_def
    by auto
  obtain t2 where 2: "read_state_lines (if bs_failures s = [] then []
      else [''# Build failures and review refusals (kind = '' @ quoted ''review'' @ ''); each clears on the next successful build.'', []] @
           concat (map failure_lines ?f)) (t1, s1) = Some (t2, s2)"
  proof (cases "bs_failures s = []")
    case True
    then have "s2 = s1" by (simp add: s2_def by_key_def e)
    with True that show ?thesis by simp
  next
    case False
    obtain t where "read_state_lines (concat (map failure_lines ?f)) (t1, s1) = Some (t, s2)"
      using failure_section.read_tables [OF dist(2) all(2), of t1 s1] unfolding section_lines e s2_def by auto
    with False that show ?thesis by (simp add: read_state_comment)
  qed
  obtain t3 where 3: "read_state_lines (if bs_reverted s = [] then []
      else [''# Builds whose install was refused, restored if the artifact installs.'', []] @
           concat (map reverted_lines ?r)) (t2, s2) = Some (t3, s3)"
  proof (cases "bs_reverted s = []")
    case True
    then have "s3 = s2" by (simp add: s3_def by_key_def e)
    with True that show ?thesis by simp
  next
    case False
    obtain t where "read_state_lines (concat (map reverted_lines ?r)) (t2, s2) = Some (t, s3)"
      using reverted_section.read_tables [OF dist(3) all(3), of t2 s2] unfolding section_lines e s3_def by auto
    with False that show ?thesis by (simp add: read_state_comment)
  qed
  have r: "reread s = s3\<lparr>bs_reviewed := ?w\<rparr>" by (simp add: reread_def s3_def s2_def s1_def empty_bstate_def)
  obtain t4 where 4: "read_state_lines (if bs_reviewed s = [] then []
      else [''# PKGBUILD review baseline: the source HEAD last accepted, by pkgbase.'', ''[reviewed]''] @
           map reviewed_line ?w @ [[]]) (t3, s3) = Some (t4, reread s)"
  proof (cases "bs_reviewed s = []")
    case True
    then have "reread s = s3" by (simp add: r by_key_def e)
    with True that show ?thesis by simp
  next
    case False
    have "bs_reviewed s3 = []" by (simp add: s3_def s2_def s1_def empty_bstate_def)
    moreover have "read_state_lines (map reviewed_line ?w) (TReviewed, s3) = Some (TReviewed, reread s)"
      using read_reviewed [OF dist(4) all(4), of s3] by (simp add: e r)
    ultimately show ?thesis
      using False that by (simp add: read_state_comment read_reviewed_header read_state_lines_append)
  qed
  have 0: "read_state_lines [''# SysForge build state'',
      ''# Records per-package build metadata for use by sysforge update.'', []] (TRoot, empty_bstate) =
      Some (TRoot, empty_bstate)" by (simp add: read_state_comment)
  have "read_state_lines (state_file_lines s) (TRoot, empty_bstate) = Some (t4, reread s)"
    unfolding state_file_lines_def by (simp only: read_state_lines_append 0 1 2 3 4 option.case)
  then show ?thesis by blast
qed

section \<open>Saving and loading\<close>

definition lf_free :: "string \<Rightarrow> bool" where
  "lf_free l \<longleftrightarrow> CHR 0x0A \<notin> set l"

text \<open>No newline in the names of the state, which are pacman names and artifact paths.\<close>

definition names_ok :: "bstate \<Rightarrow> bool" where
  "names_ok s \<longleftrightarrow>
     list_all lf_free (map fst (bs_packages s) @ map fst (bs_failures s) @ map fst (bs_reverted s) @ map fst (bs_reviewed s))"

lemma lf_free_simps [simp]: "lf_free []" "lf_free (c # l) \<longleftrightarrow> c \<noteq> CHR 0x0A \<and> lf_free l"
  "lf_free (a @ b) \<longleftrightarrow> lf_free a \<and> lf_free b"
  by (auto simp: lf_free_def)

lemma lf_free_quote: "lf_free n \<Longrightarrow> lf_free (quote_key n)"
  by (auto simp: quote_key_def quoted_def escape_key_def replace_char_def lf_free_def)

lemma lf_free_text: "lf_free (quoted (toml_escape v))"
  using toml_escape_clean [of v] by (simp add: quoted_def) (simp add: lf_free_def)

lemma lf_free_string_line: "bare_key k \<Longrightarrow> list_all lf_free (string_line e k)"
  using bare_key_clean(3) [of k] lf_free_text
  by (auto simp: string_line_def raw_line_def pair_line_def lf_free_def split: option.split)

lemma lf_free_field_line: "bare_key k \<Longrightarrow> list_all lf_free (field_line e k)"
  using bare_key_clean(3) [of k] lf_free_string_line [of k e]
  by (auto simp: field_line_def pair_line_def lf_free_def split: option.split pyval.split)

lemma all_lf_free_concat: "list_all lf_free (concat ls) \<longleftrightarrow> list_all (list_all lf_free) ls"
  by (auto simp: list_all_iff)

lemma lf_free_tables:
  assumes "lf_free (fst p)"
  shows "list_all lf_free (package_lines p)" "list_all lf_free (failure_lines p)" "list_all lf_free (reverted_lines p)"
proof -
  have keys: "bare_key k" if "k \<in> set ENTRY_KEYS \<or> k \<in> set FAILURE_KEYS \<or> k = ''pkgname''" for k
    using that ENTRY_KEYS_bare by (auto simp: list_all_iff)
  have "list_all (list_all lf_free) (map (field_line (snd p)) ENTRY_KEYS)"
    "list_all (list_all lf_free) (map (string_line (snd p)) FAILURE_KEYS)"
    "list_all (list_all lf_free) (map (string_line (snd p)) (''pkgname'' # ENTRY_KEYS))"
    unfolding list_all_iff [of "list_all lf_free"]
    using keys by (auto simp: list_all_iff [symmetric] lf_free_string_line lf_free_field_line)
  then show "list_all lf_free (package_lines p)" "list_all lf_free (failure_lines p)" "list_all lf_free (reverted_lines p)"
    unfolding package_lines_def failure_lines_def reverted_lines_def
    using lf_free_quote [OF assms] by (simp_all add: all_lf_free_concat)
qed

lemma lf_free_reviewed: "lf_free (fst kc) \<Longrightarrow> lf_free (reviewed_line kc)"
  by (simp add: reviewed_line_def pair_line_def lf_free_quote lf_free_text)

lemma lf_free_lines:
  assumes "names_ok s"
  shows "list_all lf_free (state_file_lines s)"
proof -
  have names: "\<And>p. p \<in> set (bs_packages s) \<Longrightarrow> lf_free (fst p)" "\<And>p. p \<in> set (bs_failures s) \<Longrightarrow> lf_free (fst p)"
    "\<And>p. p \<in> set (bs_reverted s) \<Longrightarrow> lf_free (fst p)" "\<And>p. p \<in> set (bs_reviewed s) \<Longrightarrow> lf_free (fst p)"
    using assms by (auto simp: names_ok_def list_all_iff)
  have p: "list_all lf_free (concat (map package_lines (by_key (bs_packages s))))"
    using names(1) lf_free_tables(1) by (auto simp: all_lf_free_concat list_all_iff [of "list_all lf_free"])
  have f: "list_all lf_free (concat (map failure_lines (by_key (bs_failures s))))"
    using names(2) lf_free_tables(2) by (auto simp: all_lf_free_concat list_all_iff [of "list_all lf_free"])
  have r: "list_all lf_free (concat (map reverted_lines (by_key (bs_reverted s))))"
    using names(3) lf_free_tables(3) by (auto simp: all_lf_free_concat list_all_iff [of "list_all lf_free"])
  have w: "list_all lf_free (map reviewed_line (by_key (bs_reviewed s)))"
    using names(4) lf_free_reviewed by (auto simp: list_all_iff)
  have q: "lf_free (quoted ''review'')" by code_simp
  show ?thesis unfolding state_file_lines_def by (simp add: p f r w q)
qed

lemma state_file_nonempty: "state_file_lines s \<noteq> []"
  by (simp add: state_file_lines_def)

lemma load_serialize_state:
  "names_ok s \<Longrightarrow> load_state (serialize_state s) = map_option snd (read_state_lines (state_file_lines s) (TRoot, empty_bstate))"
proof -
  assume "names_ok s"
  then have "\<forall>p \<in> set (state_file_lines s). CHR 0x0A \<notin> set p"
    using lf_free_lines by (simp add: list_all_iff lf_free_def)
  then have "split_on CHR 0x0A (py_join [CHR 0x0A] (state_file_lines s)) = state_file_lines s"
    by (rule split_on_join_comma [OF state_file_nonempty])
  then show ?thesis by (simp only: load_state_def serialize_state_def)
qed

lemma key_ok_lf_free: "key_ok k \<Longrightarrow> lf_free k"
  by (auto simp: key_ok_def lf_free_def list_all_iff is_control_def)

lemma names_get: "(\<And>n e. dget d n = Some e \<Longrightarrow> lf_free n) \<Longrightarrow> dict_ok d \<Longrightarrow> list_all lf_free (map fst d)"
  by (auto simp: list_all_iff dict_ok_def)

lemma saveable_names: "saveable s \<Longrightarrow> names_ok s"
  unfolding names_ok_def list_all_append
  by (intro conjI names_get)
    (auto simp: saveable_def state_ok_def all_ok_def plain_name_def intro: key_ok_lf_free)

lemma load_saved: "saveable s \<Longrightarrow> load_state (serialize_state s) = Some (reread s)"
  using load_lines [of s] load_serialize_state [OF saveable_names, of s] by auto

section \<open>What reads back\<close>

lemma pick_full: "entry_ok ks e \<Longrightarrow> distinct ks \<Longrightarrow> dget (pick f e ks) k = map_option f (dget e k)"
  by (cases "dget e k") (auto simp: pick_get dest: entry_ok_get)

lemma dget_pick_map:
  "dict_ok d \<Longrightarrow> dget (map (\<lambda>(n, e). (n, pick f e ks)) (by_key d)) n = map_option (\<lambda>e. pick f e ks) (dget d n)"
  by (simp add: dget_map_snd by_key_get)

definition same_entries :: "(pyval \<Rightarrow> pyval) \<Rightarrow> (string, entry) dict \<Rightarrow> (string, entry) dict \<Rightarrow> bool" where
  "same_entries f d d' \<longleftrightarrow>
     (\<forall>n. dhas d' n \<longleftrightarrow> dhas d n) \<and> (\<forall>n k. dget (dget_or [] d' n) k = map_option f (dget (dget_or [] d n) k))"

lemma same_entries_pick:
  assumes "all_ok ks d" "distinct ks"
  shows "same_entries f d (map (\<lambda>(n, e). (n, pick f e ks)) (by_key d))"
proof -
  have ok: "dict_ok d" using assms(1) by (simp add: all_ok_def)
  have "dget (dget_or [] (map (\<lambda>(n, e). (n, pick f e ks)) (by_key d)) n) k = map_option f (dget (dget_or [] d n) k)" for n k
    using assms by (cases "dget d n") (simp_all add: dget_or_def dget_pick_map [OF ok] all_ok_def pick_full)
  then show ?thesis by (simp add: same_entries_def dhas_def dget_pick_map [OF ok])
qed

lemma text_entries:
  assumes "\<And>n e k v. dget d n = Some e \<Longrightarrow> dget e k = Some v \<Longrightarrow> as_text v = v" "same_entries as_text d d'"
  shows "same_entries id d d'"
proof -
  have "map_option as_text (dget (dget_or [] d n) k) = map_option id (dget (dget_or [] d n) k)" for n k
    using assms(1) by (cases "dget d n"; cases "dget (dget_or [] d n) k") (auto simp: dget_or_def)
  with assms(2) show ?thesis by (simp add: same_entries_def)
qed

lemma as_text_str [simp]: "as_text (PStr s) = PStr s"
  by (simp add: as_text_def pyval_str_def)

lemma failures_are_text: "entry_ok FAILURE_KEYS e \<Longrightarrow> dget e k = Some v \<Longrightarrow> as_text v = v"
  using entry_ok_get [of FAILURE_KEYS e k v]
  by (cases v) (auto simp: right_kind_def FAILURE_KEYS_def split: if_splits)

definition loads_back :: "bstate \<Rightarrow> bstate \<Rightarrow> bool" where
  "loads_back s s' \<longleftrightarrow>
     same_entries id (bs_packages s) (bs_packages s') \<and> same_entries id (bs_failures s) (bs_failures s') \<and>
     same_entries as_text (bs_reverted s) (bs_reverted s') \<and> (\<forall>n. dget (bs_reviewed s') n = dget (bs_reviewed s) n)"

lemma reread_loads_back: "state_ok s \<Longrightarrow> loads_back s (reread s)"
proof -
  assume ok: "state_ok s"
  then have entry: "dget (bs_failures s) n = Some e \<Longrightarrow> entry_ok FAILURE_KEYS e" for n e
    by (auto simp: state_ok_def all_ok_def)
  have "same_entries as_text (bs_failures s) (bs_failures (reread s))"
    using ok by (simp add: reread_def state_ok_def same_entries_pick ENTRY_KEYS_distinct)
  then have "same_entries id (bs_failures s) (bs_failures (reread s))"
    by (rule text_entries [rotated]) (rule failures_are_text [OF entry])
  with ok show ?thesis
    unfolding loads_back_def
    by (simp add: reread_def state_ok_def same_entries_pick ENTRY_KEYS_distinct by_key_get del: distinct.simps(2))
qed


section \<open>Where saving loses\<close>

text \<open>
  A reverted build's booleans are written as the strings \<open>True\<close> and \<open>False\<close>, so after a save and
  a load the restored record says, of a build outside the sandbox, that it was sandboxed.
\<close>

lemma restore_get:
  "dget (bs_reverted s) art = Some e \<Longrightarrow> get_str e ''pkgname'' = Some p \<Longrightarrow> p \<noteq> [] \<Longrightarrow>
   dget (bs_packages (fst (restore_reverted art s))) p = Some (dpop ''pkgname'' e)"
  by (simp add: restore_reverted_def Let_def)

lemma reverted_loads:
  assumes "loads_back s s'" "dget (bs_reverted s) art = Some e" "get_str e ''pkgname'' = Some p" "p \<noteq> []"
  shows "dget (entry_of (fst (restore_reverted art s')) p) k =
    (if k = ''pkgname'' then None else map_option as_text (dget e k))"
proof -
  have has: "dhas (bs_reverted s') art" using assms(1,2) by (simp add: loads_back_def same_entries_def dhas_def)
  then obtain e' where e': "dget (bs_reverted s') art = Some e'" by (auto simp: dhas_def)
  have get: "dget e' k = map_option as_text (dget e k)" for k
  proof -
    have "same_entries as_text (bs_reverted s) (bs_reverted s')" using assms(1) by (simp add: loads_back_def)
    then have "dget (dget_or [] (bs_reverted s') art) k = map_option as_text (dget (dget_or [] (bs_reverted s) art) k)"
      unfolding same_entries_def by (elim conjE allE [of _ art] allE [of _ k])
    then show ?thesis by (simp add: dget_or_def e' assms(2))
  qed
  have "get_str e' ''pkgname'' = Some p"
    using assms(3) by (auto simp: get_str_def get split: option.splits pyval.splits)
  from restore_get [OF e' this assms(4)] show ?thesis by (simp add: entry_of_def dget_or_def get)
qed

text \<open>After a save and a load, restoring a reverted build whose record says it ran outside the
  sandbox, or compiled nothing, gives a record whose field is the string \<open>False\<close>, which Python
  takes for true: the writer quotes the booleans of reverted builds.\<close>

theorem reverted_booleans_flip:
  assumes "saveable s" "load_state (serialize_state s) = Some s'"
    and "dget (bs_reverted s) art = Some e" "get_str e ''pkgname'' = Some p" "p \<noteq> []"
    and "k = ''sandboxed'' \<or> k = ''compiles''" "dget e k = Some (PBool False)"
  shows "\<exists>v. dget (entry_of (fst (restore_reverted art s')) p) k = Some v \<and> pyval_true v \<and>
    dget (entry_of (fst (restore_reverted art s)) p) k = Some (PBool False)"
proof -
  have "loads_back s s'"
    using assms(1,2) load_saved [OF assms(1)] reread_loads_back [of s] by (auto simp: saveable_def)
  from reverted_loads [OF this assms(3,4,5), of k] restore_get [OF assms(3,4,5)] assms(6,7)
  show ?thesis by (auto simp: as_text_def pyval_str_def entry_of_def dget_or_def)
qed

lemma error_line_unreadable:
  assumes "\<not> text_ok v"
  shows "read_state_line (raw_line ''error'' (toml_escape v)) st = None"
proof -
  obtain t s where st: "st = (t, s)" by (cases st)
  have bare: "bare_key ''error''" by code_simp
  show ?thesis
  proof (cases "t = TReviewed")
    case True
    then show ?thesis by (simp add: st read_state_line_def raw_line_def pair_line_def read_reviewed_line_def)
  next
    case False
    with assms show ?thesis by (simp add: st raw_line_def read_state_field [OF bare False] read_field_text)
  qed
qed

lemma unreadable_line: "l \<in> set ls \<Longrightarrow> (\<And>st. read_state_line l st = None) \<Longrightarrow> read_state_lines ls st = None"
  by (induction ls arbitrary: st) (auto split: option.split)

lemma failure_error_line:
  assumes "dget (bs_failures s) n = Some e" "dget e ''error'' = Some v"
  shows "raw_line ''error'' (toml_escape (pyval_str v)) \<in> set (state_file_lines s)"
proof -
  have mem: "(n, e) \<in> set (bs_failures s)" using assms(1) by (rule map_of_SomeD)
  have "raw_line ''error'' (toml_escape (pyval_str v)) \<in> set (string_line e ''error'')"
    using assms(2) by (simp add: string_line_def)
  then have "raw_line ''error'' (toml_escape (pyval_str v)) \<in> set (failure_lines (n, e))"
    unfolding failure_lines_def FAILURE_KEYS_def by simp
  with mem have "raw_line ''error'' (toml_escape (pyval_str v)) \<in> set (concat (map failure_lines (by_key (bs_failures s))))"
    by auto
  moreover have "bs_failures s \<noteq> []" using mem by auto
  ultimately show ?thesis unfolding state_file_lines_def set_append by simp
qed

lemma failure_error:
  "\<exists>e. dget (bs_failures (record_failure now base err pv sg fx at kd s)) base = Some e \<and>
    dget e ''error'' = Some (PStr (truncate_error err))"
  by (simp add: record_failure_def Let_def)

lemma names_ok_failure: "names_ok s \<Longrightarrow> lf_free base \<Longrightarrow> names_ok (record_failure now base err pv sg fx at kd s)"
  unfolding names_ok_def record_failure_def Let_def list_all_iff by (auto simp: dkeys_dset simp del: set_map)

text \<open>A failure whose error text holds a control character, other than the newline, carriage
  return and tab, makes the saved state unreadable: the writer escapes backslash, quote, newline and carriage
  return only, and TOML rejects the others raw.\<close>

theorem control_character_unreadable:
  assumes "names_ok s" "lf_free base" "\<not> text_ok (truncate_error err)"
  shows "load_state (serialize_state (record_failure now base err pv sg fx at kd s)) = None"
proof -
  let ?s = "record_failure now base err pv sg fx at kd s"
  obtain e where e: "dget (bs_failures ?s) base = Some e" "dget e ''error'' = Some (PStr (truncate_error err))"
    using failure_error by blast
  have "read_state_lines (state_file_lines ?s) st = None" for st
    using unreadable_line [OF failure_error_line [OF e] error_line_unreadable] assms(3) by (simp add: pyval_str_def)
  then show ?thesis by (simp add: load_serialize_state [OF names_ok_failure [OF assms(1,2)]])
qed

section \<open>Witnesses\<close>

definition demo_build :: build_info where
  "demo_build = \<lparr>bi_pkgver = ''2'', bi_pkgrel = ''1'', bi_epoch = ''0'', bi_pkgbase = ''mesa'', bi_pkgbuild_dir = ''/b'',
     bi_build_mode = Some ''source_built'', bi_flags_string = Some ''O3'', bi_built_at = None,
     bi_built_upstream_commit = None, bi_source = None, bi_owner_stage = None, bi_toolchain_variant = None,
     bi_toolchain_fingerprint = None, bi_reviewed_commit = None, bi_origin_pkgbase = None,
     bi_build_seconds = Some 90, bi_sandboxed = Some False, bi_build_inputs = None, bi_compiles = None\<rparr>"

definition demo_state :: bstate where
  "demo_state =
     \<lparr>bs_packages = [(''mesa'', [(''pkgver'', PStr ''1''), (''pkgbase'', PStr ''mesa''), (''build_mode'', PStr ''source_built'')])],
      bs_failures = [(''zlib'', [(''failed_at'', PStr ''t''), (''error'', PStr ''bad'')])],
      bs_reverted = [(''m.pkg'', [(''pkgname'', PStr ''mesa''), (''pkgver'', PStr ''2''), (''sandboxed'', PBool False)])],
      bs_reviewed = [(''mesa'', ''c0ffee'')]\<rparr>"

lemma demo_ok: "dict_ok (bs_packages demo_state)"
  by code_simp

theorem external_install_demotes_witness:
  "\<exists>s'. reconcile_external_installs [''mesa''] demo_state = (s', [''mesa'']) \<and>
    demotion_sticks [''mesa''] demo_state s' [''mesa'']"
proof -
  have d: "snd (reconcile_external_installs [''mesa''] demo_state) = [''mesa'']" by code_simp
  then obtain s' where s': "reconcile_external_installs [''mesa''] demo_state = (s', [''mesa''])"
    by (cases "reconcile_external_installs [''mesa''] demo_state") simp
  with external_install_demotes [OF demo_ok s'] show ?thesis by blast
qed

lemma demo_saveable: "saveable demo_state"
  by (auto simp: saveable_def demo_state_def state_ok_def all_ok_def entry_ok_def dict_ok_def ENTRY_KEYS_def
      FAILURE_KEYS_def plain_name_def key_ok_def texts_ok_def text_ok_def text_char_def is_control_def split: if_splits)



theorem sync_matches_installed_witness:
  "\<exists>s' a r. sync_with_installed [(''zlib'', ''1-1'')] demo_state = (s', a, r) \<and> synced [(''zlib'', ''1-1'')] demo_state s' \<and>
    sync_with_installed [(''zlib'', ''1-1'')] s' = (s', 0, 0)"
proof -
  obtain s' a r where s': "sync_with_installed [(''zlib'', ''1-1'')] demo_state = (s', a, r)"
    using prod_cases3 by blast
  with sync_matches_installed [OF s'] show ?thesis by blast
qed

lemma demo_changes:
  "\<not> (\<forall>k. k \<notin> set BUILD_FACTS \<longrightarrow>
     dget (entry_of (record_build ''t'' ''mesa'' demo_build demo_state) ''mesa'') k = dget (entry_of demo_state ''mesa'') k)"
proof -
  have "dget (entry_of (record_build ''t'' ''mesa'' demo_build demo_state) ''mesa'') ''pkgver'' \<noteq>
      dget (entry_of demo_state ''mesa'') ''pkgver''" "''pkgver'' \<notin> set BUILD_FACTS" by code_simp+
  then show ?thesis by blast
qed


lemma demo_reverted:
  "dget (bs_reverted demo_state) ''m.pkg'' =
     Some [(''pkgname'', PStr ''mesa''), (''pkgver'', PStr ''2''), (''sandboxed'', PBool False)]"
  by (simp add: demo_state_def)

theorem reverted_booleans_flip_witness:
  "\<exists>s' v. load_state (serialize_state demo_state) = Some s' \<and>
     dget (entry_of (fst (restore_reverted ''m.pkg'' s')) ''mesa'') ''sandboxed'' = Some v \<and> pyval_true v"
proof -
  obtain s' where s': "load_state (serialize_state demo_state) = Some s'"
    using load_saved [OF demo_saveable] by blast
  have "\<exists>v. dget (entry_of (fst (restore_reverted ''m.pkg'' s')) ''mesa'') ''sandboxed'' = Some v \<and> pyval_true v \<and>
      dget (entry_of (fst (restore_reverted ''m.pkg'' demo_state)) ''mesa'') ''sandboxed'' = Some (PBool False)"
    by (rule reverted_booleans_flip [OF demo_saveable s' demo_reverted]) (simp_all add: get_str_def)
  with s' show ?thesis by blast
qed

theorem control_character_unreadable_witness:
  "load_state (serialize_state
     (record_failure ''t'' ''mesa'' [CHR 0x1B, CHR ''x''] None None None None None demo_state)) = None"
  by (rule control_character_unreadable; code_simp)

end
