(* ===== verification/UpdateVersion.thy ===== *)
theory UpdateVersion
  imports Version BuildState "HOL-Library.Multiset"
begin

text \<open>
  Model of \<open>sysforge/update_version.py\<close>, the version check of one pkgbase, and of
  \<open>sysforge/update_split.py\<close>, the annotation of split packages that comes after it.

  What the check reads of the machine is the record \<open>checker\<close>: the version comparison, the
  file system, the PKGBUILD parser, and the two upstream queries of a VCS package.  The
  result is \<open>Inl\<close> where the code raises, \<open>Inr None\<close> where it skips the package.

  The lemmas: the oldest installed member is a least version and does not depend on the order
  of the names, so neither does the verdict; a source package is rebuilt exactly when a
  member the build produces is older than the PKGBUILD.  The comparison's contract is the
  locale \<open>version_order\<close> of theory \<open>Version\<close>.
\<close>

section \<open>Data\<close>

record update_result =
  ur_pkgbase :: string
  ur_pkgnames :: "string list"
  ur_action :: string
  ur_installed_ver :: "string option"
  ur_pkgbuild_ver :: "string option"
  ur_pkgbuild_path :: "string option"
  ur_has_record :: bool
  ur_source :: "string option"
  ur_force_rebuild :: bool
  ur_owner_stage :: "string option"
  ur_via :: "string list"
  ur_replaced :: "(string, string) dict"
  ur_stock :: "(string, string) dict"

text \<open>The \<open>globals\<close> of a parsed PKGBUILD: its scalars, and \<open>pkgname\<close>, a string or an array.\<close>

record parsed_pkgbuild =
  pb_scalars :: "(string, string) dict"
  pb_pkgname :: "pyval option"

record checker =
  ck_cmp :: "string \<Rightarrow> string \<Rightarrow> version_error + int"
  ck_is_dir :: "string \<Rightarrow> bool"
  ck_exists :: "string \<Rightarrow> bool"
  ck_parse :: "string \<Rightarrow> parsed_pkgbuild option"
  ck_peek :: "string \<Rightarrow> string option"
  ck_eval :: "string \<Rightarrow> string option"

datatype check_error =
    CompareFailed version_error
  | NoPkgbuildDir
  | NothingInstalled

type_synonym str_dict = "(string, string) dict"

section \<open>Helpers\<close>

definition PATCHED_PKGBUILD_NAME :: string where
  "PATCHED_PKGBUILD_NAME = ''PKGBUILD.sysforge''"

definition VCS_SUFFIXES :: "string list" where
  "VCS_SUFFIXES = [''-git'', ''-svn'', ''-hg'', ''-bzr'']"

definition SYNC_STATUS_TO_ACTION :: str_dict where
  "SYNC_STATUS_TO_ACTION =
     [(''failed'', ''PULL_FAILED''), (''rate_limited'', ''RATE_LIMITED''),
      (''purge_refused'', ''PURGE_REFUSED''), (''frozen'', ''FROZEN''),
      (''skipped_aur_disabled'', ''AUR_DISABLED'')]"

definition is_vcs_pkgbase :: "string \<Rightarrow> bool" where
  "is_vcs_pkgbase pkgbase =
     (let rename = ''-'' @ RENAME_SUFFIX;
          base = (if ends_with rename pkgbase then drop_end rename pkgbase else pkgbase)
      in list_ex (\<lambda>s. ends_with s base) VCS_SUFFIXES)"

text \<open>The loop of \<open>_oldest_installed_ver\<close>: a failed comparison keeps the version it has.\<close>

definition older_of :: "(string \<Rightarrow> string \<Rightarrow> version_error + int) \<Rightarrow> string \<Rightarrow> string \<Rightarrow> string" where
  "older_of cmp ver oldest =
     (case cmp ver oldest of Inr n \<Rightarrow> if n < 0 then ver else oldest | Inl _ \<Rightarrow> oldest)"

definition oldest_installed_ver ::
    "(string \<Rightarrow> string \<Rightarrow> version_error + int) \<Rightarrow> string list \<Rightarrow> str_dict \<Rightarrow> string option" where
  "oldest_installed_ver cmp pkgnames installed =
     (case py_sorted (filter (dhas installed) pkgnames) of
        [] \<Rightarrow> None
      | pn # rest \<Rightarrow>
          Some (fold (\<lambda>p. older_of cmp (the (dget installed p))) rest (the (dget installed pn))))"

definition produced_pkgnames :: "checker \<Rightarrow> string \<Rightarrow> string list \<Rightarrow> string list" where
  "produced_pkgnames ck dir pkgnames =
     (let patched = path_join dir PATCHED_PKGBUILD_NAME in
      if \<not> ck_exists ck patched then pkgnames
      else (case ck_parse ck patched of
              None \<Rightarrow> pkgnames
            | Some meta \<Rightarrow>
                (let declared = (case pb_pkgname meta of
                                   Some (PStr s) \<Rightarrow> [s] | Some (PList xs) \<Rightarrow> xs | _ \<Rightarrow> []);
                     produced = filter (\<lambda>pn. pn \<in> set declared) pkgnames
                 in if declared = [] then pkgnames
                    else if produced = [] then pkgnames else produced)))"

definition recorded_ver :: "str_dict \<Rightarrow> string option" where
  "recorded_ver entry =
     (case (dget entry ''pkgver'', dget entry ''pkgrel'') of
        (Some pkgver, Some pkgrel) \<Rightarrow>
          (let epoch = dget_or ''0'' entry ''epoch''
           in Some (if epoch \<noteq> [] \<and> epoch \<noteq> ''0'' then epoch @ '':'' @ pkgver @ ''-'' @ pkgrel
                    else pkgver @ ''-'' @ pkgrel))
      | _ \<Rightarrow> None)"

definition unresolved_expansion :: "string \<Rightarrow> bool" where
  "unresolved_expansion v = list_ex (\<lambda>c. c \<in> {CHR ''$'', CHR ''{'', CHR ''}''}) v"

section \<open>The check\<close>

definition result_of ::
    "string \<Rightarrow> string list \<Rightarrow> bool \<Rightarrow> string option \<Rightarrow> string \<Rightarrow> string option \<Rightarrow> string option \<Rightarrow> string option
     \<Rightarrow> update_result" where
  "result_of pkgbase pkgnames has_record source action inst new path =
     \<lparr>ur_pkgbase = pkgbase, ur_pkgnames = pkgnames, ur_action = action, ur_installed_ver = inst,
      ur_pkgbuild_ver = new, ur_pkgbuild_path = path, ur_has_record = has_record, ur_source = source,
      ur_force_rebuild = False, ur_owner_stage = None, ur_via = [], ur_replaced = [], ur_stock = []\<rparr>"

text \<open>The newest version checkupdates lists for the members.\<close>

fun newest_update ::
    "(string \<Rightarrow> string \<Rightarrow> version_error + int) \<Rightarrow> str_dict \<Rightarrow> string list \<Rightarrow> string option
     \<Rightarrow> version_error + string option" where
  "newest_update cmp updates [] new = Inr new"
| "newest_update cmp updates (pn # pns) new =
     (case dget updates pn of
        None \<Rightarrow> newest_update cmp updates pns new
      | Some m \<Rightarrow>
          (case new of
             None \<Rightarrow> newest_update cmp updates pns (Some m)
           | Some v \<Rightarrow> rbind (cmp m v) (\<lambda>n.
               newest_update cmp updates pns (if n > 0 then Some m else Some v))))"

definition check_pacman ::
    "checker \<Rightarrow> string list \<Rightarrow> str_dict \<Rightarrow> str_dict option
     \<Rightarrow> (string \<Rightarrow> string option \<Rightarrow> string option \<Rightarrow> string option \<Rightarrow> update_result)
     \<Rightarrow> check_error + update_result option" where
  "check_pacman ck pkgnames installed updates res =
     (case oldest_installed_ver (ck_cmp ck) pkgnames installed of
        None \<Rightarrow> Inr None
      | Some inst \<Rightarrow>
          (case updates of
             None \<Rightarrow> Inr (Some (res ''SKIPPED_NO_CHECKUPDATES'' (Some inst) None None))
           | Some u \<Rightarrow>
               (case newest_update (ck_cmp ck) u pkgnames None of
                  Inl e \<Rightarrow> Inl (CompareFailed e)
                | Inr None \<Rightarrow> Inr (Some (res ''UP_TO_DATE'' (Some inst) (Some inst) None))
                | Inr (Some v) \<Rightarrow> Inr (Some (res ''NEEDS_PACMAN_UPGRADE'' (Some inst) (Some v) None)))))"

definition cmp_action :: "int \<Rightarrow> string" where
  "cmp_action n = (if n > 0 then ''NEEDS_REBUILD'' else if n = 0 then ''UP_TO_DATE'' else ''DOWNGRADE'')"

text \<open>The version to compare: \<open>None\<close> where an unresolved expansion has no cached replacement.\<close>

definition resolved_pkgbuild_ver :: "string \<Rightarrow> str_dict \<Rightarrow> str_dict \<Rightarrow> str_dict \<Rightarrow> string option" where
  "resolved_pkgbuild_ver pkgbase entry rpc globals =
     (let v = format_version globals in
      if \<not> unresolved_expansion v then Some v
      else
        (let rpc_ver = dget rpc pkgbase;
             rpc_ver' = (if truthy rpc_ver then rpc_ver
                         else if truthy (dget entry ''origin_pkgbase'')
                         then dget rpc (the (dget entry ''origin_pkgbase''))
                         else rpc_ver)
         in if truthy rpc_ver' then rpc_ver' else None))"

definition check_vcs ::
    "checker \<Rightarrow> string \<Rightarrow> str_dict \<Rightarrow> str_dict \<Rightarrow> string option \<Rightarrow> string \<Rightarrow> string
     \<Rightarrow> (string \<Rightarrow> string option \<Rightarrow> string option \<Rightarrow> string option \<Rightarrow> update_result) \<Rightarrow> update_result" where
  "check_vcs ck dir entry globals built inst pkgbuild_ver res =
     (let path = Some (path_join dir ''PKGBUILD'');
          nonempty = (\<lambda>s. if s = [] then ''0'' else s);
          same_build = (built \<noteq> None \<and> recorded_ver entry = Some inst \<and>
            (dget_or [] globals ''pkgrel'', nonempty (dget_or ''0'' globals ''epoch'')) =
            (dget_or [] entry ''pkgrel'', nonempty (dget_or ''0'' entry ''epoch'')))
      in if same_build \<and> ck_peek ck dir \<noteq> None \<and> ck_peek ck dir = built
         then res ''UP_TO_DATE'' (Some inst) (Some inst) path
         else (case ck_eval ck dir of
                 None \<Rightarrow> res ''DEVEL_EVAL_FAILED'' (Some inst) (Some pkgbuild_ver) path
               | Some v \<Rightarrow>
                   (case ck_cmp ck v inst of
                      Inl e \<Rightarrow> res ''DEVEL_EVAL_FAILED'' (Some inst) (Some v) path
                    | Inr n \<Rightarrow> res (cmp_action n) (Some inst) (Some v) path)))"

text \<open>The members the verdict is about: all that agree, else those the next build produces.\<close>

definition check_candidates :: "checker \<Rightarrow> string \<Rightarrow> string list \<Rightarrow> str_dict \<Rightarrow> string list" where
  "check_candidates ck dir pkgnames installed =
     (if length (remdups (map (\<lambda>pn. the (dget installed pn)) (filter (dhas installed) pkgnames))) > 1
      then produced_pkgnames ck dir pkgnames else pkgnames)"

definition check_source ::
    "checker \<Rightarrow> string \<Rightarrow> string list \<Rightarrow> str_dict \<Rightarrow> (string, string \<times> string) dict \<Rightarrow> str_dict \<Rightarrow> bool \<Rightarrow> str_dict
     \<Rightarrow> string option \<Rightarrow> string
     \<Rightarrow> (string \<Rightarrow> string option \<Rightarrow> string option \<Rightarrow> string option \<Rightarrow> update_result)
     \<Rightarrow> check_error + update_result option" where
  "check_source ck pkgbase pkgnames entry sync_failures installed skip_sync rpc built dir res =
     (let path = path_join dir ''PKGBUILD'' in
      if \<not> ck_is_dir ck dir \<or> \<not> ck_exists ck path then Inr None
      else if \<not> skip_sync \<and> dhas sync_failures pkgbase then
        Inr (Some (res (dget_or ''PULL_FAILED'' SYNC_STATUS_TO_ACTION (fst (the (dget sync_failures pkgbase))))
                     None None (Some path)))
      else (case ck_parse ck path of
              None \<Rightarrow> Inr None
            | Some meta \<Rightarrow>
                (case resolved_pkgbuild_ver pkgbase entry rpc (pb_scalars meta) of
                   None \<Rightarrow> Inr None
                 | Some ver \<Rightarrow>
                     (case oldest_installed_ver (ck_cmp ck) (check_candidates ck dir pkgnames installed) installed of
                        None \<Rightarrow> Inl NothingInstalled
                      | Some inst \<Rightarrow>
                          if is_vcs_pkgbase pkgbase
                          then Inr (Some (check_vcs ck dir entry (pb_scalars meta) built inst ver res))
                          else (case ck_cmp ck ver inst of
                                  Inl e \<Rightarrow> Inr None
                                | Inr n \<Rightarrow> Inr (Some (res (cmp_action n) (Some inst) (Some ver) (Some path))))))))"

definition check_one_pkgbase ::
    "checker \<Rightarrow> string \<Rightarrow> string list \<Rightarrow> str_dict \<Rightarrow> (string, string \<times> string) dict \<Rightarrow> str_dict \<Rightarrow> string list
     \<Rightarrow> bool \<Rightarrow> str_dict \<Rightarrow> bool \<Rightarrow> string option \<Rightarrow> str_dict option
     \<Rightarrow> check_error + update_result option" where
  "check_one_pkgbase ck pkgbase pkgnames entry sync_failures installed unrecorded skip_sync rpc force_devel built updates =
     (let has_record = (\<not> list_ex (\<lambda>pn. pn \<in> set unrecorded) pkgnames);
          res = result_of pkgbase pkgnames has_record (dget entry ''source'')
      in if dget entry ''repo_class'' = Some ''pacman'' then check_pacman ck pkgnames installed updates res
         else if is_vcs_pkgbase pkgbase \<and> \<not> force_devel then
           Inr (map_option (\<lambda>inst. res ''DEVEL'' (Some inst) None None)
                  (oldest_installed_ver (ck_cmp ck) pkgnames installed))
         else (case dget entry ''pkgbuild_dir'' of
                 None \<Rightarrow> Inl NoPkgbuildDir
               | Some dir \<Rightarrow>
                   check_source ck pkgbase pkgnames entry sync_failures installed skip_sync rpc built dir res))"

section \<open>Split packages\<close>

record split_members =
  sm_via :: "string list"
  sm_replaced :: "(string, string) dict"
  sm_stock :: "(string, string) dict"

definition no_split :: split_members where
  "no_split = \<lparr>sm_via = [], sm_replaced = [], sm_stock = []\<rparr>"

text \<open>\<open>relations\<close> is \<open>member_relations(parsed, member)\<close>, the names a member provides or conflicts with.\<close>

definition stock_candidates :: "(string \<Rightarrow> string list) \<Rightarrow> string \<Rightarrow> string list \<Rightarrow> string list" where
  "stock_candidates relations member declared =
     sorted_set (filter (\<lambda>n. n \<notin> set declared)
       (relations member @ map (\<lambda>s. drop_end s member) (filter (\<lambda>s. ends_with s member) VCS_SUFFIXES)))"

fun first_stock :: "(string \<Rightarrow> string list) \<Rightarrow> (string \<Rightarrow> bool) \<Rightarrow> string list \<Rightarrow> (string, string) dict \<Rightarrow> (string, string) dict" where
  "first_stock cands ok [] d = d"
| "first_stock cands ok (m # ms) d =
     first_stock cands ok ms (case find ok (cands m) of None \<Rightarrow> d | Some s \<Rightarrow> dset m s d)"

definition detect_split_members ::
    "(string \<Rightarrow> bool) \<Rightarrow> string \<Rightarrow> string list \<Rightarrow> string list \<Rightarrow> (string \<Rightarrow> string list) \<Rightarrow> str_dict \<Rightarrow> split_members" where
  "detect_split_members in_repo pkgbase tracked declared relations installed =
     (if length declared < 2 then no_split
      else
        (let live = py_sorted (filter (dhas installed) tracked);
             via = (if pkgbase \<in> set declared \<and> \<not> dhas installed pkgbase \<and> live \<noteq> [] then live else []);
             cands = (\<lambda>m. stock_candidates relations m declared);
             replaced = first_stock cands (\<lambda>s. dhas installed s \<and> in_repo s)
                          (filter (\<lambda>m. \<not> dhas installed m) declared) [];
             stock = (if replaced = [] then [] else first_stock cands in_repo live [])
         in \<lparr>sm_via = via, sm_replaced = replaced, sm_stock = stock\<rparr>))"

text \<open>
  The pass over the results: an entry that is not built from source, has no directory or no
  readable PKGBUILD leaves its result as it is.  \<open>parse\<close> gives the declared members and
  their relations, \<open>None\<close> where it raises.
\<close>

definition annotate_one ::
    "(string \<Rightarrow> bool) \<Rightarrow> (string \<Rightarrow> bool) \<Rightarrow> (string \<Rightarrow> (string list \<times> (string \<Rightarrow> string list)) option)
     \<Rightarrow> (string, str_dict) dict \<Rightarrow> str_dict \<Rightarrow> update_result \<Rightarrow> update_result" where
  "annotate_one in_repo is_file parse entries installed r =
     (let entry = dget_or [] entries (ur_pkgbase r); dir = dget entry ''pkgbuild_dir'' in
      if \<not> is_source_build_mode (dget entry ''build_mode'') \<or> \<not> truthy dir then r
      else
        (let path = path_join (the dir) ''PKGBUILD'' in
         if \<not> is_file path then r
         else (case parse path of
                 None \<Rightarrow> r
               | Some (declared, relations) \<Rightarrow>
                   (let info = detect_split_members in_repo (ur_pkgbase r) (ur_pkgnames r) declared relations installed
                    in r\<lparr>ur_via := sm_via info, ur_replaced := sm_replaced info, ur_stock := sm_stock info\<rparr>))))"

definition annotate_split_members ::
    "(string \<Rightarrow> bool) \<Rightarrow> (string \<Rightarrow> bool) \<Rightarrow> (string \<Rightarrow> (string list \<times> (string \<Rightarrow> string list)) option)
     \<Rightarrow> (string, str_dict) dict \<Rightarrow> str_dict \<Rightarrow> update_result list \<Rightarrow> update_result list" where
  "annotate_split_members in_repo is_file parse entries installed results =
     map (annotate_one in_repo is_file parse entries installed) results"

section \<open>The oldest installed member\<close>

lemma sort_mset: "mset xs = mset ys \<Longrightarrow> sort xs = sort ys"
  by (rule properties_for_sort) simp_all

lemma oldest_mset: "mset ps = mset qs \<Longrightarrow> oldest_installed_ver cmp ps inst = oldest_installed_ver cmp qs inst"
proof -
  assume "mset ps = mset qs"
  then have "mset (filter (dhas inst) ps) = mset (filter (dhas inst) qs)" by simp
  from sort_mset [OF this] show ?thesis by (simp only: oldest_installed_ver_def py_sorted_def)
qed

lemma oldest_None: "oldest_installed_ver cmp ps inst = None \<longleftrightarrow> (\<forall>p \<in> set ps. \<not> dhas inst p)"
proof -
  have "py_sorted (filter (dhas inst) ps) = [] \<longleftrightarrow> filter (dhas inst) ps = []"
    by (metis py_sorted_def set_empty set_sort)
  then show ?thesis by (auto simp: oldest_installed_ver_def filter_empty_conv split: list.split)
qed

text \<open>The installed versions of a list of members.\<close>

definition vers_of :: "str_dict \<Rightarrow> string list \<Rightarrow> string set" where
  "vers_of inst ps = {v. \<exists>p \<in> set ps. dget inst p = Some v}"

definition cmp_agrees :: "(string \<Rightarrow> string \<Rightarrow> version_error + int) \<Rightarrow> bool" where
  "cmp_agrees cmp \<longleftrightarrow> (\<forall>a b. full_version a \<longrightarrow> full_version b \<longrightarrow> cmp a b = Inr (vercmp_local a b))"

lemma oldest_least:
  assumes "cmp_agrees cmp" "\<forall>v \<in> vers_of inst ps. full_version v" "oldest_installed_ver cmp ps inst = Some o'"
  shows "o' \<in> vers_of inst ps \<and> (\<forall>v \<in> vers_of inst ps. vercmp_local o' v \<le> 0)"
proof -
  obtain p rest where p: "py_sorted (filter (dhas inst) ps) = p # rest"
    and o': "o' = fold (\<lambda>p. older_of cmp (the (dget inst p))) rest (the (dget inst p))"
    using assms(3) by (auto simp: oldest_installed_ver_def split: list.splits)
  let ?v = "\<lambda>p. the (dget inst p)"
  have members: "set (p # rest) = {p \<in> set ps. dhas inst p}"
    unfolding p [symmetric] py_sorted_def by auto
  have vs: "vers_of inst ps = ?v ` set (p # rest)"
    unfolding members vers_of_def by (force simp: dhas_def)
  have fold: "o' = fold (older_of cmp) (map ?v rest) (?v p)"
    by (simp add: o' fold_map comp_def)
  have "fold (older_of cmp) (map ?v rest) (?v p) \<in> insert (?v p) (set (map ?v rest)) \<and>
      (\<forall>w \<in> insert (?v p) (set (map ?v rest)). vercmp_local (fold (older_of cmp) (map ?v rest) (?v p)) w \<le> 0)"
  proof (rule local_order.fold_least)
    show "full_version (?v p)" "\<forall>w \<in> set (map ?v rest). full_version w"
      using assms(2) by (auto simp: vs)
    show "older_of cmp w x = (if vercmp_local w x < 0 then w else x)" if "full_version w" "full_version x" for w x
      using assms(1) that by (simp add: older_of_def cmp_agrees_def)
  qed
  then show ?thesis by (simp add: vs fold)
qed

section \<open>The verdict does not depend on the order of the members\<close>

lemma candidates_mset:
  "mset ps = mset qs \<Longrightarrow> mset (check_candidates ck dir ps inst) = mset (check_candidates ck dir qs inst)"
proof -
  assume m: "mset ps = mset qs"
  then have s: "set ps = set qs" by (metis set_mset_mset)
  have "mset (produced_pkgnames ck dir ps) = mset (produced_pkgnames ck dir qs)"
  proof -
    have f: "mset (filter P ps) = mset (filter P qs)" for P using m by simp
    have e: "filter P ps = [] \<longleftrightarrow> filter P qs = []" for P using s by (simp add: filter_empty_conv)
    show ?thesis
      using m by (auto simp: produced_pkgnames_def Let_def f e split: option.split)
  qed
  with m s show ?thesis by (simp add: check_candidates_def length_remdups_card_conv)
qed

lemma newest_update_total:
  assumes "\<And>a b. \<exists>n. cmp a b = Inr n"
  shows "\<exists>r. newest_update cmp u ps new = Inr r \<and> (r = None \<longleftrightarrow> new = None \<and> (\<forall>p \<in> set ps. dget u p = None))"
proof (induction ps arbitrary: new)
  case Nil
  then show ?case by simp
next
  case (Cons p ps)
  show ?case
  proof (cases "dget u p")
    case None
    with Cons show ?thesis by simp
  next
    case (Some m)
    show ?thesis
    proof (cases new)
      case None
      with Some Cons [of "Some m"] show ?thesis by simp
    next
      case new: (Some v)
      obtain n where "cmp m v = Inr n" using assms by blast
      with Some new Cons [of "if n > 0 then Some m else Some v"] show ?thesis by (auto split: if_splits)
    qed
  qed
qed

text \<open>What a verdict says, apart from the list of names and the version of a pacman upgrade.\<close>

definition verdict :: "update_result \<Rightarrow> string \<times> string option \<times> string option \<times> string option \<times> bool \<times> string option" where
  "verdict r =
     (ur_action r, ur_installed_ver r,
      if ur_action r = ''NEEDS_PACMAN_UPGRADE'' then None else ur_pkgbuild_ver r,
      ur_pkgbuild_path r, ur_has_record r, ur_source r)"

lemma verdict_result_of:
  "verdict (result_of b ps h s a i n p) =
   (a, i, if a = ''NEEDS_PACMAN_UPGRADE'' then None else n, p, h, s)"
  by (simp add: verdict_def result_of_def)

lemma check_pacman_order:
  assumes m: "mset ps = mset qs" and total: "\<And>a b. \<exists>n. ck_cmp ck a b = Inr n"
  shows "map_sum id (map_option verdict) (check_pacman ck ps inst u (result_of b ps h s)) =
    map_sum id (map_option verdict) (check_pacman ck qs inst u (result_of b qs h s))"
proof -
  have s: "set ps = set qs" using m by (metis set_mset_mset)
  note o = oldest_mset [OF m, of "ck_cmp ck" inst]
  show ?thesis
  proof (cases "oldest_installed_ver (ck_cmp ck) qs inst")
    case None
    with o show ?thesis by (simp add: check_pacman_def)
  next
    case inst: (Some v)
    show ?thesis
    proof (cases u)
      case None
      with o inst show ?thesis by (simp add: check_pacman_def verdict_result_of)
    next
      case (Some d)
      obtain r where r1: "newest_update (ck_cmp ck) d ps None = Inr r" "r = None \<longleftrightarrow> (\<forall>p \<in> set ps. dget d p = None)"
        using newest_update_total [where cmp = "ck_cmp ck" and u = d and ps = ps and new = None] total by auto
      obtain r' where r2: "newest_update (ck_cmp ck) d qs None = Inr r'" "r' = None \<longleftrightarrow> (\<forall>p \<in> set qs. dget d p = None)"
        using newest_update_total [where cmp = "ck_cmp ck" and u = d and ps = qs and new = None] total by auto
      have r: "r = None \<longleftrightarrow> r' = None" using r1(2) r2(2) s by simp
      show ?thesis
        unfolding check_pacman_def o inst Some option.case r1(1) r2(1) sum.case
        using r by (auto simp: verdict_result_of split: option.split)
    qed
  qed
qed

lemma check_vcs_verdict:
  "verdict (check_vcs ck dir e g bu i v (result_of b ps h s)) = verdict (check_vcs ck dir e g bu i v (result_of b qs h s))"
  unfolding check_vcs_def Let_def
  by (auto simp: verdict_result_of split: option.split sum.split)

lemma check_source_order:
  assumes m: "mset ps = mset qs"
  shows "map_sum id (map_option verdict) (check_source ck b ps e sf inst sk rpc bu dir (result_of b ps h s)) =
    map_sum id (map_option verdict) (check_source ck b qs e sf inst sk rpc bu dir (result_of b qs h s))"
  unfolding check_source_def Let_def oldest_mset [OF candidates_mset [OF m]]
  by (simp add: verdict_result_of check_vcs_verdict [of ck dir e _ bu _ _ b ps h s qs] split: option.split sum.split)

lemma check_order:
  assumes m: "mset ps = mset qs"
    and total: "dget entry ''repo_class'' = Some ''pacman'' \<Longrightarrow> \<forall>x y. \<exists>n. ck_cmp ck x y = Inr n"
  shows "map_sum id (map_option verdict) (check_one_pkgbase ck b ps entry sf inst un sk rpc fd bu up) =
    map_sum id (map_option verdict) (check_one_pkgbase ck b qs entry sf inst un sk rpc fd bu up)"
proof -
  have un: "list_ex (\<lambda>pn. pn \<in> set un) ps = list_ex (\<lambda>pn. pn \<in> set un) qs"
    using m by (metis list_ex_iff set_mset_mset)
  show ?thesis
  proof (cases "dget entry ''repo_class'' = Some ''pacman''")
    case True
    with check_pacman_order [OF m, of ck inst up b] total show ?thesis
      by (simp add: check_one_pkgbase_def un)
  next
    case False
    then show ?thesis
      using check_source_order [OF m] oldest_mset [OF m, of "ck_cmp ck" inst]
      by (simp add: check_one_pkgbase_def Let_def un verdict_result_of option.map_comp comp_def split: option.split)
  qed
qed

text \<open>C18: the verdict on a pkgbase does not depend on the order in which its installed members
  arrive: the action, the installed version, the path and the record flags are the same for
  every permutation, and so is the version compared against, except the one shown for a pacman
  upgrade.\<close>

theorem check_order_independent:
  assumes "mset ps = mset qs"
    and "dget entry ''repo_class'' = Some ''pacman'' \<longrightarrow> (\<forall>x y. \<exists>n. ck_cmp ck x y = Inr n)"
  shows "map_sum id (map_option verdict) (check_one_pkgbase ck base ps entry sf inst un sk rpc fd built up) =
    map_sum id (map_option verdict) (check_one_pkgbase ck base qs entry sf inst un sk rpc fd built up)"
  using assms by (intro check_order) auto

section \<open>The laggard decides\<close>

lemma cmp_action_cases: "cmp_action n = a \<Longrightarrow>
    (a = ''NEEDS_REBUILD'' \<longleftrightarrow> n > 0) \<and> (a = ''UP_TO_DATE'' \<longleftrightarrow> n = 0) \<and> (a = ''DOWNGRADE'' \<longleftrightarrow> n < 0)"
  by (cases "n > 0"; cases "n = 0") (auto simp: cmp_action_def)

text \<open>A source check that compared two versions, and what it compared.\<close>

lemma check_source_compared:
  assumes "check_source ck b ps e sf inst sk rpc bu dir (result_of b ps h s) = Inr (Some r)"
    and "\<not> is_vcs_pkgbase b" "ur_pkgbuild_ver r = Some ver"
  shows "\<exists>o' n. oldest_installed_ver (ck_cmp ck) (check_candidates ck dir ps inst) inst = Some o' \<and>
    ck_cmp ck ver o' = Inr n \<and> ur_action r = cmp_action n \<and> ur_installed_ver r = Some o'"
  using assms
  by (auto simp: check_source_def result_of_def Let_def split: if_splits option.splits sum.splits)

lemma older_than_least:
  assumes "full_version ver" "full_version o'" "full_version v" "vercmp_local o' v \<le> 0" "vercmp_local v ver < 0"
  shows "vercmp_local ver o' > 0"
proof (rule ccontr)
  assume "\<not> vercmp_local ver o' > 0"
  then have "vercmp_local ver v \<le> 0" using local_order.cmp_le_trans [of ver o' v] assms by auto
  then show False using vercmp_local_flip [of v ver] assms(5) by linarith
qed

text \<open>
  The verdicts a source package's three actions stand for, over the installed versions of
  the members that count.
\<close>

definition verdict_right :: "string \<Rightarrow> string set \<Rightarrow> string \<Rightarrow> bool" where
  "verdict_right action vs ver \<longleftrightarrow>
     (action = ''NEEDS_REBUILD'' \<longleftrightarrow> (\<exists>v \<in> vs. vercmp_local v ver < 0)) \<and>
     (action = ''UP_TO_DATE'' \<longleftrightarrow> (\<forall>v \<in> vs. vercmp_local v ver \<ge> 0) \<and> (\<exists>v \<in> vs. vercmp_local v ver = 0)) \<and>
     (action = ''DOWNGRADE'' \<longleftrightarrow> (\<forall>v \<in> vs. vercmp_local v ver > 0))"

lemma verdict_rightI:
  assumes "full_version ver" "\<forall>v \<in> vs. full_version v" "o' \<in> vs" "\<forall>v \<in> vs. vercmp_local o' v \<le> 0"
    and "cmp_action (vercmp_local ver o') = action"
  shows "verdict_right action vs ver"
proof -
  have o': "full_version o'" using assms(2,3) by blast
  have flip: "vercmp_local o' ver = - vercmp_local ver o'" using vercmp_local_flip [of o' ver] by simp
  have lt: "(\<exists>v \<in> vs. vercmp_local v ver < 0) \<longleftrightarrow> vercmp_local ver o' > 0"
  proof
    assume "\<exists>v \<in> vs. vercmp_local v ver < 0"
    then show "vercmp_local ver o' > 0" using older_than_least [OF assms(1) o'] assms(2,4) by blast
  next
    assume "vercmp_local ver o' > 0"
    with flip have "vercmp_local o' ver < 0" by simp
    with assms(3) show "\<exists>v \<in> vs. vercmp_local v ver < 0" by blast
  qed
  have le: "vercmp_local o' ver \<le> 0" if "v \<in> vs" "vercmp_local v ver \<le> 0" for v
    using local_order.cmp_le_trans [of o' v ver] that assms(1,2,4) o' by blast
  note a = cmp_action_cases [OF assms(5)]
  note a1 = conjunct1 [OF a] and a2 = conjunct1 [OF conjunct2 [OF a]] and a3 = conjunct2 [OF conjunct2 [OF a]]
  have "action = ''UP_TO_DATE'' \<longleftrightarrow> (\<forall>v \<in> vs. vercmp_local v ver \<ge> 0) \<and> (\<exists>v \<in> vs. vercmp_local v ver = 0)"
  proof
    assume "action = ''UP_TO_DATE''"
    then have z: "vercmp_local ver o' = 0" by (rule iffD1 [OF a2])
    then have "\<not> vercmp_local ver o' > 0" by simp
    with iffD1 [OF lt] have "\<not> (\<exists>v \<in> vs. vercmp_local v ver < 0)" by blast
    then have "\<forall>v \<in> vs. vercmp_local v ver \<ge> 0" by (simp add: not_less)
    moreover have "vercmp_local o' ver = 0" using z flip by simp
    ultimately show "(\<forall>v \<in> vs. vercmp_local v ver \<ge> 0) \<and> (\<exists>v \<in> vs. vercmp_local v ver = 0)"
      using assms(3) by blast
  next
    assume r: "(\<forall>v \<in> vs. vercmp_local v ver \<ge> 0) \<and> (\<exists>v \<in> vs. vercmp_local v ver = 0)"
    then obtain v where "v \<in> vs" "vercmp_local v ver = 0" by blast
    with le have "vercmp_local o' ver \<le> 0" by auto
    moreover have "vercmp_local o' ver \<ge> 0" using r assms(3) by blast
    ultimately have "vercmp_local ver o' = 0" using flip by simp
    then show "action = ''UP_TO_DATE''" by (rule iffD2 [OF a2])
  qed
  moreover have "action = ''DOWNGRADE'' \<longleftrightarrow> (\<forall>v \<in> vs. vercmp_local v ver > 0)"
  proof
    assume "action = ''DOWNGRADE''"
    from iffD1 [OF a3 this] flip have pos: "vercmp_local o' ver > 0" by simp
    show "\<forall>v \<in> vs. vercmp_local v ver > 0"
    proof (rule ballI, rule ccontr)
      fix v
      assume v: "v \<in> vs" and n: "\<not> vercmp_local v ver > 0"
      from n have "vercmp_local v ver \<le> 0" by simp
      from le [OF v this] pos show False by simp
    qed
  next
    assume "\<forall>v \<in> vs. vercmp_local v ver > 0"
    with assms(3) have "vercmp_local o' ver > 0" by blast
    with flip have "vercmp_local ver o' < 0" by simp
    then show "action = ''DOWNGRADE''" by (rule iffD2 [OF a3])
  qed
  ultimately show ?thesis unfolding verdict_right_def using trans [OF a1 lt [symmetric]] by blast
qed

lemma check_one_source:
  assumes "dget entry ''repo_class'' \<noteq> Some ''pacman''" "\<not> is_vcs_pkgbase b"
    and "dget entry ''pkgbuild_dir'' = Some dir"
    and "check_one_pkgbase ck b ps entry sf inst un sk rpc fd bu up = Inr (Some r)"
    and "ur_pkgbuild_ver r = Some ver"
  shows "\<exists>o' n. oldest_installed_ver (ck_cmp ck) (check_candidates ck dir ps inst) inst = Some o' \<and>
    ck_cmp ck ver o' = Inr n \<and> ur_action r = cmp_action n \<and> ur_installed_ver r = Some o'"
  using check_source_compared [OF _ assms(2,5)] assms(1-4) by (simp add: check_one_pkgbase_def Let_def)

text \<open>C29: for a source package the verdict follows the oldest member that counts, the members
  the next build produces when installed versions differ: it is rebuilt exactly when one of
  them is older than the PKGBUILD, up to date exactly when none is older and one is equal, and
  a downgrade exactly when all are newer.  The comparison is assumed to be libalpm's on full
  versions.\<close>

theorem laggard_decides:
  assumes "cmp_agrees (ck_cmp ck)"
    and "dget entry ''repo_class'' \<noteq> Some ''pacman''" "\<not> is_vcs_pkgbase base"
    and "dget entry ''pkgbuild_dir'' = Some dir"
    and "check_one_pkgbase ck base names entry sf installed un sk rpc fd built up = Inr (Some r)"
    and "ur_pkgbuild_ver r = Some ver" "full_version ver"
    and "\<forall>v \<in> vers_of installed (check_candidates ck dir names installed). full_version v"
  shows "verdict_right (ur_action r) (vers_of installed (check_candidates ck dir names installed)) ver"
proof -
  obtain o' n where o': "oldest_installed_ver (ck_cmp ck) (check_candidates ck dir names installed) installed = Some o'"
    "ck_cmp ck ver o' = Inr n" "ur_action r = cmp_action n"
    using check_one_source [OF assms(2-6)] by blast
  from oldest_least [OF assms(1,8) o'(1)]
  have l: "o' \<in> vers_of installed (check_candidates ck dir names installed)"
    "\<forall>v \<in> vers_of installed (check_candidates ck dir names installed). vercmp_local o' v \<le> 0" by simp_all
  have "n = vercmp_local ver o'" using assms(1,7,8) l(1) o'(2) by (simp add: cmp_agrees_def)
  with o'(3) show ?thesis using verdict_rightI [OF assms(7,8) l] by simp
qed

section \<open>Split packages\<close>

lemma first_stock_sound:
  "dget (first_stock cands ok ms d) m = Some s \<Longrightarrow>
   dget d m = Some s \<or> m \<in> set ms \<and> s \<in> set (cands m) \<and> ok s"
proof (induction ms arbitrary: d)
  case Nil
  then show ?case by simp
next
  case (Cons a ms)
  then show ?case
    by (cases "find ok (cands a)") (fastforce simp: find_Some_iff dest: split: if_splits)+
qed

text \<open>
  A member is reported replaced only when it is not installed itself and its stock package,
  which is no member of the pkgbase, is installed and carried by a sync repo.
\<close>

lemma replaced_sound:
  assumes "dget (sm_replaced (detect_split_members in_repo base tracked declared rel inst)) m = Some s"
  shows "m \<in> set declared \<and> \<not> dhas inst m \<and> dhas inst s \<and> in_repo s \<and> s \<notin> set declared"
proof (cases "length declared < 2")
  case True
  with assms show ?thesis by (simp add: detect_split_members_def no_split_def)
next
  case False
  with assms have "dget (first_stock (\<lambda>m. stock_candidates rel m declared) (\<lambda>s. dhas inst s \<and> in_repo s)
      (filter (\<lambda>m. \<not> dhas inst m) declared) []) m = Some s"
    by (simp add: detect_split_members_def Let_def)
  from first_stock_sound [OF this] show ?thesis
    by (auto simp: stock_candidates_def sorted_set_def)
qed

section \<open>A kernel with a member left behind\<close>

definition demo_checker :: checker where
  "demo_checker =
     \<lparr>ck_cmp = (\<lambda>a b. Inr (vercmp_local a b)),
      ck_is_dir = (\<lambda>d. d = ''/b/linux''), ck_exists = (\<lambda>p. True),
      ck_parse = (\<lambda>p. Some \<lparr>pb_scalars = [(''pkgver'', ''6.9.2''), (''pkgrel'', ''1'')],
        pb_pkgname = Some (if p = ''/b/linux/PKGBUILD'' then PList [''linux'', ''linux-headers'', ''linux-docs'']
                           else PList [''linux'', ''linux-headers''])\<rparr>),
      ck_peek = (\<lambda>d. None), ck_eval = (\<lambda>d. None)\<rparr>"

definition demo_installed :: str_dict where
  "demo_installed = [(''linux'', ''6.9.2-1''), (''linux-headers'', ''6.9.10-1''), (''linux-docs'', ''6.8-1'')]"

definition demo_check :: "string list \<Rightarrow> check_error + update_result option" where
  "demo_check names = check_one_pkgbase demo_checker ''linux'' names [(''pkgbuild_dir'', ''/b/linux'')] []
     demo_installed [] False [] False None None"

lemma demo_check_run:
  "demo_check [''linux-docs'', ''linux'', ''linux-headers''] =
   Inr (Some (result_of ''linux'' [''linux-docs'', ''linux'', ''linux-headers''] True None ''UP_TO_DATE''
     (Some ''6.9.2-1'') (Some ''6.9.2-1'') (Some ''/b/linux/PKGBUILD'')))"
  by code_simp

theorem check_order_independent_witness:
  "map_sum id (map_option verdict) (demo_check [''linux-docs'', ''linux'', ''linux-headers'']) =
   map_sum id (map_option verdict) (demo_check [''linux'', ''linux-headers'', ''linux-docs''])"
  unfolding demo_check_def by (rule check_order_independent) simp_all

theorem laggard_decides_witness:
  "verdict_right ''UP_TO_DATE''
     (vers_of demo_installed (check_candidates demo_checker ''/b/linux'' [''linux-docs'', ''linux'', ''linux-headers''] demo_installed))
     ''6.9.2-1''"
proof -
  let ?names = "[''linux-docs'', ''linux'', ''linux-headers'']"
  have cands: "check_candidates demo_checker ''/b/linux'' ?names demo_installed = [''linux'', ''linux-headers'']"
    by code_simp
  have vers: "\<forall>v \<in> vers_of demo_installed [''linux'', ''linux-headers'']. full_version v"
  proof -
    have "full_version ''6.9.2-1''" "full_version ''6.9.10-1''" by code_simp+
    then show ?thesis by (auto simp: vers_of_def demo_installed_def)
  qed
  have "cmp_agrees (ck_cmp demo_checker)" by (simp add: cmp_agrees_def demo_checker_def)
  moreover have "\<not> is_vcs_pkgbase ''linux''" "full_version ''6.9.2-1''" by code_simp+
  ultimately show ?thesis
    using laggard_decides [OF _ _ _ _ demo_check_run [unfolded demo_check_def], of "''/b/linux''" "''6.9.2-1''"]
      vers by (simp add: cands result_of_def)
qed

end
