(* ===== verification/InstallReconcile.thy ===== *)
theory InstallReconcile
  imports BuildState
begin

text \<open>
  Model of \<open>sysforge/primitives/install_reconcile.py\<close>: the two sentinel files that tell an
  install by \<open>pacman -S\<close> from one of sysforge's own, and their one consumer.  The record
  \<open>sentinels\<close> holds the text of the two files, \<open>None\<close> for an absent one; the local package
  database and the sync databases are parameters, which may raise.  A file operation that the
  code performs best-effort is assumed to succeed, but for the append of the self-install
  record, whose failure is a parameter.

  The lemmas: the sentinel text parses back into the transactions that wrote it; a package is
  external exactly when the last transaction that touched it was not sysforge's own; what a
  reconcile demotes and which failures it clears.
\<close>

record sentinels =
  sn_buildstate :: "string option"
  sn_self :: "string option"

definition no_sentinels :: sentinels where
  "no_sentinels = \<lparr>sn_buildstate = None, sn_self = None\<rparr>"

section \<open>Timestamps\<close>

text \<open>
  \<open>datetime.strptime(line, "%Y-%m-%dT%H:%M:%SZ")\<close>: the fields between the literals of the
  format, each of one or two digits (the year of four, a day also with a blank for its first
  digit), and a date that exists.
\<close>

fun split_fields :: "char list \<Rightarrow> string \<Rightarrow> string list option" where
  "split_fields [] s = Some [s]"
| "split_fields (c # cs) s =
     (case partition1 c s of None \<Rightarrow> None | Some (h, t) \<Rightarrow> map_option (Cons h) (split_fields cs t))"

definition field_val :: "string \<Rightarrow> nat" where
  "field_val s = fold (\<lambda>c n. n * 10 + digit_val c) s 0"

definition num_field :: "nat \<Rightarrow> nat \<Rightarrow> string \<Rightarrow> bool" where
  "num_field lo hi s \<longleftrightarrow> s \<noteq> [] \<and> length s \<le> 2 \<and> list_all is_digit s \<and> lo \<le> field_val s \<and> field_val s \<le> hi"

definition month_days :: "nat \<Rightarrow> nat \<Rightarrow> nat" where
  "month_days y m =
     (if m = 2 then (if y mod 4 = 0 \<and> (y mod 100 \<noteq> 0 \<or> y mod 400 = 0) then 29 else 28)
      else if m \<in> {4, 6, 9, 11} then 30 else 31)"

definition strptime_ok :: "string \<Rightarrow> bool" where
  "strptime_ok line =
     (case split_fields ''--T::Z'' line of
        Some [y, m, d, h, mi, s, r] \<Rightarrow>
          length y = 4 \<and> list_all is_digit y \<and> field_val y \<ge> 1 \<and> num_field 1 12 m \<and>
          (let d' = (if starts_with '' '' d \<and> length d = 2 then tl d else d)
           in num_field 1 (month_days (field_val y) (field_val m)) d') \<and>
          num_field 0 23 h \<and> num_field 0 59 mi \<and> num_field 0 59 s \<and> r = []
      | _ \<Rightarrow> False)"

definition looks_like_timestamp :: "string \<Rightarrow> bool" where
  "looks_like_timestamp line =
     (if \<not> ends_with ''Z'' line \<or> \<not> contains ''T'' line then False else strptime_ok line)"

section \<open>Parsing the sentinels\<close>

text \<open>The events of the lines, from the loop's variables \<open>stamp\<close>, \<open>current\<close> and \<open>started\<close>.\<close>

fun parse_lines :: "string list \<Rightarrow> string \<Rightarrow> string list \<Rightarrow> bool \<Rightarrow> (string \<times> string list) list" where
  "parse_lines [] stamp current started = (if started then [(stamp, current)] else [])"
| "parse_lines (raw # ls) stamp current started =
     (let line = py_strip raw in
      if line = [] then
        (if started then (stamp, current) # parse_lines ls stamp [] False
         else parse_lines ls stamp current started)
      else if looks_like_timestamp line then
        (if started then (stamp, current) # parse_lines ls line [] True
         else parse_lines ls line current True)
      else parse_lines ls stamp (List.insert line current) started)"

definition parse_stamped_events :: "string \<Rightarrow> (string \<times> string list) list" where
  "parse_stamped_events text = parse_lines (splitlines text) [] [] False"

definition see :: "string \<Rightarrow> string \<Rightarrow> (string, string) dict \<Rightarrow> (string, string) dict" where
  "see stamp name seen = (if stamp \<ge> dget_or [] seen name then dset name stamp seen else seen)"

definition see_event :: "string \<times> string list \<Rightarrow> (string, string) dict \<Rightarrow> (string, string) dict" where
  "see_event ev seen = fold (see (fst ev)) (snd ev) seen"

definition last_seen :: "string option \<Rightarrow> (string, string) dict" where
  "last_seen text = (case text of None \<Rightarrow> [] | Some t \<Rightarrow> fold see_event (parse_stamped_events t) [])"

definition external_install_targets :: "sentinels \<Rightarrow> string list" where
  "external_install_targets sn =
     (let own = last_seen (sn_self sn)
      in map fst (filter (\<lambda>(name, stamp). stamp > dget_or [] own name) (last_seen (sn_buildstate sn))))"

definition window_targets :: "sentinels \<Rightarrow> string list" where
  "window_targets sn = map fst (last_seen (sn_buildstate sn))"

section \<open>Stale failures\<close>

definition failure_keys :: "bstate \<Rightarrow> string \<Rightarrow> string list" where
  "failure_keys s name =
     (let entry = dget_or [] (bs_packages s) (resolve_installed_name s name);
          field = (\<lambda>k. case get_str entry k of None \<Rightarrow> [] | Some v \<Rightarrow> [v]);
          keys = filter (\<lambda>k. k \<noteq> []) (name # field ''pkgbase'' @ field ''origin_pkgbase'');
          suffix = ''-'' @ RENAME_SUFFIX
      in keys @ map (drop_end suffix) (filter (ends_with suffix) keys))"

text \<open>\<open>bases\<close> maps each installed package to its \<open>%BASE%\<close> values.\<close>

definition present_names :: "(string, string list) dict \<Rightarrow> string list" where
  "present_names bases = map fst bases @ concat (map (\<lambda>f. take 1 (snd f)) bases)"

definition clear_base ::
    "(string, entry) dict \<Rightarrow> string list \<Rightarrow> string \<Rightarrow> bstate \<times> string list \<Rightarrow> bstate \<times> string list" where
  "clear_base failures present base st =
     (if \<not> dhas failures base \<or> base \<in> set (snd st) then st
      else if base \<in> set present \<or> base @ ''-'' @ RENAME_SUFFIX \<in> set present then st
      else (fst (clear_failure base (fst st)), snd st @ [base]))"

definition clear_name ::
    "(string, entry) dict \<Rightarrow> string list \<Rightarrow> string \<Rightarrow> bstate \<times> string list \<Rightarrow> bstate \<times> string list" where
  "clear_name failures present name st =
     fold (clear_base failures present) (sorted_set (failure_keys (fst st) name)) st"

definition clear_removed_failures ::
    "bstate \<Rightarrow> string list \<Rightarrow> (string, string list) dict \<Rightarrow> bstate \<times> string list" where
  "clear_removed_failures s removed bases =
     (let failures = bs_failures s in
      if failures = [] \<or> removed = [] then (s, [])
      else if bases = [] then (s, [])
      else fold (clear_name failures (present_names bases))
             (sorted_set (filter (\<lambda>n. \<not> dhas bases n) removed)) (s, []))"

definition clear_stale_failures ::
    "'e + (string, string list) dict \<Rightarrow> sentinels \<Rightarrow> bstate \<Rightarrow> 'e + bstate \<times> string list" where
  "clear_stale_failures read_fields sn s =
     (if bs_failures s = [] then Inr (s, [])
      else rbind read_fields (\<lambda>bases.
        Inr (clear_removed_failures s (window_targets sn @ map fst (bs_packages s)) bases)))"

section \<open>The consumer\<close>

definition clear_reconcile_sentinels :: "sentinels \<Rightarrow> sentinels" where
  "clear_reconcile_sentinels sn = sn\<lparr>sn_buildstate := None, sn_self := None\<rparr>"

record reconciled =
  rc_demoted :: "string list"
  rc_cleared :: "string list"

definition reconciled_changed :: "reconciled \<Rightarrow> bool" where
  "reconciled_changed r \<longleftrightarrow> rc_demoted r \<noteq> [] \<or> rc_cleared r \<noteq> []"

text \<open>\<open>in_repo\<close> says whether a sync repository carries a package.\<close>

fun filter_repo :: "(string \<Rightarrow> 'e + bool) \<Rightarrow> string list \<Rightarrow> 'e + string list" where
  "filter_repo in_repo [] = Inr []"
| "filter_repo in_repo (n # ns) =
     rbind (in_repo n) (\<lambda>b. rbind (filter_repo in_repo ns) (\<lambda>r. Inr (if b then n # r else r)))"

text \<open>The state, the sentinels and the result or the exception; the sentinels go either way.\<close>

definition consume_external_installs ::
    "(string \<Rightarrow> 'e + bool) \<Rightarrow> 'e + (string, string list) dict \<Rightarrow> bool \<Rightarrow> bstate \<Rightarrow> sentinels
     \<Rightarrow> bstate \<times> sentinels \<times> ('e + reconciled)" where
  "consume_external_installs in_repo read_fields read_only s sn =
     (let sn' = (if read_only then sn else clear_reconcile_sentinels sn) in
      case clear_stale_failures read_fields sn s of
        Inl e \<Rightarrow> (s, sn', Inl e)
      | Inr (s1, cleared) \<Rightarrow>
          (let external = external_install_targets sn in
           if external = [] then (s1, sn', Inr \<lparr>rc_demoted = [], rc_cleared = cleared\<rparr>)
           else (case filter_repo in_repo external of
                   Inl e \<Rightarrow> (s1, sn', Inl e)
                 | Inr names \<Rightarrow>
                     (let (s2, demoted) = (if names = [] then (s1, []) else reconcile_external_installs names s1)
                      in (s2, sn', Inr \<lparr>rc_demoted = demoted, rc_cleared = cleared\<rparr>)))))"

section \<open>Writing the sentinels\<close>

text \<open>The block the pacman hook appends, and the one \<open>record_self_install\<close> appends.\<close>

definition hook_block :: "string \<Rightarrow> string list \<Rightarrow> string" where
  "hook_block ts targets = ts @ [CHR 0x0A] @ concat (map (\<lambda>n. n @ [CHR 0x0A]) targets) @ [CHR 0x0A]"

definition append_text :: "string option \<Rightarrow> string \<Rightarrow> string option" where
  "append_text old block = Some ((case old of None \<Rightarrow> [] | Some t \<Rightarrow> t) @ block)"

definition hook_append :: "string \<Rightarrow> string list \<Rightarrow> sentinels \<Rightarrow> sentinels" where
  "hook_append ts targets sn = sn\<lparr>sn_buildstate := append_text (sn_buildstate sn) (hook_block ts targets)\<rparr>"

definition self_block :: "string \<Rightarrow> string list \<Rightarrow> string" where
  "self_block ts names = ts @ [CHR 0x0A] @ py_join [CHR 0x0A] names @ [CHR 0x0A, CHR 0x0A]"

definition record_self_install :: "bool \<Rightarrow> string \<Rightarrow> string list \<Rightarrow> sentinels \<Rightarrow> sentinels" where
  "record_self_install write_fails ts pkgnames sn =
     (let names = filter (\<lambda>n. n \<noteq> []) pkgnames in
      if names = [] \<or> write_fails then sn
      else sn\<lparr>sn_self := append_text (sn_self sn) (self_block ts names)\<rparr>)"

section \<open>Reading back the blocks\<close>

definition plain_line :: "string \<Rightarrow> bool" where
  "plain_line l \<longleftrightarrow> list_all (\<lambda>c. \<not> py_space c) l"

lemma splitlines_line: "plain_line a \<Longrightarrow> splitlines (a @ CHR 0x0A # r) = a # splitlines r"
  using lines_aux_line [of a "[]" r] line_end_space by (auto simp: splitlines_def plain_line_def list_all_iff)

definition block_text :: "string \<Rightarrow> string list \<Rightarrow> string" where
  "block_text ts names = concat (map (\<lambda>l. l @ [CHR 0x0A]) (ts # names @ [[]]))"

lemma hook_block_text: "hook_block ts names = block_text ts names"
  by (simp add: hook_block_def block_text_def)

lemma join_lines: "names \<noteq> [] \<Longrightarrow> py_join [CHR 0x0A] names @ [CHR 0x0A] = concat (map (\<lambda>l. l @ [CHR 0x0A]) names)"
  by (induction "[CHR 0x0A]" names rule: py_join.induct) simp_all

lemma self_block_text: "names \<noteq> [] \<Longrightarrow> self_block ts names = block_text ts names"
  using join_lines [of names] by (simp add: self_block_def block_text_def flip: append_assoc)

lemma splitlines_concat:
  "list_all plain_line ls \<Longrightarrow> splitlines (concat (map (\<lambda>l. l @ [CHR 0x0A]) ls) @ r) = ls @ splitlines r"
  by (induction ls) (simp_all add: splitlines_line)

text \<open>A stamp as both writers print it, and a package name as pacman has it.\<close>

definition stamp_ok :: "string \<Rightarrow> bool" where
  "stamp_ok t \<longleftrightarrow> tok_ok t \<and> looks_like_timestamp t"

definition name_line_ok :: "string \<Rightarrow> bool" where
  "name_line_ok n \<longleftrightarrow> tok_ok n \<and> \<not> looks_like_timestamp n"

lemma strip_nil [simp]: "py_strip [] = []"
  by (simp add: py_strip_def)

lemma parse_names:
  "list_all name_line_ok ns \<Longrightarrow> parse_lines (ns @ [] # ls) t cur True = (t, fold List.insert ns cur) # parse_lines ls t [] False"
  by (induction ns arbitrary: cur) (simp_all add: name_line_ok_def strip_tok tok_ok_def Let_def)

lemma parse_block:
  "stamp_ok t \<Longrightarrow> list_all name_line_ok ns \<Longrightarrow>
   parse_lines (t # ns @ [] # ls) st [] False = (t, fold List.insert ns []) # parse_lines ls t [] False"
  by (simp add: stamp_ok_def strip_tok tok_ok_def parse_names)

definition blocks_text :: "(string \<times> string list) list \<Rightarrow> string" where
  "blocks_text bs = concat (map (\<lambda>(t, ns). block_text t ns) bs)"

definition blocks_ok :: "(string \<times> string list) list \<Rightarrow> bool" where
  "blocks_ok bs \<longleftrightarrow> list_all (\<lambda>(t, ns). stamp_ok t \<and> list_all name_line_ok ns) bs"

lemma blocks_lines:
  "blocks_ok bs \<Longrightarrow> splitlines (blocks_text bs) = concat (map (\<lambda>(t, ns). t # ns @ [[]]) bs)"
proof (induction bs)
  case Nil
  show ?case by (simp add: blocks_text_def splitlines_def)
next
  case (Cons b bs)
  obtain t ns where b: "b = (t, ns)" by (cases b)
  have "list_all plain_line (t # ns @ [[]])"
    using Cons.prems by (auto simp: b blocks_ok_def stamp_ok_def name_line_ok_def tok_ok_def plain_line_def list_all_iff)
  with Cons splitlines_concat [OF this, of "blocks_text bs"] show ?case
    by (simp add: b blocks_text_def block_text_def blocks_ok_def)
qed

lemma parse_blocks_lines:
  "blocks_ok bs \<Longrightarrow> parse_lines (concat (map (\<lambda>(t, ns). t # ns @ [[]]) bs)) st [] False =
     map (\<lambda>(t, ns). (t, fold List.insert ns [])) bs"
proof (induction bs arbitrary: st)
  case (Cons b bs)
  then show ?case by (cases b) (simp add: blocks_ok_def parse_block del: parse_lines.simps)
qed simp

lemma parse_blocks:
  "blocks_ok bs \<Longrightarrow> parse_stamped_events (blocks_text bs) = map (\<lambda>(t, ns). (t, fold List.insert ns [])) bs"
  by (simp add: parse_stamped_events_def blocks_lines parse_blocks_lines)

lemma insert_names: "set (fold List.insert ns xs) = set ns \<union> set xs"
  by (induction ns arbitrary: xs) auto

section \<open>The latest event of a package\<close>

lemma fold_see:
  "dget_or [] d n \<le> t \<Longrightarrow>
   dget (fold (see t) ns d) n = (if n \<in> set ns then Some t else dget d n)"
proof (induction ns arbitrary: d)
  case Nil
  then show ?case by simp
next
  case (Cons m ns)
  then show ?case by (auto simp: see_def)
qed

text \<open>With stamps that do not decrease, the latest event is the last one.\<close>

definition latest :: "(string \<times> string list) list \<Rightarrow> string \<Rightarrow> string option" where
  "latest bs n = map_option fst (find (\<lambda>b. n \<in> set (snd b)) (rev bs))"

lemma latest_snoc: "latest (bs @ [(t, ns)]) n = (if n \<in> set ns then Some t else latest bs n)"
  by (simp add: latest_def)

lemma latest_in: "latest bs n = Some t \<Longrightarrow> t \<in> set (map fst bs)"
proof (induction bs rule: rev_induct)
  case (snoc b bs)
  then show ?case by (cases b) (auto simp: latest_snoc split: if_splits)
qed (simp add: latest_def)

lemma seen_latest:
  "sorted (map fst bs) \<Longrightarrow> dget (fold see_event bs []) n = latest bs n"
proof (induction bs rule: rev_induct)
  case Nil
  show ?case by (simp add: latest_def)
next
  case (snoc b bs)
  obtain t ns where b: "b = (t, ns)" by (cases b)
  have IH: "dget (fold see_event bs []) n = latest bs n" and le: "\<And>u. u \<in> set (map fst bs) \<Longrightarrow> u \<le> t"
    using snoc by (auto simp: b sorted_append)
  have "dget_or [] (fold see_event bs []) n \<le> t"
    using le latest_in [of bs n] by (auto simp: dget_or_def IH split: option.split)
  from fold_see [OF this, of ns] IH show ?case
    unfolding b fold_append comp_apply fold.simps id_apply see_event_def [of "(t, ns)"] fst_conv snd_conv latest_snoc
    by simp
qed

lemma latest_cong:
  "latest (map (\<lambda>(t, ns). (t, fold List.insert ns [])) bs) n = latest bs n"
proof (induction bs rule: rev_induct)
  case (snoc b bs)
  then show ?case by (cases b) (simp add: latest_snoc insert_names)
qed simp

lemma last_seen_blocks:
  "blocks_ok bs \<Longrightarrow> sorted (map fst bs) \<Longrightarrow> dget (last_seen (Some (blocks_text bs))) n = latest bs n"
proof -
  assume ok: "blocks_ok bs" "sorted (map fst bs)"
  have "map fst (map (\<lambda>(t, ns). (t, fold List.insert ns [])) bs) = map fst bs" by (simp add: comp_def case_prod_unfold)
  then show ?thesis by (simp only: last_seen_def option.case parse_blocks [OF ok(1)] seen_latest ok(2) latest_cong)
qed

lemma see_ok: "dict_ok d \<Longrightarrow> dict_ok (fold (see t) ns d)"
  by (induction ns arbitrary: d) (simp_all add: see_def)

lemma last_seen_ok: "dict_ok (last_seen text)"
proof -
  have "dict_ok (fold see_event bs d)" if "dict_ok d" for bs d
    using that by (induction bs arbitrary: d) (simp_all add: see_event_def see_ok)
  then show ?thesis by (simp add: last_seen_def split: option.split)
qed

section \<open>Who touched a package last\<close>

text \<open>
  A pacman transaction of the user, and an install of sysforge's own artifacts: the hook's
  stamp, the stamp of the record sysforge writes after it, and the packages.
\<close>

datatype txn = Extern string "string list" | Own string string "string list"

fun txn_start :: "txn \<Rightarrow> string" where
  "txn_start (Extern t ns) = t" | "txn_start (Own t u ns) = t"

fun txn_stop :: "txn \<Rightarrow> string" where
  "txn_stop (Extern t ns) = t" | "txn_stop (Own t u ns) = u"

fun txn_names :: "txn \<Rightarrow> string list" where
  "txn_names (Extern t ns) = ns" | "txn_names (Own t u ns) = ns"

fun is_extern :: "txn \<Rightarrow> bool" where
  "is_extern (Extern t ns) = True" | "is_extern (Own t u ns) = False"

fun apply_txn :: "txn \<Rightarrow> sentinels \<Rightarrow> sentinels" where
  "apply_txn (Extern t ns) sn = hook_append t ns sn"
| "apply_txn (Own t u ns) sn = record_self_install False u ns (hook_append t ns sn)"

definition txn_ok :: "txn \<Rightarrow> bool" where
  "txn_ok x \<longleftrightarrow> stamp_ok (txn_start x) \<and> stamp_ok (txn_stop x) \<and> txn_start x \<le> txn_stop x \<and>
     list_all name_line_ok (txn_names x) \<and> txn_names x \<noteq> []"

text \<open>Transactions one after the other, each in a later second than the one before.\<close>

definition log_ok :: "txn list \<Rightarrow> bool" where
  "log_ok xs \<longleftrightarrow> list_all txn_ok xs \<and> sorted_wrt (\<lambda>x y. txn_stop x < txn_start y) xs"

definition run_log :: "txn list \<Rightarrow> sentinels" where
  "run_log xs = fold apply_txn xs no_sentinels"

definition last_external :: "txn list \<Rightarrow> string \<Rightarrow> bool" where
  "last_external xs n \<longleftrightarrow> (case find (\<lambda>x. n \<in> set (txn_names x)) (rev xs) of None \<Rightarrow> False | Some x \<Rightarrow> is_extern x)"

definition hook_events :: "txn list \<Rightarrow> (string \<times> string list) list" where
  "hook_events xs = map (\<lambda>x. (txn_start x, txn_names x)) xs"

definition self_events :: "txn list \<Rightarrow> (string \<times> string list) list" where
  "self_events xs = map (\<lambda>x. (txn_stop x, txn_names x)) (filter (\<lambda>x. \<not> is_extern x) xs)"

definition text_of :: "(string \<times> string list) list \<Rightarrow> string option" where
  "text_of bs = (if bs = [] then None else Some (blocks_text bs))"

lemma append_block: "append_text (text_of bs) (block_text t ns) = text_of (bs @ [(t, ns)])"
  by (simp add: append_text_def text_of_def blocks_text_def)

lemma txn_names_nonempty: "txn_ok x \<Longrightarrow> filter (\<lambda>n. n \<noteq> []) (txn_names x) = txn_names x"
  unfolding filter_id_conv by (auto simp: txn_ok_def list_all_iff name_line_ok_def tok_ok_def)

lemma run_log_files:
  "list_all txn_ok xs \<Longrightarrow> run_log xs = \<lparr>sn_buildstate = text_of (hook_events xs), sn_self = text_of (self_events xs)\<rparr>"
proof (induction xs rule: rev_induct)
  case Nil
  show ?case by (simp add: run_log_def no_sentinels_def text_of_def hook_events_def self_events_def)
next
  case (snoc x xs)
  then have IH: "fold apply_txn xs no_sentinels = \<lparr>sn_buildstate = text_of (hook_events xs), sn_self = text_of (self_events xs)\<rparr>"
    and x: "txn_ok x" by (simp_all add: run_log_def)
  show ?case
  proof (cases x)
    case (Extern t ns)
    with IH show ?thesis
      by (simp add: run_log_def hook_append_def hook_block_text append_block hook_events_def self_events_def)
  next
    case (Own t u ns)
    have "filter (\<lambda>n. n \<noteq> []) ns = ns" "ns \<noteq> []" using txn_names_nonempty [OF x] x by (simp_all add: Own txn_ok_def)
    with Own IH show ?thesis
      by (simp add: run_log_def hook_append_def hook_block_text append_block hook_events_def self_events_def
          record_self_install_def Let_def self_block_text)
  qed
qed

lemma log_stamps:
  assumes "log_ok xs"
  shows "blocks_ok (hook_events xs)" "blocks_ok (self_events xs)" "sorted (map fst (hook_events xs))" "sorted (map fst (self_events xs))"
proof -
  have ok: "list_all txn_ok xs" and s: "sorted_wrt (\<lambda>x y. txn_stop x < txn_start y) xs" using assms by (simp_all add: log_ok_def)
  show "blocks_ok (hook_events xs)" "blocks_ok (self_events xs)"
    using ok by (auto simp: blocks_ok_def hook_events_def self_events_def list_all_iff txn_ok_def)
  have le: "x \<in> set xs \<Longrightarrow> txn_start x \<le> txn_stop x" for x using ok by (simp add: list_all_iff txn_ok_def)
  have "sorted_wrt (\<lambda>x y. txn_start x \<le> txn_start y) xs" "sorted_wrt (\<lambda>x y. txn_stop x \<le> txn_stop y) xs"
    by (rule sorted_wrt_mono_rel [OF _ s]; use le in fastforce)+
  then show "sorted (map fst (hook_events xs))" "sorted (map fst (self_events xs))"
    by (simp_all add: hook_events_def self_events_def sorted_map comp_def sorted_wrt_filter)
qed

lemma last_seen_text:
  "blocks_ok bs \<Longrightarrow> sorted (map fst bs) \<Longrightarrow> dget (last_seen (text_of bs)) n = latest bs n"
  by (simp add: text_of_def last_seen_blocks) (simp add: last_seen_def latest_def)

lemma latest_hook_snoc: "latest (hook_events (xs @ [x])) n = (if n \<in> set (txn_names x) then Some (txn_start x) else latest (hook_events xs) n)"
  by (simp add: hook_events_def latest_snoc)

lemma latest_self_snoc: "latest (self_events (xs @ [x])) n =
    (if n \<in> set (txn_names x) \<and> \<not> is_extern x then Some (txn_stop x) else latest (self_events xs) n)"
  by (simp add: self_events_def latest_snoc)

lemma last_external_snoc: "last_external (xs @ [x]) n = (if n \<in> set (txn_names x) then is_extern x else last_external xs n)"
  by (simp add: last_external_def)

lemma external_latest:
  assumes "log_ok xs"
  shows "(\<exists>t. latest (hook_events xs) n = Some t \<and> t > (case latest (self_events xs) n of None \<Rightarrow> [] | Some u \<Rightarrow> u)) \<longleftrightarrow>
    last_external xs n"
  using assms
proof (induction xs rule: rev_induct)
  case Nil
  show ?case by (simp add: latest_def hook_events_def last_external_def)
next
  case (snoc x xs)
  have ok: "log_ok xs" "txn_ok x" and lt: "\<And>y. y \<in> set xs \<Longrightarrow> txn_stop y < txn_start x"
    using snoc.prems by (simp_all add: log_ok_def sorted_wrt_append)
  show ?case
  proof (cases "n \<in> set (txn_names x)")
    case False
    with snoc.IH [OF ok(1)] show ?thesis by (simp add: latest_hook_snoc latest_self_snoc last_external_snoc)
  next
    case True
    have "txn_start x \<noteq> []" using ok(2) by (simp add: txn_ok_def stamp_ok_def tok_ok_def)
    then have "[] < txn_start x" by (cases "txn_start x") simp_all
    moreover have "u < txn_start x" if "latest (self_events xs) n = Some u" for u
      using lt latest_in [OF that] by (auto simp: self_events_def)
    moreover have "\<not> txn_stop x < txn_start x" using ok(2) by (simp add: txn_ok_def not_less)
    ultimately show ?thesis
      using True by (cases "is_extern x") (auto simp: latest_hook_snoc latest_self_snoc last_external_snoc split: option.split)
  qed
qed

lemma targets_log:
  assumes "log_ok xs"
  shows "n \<in> set (external_install_targets (run_log xs)) \<longleftrightarrow> last_external xs n"
proof -
  have files: "run_log xs = \<lparr>sn_buildstate = text_of (hook_events xs), sn_self = text_of (self_events xs)\<rparr>"
    using assms by (simp add: log_ok_def run_log_files)
  note st = log_stamps [OF assms]
  let ?b = "last_seen (text_of (hook_events xs))"
  have b: "dget ?b n = latest (hook_events xs) n" "dget (last_seen (text_of (self_events xs))) n = latest (self_events xs) n" for n
    using st by (simp_all add: last_seen_text)
  have ok: "dict_ok ?b" by (rule last_seen_ok)
  have "n \<in> set (external_install_targets (run_log xs)) \<longleftrightarrow>
      (\<exists>t. (n, t) \<in> set ?b \<and> t > dget_or [] (last_seen (text_of (self_events xs))) n)"
    by (force simp: external_install_targets_def Let_def files)
  also have "\<dots> \<longleftrightarrow> (\<exists>t. latest (hook_events xs) n = Some t \<and> t > (case latest (self_events xs) n of None \<Rightarrow> [] | Some u \<Rightarrow> u))"
    by (simp add: member_get [OF ok] b dget_or_def)
  also have "\<dots> \<longleftrightarrow> last_external xs n" by (rule external_latest [OF assms])
  finally show ?thesis .
qed

text \<open>Names before the first stamp join its block, or are lost when no stamp follows.\<close>

lemma unstamped_names:
  "parse_stamped_events (''foo'' @ [CHR 0x0A]) = []"
  "parse_stamped_events (''foo'' @ [CHR 0x0A, CHR 0x0A] @ hook_block ''2026-06-21T20:07:00Z'' [''bar'']) =
     [(''2026-06-21T20:07:00Z'', [''bar'', ''foo''])]"
  by code_simp+

text \<open>C15: for any log of pacman transactions, the user's and sysforge's own, each later than the one
  before, a package counts as installed externally exactly when the last transaction that touched
  it was the user's.\<close>

theorem external_iff_last_external:
  assumes "log_ok xs"
  shows "n \<in> set (external_install_targets (run_log xs)) \<longleftrightarrow> last_external xs n"
  using assms by (rule targets_log)

section \<open>Cleared failures\<close>

text \<open>A failure is stale when a package that left may have recorded it and no member of its base is left.\<close>

definition stale :: "bstate \<Rightarrow> string list \<Rightarrow> (string, string list) dict \<Rightarrow> string \<Rightarrow> bool" where
  "stale s removed bases b \<longleftrightarrow>
     (\<exists>n \<in> set removed. \<not> dhas bases n \<and> b \<in> set (failure_keys s n)) \<and>
     b \<notin> set (present_names bases) \<and> b @ ''-'' @ RENAME_SUFFIX \<notin> set (present_names bases)"

lemma clear_failure_simps [simp]:
  "bs_packages (fst (clear_failure b s)) = bs_packages s" "bs_reverted (fst (clear_failure b s)) = bs_reverted s"
  "bs_reviewed (fst (clear_failure b s)) = bs_reviewed s"
  "dget (bs_failures (fst (clear_failure b s))) c = (if c = b then None else dget (bs_failures s) c)"
  by (simp_all add: clear_failure_def)

lemma resolve_cong: "bs_packages s = bs_packages s' \<Longrightarrow> resolve_installed_name s n = resolve_installed_name s' n"
  by (simp only: resolve_installed_name_def)

lemma failure_keys_cong: "bs_packages s = bs_packages s' \<Longrightarrow> failure_keys s n = failure_keys s' n"
  by (simp only: failure_keys_def resolve_cong [of s s'])

lemma demote_targets_cong: "bs_packages s = bs_packages s' \<Longrightarrow> demote_targets s n = demote_targets s' n"
  by (simp only: demote_targets_def resolve_cong [of s s'])

definition clearable :: "(string, entry) dict \<Rightarrow> string list \<Rightarrow> string \<Rightarrow> bool" where
  "clearable failures present b \<longleftrightarrow> dhas failures b \<and> b \<notin> set present \<and> b @ ''-'' @ RENAME_SUFFIX \<notin> set present"

text \<open>What the loops keep: the names cleared so far are gone, nothing else changed.\<close>

definition clearing :: "bstate \<Rightarrow> bstate \<times> string list \<Rightarrow> bool" where
  "clearing s st \<longleftrightarrow>
     bs_packages (fst st) = bs_packages s \<and> bs_reverted (fst st) = bs_reverted s \<and> bs_reviewed (fst st) = bs_reviewed s \<and>
     distinct (snd st) \<and>
     (\<forall>c. dget (bs_failures (fst st)) c = (if c \<in> set (snd st) then None else dget (bs_failures s) c))"

lemma clear_bases:
  "clearing s st \<Longrightarrow>
   clearing s (fold (clear_base failures present) bs st) \<and>
   set (snd (fold (clear_base failures present) bs st)) = set (snd st) \<union> {b \<in> set bs. clearable failures present b}"
proof (induction bs arbitrary: st)
  case Nil
  then show ?case by simp
next
  case (Cons b bs)
  have step: "clearing s (clear_base failures present b st)"
    using Cons.prems by (simp add: clear_base_def clearing_def)
  have set: "set (snd (clear_base failures present b st)) = set (snd st) \<union> {c. c = b \<and> clearable failures present c}"
    by (auto simp: clear_base_def clearable_def)
  show ?case using Cons.IH [OF step] by (auto simp: set)
qed

lemma clear_names:
  "clearing s st \<Longrightarrow>
   clearing s (fold (clear_name failures present) ns st) \<and>
   set (snd (fold (clear_name failures present) ns st)) =
     set (snd st) \<union> {b. clearable failures present b \<and> (\<exists>n \<in> set ns. b \<in> set (failure_keys s n))}"
proof (induction ns arbitrary: st)
  case Nil
  then show ?case by simp
next
  case (Cons n ns)
  have keys: "failure_keys (fst st) n = failure_keys s n"
    using Cons.prems by (intro failure_keys_cong) (simp add: clearing_def)
  have eq: "clear_name failures present n st = fold (clear_base failures present) (sorted_set (failure_keys s n)) st"
    by (simp only: clear_name_def keys)
  note one = clear_bases [OF Cons.prems, of failures present "sorted_set (failure_keys s n)", folded eq]
  have mem: "set (sorted_set (failure_keys s n)) = set (failure_keys s n)" by (simp add: sorted_set_def)
  show ?case
    unfolding fold.simps comp_apply using Cons.IH [OF conjunct1 [OF one]] conjunct2 [OF one] mem by auto
qed

lemma clear_removed:
  assumes "clear_removed_failures s removed bases = (s', cleared)"
  shows "clearing s (s', cleared)"
    and "set cleared = {b. bases \<noteq> [] \<and> dhas (bs_failures s) b \<and> stale s removed bases b}"
proof -
  have "clearing s (s', cleared) \<and> set cleared = {b. bases \<noteq> [] \<and> dhas (bs_failures s) b \<and> stale s removed bases b}"
  proof (cases "bs_failures s = [] \<or> removed = [] \<or> bases = []")
    case True
    with assms have "s' = s" "cleared = []" by (auto simp: clear_removed_failures_def Let_def split: if_splits)
    with True show ?thesis by (auto simp: clearing_def stale_def dhas_def)
  next
    case False
    have "clearing s (s, [])" by (simp add: clearing_def)
    from clear_names [OF this, of "bs_failures s" "present_names bases" "sorted_set (filter (\<lambda>n. \<not> dhas bases n) removed)"]
      False assms show ?thesis
      by (auto simp: clear_removed_failures_def Let_def stale_def clearable_def sorted_set_def)
  qed
  then show "clearing s (s', cleared)"
    "set cleared = {b. bases \<noteq> [] \<and> dhas (bs_failures s) b \<and> stale s removed bases b}" by auto
qed

text \<open>A removal clears exactly the recorded failures of the bases it left without an installed
  member, reads of an empty database clear nothing, and no other part of the state changes.\<close>

theorem removal_clears_stale:
  assumes "clear_removed_failures s removed bases = (s', cleared)"
  shows "(\<forall>b. dhas (bs_failures s') b \<longleftrightarrow> dhas (bs_failures s) b \<and> \<not> (bases \<noteq> [] \<and> stale s removed bases b)) \<and>
    (\<forall>b. dhas (bs_failures s') b \<longrightarrow> dget (bs_failures s') b = dget (bs_failures s) b) \<and>
    set cleared = {b. dhas (bs_failures s) b \<and> \<not> dhas (bs_failures s') b} \<and>
    bs_packages s' = bs_packages s \<and> bs_reverted s' = bs_reverted s \<and> bs_reviewed s' = bs_reviewed s"
proof -
  note c = clear_removed(1) [OF assms, unfolded clearing_def fst_conv snd_conv]
  have get: "dget (bs_failures s') b = (if b \<in> set cleared then None else dget (bs_failures s) b)" for b
    using c by blast
  have gone: "b \<in> set cleared \<longleftrightarrow> bases \<noteq> [] \<and> dhas (bs_failures s) b \<and> stale s removed bases b" for b
    unfolding clear_removed(2) [OF assms] by (rule mem_Collect_eq)
  have has: "dhas (bs_failures s') b \<longleftrightarrow> dhas (bs_failures s) b \<and> b \<notin> set cleared" for b
    by (simp add: dhas_def get)
  have "set cleared = {b. dhas (bs_failures s) b \<and> \<not> dhas (bs_failures s') b}"
    using gone has by blast
  moreover have "dget (bs_failures s') b = dget (bs_failures s) b" if "dhas (bs_failures s') b" for b
    using that has get by simp
  moreover have "dhas (bs_failures s') b \<longleftrightarrow> dhas (bs_failures s) b \<and> \<not> (bases \<noteq> [] \<and> stale s removed bases b)" for b
    using has gone by blast
  ultimately show ?thesis using c by simp
qed

section \<open>The consumer\<close>

lemma filter_repo_filter:
  "filter_repo in_repo ns = Inr ms \<Longrightarrow> ms = filter (\<lambda>n. in_repo n = Inr True) ns"
proof (induction ns arbitrary: ms)
  case Nil
  then show ?case by simp
next
  case (Cons n ns)
  show ?case
  proof (cases "in_repo n")
    case (Inl e)
    with Cons.prems show ?thesis by simp
  next
    case n: (Inr b)
    show ?thesis
    proof (cases "filter_repo in_repo ns")
      case (Inl e)
      with Cons.prems n show ?thesis by simp
    next
      case (Inr r)
      with Cons.prems n have "ms = (if b then n # r else r)" by simp
      then show ?thesis by (simp add: Cons.IH [OF Inr] n)
    qed
  qed
qed

lemma filter_repo_set:
  "filter_repo in_repo ns = Inr ms \<Longrightarrow> set ms = {n \<in> set ns. in_repo n = Inr True}"
  by (drule filter_repo_filter) simp

lemma stale_failures_packages:
  "clear_stale_failures rf sn s = Inr (s1, cleared) \<Longrightarrow> clearing s (s1, cleared)"
proof -
  assume st: "clear_stale_failures rf sn s = Inr (s1, cleared)"
  show ?thesis
  proof (cases "bs_failures s = []")
    case True
    with st show ?thesis by (simp add: clear_stale_failures_def clearing_def)
  next
    case False
    with st obtain bases where "clear_removed_failures s (window_targets sn @ map fst (bs_packages s)) bases = (s1, cleared)"
      unfolding clear_stale_failures_def if_not_P [OF False] rbind_Inr_iff by (elim exE conjE) simp
    then show ?thesis by (rule clear_removed(1))
  qed
qed

lemma entry_of_cong: "bs_packages s = bs_packages s' \<Longrightarrow> entry_of s n = entry_of s' n"
  by (simp add: entry_of_def)

lemma consume_demotes:
  assumes "consume_external_installs in_repo rf ro s sn = (s', sn', Inr r)"
  shows "set (rc_demoted r) = {n. demotable (entry_of s n) \<and>
    (\<exists>m. m \<in> set (external_install_targets sn) \<and> in_repo m = Inr True \<and> n \<in> set (demote_targets s m))}"
    and "sn' = (if ro then sn else no_sentinels)"
    and "dget (bs_packages s') n = (if n \<in> set (rc_demoted r) then Some (demoted_entry (entry_of s n)) else dget (bs_packages s) n)"
proof -
  obtain s1 cleared where c: "clear_stale_failures rf sn s = Inr (s1, cleared)"
    using assms by (auto simp: consume_external_installs_def Let_def split: sum.splits)
  have pk: "bs_packages s1 = bs_packages s" using stale_failures_packages [OF c] by (simp add: clearing_def)
  show "sn' = (if ro then sn else no_sentinels)"
    using assms c by (auto simp: consume_external_installs_def Let_def clear_reconcile_sentinels_def no_sentinels_def
        split: sum.splits if_splits prod.splits)
  have "set (rc_demoted r) = {n. demotable (entry_of s n) \<and>
      (\<exists>m. m \<in> set (external_install_targets sn) \<and> in_repo m = Inr True \<and> n \<in> set (demote_targets s m))} \<and>
    (\<forall>n. dget (bs_packages s') n = (if n \<in> set (rc_demoted r) then Some (demoted_entry (entry_of s n)) else dget (bs_packages s) n))"
  proof (cases "external_install_targets sn = []")
    case True
    with assms c pk show ?thesis by (auto simp: consume_external_installs_def Let_def)
  next
    case False
    with assms c obtain ms where ms: "filter_repo in_repo (external_install_targets sn) = Inr ms"
      by (auto simp: consume_external_installs_def Let_def split: sum.splits)
    note set = filter_repo_set [OF ms]
    show ?thesis
    proof (cases "ms = []")
      case True
      with assms c False ms pk set show ?thesis by (auto simp: consume_external_installs_def Let_def)
    next
      case nonempty: False
      obtain s2 ds where d: "reconcile_external_installs ms s1 = (s2, ds)" by (cases "reconcile_external_installs ms s1")
      have r: "s' = s2" "rc_demoted r = ds" using assms c False ms nonempty d by (auto simp: consume_external_installs_def Let_def)
      note spec = reconcile_spec [OF d, folded entry_of_def]
      have "set ds = {n. demotable (entry_of s n) \<and> (\<exists>m \<in> set ms. n \<in> set (demote_targets s m))}"
        unfolding spec(3) targets_of_def by (auto simp: demote_targets_cong [OF pk] entry_of_cong [OF pk])
      then show ?thesis
        unfolding r using spec(4) set by (auto simp: pk entry_of_cong [OF pk])
    qed
  qed
  then show "set (rc_demoted r) = {n. demotable (entry_of s n) \<and>
      (\<exists>m. m \<in> set (external_install_targets sn) \<and> in_repo m = Inr True \<and> n \<in> set (demote_targets s m))}"
    and "dget (bs_packages s') n = (if n \<in> set (rc_demoted r) then Some (demoted_entry (entry_of s n)) else dget (bs_packages s) n)"
    by auto
qed

text \<open>C30: after a log of transactions, a reconcile that returns demotes exactly the packages that are
  built from source, owned by no stage and reached, by name, rename or pkgbase, from a package
  some repository carries and the user touched last; so nothing is demoted on account of
  sysforge's own installs.  The sentinels are cleared unless the run is read-only, and a second
  reconcile then demotes nothing.\<close>

theorem consume_demotes_users_choice:
  assumes "log_ok xs" "consume_external_installs in_repo rf ro s (run_log xs) = (s', sn', Inr r)"
  shows "set (rc_demoted r) = {n. demotable (entry_of s n) \<and>
      (\<exists>m. last_external xs m \<and> in_repo m = Inr True \<and> n \<in> set (demote_targets s m))} \<and>
    (\<forall>n. n \<notin> set (rc_demoted r) \<longrightarrow> dget (bs_packages s') n = dget (bs_packages s) n) \<and>
    (ro \<or> sn' = no_sentinels) \<and> (ro \<or> external_install_targets sn' = [])"
proof -
  have "external_install_targets no_sentinels = []"
    by (simp add: external_install_targets_def no_sentinels_def last_seen_def Let_def)
  with consume_demotes [OF assms(2)] targets_log [OF assms(1)] show ?thesis by auto
qed

section \<open>Witnesses\<close>

definition demo_log :: "txn list" where
  "demo_log =
     [Own ''2026-06-21T20:07:00Z'' ''2026-06-21T20:07:01Z'' [''mesa'', ''zlib''],
      Extern ''2026-06-22T08:00:00Z'' [''mesa'']]"

definition demo_tracked :: bstate where
  "demo_tracked =
     \<lparr>bs_packages =
        [(''mesa'', [(''pkgver'', PStr ''25''), (''pkgbase'', PStr ''mesa''), (''build_mode'', PStr ''source_built'')]),
         (''zlib'', [(''pkgver'', PStr ''1''), (''pkgbase'', PStr ''zlib''), (''build_mode'', PStr ''source_built'')])],
      bs_failures = [(''gone'', [(''error'', PStr ''bad'')]), (''mesa'', [(''error'', PStr ''bad'')])],
      bs_reverted = [], bs_reviewed = []\<rparr>"

lemma demo_log_ok: "log_ok demo_log"
  by code_simp

theorem external_iff_last_external_witness:
  "''mesa'' \<in> set (external_install_targets (run_log demo_log)) \<and>
   ''zlib'' \<notin> set (external_install_targets (run_log demo_log))"
  unfolding external_iff_last_external [OF demo_log_ok] by code_simp

theorem removal_clears_stale_witness:
  "\<exists>s' cleared. clear_removed_failures demo_tracked [''gone'', ''mesa''] [(''mesa'', [''mesa''])] = (s', cleared) \<and>
     \<not> dhas (bs_failures s') ''gone'' \<and> dhas (bs_failures s') ''mesa''"
proof -
  obtain s' cleared where r: "clear_removed_failures demo_tracked [''gone'', ''mesa''] [(''mesa'', [''mesa''])] = (s', cleared)"
    by (rule prod.exhaust)
  have "dhas (bs_failures demo_tracked) ''mesa'' \<and> \<not> stale demo_tracked [''gone'', ''mesa''] [(''mesa'', [''mesa''])] ''mesa''"
    "stale demo_tracked [''gone'', ''mesa''] [(''mesa'', [''mesa''])] ''gone''"
    by code_simp+
  with r removal_clears_stale [OF r] show ?thesis by blast
qed

definition demo_in_repo :: "string \<Rightarrow> unit + bool" where
  "demo_in_repo n = Inr True"

lemma demo_consume:
  "\<exists>s' sn' r. consume_external_installs demo_in_repo (Inr [(''mesa'', [''mesa''])]) False demo_tracked (run_log demo_log) = (s', sn', Inr r) \<and>
     rc_demoted r = [''mesa'']"
proof -
  have "(case consume_external_installs demo_in_repo (Inr [(''mesa'', [''mesa''])]) False demo_tracked (run_log demo_log) of
      (s', sn', Inr r) \<Rightarrow> rc_demoted r = [''mesa''] | _ \<Rightarrow> False)"
    by code_simp
  then show ?thesis by (auto split: prod.splits sum.splits)
qed

theorem consume_demotes_users_choice_witness:
  "\<exists>s' r. consume_external_installs demo_in_repo (Inr [(''mesa'', [''mesa''])]) False demo_tracked (run_log demo_log) =
       (s', no_sentinels, Inr r) \<and> rc_demoted r = [''mesa''] \<and>
     dget (bs_packages s') ''zlib'' = dget (bs_packages demo_tracked) ''zlib''"
proof -
  obtain s' sn' r where c: "consume_external_installs demo_in_repo (Inr [(''mesa'', [''mesa''])]) False demo_tracked (run_log demo_log) =
      (s', sn', Inr r)" and d: "rc_demoted r = [''mesa'']"
    using demo_consume by blast
  have z: "''zlib'' \<notin> set (rc_demoted r)" by (simp add: d)
  from consume_demotes_users_choice [OF demo_log_ok c] z
  have "sn' = no_sentinels" "dget (bs_packages s') ''zlib'' = dget (bs_packages demo_tracked) ''zlib''" by blast+
  with c d show ?thesis by blast
qed

end
