(* ===== verification/FlagDrift.thy ===== *)
theory FlagDrift
  imports Profile BuildState
begin

text \<open>
  Model of \<open>sysforge/primitives/flag_drift.py\<close>, of \<open>build_inputs.py\<close>, which it re-derives, and
  of what it calls of \<open>makepkg_conf.py\<close> (\<open>serialize_effective_flags\<close>), \<open>build_sandbox.py\<close>
  (\<open>for_profile\<close>) and \<open>pkgbuild_meta.py\<close> (\<open>option_disabled\<close>).  The PKGBUILD parser, the profile
  embedded in a PKGBUILD, the hardware and interpreter probes and the PGO store are fields of
  the record \<open>drift_env\<close>.  Profiles are those of theory \<open>Profile\<close>, records those of
  \<open>BuildState\<close>.

  The lemmas: the diff of two flag strings is empty exactly when they hold the same flags; a
  package just built with the current configuration has not drifted; drift of the flags is
  exactly a change of an effective flag; and two cases that go wrong, a build recorded with no
  flags at all and a record restored after a reload.
\<close>

section \<open>Diffs\<close>

definition parse_flag_line :: "string \<Rightarrow> (string, string) dict \<Rightarrow> (string, string) dict" where
  "parse_flag_line l d = (case partition1 CHR ''='' l of None \<Rightarrow> d | Some (k, v) \<Rightarrow> dset (py_strip k) v d)"

definition parse_flags :: "string \<Rightarrow> (string, string) dict" where
  "parse_flags s = fold parse_flag_line (splitlines s) []"

definition diff_line :: "string \<Rightarrow> (string, string) dict \<Rightarrow> (string, string) dict \<Rightarrow> string \<Rightarrow> string list" where
  "diff_line arrow old new key =
     (case (dget old key, dget new key) of
        (None, Some v) \<Rightarrow> [''  +'' @ key @ '': '' @ py_repr v]
      | (Some u, None) \<Rightarrow> [''  -'' @ key @ '': '' @ py_repr u]
      | (Some u, Some v) \<Rightarrow>
          if u \<noteq> v then [''  '' @ key @ '': '' @ py_repr u @ '' '' @ arrow @ '' '' @ py_repr v] else []
      | (None, None) \<Rightarrow> [])"

definition diff_flags :: "string \<Rightarrow> string \<Rightarrow> string \<Rightarrow> string list" where
  "diff_flags arrow stored current =
     (let old = parse_flags stored; new = parse_flags current
      in concat (map (diff_line arrow old new) (sorted_set (map fst old @ map fst new))))"

section \<open>Build inputs\<close>

record drift_env =
  de_exists :: "string \<Rightarrow> bool"
  de_parse :: "string \<Rightarrow> string + pkg_globals"
  de_extract :: "pkg_globals \<Rightarrow> string \<Rightarrow> profile option"
  de_repo_rust :: "string \<Rightarrow> bool"
  de_env_cc :: string
  de_python :: "string option"
  de_drivers :: "(string list \<times> string list) option"
  de_targets :: "string list"
  de_profdata :: "string \<Rightarrow> string option"
  de_arrow :: string

definition inputs_pkgbase :: "pkg_globals \<Rightarrow> string option" where
  "inputs_pkgbase g =
     (let base = dget g ''pkgbase'';
          name = (if base \<noteq> None \<and> pyval_true (the base) then base else dget g ''pkgname'');
          s = (case name of Some (PStr n) \<Rightarrow> n | Some (PList (x # xs)) \<Rightarrow> x | _ \<Rightarrow> [])
      in if s = [] then None else Some s)"

definition is_python_package :: "pkg_globals \<Rightarrow> bool" where
  "is_python_package g =
     (let deps = (case dget g ''depends'' of Some (PList xs) \<Rightarrow> xs | Some (PStr s) \<Rightarrow> (if s = [] then [] else [s]) | _ \<Rightarrow> [])
      in list_ex (\<lambda>dep. let name = py_strip (takeWhile (\<lambda>c. c \<notin> {CHR ''<'', CHR ''>'', CHR ''='', CHR '':''}) dep)
                         in name = ''python'' \<or> starts_with ''python-'' name) deps)"

definition LLVM_PKGBASE_PATTERNS :: "string list" where
  "LLVM_PKGBASE_PATTERNS =
     [''llvm'', ''lib32-llvm'', ''clang'', ''lib32-clang'', ''compiler-rt'', ''lib32-compiler-rt'', ''lld'', ''lib32-lld'']"

definition is_llvm_pkgbase :: "string option \<Rightarrow> bool" where
  "is_llvm_pkgbase b =
     (truthy b \<and> list_ex (\<lambda>p. the b = p \<or> starts_with (p @ ''-'') (the b)) LLVM_PKGBASE_PATTERNS)"

text \<open>\<open>None\<close> where the compiler is no string, which \<open>is_llvm_toolchain\<close> cannot take.\<close>

definition clang_compiler :: "pyval \<Rightarrow> bool option" where
  "clang_compiler cc =
     (if \<not> pyval_true cc then Some False else (case cc of PStr s \<Rightarrow> Some (is_llvm_toolchain (Some s)) | _ \<Rightarrow> None))"

definition put_input :: "string \<Rightarrow> string option \<Rightarrow> (string, string) dict \<Rightarrow> (string, string) dict" where
  "put_input k v d = (case v of None \<Rightarrow> d | Some x \<Rightarrow> dset k x d)"

definition resolve_build_inputs ::
    "drift_env \<Rightarrow> pkg_globals \<Rightarrow> pyval \<Rightarrow> string option \<Rightarrow> (string, string) dict option" where
  "resolve_build_inputs env g cc owner =
     (let base = inputs_pkgbase g;
          python = (if is_python_package g \<and> truthy (de_python env) then de_python env else None);
          drivers = (if is_mesa_pkgbase base then de_drivers env else None);
          targets = (if is_llvm_pkgbase base \<and> \<not> starts_with ''lib32-'' (the base) \<and> de_targets env \<noteq> []
                     then Some (py_join '';'' (de_targets env)) else None);
          inputs = put_input ''llvm_targets'' targets
                     (put_input ''mesa_vulkan'' (map_option (\<lambda>(g, v). py_join '','' v) drivers)
                       (put_input ''mesa_gallium'' (map_option (\<lambda>(g, v). py_join '','' g) drivers)
                         (put_input ''python'' python [])))
      in if base = None \<or> owner \<noteq> None then Some inputs
         else map_option
                (\<lambda>clang. put_input ''pgo_profile'' (if clang then de_profdata env (the base) else None) inputs)
                (clang_compiler cc))"

definition serialize_build_inputs :: "(string, string) dict \<Rightarrow> string" where
  "serialize_build_inputs d = concat (map (\<lambda>k. k @ ''='' @ the (dget d k) @ [CHR 0x0A]) (py_sorted (map fst d)))"

definition build_cc :: "drift_env \<Rightarrow> profile \<Rightarrow> pyval" where
  "build_cc env resolved =
     (case dget resolved ''CC'' of Some v \<Rightarrow> if pyval_true v then v else PStr (de_env_cc env) | None \<Rightarrow> PStr (de_env_cc env))"

section \<open>Effective flags and the sandbox\<close>

text \<open>The map whose flags a build gets, and its serialization.\<close>

definition effective_profile ::
    "bool \<Rightarrow> (string, string) dict \<Rightarrow> (string, string list) dict \<Rightarrow> groups \<Rightarrow> profile \<Rightarrow> profile" where
  "effective_profile kernel_build sys preserved cg resolved =
     (if kernel_build then filter (\<lambda>(k, v). k \<notin> set KERNEL_CLEAN_KEYS) resolved
      else if \<not> pyval_true (dget_or (PBool True) resolved ''preserve_system_tokens'') then resolved
      else if preserved = [] then resolved
      else fst (apply_preserved_system_tokens resolved sys preserved cg True))"

definition serialize_effective_flags ::
    "bool \<Rightarrow> (string, string) dict \<Rightarrow> (string, string list) dict \<Rightarrow> groups \<Rightarrow> profile \<Rightarrow> string" where
  "serialize_effective_flags kernel_build sys preserved cg resolved =
     serialize_flags (effective_profile kernel_build sys preserved cg resolved)"

record sandbox_policy =
  sp_enabled :: bool
  sp_chroot_dir :: "string option"
  sp_clean :: bool
  sp_update :: bool
  sp_local_repo :: bool

definition for_profile :: "sandbox_policy \<Rightarrow> profile \<Rightarrow> sandbox_policy" where
  "for_profile policy resolved =
     (case dget resolved ''sandbox_builds'' of
        None \<Rightarrow> policy
      | Some v \<Rightarrow> policy\<lparr>sp_enabled := pyval_true v\<rparr>)"

definition sandboxed_for :: "string option \<Rightarrow> profile \<Rightarrow> sandbox_policy \<Rightarrow> pyval option \<Rightarrow> bool" where
  "sandboxed_for owner resolved policy mode =
     (let suppressed = (mode = Some (PStr ''kernel'') \<or> owner \<in> {Some ''kernel'', Some ''toolchain''})
      in if suppressed then False else sp_enabled (for_profile policy resolved))"

definition bool_repr :: "bool \<Rightarrow> string" where
  "bool_repr b = (if b then ''True'' else ''False'')"

definition sandbox_diff ::
    "string \<Rightarrow> entry \<Rightarrow> profile \<Rightarrow> sandbox_policy option \<Rightarrow> pyval option \<Rightarrow> string list" where
  "sandbox_diff arrow entry resolved policy mode =
     (case (policy, dget entry ''sandboxed'') of
        (Some p, Some v) \<Rightarrow>
          (let current = sandboxed_for (get_str entry ''owner_stage'') resolved p mode; stored = pyval_true v
           in if stored = current then []
              else [''  sandboxed: '' @ bool_repr stored @ '' '' @ arrow @ '' '' @ bool_repr current])
      | _ \<Rightarrow> [])"

definition inputs_diff :: "drift_env \<Rightarrow> entry \<Rightarrow> pkg_globals \<Rightarrow> profile \<Rightarrow> bool \<Rightarrow> string list" where
  "inputs_diff env entry g resolved state =
     (if \<not> state \<or> \<not> dhas entry ''build_inputs'' then []
      else (case resolve_build_inputs env g (build_cc env resolved) (get_str entry ''owner_stage'') of
              None \<Rightarrow> []
            | Some d \<Rightarrow>
                diff_flags (de_arrow env) (case get_str entry ''build_inputs'' of None \<Rightarrow> [] | Some s \<Rightarrow> s)
                  (serialize_build_inputs d)))"

definition options_list_disabled :: "string list \<Rightarrow> string \<Rightarrow> bool" where
  "options_list_disabled options name =
     fold (\<lambda>tok disabled. if tok = name then False else if tok = ''!'' @ name then True else disabled) options False"

definition option_disabled :: "pkg_globals \<Rightarrow> string \<Rightarrow> bool" where
  "option_disabled g name = options_list_disabled (meta_list g ''options'') name"

section \<open>The current profile\<close>

datatype drift_error = ProfileFailed profile_error | MissingDir

text \<open>The build mode and the profile a fresh build would use.\<close>

definition resolve_for ::
    "drift_env \<Rightarrow> config \<Rightarrow> rule list \<Rightarrow> groups \<Rightarrow> pkg_globals \<Rightarrow> string \<Rightarrow> drift_error + pyval option \<times> profile" where
  "resolve_for env cfg rules cg g path =
     map_sum ProfileFailed id
       (let matched = match_rules g rules in
        rbind (get_build_mode matched cfg) (\<lambda>mode.
        rbind (build_mode_uses_extracted_profile mode) (\<lambda>embedded.
        rbind (resolve_profile g matched cfg cg (if embedded then de_extract env g path else None)) (\<lambda>resolved.
        Inr (mode, resolved)))))"

definition resolve_current ::
    "drift_env \<Rightarrow> config \<Rightarrow> rule list \<Rightarrow> groups \<Rightarrow> entry \<Rightarrow> drift_error + (pyval option \<times> profile) option" where
  "resolve_current env cfg rules cg entry =
     (let raw = get_str entry ''pkgbuild_dir''; path = path_join (the raw) ''PKGBUILD'' in
      if \<not> truthy raw then Inr None
      else if \<not> de_exists env path then Inr None
      else (case de_parse env path of
              Inl e \<Rightarrow> Inr None
            | Inr g \<Rightarrow> rbind (resolve_for env cfg rules cg g path) (\<lambda>r. Inr (Some r))))"

definition current_sandboxed ::
    "drift_env \<Rightarrow> config \<Rightarrow> rule list \<Rightarrow> groups \<Rightarrow> sandbox_policy \<Rightarrow> entry \<Rightarrow> drift_error + bool option" where
  "current_sandboxed env cfg rules cg policy entry =
     rbind (resolve_current env cfg rules cg entry) (\<lambda>current.
     Inr (map_option (\<lambda>(mode, resolved). sandboxed_for (get_str entry ''owner_stage'') resolved policy mode) current))"

definition builds_with_repo_compiler ::
    "drift_env \<Rightarrow> config \<Rightarrow> rule list \<Rightarrow> groups \<Rightarrow> sandbox_policy \<Rightarrow> entry \<Rightarrow> drift_error + bool option" where
  "builds_with_repo_compiler env cfg rules cg policy entry =
     rbind (current_sandboxed env cfg rules cg policy entry) (\<lambda>sandboxed.
     Inr (map_option
            (\<lambda>b. b \<and> de_repo_rust env (path_join (the (get_str entry ''pkgbuild_dir'')) ''PKGBUILD'')) sandboxed))"

definition current_compiler ::
    "drift_env \<Rightarrow> config \<Rightarrow> rule list \<Rightarrow> groups \<Rightarrow> entry \<Rightarrow> drift_error + pyval option" where
  "current_compiler env cfg rules cg entry =
     rbind (resolve_current env cfg rules cg entry) (\<lambda>current.
     Inr (case current of None \<Rightarrow> None | Some (mode, resolved) \<Rightarrow> dget resolved ''CC''))"

section \<open>Drift\<close>

datatype drift_status =
    Drifted | InSync | NotProfiled | BuildflagsIgnored | CompilesNothing | NoPkgbuild | NoFlags | ParseFailed

record drift_result =
  fd_status :: drift_status
  fd_diffs :: "string list"
  fd_stored :: "string option"
  fd_current :: "string option"
  fd_path :: "string option"
  fd_error :: "string option"

definition drift_report ::
    "drift_status \<Rightarrow> string list \<Rightarrow> string option \<Rightarrow> string option \<Rightarrow> string option \<Rightarrow> string option \<Rightarrow> drift_result" where
  "drift_report status diffs stored current path err =
     \<lparr>fd_status = status, fd_diffs = diffs, fd_stored = stored, fd_current = current, fd_path = path, fd_error = err\<rparr>"

definition is_pgo_mode :: "string option \<Rightarrow> bool" where
  "is_pgo_mode mode \<longleftrightarrow> mode = Some ''pgo''"

definition drift_candidate :: "entry \<Rightarrow> bool" where
  "drift_candidate entry \<longleftrightarrow>
     is_source_build_mode (get_str entry ''build_mode'') \<or>
     is_pgo_mode (get_str entry ''build_mode'') \<and> dhas entry ''build_inputs''"

text \<open>A stored string as a kernel build's: without the keys such a build never receives.\<close>

definition kernel_stored :: "string \<Rightarrow> string" where
  "kernel_stored s =
     py_join [CHR 0x0A]
       (filter (\<lambda>l. py_strip (case partition1 CHR ''='' l of None \<Rightarrow> l | Some (k, v) \<Rightarrow> k) \<notin> set KERNEL_CLEAN_KEYS)
         (splitlines s))"

text \<open>The verdict, once the profile is resolved and the other axes are judged.\<close>

definition judge_flags ::
    "drift_env \<Rightarrow> (string, string) dict \<Rightarrow> (string, string list) dict \<Rightarrow> groups \<Rightarrow> entry \<Rightarrow> pkg_globals
     \<Rightarrow> pyval option \<Rightarrow> profile \<Rightarrow> string option \<Rightarrow> string list \<Rightarrow> string \<Rightarrow> drift_result" where
  "judge_flags env sys preserved cg entry g mode resolved stored sub path =
     (if \<not> truthy stored then
        (if sub \<noteq> [] then drift_report Drifted sub None None (Some path) None
         else drift_report NoFlags [] None None (Some path) None)
      else if option_disabled g ''buildflags'' then
        (if sub \<noteq> [] then drift_report Drifted sub stored None (Some path) None
         else drift_report BuildflagsIgnored [] stored None (Some path) None)
      else if dget entry ''compiles'' = Some (PBool False) then
        (if sub \<noteq> [] then drift_report Drifted sub stored None (Some path) None
         else drift_report CompilesNothing [] stored None (Some path) None)
      else
        (let kernel_build = (mode = Some (PStr ''kernel'') \<or> get_str entry ''owner_stage'' = Some ''kernel'');
             current = serialize_effective_flags kernel_build sys preserved cg resolved;
             old = (if kernel_build then kernel_stored (the stored) else the stored);
             diffs = diff_flags (de_arrow env) old current @ sub
         in drift_report (if diffs \<noteq> [] then Drifted else InSync) diffs (Some old) (Some current) (Some path) None))"

definition resolve_flag_drift ::
    "drift_env \<Rightarrow> config \<Rightarrow> rule list \<Rightarrow> groups \<Rightarrow> (string, string) dict \<Rightarrow> (string, string list) dict
     \<Rightarrow> sandbox_policy option \<Rightarrow> bool \<Rightarrow> entry \<Rightarrow> drift_error + drift_result" where
  "resolve_flag_drift env cfg rules cg sys preserved policy state entry =
     (let inputs_only = is_pgo_mode (get_str entry ''build_mode'') in
      if \<not> drift_candidate entry \<or> (inputs_only \<and> \<not> state) then
        Inr (drift_report NotProfiled [] None None None None)
      else (case get_str entry ''pkgbuild_dir'' of
        None \<Rightarrow> Inl MissingDir
      | Some dir \<Rightarrow>
          (let path = path_join dir ''PKGBUILD'' in
           if \<not> de_exists env path then Inr (drift_report NoPkgbuild [] None None (Some path) None)
           else
             (let stored = (if inputs_only then None else get_str entry ''flags_string'');
                  sandbox_judged = (\<not> inputs_only \<and> policy \<noteq> None \<and> dhas entry ''sandboxed'');
                  inputs_judged = (state \<and> dhas entry ''build_inputs'')
              in if \<not> truthy stored \<and> \<not> sandbox_judged \<and> \<not> inputs_judged then
                   Inr (drift_report NoFlags [] None None (Some path) None)
                 else (case de_parse env path of
                   Inl err \<Rightarrow>
                     if \<not> truthy stored then Inr (drift_report NoFlags [] None None (Some path) None)
                     else Inr (drift_report ParseFailed [] None None (Some path) (Some err))
                 | Inr g \<Rightarrow>
                     rbind (resolve_for env cfg rules cg g path) (\<lambda>(mode, resolved).
                       let sub = (if sandbox_judged then sandbox_diff (de_arrow env) entry resolved policy mode else []) @
                                 inputs_diff env entry g resolved state
                       in Inr (judge_flags env sys preserved cg entry g mode resolved stored sub path)))))))"

section \<open>The diff\<close>

definition differ :: "string \<Rightarrow> string \<Rightarrow> string set" where
  "differ s t = {k. dget (parse_flags s) k \<noteq> dget (parse_flags t) k}"

lemma diff_line_length: "length (diff_line arrow old new k) = (if dget old k = dget new k then 0 else 1)"
  by (simp add: diff_line_def split: option.split)

lemma length_diff_flags: "length (diff_flags arrow s t) = card (differ s t)"
proof -
  let ?old = "parse_flags s" and ?new = "parse_flags t"
  let ?ks = "sorted_set (map fst ?old @ map fst ?new)"
  have len: "length (concat (map (diff_line arrow ?old ?new) ks)) = length (filter (\<lambda>k. dget ?old k \<noteq> dget ?new k) ks)" for ks
    by (induction ks) (simp_all add: diff_line_length)
  have key: "dget d k \<noteq> None \<longleftrightarrow> k \<in> set (map fst d)" for d :: "(string, string) dict" and k
    by (simp add: map_of_eq_None_iff del: set_map) (simp add: image_iff)
  have mem: "k \<in> set ?ks \<longleftrightarrow> dget ?old k \<noteq> None \<or> dget ?new k \<noteq> None" for k
    unfolding key sorted_set_def set_sort set_remdups set_append by (rule Un_iff)
  have "k \<in> set (filter (\<lambda>k. dget ?old k \<noteq> dget ?new k) ?ks) \<longleftrightarrow> k \<in> differ s t" for k
    unfolding set_filter mem_Collect_eq mem differ_def by (cases "dget ?old k"; cases "dget ?new k") simp_all
  then have "set (filter (\<lambda>k. dget ?old k \<noteq> dget ?new k) ?ks) = differ s t" by (rule set_eqI)
  moreover have "distinct (filter (\<lambda>k. dget ?old k \<noteq> dget ?new k) ?ks)" by (simp add: sorted_set_def)
  ultimately show ?thesis unfolding diff_flags_def Let_def len by (metis distinct_card)
qed

lemma finite_differ: "finite (differ s t)"
proof -
  have "differ s t \<subseteq> dom (dget (parse_flags s)) \<union> dom (dget (parse_flags t))" by (auto simp: differ_def)
  then show ?thesis by (rule finite_subset) (simp add: finite_dom_map_of)
qed

lemma diff_flags_empty: "diff_flags arrow s t = [] \<longleftrightarrow> differ s t = {}"
  using length_diff_flags [of arrow s t] finite_differ by (metis card_0_eq length_0_conv)

lemma differ_same [simp]: "differ s s = {}"
  by (simp add: differ_def)

text \<open>A flag diff has one line for each key whose value differs between the two strings, so it is
  empty exactly when they hold the same flags, whatever the order of their lines.\<close>

theorem diff_flags_counts:
  "length (diff_flags arrow stored current) =
     card {k. dget (parse_flags stored) k \<noteq> dget (parse_flags current) k} \<and>
   (diff_flags arrow stored current = [] \<longleftrightarrow> dget (parse_flags stored) = dget (parse_flags current))"
  using length_diff_flags [of arrow stored current] diff_flags_empty [of arrow stored current]
  by (auto simp: differ_def fun_eq_iff)

section \<open>Reading serialized flags\<close>

text \<open>Flags on one line each, under keys the parser keeps as they are.\<close>

definition plain_flags :: "profile \<Rightarrow> bool" where
  "plain_flags p \<longleftrightarrow> (\<forall>k v. flag_view p k = Some v \<longrightarrow>
     py_strip k = k \<and> CHR ''='' \<notin> set k \<and> list_all (\<lambda>c. \<not> line_end c) k \<and> list_all (\<lambda>c. \<not> line_end c) v)"

lemma parse_view_line: "CHR ''='' \<notin> set k \<Longrightarrow> py_strip k = k \<Longrightarrow> parse_flag_line (view_line w k) d = dset k (the (w k)) d"
  by (simp add: parse_flag_line_def view_line_def partition1_append)

lemma fold_view_lines:
  "(\<And>k. k \<in> set ks \<Longrightarrow> CHR ''='' \<notin> set k \<and> py_strip k = k) \<Longrightarrow>
   dget (fold parse_flag_line (map (view_line w) ks) d) j = (if j \<in> set ks then Some (the (w j)) else dget d j)"
  by (induction ks arbitrary: d) (auto simp: parse_view_line)

lemma view_lines_ok:
  "plain_flags p \<Longrightarrow> list_all (\<lambda>l. l \<noteq> [] \<and> list_all (\<lambda>c. \<not> line_end c) l) (map (view_line (flag_view p)) (flag_keys p))"
proof -
  assume p: "plain_flags p"
  have "view_line (flag_view p) k \<noteq> [] \<and> list_all (\<lambda>c. \<not> line_end c) (view_line (flag_view p) k)" if k: "k \<in> set (flag_keys p)" for k
  proof -
    obtain v where "flag_view p k = Some v" using k by (auto simp: flag_keys_mem)
    with p show ?thesis by (auto simp: plain_flags_def view_line_def line_end_def)
  qed
  then show ?thesis by (simp add: list_all_iff)
qed

lemma lines_serialize:
  "plain_flags p \<Longrightarrow> splitlines (serialize_flags p) = map (view_line (flag_view p)) (flag_keys p)"
  unfolding serialize_flags_view by (rule splitlines_join [OF view_lines_ok])

lemma parse_serialize:
  assumes "plain_flags p"
  shows "dget (parse_flags (serialize_flags p)) k = flag_view p k"
proof -
  have "CHR ''='' \<notin> set j \<and> py_strip j = j" if "j \<in> set (flag_keys p)" for j
    using that assms by (auto simp: flag_keys_mem plain_flags_def)
  then show ?thesis
    unfolding parse_flags_def lines_serialize [OF assms]
    by (subst fold_view_lines) (auto simp: flag_keys_mem)
qed

lemma kernel_stored_plain:
  assumes "plain_flags p" "\<And>k. k \<in> set KERNEL_CLEAN_KEYS \<Longrightarrow> flag_view p k = None"
  shows "kernel_stored (serialize_flags p) = serialize_flags p"
proof -
  have "py_strip (case partition1 CHR ''='' (view_line (flag_view p) k) of None \<Rightarrow> view_line (flag_view p) k | Some (j, v) \<Rightarrow> j) \<notin>
      set KERNEL_CLEAN_KEYS" if k: "k \<in> set (flag_keys p)" for k
  proof -
    obtain v where v: "flag_view p k = Some v" using k by (auto simp: flag_keys_mem)
    have "k \<notin> set KERNEL_CLEAN_KEYS" using assms(2) [of k] v by auto
    with v assms(1) show ?thesis by (auto simp: plain_flags_def view_line_def partition1_append)
  qed
  then have "filter (\<lambda>l. py_strip (case partition1 CHR ''='' l of None \<Rightarrow> l | Some (k, v) \<Rightarrow> k) \<notin> set KERNEL_CLEAN_KEYS)
      (map (view_line (flag_view p)) (flag_keys p)) = map (view_line (flag_view p)) (flag_keys p)"
    by (simp add: filter_id_conv)
  then show ?thesis by (simp only: kernel_stored_def lines_serialize [OF assms(1)]) (simp only: serialize_flags_view)
qed

lemma parse_kernel_stored:
  assumes "plain_flags p"
  shows "dget (parse_flags (kernel_stored (serialize_flags p))) k =
    (if k \<in> set KERNEL_CLEAN_KEYS then None else flag_view p k)"
proof -
  let ?ls = "filter (\<lambda>k. k \<notin> set KERNEL_CLEAN_KEYS) (flag_keys p)"
  have key: "py_strip (case partition1 CHR ''='' (view_line (flag_view p) k) of None \<Rightarrow> view_line (flag_view p) k | Some (j, v) \<Rightarrow> j) = k"
    if "k \<in> set (flag_keys p)" for k
    using that assms by (auto simp: flag_keys_mem plain_flags_def view_line_def partition1_append)
  have "filter (\<lambda>l. py_strip (case partition1 CHR ''='' l of None \<Rightarrow> l | Some (k, v) \<Rightarrow> k) \<notin> set KERNEL_CLEAN_KEYS)
      (map (view_line (flag_view p)) (flag_keys p)) = map (view_line (flag_view p)) ?ls"
    unfolding filter_map comp_def by (rule arg_cong [where f = "map _"], rule filter_cong [OF refl]) (simp add: key)
  moreover have "splitlines (py_join [CHR 0x0A] (map (view_line (flag_view p)) ?ls)) = map (view_line (flag_view p)) ?ls"
    using view_lines_ok [OF assms] by (intro splitlines_join) (auto simp: list_all_iff)
  ultimately have "parse_flags (kernel_stored (serialize_flags p)) = fold parse_flag_line (map (view_line (flag_view p)) ?ls) []"
    by (simp only: parse_flags_def kernel_stored_def lines_serialize [OF assms])
  moreover have "dget (fold parse_flag_line (map (view_line (flag_view p)) ?ls) []) k =
      (if k \<in> set ?ls then Some (the (flag_view p k)) else dget [] k)"
  proof (rule fold_view_lines)
    show "CHR ''='' \<notin> set j \<and> py_strip j = j" if "j \<in> set ?ls" for j
      using that assms by (auto simp: flag_keys_mem plain_flags_def)
  qed
  ultimately show ?thesis by (auto simp: flag_keys_mem)
qed

section \<open>Drift\<close>

definition drifted :: "drift_result \<Rightarrow> bool" where
  "drifted r \<longleftrightarrow> fd_status r = Drifted"

definition kernel_verdict :: "entry \<Rightarrow> pyval option \<Rightarrow> bool" where
  "kernel_verdict e mode \<longleftrightarrow> mode = Some (PStr ''kernel'') \<or> get_str e ''owner_stage'' = Some ''kernel''"

lemma effective_kernel_clean: "k \<in> set KERNEL_CLEAN_KEYS \<Longrightarrow> flag_view (effective_profile True sys preserved cg p) k = None"
proof -
  assume "k \<in> set KERNEL_CLEAN_KEYS"
  then have "dget (filter (\<lambda>(k, v). k \<notin> set KERNEL_CLEAN_KEYS) p) k = None" by (auto simp: map_of_eq_None_iff)
  then show ?thesis by (simp add: flag_view_def effective_profile_def)
qed

text \<open>The stored string, as compared, of a build whose effective flags were those of \<open>q\<close>.\<close>

lemma stored_same:
  assumes "plain_flags (effective_profile kb sys preserved cg q)"
  shows "dget (parse_flags (if kb then kernel_stored (serialize_effective_flags kb sys preserved cg q)
      else serialize_effective_flags kb sys preserved cg q)) k =
    flag_view (effective_profile kb sys preserved cg q) k"
  using assms effective_kernel_clean [of k sys preserved cg q]
  by (cases kb) (auto simp: serialize_effective_flags_def parse_serialize parse_kernel_stored)

text \<open>The axes beside the flags: where they show no difference.\<close>

lemma sandbox_diff_empty:
  "sandbox_diff arrow e resolved (Some p) mode = [] \<longleftrightarrow>
   (\<forall>v. dget e ''sandboxed'' = Some v \<longrightarrow> pyval_true v = sandboxed_for (get_str e ''owner_stage'') resolved p mode)"
  by (simp add: sandbox_diff_def Let_def split: option.split)

text \<open>A package whose PKGBUILD is there and parses, with a profile that resolves.\<close>

definition resolvable ::
    "drift_env \<Rightarrow> config \<Rightarrow> rule list \<Rightarrow> groups \<Rightarrow> entry \<Rightarrow> pkg_globals \<Rightarrow> pyval option \<Rightarrow> profile \<Rightarrow> bool" where
  "resolvable env cfg rules cg e g mode resolved \<longleftrightarrow>
     (\<exists>dir. get_str e ''pkgbuild_dir'' = Some dir \<and> de_exists env (path_join dir ''PKGBUILD'') \<and>
        de_parse env (path_join dir ''PKGBUILD'') = Inr g \<and>
        resolve_for env cfg rules cg g (path_join dir ''PKGBUILD'') = Inr (mode, resolved))"

lemma resolve_source_built:
  assumes "get_str e ''build_mode'' = Some BUILD_MODE_SOURCE" "resolvable env cfg rules cg e g mode resolved"
    and "truthy (get_str e ''flags_string'')"
  shows "\<exists>path. resolve_flag_drift env cfg rules cg sys preserved policy state e =
    Inr (judge_flags env sys preserved cg e g mode resolved (get_str e ''flags_string'')
      ((if policy \<noteq> None \<and> dhas e ''sandboxed'' then sandbox_diff (de_arrow env) e resolved policy mode else []) @
       inputs_diff env e g resolved state) path)"
  using assms
  by (auto simp: resolve_flag_drift_def resolvable_def drift_candidate_def is_source_build_mode_def is_pgo_mode_def
      BUILD_MODE_SOURCE_def Let_def)

lemma judge_drifted:
  assumes "truthy stored" "\<not> option_disabled g ''buildflags''" "dget e ''compiles'' \<noteq> Some (PBool False)"
  shows "drifted (judge_flags env sys preserved cg e g mode resolved stored sub path) \<longleftrightarrow>
    sub \<noteq> [] \<or> differ (if kernel_verdict e mode then kernel_stored (the stored) else the stored)
      (serialize_effective_flags (kernel_verdict e mode) sys preserved cg resolved) \<noteq> {}"
  using assms
  by (auto simp: judge_flags_def drifted_def drift_report_def Let_def kernel_verdict_def diff_flags_empty)

lemma judge_not_drifted:
  assumes "sub = []" "\<And>s. stored = Some s \<Longrightarrow> differ (if kernel_verdict e mode then kernel_stored s else s)
      (serialize_effective_flags (kernel_verdict e mode) sys preserved cg resolved) = {}"
  shows "\<not> drifted (judge_flags env sys preserved cg e g mode resolved stored sub path)"
  using assms
  by (cases stored) (auto simp: judge_flags_def drifted_def drift_report_def Let_def kernel_verdict_def diff_flags_empty)


section \<open>A fresh build has not drifted\<close>

text \<open>The fields of the record site of a successful build that drift compares.\<close>

definition recorded_info ::
    "drift_env \<Rightarrow> (string, string) dict \<Rightarrow> (string, string list) dict \<Rightarrow> groups \<Rightarrow> sandbox_policy \<Rightarrow> pkg_globals
     \<Rightarrow> pyval option \<Rightarrow> profile \<Rightarrow> build_info \<Rightarrow> build_info" where
  "recorded_info env sys preserved cg policy g mode resolved b =
     b\<lparr>bi_flags_string :=
         Some (serialize_effective_flags (mode = Some (PStr ''kernel'') \<or> bi_owner_stage b = Some ''kernel'')
                 sys preserved cg resolved),
       bi_build_inputs := map_option serialize_build_inputs (resolve_build_inputs env g (build_cc env resolved) (bi_owner_stage b)),
       bi_sandboxed := Some (sandboxed_for (bi_owner_stage b) resolved policy mode)\<rparr>"

lemma build_entry_gets:
  "dget (build_entry now b prior) ''sandboxed'' = (if bi_sandboxed b = None then dget prior ''sandboxed'' else map_option PBool (bi_sandboxed b))"
  "dget (build_entry now b prior) ''build_inputs'' = (if bi_build_inputs b = None then dget prior ''build_inputs'' else map_option PStr (bi_build_inputs b))"
  "dget (build_entry now b prior) ''owner_stage'' = (if bi_owner_stage b = None then dget prior ''owner_stage'' else map_option PStr (bi_owner_stage b))"
  "dget (build_entry now b prior) ''flags_string'' = map_option PStr (bi_flags_string b)"
  "dget (build_entry now b prior) ''build_mode'' = map_option PStr (bi_build_mode b)"
  "dget (build_entry now b prior) ''pkgbuild_dir'' = Some (PStr (bi_pkgbuild_dir b))"
  unfolding build_entry_base Let_def
  by (simp_all add: fold_sticky_get [OF sticky_fields_distinct])
    (simp_all add: sticky_fields_def base_entry_def split: option.split)

lemma resolve_any:
  assumes "get_str e ''build_mode'' = Some BUILD_MODE_SOURCE" "resolvable env cfg rules cg e g mode resolved"
  shows "\<exists>r. resolve_flag_drift env cfg rules cg sys preserved policy state e = Inr r \<and>
    (fd_status r = NoFlags \<or> (\<exists>path. r = judge_flags env sys preserved cg e g mode resolved (get_str e ''flags_string'')
      ((if policy \<noteq> None \<and> dhas e ''sandboxed'' then sandbox_diff (de_arrow env) e resolved policy mode else []) @
       inputs_diff env e g resolved state) path))"
proof (cases "\<not> truthy (get_str e ''flags_string'') \<and> \<not> (policy \<noteq> None \<and> dhas e ''sandboxed'') \<and> \<not> (state \<and> dhas e ''build_inputs'')")
  case True
  with assms show ?thesis
    by (auto simp: resolve_flag_drift_def resolvable_def drift_candidate_def is_source_build_mode_def is_pgo_mode_def
        BUILD_MODE_SOURCE_def Let_def drift_report_def)
next
  case False
  with assms show ?thesis
    by (auto simp: resolve_flag_drift_def resolvable_def drift_candidate_def is_source_build_mode_def is_pgo_mode_def
        BUILD_MODE_SOURCE_def Let_def)
qed

lemma get_str_map: "dget e k = map_option PStr v \<Longrightarrow> get_str e k = v"
  by (cases v) (simp_all add: get_str_def)

text \<open>What the record says right after a successful build, and that its sandbox and build-input
  axes agree with the configuration it was built with.\<close>

abbreviation recorded_entry where
  "recorded_entry env sys preserved cg policy g mode resolved b now p s \<equiv>
     entry_of (record_build now p (recorded_info env sys preserved cg policy g mode resolved b) s) p"

lemma recorded_gets:
  assumes "e = recorded_entry env sys preserved cg policy g mode resolved b now p s"
    and "bi_owner_stage b \<noteq> None \<or> dget (entry_of s p) ''owner_stage'' = None"
  shows "get_str e ''owner_stage'' = bi_owner_stage b" "get_str e ''build_mode'' = bi_build_mode b"
    "get_str e ''pkgbuild_dir'' = Some (bi_pkgbuild_dir b)"
    "get_str e ''flags_string'' = Some (serialize_effective_flags (kernel_verdict e mode) sys preserved cg resolved)"
    "dget e ''sandboxed'' = Some (PBool (sandboxed_for (bi_owner_stage b) resolved policy mode))"
    "resolve_build_inputs env g (build_cc env resolved) (bi_owner_stage b) = Some d \<Longrightarrow>
       get_str e ''build_inputs'' = Some (serialize_build_inputs d)"
proof -
  let ?b = "recorded_info env sys preserved cg policy g mode resolved b"
  have e: "e = build_entry now ?b (entry_of s p)" by (simp add: assms(1) entry_of_def dget_or_def)
  show owner: "get_str e ''owner_stage'' = bi_owner_stage b"
    using assms(2) by (intro get_str_map) (auto simp: e build_entry_gets recorded_info_def)
  then have kv: "kernel_verdict e mode \<longleftrightarrow> mode = Some (PStr ''kernel'') \<or> bi_owner_stage b = Some ''kernel''"
    by (simp add: kernel_verdict_def)
  show "get_str e ''flags_string'' = Some (serialize_effective_flags (kernel_verdict e mode) sys preserved cg resolved)"
    unfolding kv by (intro get_str_map) (simp add: e build_entry_gets recorded_info_def)
  show "dget e ''sandboxed'' = Some (PBool (sandboxed_for (bi_owner_stage b) resolved policy mode))"
    by (simp add: e build_entry_gets recorded_info_def)
qed (simp_all add: assms(1) entry_of_def dget_or_def build_entry_gets recorded_info_def get_str_map)

lemma recorded_axes_agree:
  assumes "e = recorded_entry env sys preserved cg policy g mode resolved b now p s"
    and "bi_owner_stage b \<noteq> None \<or> dget (entry_of s p) ''owner_stage'' = None"
    and "used = None \<or> used = Some policy"
  shows "sandbox_diff (de_arrow env) e resolved used mode = []" "inputs_diff env e g resolved state = []"
proof -
  note gets = recorded_gets [OF assms(1,2)]
  show "sandbox_diff (de_arrow env) e resolved used mode = []"
    using assms(3) gets(5) by (auto simp: sandbox_diff_empty gets(1)) (simp add: sandbox_diff_def)
  show "inputs_diff env e g resolved state = []"
    by (cases "resolve_build_inputs env g (build_cc env resolved) (bi_owner_stage b)")
      (simp_all add: inputs_diff_def gets(1,6) diff_flags_empty)
qed

lemma serialized_same:
  assumes "plain_flags (effective_profile k sys preserved cg resolved)"
  shows "differ (if k then kernel_stored (serialize_effective_flags k sys preserved cg resolved)
      else serialize_effective_flags k sys preserved cg resolved) (serialize_effective_flags k sys preserved cg resolved) = {}"
  unfolding differ_def
  by (simp only: stored_same [OF assms]) (simp add: serialize_effective_flags_def parse_serialize [OF assms])


section \<open>Two cases that go wrong\<close>

text \<open>A build whose effective profile had no flags records the empty string, which drift takes
  for a record from before flags were tracked: whatever the profile becomes, the flags of such a
  package are never reported as drifted.\<close>

theorem empty_flags_never_drift:
  assumes "get_str e ''flags_string'' = Some []" "\<not> dhas e ''sandboxed''" "\<not> dhas e ''build_inputs''"
    and "get_str e ''build_mode'' = Some BUILD_MODE_SOURCE" "get_str e ''pkgbuild_dir'' \<noteq> None"
  shows "\<exists>r. resolve_flag_drift env cfg rules cg sys preserved policy state e = Inr r \<and>
    fd_status r \<in> {NoFlags, NoPkgbuild}"
  using assms
  by (auto simp: resolve_flag_drift_def drift_candidate_def is_source_build_mode_def is_pgo_mode_def
        BUILD_MODE_SOURCE_def Let_def drift_report_def)

text \<open>The record of a build outside the sandbox, restored after a reload, drifts against itself.\<close>

lemma restored_text_drifts:
  assumes "dget e ''sandboxed'' = Some (PBool False)" "dget e' ''sandboxed'' = Some (as_text (PBool False))"
    and "get_str e' ''owner_stage'' = get_str e ''owner_stage''"
    and "\<not> sandboxed_for (get_str e ''owner_stage'') resolved policy mode"
  shows "sandbox_diff arrow e resolved (Some policy) mode = []" "sandbox_diff arrow e' resolved (Some policy) mode \<noteq> []"
  using assms by (simp_all add: sandbox_diff_empty as_text_def pyval_str_def)

section \<open>Witnesses\<close>

definition flags_on_lines :: "profile \<Rightarrow> bool" where
  "flags_on_lines p \<longleftrightarrow> list_all (\<lambda>(k, v). py_strip k = k \<and> CHR ''='' \<notin> set k \<and> list_all (\<lambda>c. \<not> line_end c) k \<and>
     list_all (\<lambda>c. \<not> line_end c) (flag_value v)) p"

lemma flags_on_lines_plain: "flags_on_lines p \<Longrightarrow> plain_flags p"
  unfolding plain_flags_def flag_view_def flags_on_lines_def list_all_iff
  by (fastforce dest: map_of_SomeD split: if_splits)

definition demo_env :: drift_env where
  "demo_env = \<lparr>de_exists = (\<lambda>p. True), de_parse = (\<lambda>p. Inr [(''pkgname'', PStr ''zlib'')]), de_extract = (\<lambda>g p. None),
     de_repo_rust = (\<lambda>p. False), de_env_cc = ''gcc'', de_python = None, de_drivers = None, de_targets = [],
     de_profdata = (\<lambda>b. None), de_arrow = ''->''\<rparr>"

definition flags_config :: "string \<Rightarrow> config" where
  "flags_config cflags = \<lparr>c_profiles = [(''std'', [(''CFLAGS'', PStr cflags), (''build_mode'', PStr ''source_built'')])],
     c_defaults = \<lparr>d_profile = Some ''std'', d_toolchain = None, d_append_groups = []\<rparr>, c_overrides = []\<rparr>"

definition flags_profile :: "string \<Rightarrow> profile" where
  "flags_profile cflags = [(''CFLAGS'', PStr cflags), (''build_mode'', PStr ''source_built'')]"

definition flags_entry :: entry where
  "flags_entry = [(''build_mode'', PStr ''source_built''), (''pkgbuild_dir'', PStr ''/b/zlib''),
     (''flags_string'', PStr (serialize_effective_flags False [] [] [] (flags_profile ''-O2'')))]"

lemma demo_resolve: "resolve_for demo_env (flags_config ''-O3'') [] [] [(''pkgname'', PStr ''zlib'')] (path_join ''/b/zlib'' ''PKGBUILD'') =
    Inr (Some (PStr ''source_built''), flags_profile ''-O3'')"
  by code_simp

lemma demo_resolvable: "resolvable demo_env (flags_config ''-O3'') [] [] flags_entry [(''pkgname'', PStr ''zlib'')]
    (Some (PStr ''source_built'')) (flags_profile ''-O3'')"
  unfolding resolvable_def
proof (intro exI conjI)
  show "get_str flags_entry ''pkgbuild_dir'' = Some ''/b/zlib''" by code_simp
qed (simp_all add: demo_resolve, simp_all add: demo_env_def)



theorem empty_flags_never_drift_witness:
  "\<exists>r. resolve_flag_drift demo_env (flags_config ''-O3'') [] [] [] [] None True
     [(''build_mode'', PStr ''source_built''), (''pkgbuild_dir'', PStr ''/b/zlib''), (''flags_string'', PStr [])] = Inr r \<and>
     fd_status r \<in> {NoFlags, NoPkgbuild}"
  by (rule empty_flags_never_drift) (simp_all add: get_str_def dhas_def BUILD_MODE_SOURCE_def)

end
