(* ===== verification/RateLimit.thy ===== *)
theory RateLimit
  imports Complex_Main PyPrelude
begin

text \<open>
  Model of \<open>sysforge/primitives/rate_limit.py\<close>: the limiter that paces the AUR requests and the
  git fetches.  Times and durations are rationals in place of floats.  The clock is part of the
  state: \<open>sleep t d\<close>, a parameter, is the clock after \<open>_sleep(d)\<close> at \<open>t\<close>, and what is used of it
  is that it does not return early.  The exchange with a server and the run of git are
  parameters that say when they end and with what.

  The lemmas, by rule induction over runs of the limiter: no request goes out within a penalty
  the server imposed, fetches keep their distance, and no wait is longer than it must be.
\<close>

record limiter =
  rl_min_git_interval :: rat
  rl_default_retry_after :: rat
  rl_not_before :: rat
  rl_last_git_fetch :: rat
  rl_penalty_source :: string

definition new_limiter :: "rat \<Rightarrow> rat \<Rightarrow> limiter" where
  "new_limiter interval dflt =
     \<lparr>rl_min_git_interval = interval, rl_default_retry_after = dflt, rl_not_before = 0, rl_last_git_fetch = 0,
      rl_penalty_source = []\<rparr>"

section \<open>Retry-After\<close>

text \<open>
  \<open>float(n)\<close> raises beyond the largest float, and \<open>int(s)\<close> beyond 4300 digits.  \<open>http_date\<close>
  is the time stamp of an HTTP date.
\<close>

datatype retry_error = FloatOverflow

definition py_int_limited :: "string \<Rightarrow> int option" where
  "py_int_limited s = (if length (filter is_digit s) > 4300 then None else py_int s)"

definition parse_retry_after ::
    "(string \<Rightarrow> rat option) \<Rightarrow> rat \<Rightarrow> string option \<Rightarrow> retry_error + rat option" where
  "parse_retry_after http_date wall header =
     (case header of
        None \<Rightarrow> Inr None
      | Some h \<Rightarrow>
          (let s = py_strip h in
           if h = [] \<or> s = [] then Inr None
           else (case py_int_limited s of
                   Some n \<Rightarrow>
                     if abs n \<ge> 2 ^ 1024 - 2 ^ 970 then Inl FloatOverflow else Inr (Some (max 0 (of_int n)))
                 | None \<Rightarrow> Inr (map_option (\<lambda>t. max 0 (t - wall)) (http_date s)))))"

section \<open>The limiter\<close>

definition remaining_penalty :: "limiter \<Rightarrow> rat \<Rightarrow> rat" where
  "remaining_penalty l t = max 0 (rl_not_before l - t)"

text \<open>The seconds waited and the clock after.\<close>

definition wait_for_penalty :: "(rat \<Rightarrow> rat \<Rightarrow> rat) \<Rightarrow> limiter \<Rightarrow> rat \<Rightarrow> rat \<times> rat" where
  "wait_for_penalty sleep l t =
     (let delay = remaining_penalty l t in (delay, if delay > 0 then sleep t delay else t))"

definition wait_before_rpc :: "(rat \<Rightarrow> rat \<Rightarrow> rat) \<Rightarrow> limiter \<Rightarrow> rat \<Rightarrow> rat \<times> rat" where
  "wait_before_rpc sleep l t = wait_for_penalty sleep l t"

definition wait_before_fetch :: "(rat \<Rightarrow> rat \<Rightarrow> rat) \<Rightarrow> limiter \<Rightarrow> rat \<Rightarrow> rat \<times> limiter \<times> rat" where
  "wait_before_fetch sleep l t =
     (let (waited, now) = wait_for_penalty sleep l t;
          elapsed = now - rl_last_git_fetch l;
          remaining = rl_min_git_interval l - elapsed;
          (waited', now') = (if remaining > 0 then (waited + remaining, sleep now remaining) else (waited, now))
      in (waited', l\<lparr>rl_last_git_fetch := now'\<rparr>, now'))"

definition apply_retry_after :: "limiter \<Rightarrow> rat \<Rightarrow> rat option \<Rightarrow> string \<Rightarrow> limiter \<times> rat" where
  "apply_retry_after l t seconds source =
     (let s = (case seconds of None \<Rightarrow> rl_default_retry_after l | Some x \<Rightarrow> if x \<le> 0 then rl_default_retry_after l else x);
          target = t + s
      in (if target > rl_not_before l then l\<lparr>rl_not_before := target, rl_penalty_source := source\<rparr> else l, s))"

section \<open>Requests\<close>

datatype http_reply =
    Body string
  | HttpError int "string option"
  | NetError string

datatype http_outcome =
    Got string
  | RateLimited int
  | HttpFailed int
  | NetFailed string
  | HeaderFailed retry_error

text \<open>What a request leaves: the limiter, when it was sent, when it ended, the penalty it set, the outcome.\<close>

definition http_get_with_rate_limit ::
    "(rat \<Rightarrow> rat \<Rightarrow> rat) \<Rightarrow> (string \<Rightarrow> rat option) \<Rightarrow> rat \<Rightarrow> (rat \<Rightarrow> rat \<times> http_reply) \<Rightarrow> limiter \<Rightarrow> rat
     \<Rightarrow> limiter \<times> rat \<times> rat \<times> rat option \<times> http_outcome" where
  "http_get_with_rate_limit sleep http_date wall exchange l t =
     (let sent = snd (wait_before_rpc sleep l t); (fin, reply) = exchange sent in
      case reply of
        Body b \<Rightarrow> (l, sent, fin, None, Got b)
      | NetError m \<Rightarrow> (l, sent, fin, None, NetFailed m)
      | HttpError code header \<Rightarrow>
          if code \<in> {429, 503} then
            (case parse_retry_after http_date wall header of
               Inl e \<Rightarrow> (l, sent, fin, None, HeaderFailed e)
             | Inr retry \<Rightarrow>
                 (let (l', s) = apply_retry_after l fin retry (''HTTP '' @ int_str code)
                  in (l', sent, fin, Some s, RateLimited code)))
          else (l, sent, fin, None, HttpFailed code))"

definition RATE_LIMIT_GIT_ERRORS :: "string list" where
  "RATE_LIMIT_GIT_ERRORS = [''error: 429'', ''Too Many Requests'', ''error: 503'', ''error: 502'']"

text \<open>\<open>probe\<close> gives the end, the return code and the standard error of the git command.\<close>

definition run_throttled_git ::
    "(rat \<Rightarrow> rat \<Rightarrow> rat) \<Rightarrow> (rat \<Rightarrow> rat \<times> int \<times> string) \<Rightarrow> limiter \<Rightarrow> rat
     \<Rightarrow> limiter \<times> rat \<times> rat \<times> rat option \<times> int \<times> string" where
  "run_throttled_git sleep probe l t =
     (let (waited, l1, sent) = wait_before_fetch sleep l t; (fin, code, stderr) = probe sent in
      if code \<noteq> 0 \<and> list_ex (\<lambda>m. contains m stderr) RATE_LIMIT_GIT_ERRORS
      then (let (l2, s) = apply_retry_after l1 fin None ''git rate-limit'' in (l2, sent, fin, Some s, code, stderr))
      else (l1, sent, fin, None, code, stderr))"

section \<open>Runs of the limiter\<close>

text \<open>
  A run: time passes, requests go out, and the history records, newest first, when each was sent
  and which penalties the server imposed.
\<close>

datatype request = Rpc | Fetch

datatype event = Sent request rat | Penalty rat rat

record pace =
  pc_limiter :: limiter
  pc_clock :: rat
  pc_events :: "event list"

definition after_request :: "request \<Rightarrow> limiter \<Rightarrow> rat \<Rightarrow> rat \<Rightarrow> rat option \<Rightarrow> event list \<Rightarrow> pace" where
  "after_request r l sent fin penalty evs =
     \<lparr>pc_limiter = l, pc_clock = fin,
      pc_events = (case penalty of None \<Rightarrow> [] | Some s \<Rightarrow> [Penalty fin s]) @ Sent r sent # evs\<rparr>"

inductive pace_step :: "(rat \<Rightarrow> rat \<Rightarrow> rat) \<Rightarrow> pace \<Rightarrow> pace \<Rightarrow> bool" for sleep where
  passes: "0 \<le> d \<Longrightarrow> pace_step sleep w (w\<lparr>pc_clock := pc_clock w + d\<rparr>)"
| get: "http_get_with_rate_limit sleep http_date wall exchange (pc_limiter w) (pc_clock w) = (l, sent, fin, penalty, out) \<Longrightarrow>
    sent \<le> fin \<Longrightarrow> pace_step sleep w (after_request Rpc l sent fin penalty (pc_events w))"
| git: "run_throttled_git sleep probe (pc_limiter w) (pc_clock w) = (l, sent, fin, penalty, code, err) \<Longrightarrow>
    sent \<le> fin \<Longrightarrow> pace_step sleep w (after_request Fetch l sent fin penalty (pc_events w))"

inductive reachable :: "(rat \<Rightarrow> rat \<Rightarrow> rat) \<Rightarrow> limiter \<Rightarrow> rat \<Rightarrow> pace \<Rightarrow> bool" for sleep l t where
  start: "reachable sleep l t \<lparr>pc_limiter = l, pc_clock = t, pc_events = []\<rparr>"
| step: "reachable sleep l t w \<Longrightarrow> pace_step sleep w w' \<Longrightarrow> reachable sleep l t w'"

text \<open>A sleep does not end early.\<close>

definition sleeps :: "(rat \<Rightarrow> rat \<Rightarrow> rat) \<Rightarrow> bool" where
  "sleeps sleep \<longleftrightarrow> (\<forall>t d. 0 < d \<longrightarrow> t + d \<le> sleep t d)"

text \<open>What the history must satisfy.\<close>

fun spaced :: "rat \<Rightarrow> event list \<Rightarrow> bool" where
  "spaced gap [] = True"
| "spaced gap (Penalty t s # evs) = spaced gap evs"
| "spaced gap (Sent r u # evs) =
     ((\<forall>t s. Penalty t s \<in> set evs \<longrightarrow> t + s \<le> u) \<and>
      (r = Fetch \<longrightarrow> (\<forall>v. Sent Fetch v \<in> set evs \<longrightarrow> v + gap \<le> u)) \<and> spaced gap evs)"

text \<open>The invariant: the limiter remembers every penalty and the last fetch.\<close>

definition remembers :: "rat \<Rightarrow> pace \<Rightarrow> bool" where
  "remembers gap w \<longleftrightarrow>
     rl_min_git_interval (pc_limiter w) = gap \<and> spaced gap (pc_events w) \<and>
     (\<forall>t s. Penalty t s \<in> set (pc_events w) \<longrightarrow> t + s \<le> rl_not_before (pc_limiter w)) \<and>
     (\<forall>v. Sent Fetch v \<in> set (pc_events w) \<longrightarrow> v \<le> rl_last_git_fetch (pc_limiter w))"

lemma wait_penalty_after:
  assumes "sleeps sleep"
  shows "rl_not_before l \<le> snd (wait_for_penalty sleep l t) \<and> t \<le> snd (wait_for_penalty sleep l t)"
proof (cases "rl_not_before l - t > 0")
  case True
  then have "t + (rl_not_before l - t) \<le> sleep t (rl_not_before l - t)" using assms unfolding sleeps_def by blast
  with True show ?thesis by (simp add: wait_for_penalty_def remaining_penalty_def Let_def max_def)
next
  case False
  then show ?thesis by (simp add: wait_for_penalty_def remaining_penalty_def Let_def max_def)
qed

lemma wait_fetch_after:
  assumes "sleeps sleep" "wait_before_fetch sleep l t = (waited, l', sent)"
  shows "rl_not_before l \<le> sent" "rl_last_git_fetch l + rl_min_git_interval l \<le> sent" "t \<le> sent"
    and "l' = l\<lparr>rl_last_git_fetch := sent\<rparr>"
proof -
  obtain w now where w: "wait_for_penalty sleep l t = (w, now)" by (cases "wait_for_penalty sleep l t")
  have now: "rl_not_before l \<le> now" "t \<le> now" using wait_penalty_after [OF assms(1), of l t] w by simp_all
  let ?r = "rl_min_git_interval l - (now - rl_last_git_fetch l)"
  have sent: "sent = (if ?r > 0 then sleep now ?r else now)" "l' = l\<lparr>rl_last_git_fetch := sent\<rparr>"
    using assms(2) w by (auto simp: wait_before_fetch_def Let_def split: if_splits)
  have "?r > 0 \<Longrightarrow> now + ?r \<le> sleep now ?r" using assms(1) unfolding sleeps_def by blast
  then have "now \<le> sent \<and> rl_last_git_fetch l + rl_min_git_interval l \<le> sent"
    by (cases "?r > 0") (simp_all add: sent(1))
  with now sent(2) show "rl_not_before l \<le> sent" "rl_last_git_fetch l + rl_min_git_interval l \<le> sent" "t \<le> sent"
    "l' = l\<lparr>rl_last_git_fetch := sent\<rparr>" by auto
qed

lemma apply_retry_simps:
  assumes "apply_retry_after l t seconds source = (l', s)"
  shows "t + s \<le> rl_not_before l'" "rl_not_before l \<le> rl_not_before l'"
    "rl_last_git_fetch l' = rl_last_git_fetch l" "rl_min_git_interval l' = rl_min_git_interval l"
    "rl_default_retry_after l' = rl_default_retry_after l"
  using assms by (auto simp: apply_retry_after_def Let_def split: if_splits)

lemma http_get_spec:
  assumes "http_get_with_rate_limit sleep http_date wall exchange l t = (l', sent, fin, penalty, out)"
  shows "sent = snd (wait_before_rpc sleep l t)"
    and "case penalty of None \<Rightarrow> l' = l | Some s \<Rightarrow> (\<exists>retry src. apply_retry_after l fin retry src = (l', s))"
  using assms
  by (auto simp: http_get_with_rate_limit_def Let_def split: prod.splits http_reply.splits if_splits sum.splits) blast+

lemma git_spec:
  assumes "run_throttled_git sleep probe l t = (l', sent, fin, penalty, code, err)"
  shows "\<exists>waited l1. wait_before_fetch sleep l t = (waited, l1, sent) \<and>
    (case penalty of None \<Rightarrow> l' = l1 | Some s \<Rightarrow> (\<exists>retry src. apply_retry_after l1 fin retry src = (l', s)))"
  using assms
  by (auto simp: run_throttled_git_def Let_def split: prod.splits if_splits) blast+

lemma remembers_step:
  assumes "sleeps sleep" "remembers gap w" "pace_step sleep w w'" "0 \<le> gap"
  shows "remembers gap w'"
  using assms(3)
proof (cases rule: pace_step.cases)
  case (passes d)
  with assms(2) show ?thesis by (simp add: remembers_def)
next
  case (get http_date wall exchange l sent fin penalty out)
  note spec = http_get_spec [OF get(2)]
  have sent: "rl_not_before (pc_limiter w) \<le> sent"
    using wait_penalty_after [OF assms(1)] by (simp add: spec(1) wait_before_rpc_def)
  have spaced: "spaced gap (Sent Rpc sent # pc_events w)" using assms(2) sent by (force simp: remembers_def)
  show ?thesis
  proof (cases penalty)
    case None
    with get(1) spec(2) assms(2) spaced show ?thesis by (simp add: remembers_def after_request_def)
  next
    case (Some s)
    with spec(2) obtain retry src where a: "apply_retry_after (pc_limiter w) fin retry src = (l, s)" by auto
    note a = apply_retry_simps [OF a]
    have "t + x \<le> rl_not_before l" if "Penalty t x \<in> set (pc_events w)" for t x
      using assms(2) that a(2) by (force simp: remembers_def)
    with get(1) Some assms(2) spaced a show ?thesis by (simp add: remembers_def after_request_def)
  qed
next
  case (git probe l sent fin penalty code err)
  from git_spec [OF git(2)] obtain waited l1 where f: "wait_before_fetch sleep (pc_limiter w) (pc_clock w) = (waited, l1, sent)"
    and p: "case penalty of None \<Rightarrow> l = l1 | Some s \<Rightarrow> (\<exists>retry src. apply_retry_after l1 fin retry src = (l, s))" by auto
  note f = wait_fetch_after [OF assms(1) f]
  have gap: "rl_min_git_interval (pc_limiter w) = gap" using assms(2) by (simp add: remembers_def)
  have spaced: "spaced gap (Sent Fetch sent # pc_events w)"
    using assms(2) f(1,2) gap by (force simp: remembers_def)
  have base: "\<And>t s. Penalty t s \<in> set (pc_events w) \<Longrightarrow> t + s \<le> rl_not_before l1" "rl_last_git_fetch l1 = sent"
    "rl_min_git_interval l1 = gap"
    using assms(2) f(4) by (simp_all add: remembers_def)
  have last: "v \<le> sent" if "Sent Fetch v \<in> set (pc_events w)" for v
    using spaced that assms(4) by (simp, meson add_increasing2 order_trans order_refl)
  show ?thesis
  proof (cases penalty)
    case None
    with git(1) p base spaced last show ?thesis by (auto simp: remembers_def after_request_def)
  next
    case (Some s)
    with p obtain retry src where a: "apply_retry_after l1 fin retry src = (l, s)" by auto
    note a = apply_retry_simps [OF a]
    have "t + x \<le> rl_not_before l" if "Penalty t x \<in> set (pc_events w)" for t x
      using base(1) [OF that] a(2) by simp
    with git(1) Some base spaced last a show ?thesis by (auto simp: remembers_def after_request_def)
  qed
qed

lemma remembers_reachable:
  assumes "sleeps sleep" "0 \<le> rl_min_git_interval l" "reachable sleep l t w"
  shows "remembers (rl_min_git_interval l) w"
  using assms(3)
proof (induction rule: reachable.induct)
  case start
  show ?case by (simp add: remembers_def)
next
  case (step w w')
  from remembers_step [OF assms(1) step.IH step.hyps(2) assms(2)] show ?case .
qed


section \<open>Waits are bounded\<close>

text \<open>A sleep that overshoots by no more than \<open>eps\<close>.\<close>

definition sleeps_within :: "rat \<Rightarrow> (rat \<Rightarrow> rat \<Rightarrow> rat) \<Rightarrow> bool" where
  "sleeps_within eps sleep \<longleftrightarrow> sleeps sleep \<and> (\<forall>t d. 0 < d \<longrightarrow> sleep t d \<le> t + d + eps)"

lemma wait_penalty_within:
  assumes "sleeps_within eps sleep" "0 \<le> eps"
  shows "snd (wait_for_penalty sleep l t) \<le> max t (rl_not_before l) + eps"
proof (cases "rl_not_before l - t > 0")
  case True
  then have "sleep t (rl_not_before l - t) \<le> t + (rl_not_before l - t) + eps" using assms(1) unfolding sleeps_within_def by blast
  with True show ?thesis by (simp add: wait_for_penalty_def remaining_penalty_def Let_def max_def)
next
  case False
  with assms(2) show ?thesis by (simp add: wait_for_penalty_def remaining_penalty_def Let_def max_def)
qed

lemma wait_fetch_within:
  assumes "sleeps_within eps sleep" "0 \<le> eps" "wait_before_fetch sleep l t = (waited, l', sent)"
  shows "sent \<le> max (max t (rl_not_before l) + eps) (rl_last_git_fetch l + rl_min_git_interval l) + eps"
    and "waited \<le> remaining_penalty l t + max 0 (rl_last_git_fetch l + rl_min_git_interval l - t)"
proof -
  obtain w now where w: "wait_for_penalty sleep l t = (w, now)" by (cases "wait_for_penalty sleep l t")
  have now: "now \<le> max t (rl_not_before l) + eps" "t \<le> now"
    using wait_penalty_within [OF assms(1,2), of l t] wait_penalty_after [of sleep l t] assms(1) w
    by (simp_all add: sleeps_within_def)
  have wp: "w = remaining_penalty l t" using w by (simp add: wait_for_penalty_def Let_def)
  let ?r = "rl_min_git_interval l - (now - rl_last_git_fetch l)"
  have sent: "sent = (if ?r > 0 then sleep now ?r else now)" "waited = (if ?r > 0 then w + ?r else w)"
    using assms(3) w by (auto simp: wait_before_fetch_def Let_def split: if_splits)
  have s: "?r > 0 \<Longrightarrow> sleep now ?r \<le> now + ?r + eps" using assms(1) unfolding sleeps_within_def by blast
  show "sent \<le> max (max t (rl_not_before l) + eps) (rl_last_git_fetch l + rl_min_git_interval l) + eps"
  proof (cases "?r > 0")
    case True
    with s have "sent \<le> rl_last_git_fetch l + rl_min_git_interval l + eps" by (simp add: sent(1))
    then show ?thesis by (simp add: max_def split: if_splits)
  next
    case False
    then have "sent = now" by (simp add: sent(1))
    with now(1) assms(2) show ?thesis by (simp add: max_def split: if_splits)
  qed
  show "waited \<le> remaining_penalty l t + max 0 (rl_last_git_fetch l + rl_min_git_interval l - t)"
    using now(2) by (simp add: sent(2) wp)
qed

text \<open>C31: every wait ends: if a sleep overshoots by at most \<open>eps\<close>, a fetch goes out within \<open>2 eps\<close> of
  the moment the penalty and the interval allow it, a request within \<open>eps\<close>, and the wait
  reported is at most the remaining penalty and the remaining interval together.\<close>

theorem waits_end:
  assumes "sleeps_within eps sleep" "0 \<le> eps" "wait_before_fetch sleep l t = (waited, l', sent)"
  shows "sent \<le> max (max t (rl_not_before l)) (rl_last_git_fetch l + rl_min_git_interval l) + 2 * eps \<and>
    waited \<le> remaining_penalty l t + max 0 (rl_last_git_fetch l + rl_min_git_interval l - t) \<and>
    snd (wait_before_rpc sleep l t) \<le> max t (rl_not_before l) + eps"
proof -
  have "sent \<le> max (max t (rl_not_before l)) (rl_last_git_fetch l + rl_min_git_interval l) + 2 * eps"
    using wait_fetch_within(1) [OF assms] assms(2) by (simp add: max_def split: if_splits)
  with wait_fetch_within(2) [OF assms] wait_penalty_within [OF assms(1,2)] show ?thesis
    by (simp add: wait_before_rpc_def)
qed

text \<open>A Retry-After beyond the largest float raises instead of setting a penalty.\<close>

lemma huge_retry_after:
  "parse_retry_after http_date wall (Some (replicate 310 CHR ''9'')) = Inl FloatOverflow"
  by code_simp

section \<open>Witnesses\<close>

definition exact_sleep :: "rat \<Rightarrow> rat \<Rightarrow> rat" where
  "exact_sleep t d = t + d"

lemma exact_sleeps: "sleeps_within 0 exact_sleep" "sleeps exact_sleep"
  by (simp_all add: sleeps_within_def sleeps_def exact_sleep_def)

definition busy_server :: "rat \<Rightarrow> rat \<times> http_reply" where
  "busy_server t = (t + 1, HttpError 429 (Some ''30''))"

definition after_429 :: pace where
  "after_429 =
     (case http_get_with_rate_limit exact_sleep (\<lambda>h. None) 0 busy_server (new_limiter (1/2) 60) 10 of
        (l, sent, fin, penalty, out) \<Rightarrow> after_request Rpc l sent fin penalty [])"


theorem waits_end_witness:
  "\<exists>waited l' sent. wait_before_fetch exact_sleep (new_limiter (1/2) 60) 0 = (waited, l', sent) \<and> sent \<le> 1/2"
proof -
  obtain waited l' sent where w: "wait_before_fetch exact_sleep (new_limiter (1/2) 60) 0 = (waited, l', sent)"
    by (rule prod_cases3)
  from waits_end [OF exact_sleeps(1) _ w] have "sent \<le> 1/2" by (simp add: new_limiter_def)
  with w show ?thesis by blast
qed

end
