(* ===== verification/StageSentinel.thy ===== *)
theory StageSentinel
  imports Toml
begin

text \<open>
  Model of \<open>sysforge/primitives/stage_sentinel.py\<close>: the durable record of an install-bearing
  stage in progress, its recovery command, the check at the start of a run and the scope a
  stage runs in.

  The file is its text, or \<open>None\<close>; \<open>tomllib\<close> is the parameter \<open>toml\<close>, and \<open>sentinel_toml\<close> is the
  part of it that reads what \<open>_serialize\<close> writes.  What the process sees of the machine (the
  lock, the owner of the file, the pacman cache, the terminal, sudo) is the record \<open>machine\<close>.
  Messages are not modelled.

  The lemmas: whatever the record says, the command run as root is one of three templates with
  checked arguments; a record is read back as it was written; a stage starts only when there
  is no record of an interrupted run or its recovery went through; and what two runs at once
  can do to each other.
\<close>

section \<open>Records\<close>

text \<open>A value of a TOML document; \<open>TOther\<close> is a number with a fraction or a date.\<close>

datatype tv =
    TStr string
  | TBool bool
  | TInt int
  | TList "tv list"
  | TTable "(string \<times> tv) list"
  | TOther string

text \<open>A value of a record to write.\<close>

datatype sval = SNone | SBool bool | SInt int | SList "string list" | SStr string

definition sentinel_str :: "string \<Rightarrow> string" where
  "sentinel_str s = quoted (toml_escape s)"

definition sval_text :: "sval \<Rightarrow> string option" where
  "sval_text v =
     (case v of
        SNone \<Rightarrow> None
      | SBool b \<Rightarrow> Some (if b then ''true'' else ''false'')
      | SInt i \<Rightarrow> Some (int_str i)
      | SList xs \<Rightarrow> Some (''['' @ py_join '', '' (map sentinel_str xs) @ '']'')
      | SStr s \<Rightarrow> Some (sentinel_str s))"

definition record_lines :: "(string, sval) dict \<Rightarrow> string list" where
  "record_lines body =
     concat (map (\<lambda>k. case sval_text (the (dget body k)) of None \<Rightarrow> [] | Some t \<Rightarrow> [pair_line k t])
       (sorted_set (map fst body)))"

definition SENTINEL_SECTION :: string where
  "SENTINEL_SECTION = ''stage_in_progress''"

definition sentinel_serialize :: "(string, sval) dict \<Rightarrow> string" where
  "sentinel_serialize body =
     py_join [CHR 0x0A]
       ([''# SysForge stage-in-progress sentinel'',
         ''# Present means a previous run began an install-bearing stage'',
         ''# (toolchain/kernel/packages) and did not complete cleanly.'',
         ''# Sysforge refuses to proceed until the system is verified or'',
         ''# the sentinel is cleared. Do not edit by hand.'',
         [], ''['' @ SENTINEL_SECTION @ '']''] @ record_lines body @ [[]])"

definition started_record :: "string \<Rightarrow> string \<Rightarrow> (string, sval) dict \<Rightarrow> (string, sval) dict" where
  "started_record now stage metadata =
     dmerge [(''stage'', SStr stage), (''started_at'', SStr now)] metadata"

definition mark_started :: "string \<Rightarrow> string \<Rightarrow> (string, sval) dict \<Rightarrow> string" where
  "mark_started now stage metadata = sentinel_serialize (started_record now stage metadata)"

text \<open>
  \<open>get_active\<close>: the record, \<open>None\<close> when there is none or the file cannot be read, or the
  exception of \<open>dict(record)\<close> on a value that is no table.
\<close>

fun tv_true :: "tv \<Rightarrow> bool" where
  "tv_true (TStr s) \<longleftrightarrow> s \<noteq> []"
| "tv_true (TBool b) \<longleftrightarrow> b"
| "tv_true (TInt i) \<longleftrightarrow> i \<noteq> 0"
| "tv_true (TList xs) \<longleftrightarrow> xs \<noteq> []"
| "tv_true (TTable t) \<longleftrightarrow> t \<noteq> []"
| "tv_true (TOther s) \<longleftrightarrow> True"

datatype sentinel_error = NotATable | Os string

type_synonym toml = "string \<Rightarrow> (string, tv) dict option"

definition get_active :: "toml \<Rightarrow> string option \<Rightarrow> sentinel_error + (string, tv) dict option" where
  "get_active toml file =
     (case file of
        None \<Rightarrow> Inr None
      | Some text \<Rightarrow>
          (case toml text of
             None \<Rightarrow> Inr None
           | Some data \<Rightarrow>
               (case dget data SENTINEL_SECTION of
                  None \<Rightarrow> Inr None
                | Some v \<Rightarrow>
                    if \<not> tv_true v then Inr None
                    else (case v of TTable t \<Rightarrow> Inr (Some t) | _ \<Rightarrow> Inl NotATable))))"

section \<open>Recovery\<close>

definition RECOVERY_PACMAN_SYNC :: string where "RECOVERY_PACMAN_SYNC = ''pacman_sync''"
definition RECOVERY_PACMAN_UPGRADE :: string where "RECOVERY_PACMAN_UPGRADE = ''pacman_upgrade''"
definition RECOVERY_MKINITCPIO :: string where "RECOVERY_MKINITCPIO = ''mkinitcpio''"

definition RECOVERY_KINDS :: "string list" where
  "RECOVERY_KINDS = [RECOVERY_PACMAN_SYNC, RECOVERY_PACMAN_UPGRADE, RECOVERY_MKINITCPIO]"

record recovery =
  rec_kind :: string
  rec_args :: "string list"

definition lower_alnum :: "char \<Rightarrow> bool" where
  "lower_alnum c \<longleftrightarrow> CHR ''a'' \<le> c \<and> c \<le> CHR ''z'' \<or> is_digit c"

definition pkg_first :: "char \<Rightarrow> bool" where
  "pkg_first c \<longleftrightarrow> lower_alnum c \<or> c \<in> set ''@_+''"

definition pkg_rest :: "char \<Rightarrow> bool" where
  "pkg_rest c \<longleftrightarrow> lower_alnum c \<or> c \<in> set ''@._+-''"

text \<open>A pattern that ends in \<open>$\<close> also matches before a final line feed.\<close>

definition to_dollar :: "(string \<Rightarrow> bool) \<Rightarrow> string \<Rightarrow> bool" where
  "to_dollar m s \<longleftrightarrow> m s \<or> (s \<noteq> [] \<and> last s = CHR 0x0A \<and> m (butlast s))"

definition pkgname_body :: "string \<Rightarrow> bool" where
  "pkgname_body s \<longleftrightarrow> s \<noteq> [] \<and> pkg_first (hd s) \<and> list_all pkg_rest (tl s)"

definition PKGNAME_RE :: "string \<Rightarrow> bool" where
  "PKGNAME_RE s \<longleftrightarrow> to_dollar pkgname_body s"

definition archive_char :: "char \<Rightarrow> bool" where
  "archive_char c \<longleftrightarrow> is_alpha c \<or> is_digit c \<or> c \<in> set ''@._+-''"

definition archive_stem :: "string \<Rightarrow> bool" where
  "archive_stem s \<longleftrightarrow> ends_with ''.pkg.tar'' s \<and> length s > 8 \<and> list_all archive_char s"

definition archive_body :: "string \<Rightarrow> bool" where
  "archive_body s \<longleftrightarrow> archive_stem s \<or>
     (case rpartition1 CHR ''.'' s of
        None \<Rightarrow> False
      | Some (h, ext) \<Rightarrow> archive_stem h \<and> ext \<noteq> [] \<and> list_all lower_alnum ext)"

definition ARCHIVE_RE :: "string \<Rightarrow> bool" where
  "ARCHIVE_RE s \<longleftrightarrow> to_dollar archive_body s"

text \<open>
  What a run sees of the machine while it checks: \<open>Path.resolve\<close>, the cache directories of
  pacman, the owner of a file (\<open>None\<close> where \<open>stat\<close> fails), root and \<open>--unattended\<close>, the lock,
  the owner of the record, the terminal, the answer to the prompt, the exit code of a command
  (\<open>None\<close> where its binary is missing) and what \<open>unlink\<close> does.
\<close>

datatype lock_state = LockFree | LockHeld | LockError
datatype clear_result = Cleared | Remains | ClearError string

record machine =
  ma_resolve :: "string \<Rightarrow> string"
  ma_cache_dirs :: "string list"
  ma_uid :: "string \<Rightarrow> int option"
  ma_root :: bool
  ma_unattended :: bool
  ma_lock :: lock_state
  ma_foreign :: bool
  ma_interactive :: bool
  ma_answer :: string
  ma_exit :: "string list \<Rightarrow> int option"
  ma_clear :: clear_result

definition path_parent :: "string \<Rightarrow> string" where
  "path_parent p = (case rpartition1 CHR ''/'' p of None \<Rightarrow> ''.'' | Some (h, t) \<Rightarrow> if h = [] then ''/'' else h)"

datatype recovery_error =
    InvalidNames "string list"
  | NotAnArchive string
  | NotInCache string
  | StatFailed string
  | NotRootOwned string
  | NoArchives
  | TakesNoArguments
  | UnknownKind string

definition check_cached_archive :: "machine \<Rightarrow> string \<Rightarrow> recovery_error option" where
  "check_cached_archive m arg =
     (if \<not> starts_with ''/'' arg \<or> \<not> ARCHIVE_RE (path_name arg) then Some (NotAnArchive arg)
      else
        (let real = ma_resolve m arg; caches = map (ma_resolve m) (ma_cache_dirs m)
         in if path_parent real \<notin> set caches then Some (NotInCache arg)
            else (case ma_uid m real of
                    None \<Rightarrow> Some (StatFailed arg)
                  | Some uid \<Rightarrow> if uid \<noteq> 0 then Some (NotRootOwned arg) else None)))"

fun first_error :: "('a \<Rightarrow> 'e option) \<Rightarrow> 'a list \<Rightarrow> 'e option" where
  "first_error f [] = None"
| "first_error f (x # xs) = (case f x of None \<Rightarrow> first_error f xs | Some e \<Rightarrow> Some e)"

definition recovery_command :: "machine \<Rightarrow> recovery \<Rightarrow> recovery_error + string list" where
  "recovery_command m r =
     (if rec_kind r = RECOVERY_PACMAN_SYNC then
        (if rec_args r = [] \<or> \<not> list_all PKGNAME_RE (rec_args r) then Inl (InvalidNames (rec_args r))
         else Inr ([''pacman'', ''-S'', ''--''] @ rec_args r))
      else if rec_kind r = RECOVERY_PACMAN_UPGRADE then
        (if rec_args r = [] then Inl NoArchives
         else (case first_error (check_cached_archive m) (rec_args r) of
                 Some e \<Rightarrow> Inl e
               | None \<Rightarrow> Inr ([''pacman'', ''-U'', ''--noconfirm'', ''--''] @ rec_args r)))
      else if rec_kind r = RECOVERY_MKINITCPIO then
        (if rec_args r \<noteq> [] then Inl TakesNoArguments else Inr [''mkinitcpio'', ''-P''])
      else Inl (UnknownKind (rec_kind r)))"

definition privileged_argv :: "machine \<Rightarrow> string list \<Rightarrow> string list" where
  "privileged_argv m argv =
     (if ma_root m then argv else [''sudo''] @ (if ma_unattended m then [''-n''] else []) @ argv)"

definition recovery_argv :: "machine \<Rightarrow> recovery \<Rightarrow> recovery_error + string list" where
  "recovery_argv m r = rbind (recovery_command m r) (\<lambda>argv. Inr (privileged_argv m argv))"

definition record_fields :: "recovery option \<Rightarrow> (string, sval) dict" where
  "record_fields r =
     (case r of
        None \<Rightarrow> []
      | Some r \<Rightarrow> [(''recovery_kind'', SStr (rec_kind r)), (''recovery_args'', SList (rec_args r))])"

fun all_strings :: "tv list \<Rightarrow> string list option" where
  "all_strings [] = Some []"
| "all_strings (TStr s # xs) = map_option (\<lambda>ss. s # ss) (all_strings xs)"
| "all_strings _ = None"

definition recovery_from_record :: "machine \<Rightarrow> (string, tv) dict \<Rightarrow> recovery option" where
  "recovery_from_record m record =
     (case (dget record ''recovery_kind'', dget_or (TList []) record ''recovery_args'') of
        (Some (TStr kind), TList xs) \<Rightarrow>
          if kind \<notin> set RECOVERY_KINDS then None
          else (case all_strings xs of
                  None \<Rightarrow> None
                | Some args \<Rightarrow>
                    (let r = \<lparr>rec_kind = kind, rec_args = args\<rparr>
                     in case recovery_argv m r of Inl _ \<Rightarrow> None | Inr _ \<Rightarrow> Some r))
      | _ \<Rightarrow> None)"

section \<open>The check at the start of a run\<close>

datatype check_error = Sentinel sentinel_error | Recovery recovery_error

text \<open>
  The answer, the file, and the command that was run.  The machine is looked at twice: \<open>m\<close> when
  the record is read, \<open>m'\<close> when the operator has answered.
\<close>

definition clear_sentinel :: "machine \<Rightarrow> string option \<Rightarrow> (check_error + bool) \<times> string option" where
  "clear_sentinel m file =
     (case ma_clear m of
        Cleared \<Rightarrow> (Inr True, None)
      | Remains \<Rightarrow> (Inr False, file)
      | ClearError e \<Rightarrow> (Inl (Sentinel (Os e)), file))"

definition answered_yes :: "machine \<Rightarrow> bool" where
  "answered_yes m \<longleftrightarrow> ma_answer m = ''y'' \<or> ma_answer m = ''yes''"

definition check_and_recover ::
    "toml \<Rightarrow> machine \<Rightarrow> machine \<Rightarrow> string option \<Rightarrow> (check_error + bool) \<times> string option \<times> string list option" where
  "check_and_recover toml m m' file =
     (case get_active toml file of
        Inl e \<Rightarrow> (Inl (Sentinel e), file, None)
      | Inr found \<Rightarrow>
          if ma_lock m = LockHeld then (Inr False, file, None)
          else (case found of
            None \<Rightarrow> (Inr True, file, None)
          | Some r \<Rightarrow>
              if ma_foreign m then (Inr False, file, None)
              else if \<not> ma_interactive m then (Inr False, file, None)
              else if \<not> answered_yes m' then (Inr False, file, None)
              else (case recovery_from_record m r of
                None \<Rightarrow> (let (ok, file') = clear_sentinel m' file in (ok, file', None))
              | Some rec \<Rightarrow>
                  (case recovery_argv m' rec of
                     Inl e \<Rightarrow> (Inl (Recovery e), file, None)
                   | Inr argv \<Rightarrow>
                       (case ma_exit m' argv of
                          None \<Rightarrow> (Inr False, file, Some argv)
                        | Some code \<Rightarrow>
                            if code \<noteq> 0 then (Inr False, file, Some argv)
                            else (let (ok, file') = clear_sentinel m' file in (ok, file', Some argv)))))))"

section \<open>The scope of a stage\<close>

text \<open>
  How a body ends, whether it changed the system, and its state.  \<open>Completes True\<close> is a Ctrl-C
  that no checkpoint of the body saw.
\<close>

datatype 'e body_end = Completes bool | CleanExit | Raises 'e

datatype 'e scope_end =
    Checked check_error
  | Refused
  | LockContended
  | Ran "'e body_end" bool

record scope_env =
  se_lock :: lock_state
  se_write_ok :: bool
  se_clear_ok :: bool
  se_now :: string
  se_arm_on_mutation :: bool

text \<open>The check before the lock, and the body under it.\<close>

definition scope_entry :: "toml \<Rightarrow> machine \<Rightarrow> machine \<Rightarrow> string option \<Rightarrow> (check_error + bool) \<times> string option" where
  "scope_entry toml m m' file =
     (case get_active toml file of
        Inl e \<Rightarrow> (Inl (Sentinel e), file)
      | Inr None \<Rightarrow> (Inr True, file)
      | Inr (Some _) \<Rightarrow> (case check_and_recover toml m m' file of (ok, f, _) \<Rightarrow> (ok, f)))"

definition scope_body ::
    "scope_env \<Rightarrow> string \<Rightarrow> recovery option \<Rightarrow> (string, sval) dict
     \<Rightarrow> ('s \<Rightarrow> 'e body_end \<times> bool \<times> 's) \<Rightarrow> string option \<Rightarrow> 's \<Rightarrow> 'e scope_end \<times> string option \<times> 's" where
  "scope_body env stage rec metadata body file s =
     (case body s of (end, mutated, s') \<Rightarrow>
       (let armed = (\<not> se_arm_on_mutation env \<or> mutated);
            file1 = (if armed \<and> se_write_ok env
                     then Some (mark_started (se_now env) stage (dmerge (record_fields rec) metadata)) else file);
            file2 = (case end of Completes _ \<Rightarrow> if se_clear_ok env then None else file1 | _ \<Rightarrow> file1)
        in (Ran end armed, file2, s')))"

definition sentinel_scope ::
    "toml \<Rightarrow> machine \<Rightarrow> machine \<Rightarrow> scope_env \<Rightarrow> string \<Rightarrow> recovery option \<Rightarrow> (string, sval) dict
     \<Rightarrow> ('s \<Rightarrow> 'e body_end \<times> bool \<times> 's) \<Rightarrow> string option \<times> 's \<Rightarrow> 'e scope_end \<times> string option \<times> 's" where
  "sentinel_scope toml m m' env stage rec metadata body fs =
     (case scope_entry toml m m' (fst fs) of
        (Inl e, file) \<Rightarrow> (Checked e, file, snd fs)
      | (Inr ok, file) \<Rightarrow>
          if \<not> ok then (Refused, file, snd fs)
          else if se_lock env = LockHeld then (LockContended, file, snd fs)
          else scope_body env stage rec metadata body file (snd fs))"

section \<open>Whatever the record says\<close>

definition root_archive :: "machine \<Rightarrow> string \<Rightarrow> bool" where
  "root_archive m a \<longleftrightarrow> starts_with ''/'' a \<and> ARCHIVE_RE (path_name a) \<and>
     path_parent (ma_resolve m a) \<in> set (map (ma_resolve m) (ma_cache_dirs m)) \<and> ma_uid m (ma_resolve m a) = Some 0"

definition safe_command :: "machine \<Rightarrow> string list \<Rightarrow> bool" where
  "safe_command m cmd \<longleftrightarrow>
     (\<exists>names. names \<noteq> [] \<and> list_all PKGNAME_RE names \<and> cmd = [''pacman'', ''-S'', ''--''] @ names) \<or>
     (\<exists>files. files \<noteq> [] \<and> list_all (root_archive m) files \<and>
        cmd = [''pacman'', ''-U'', ''--noconfirm'', ''--''] @ files) \<or>
     cmd = [''mkinitcpio'', ''-P'']"

lemma check_archive_ok: "check_cached_archive m a = None \<longleftrightarrow> root_archive m a"
  by (auto simp: check_cached_archive_def root_archive_def Let_def split: option.splits)

lemma first_error_None: "first_error f xs = None \<longleftrightarrow> list_all (\<lambda>x. f x = None) xs"
  by (induction xs) (auto split: option.split)

lemma command_safe: "recovery_command m r = Inr cmd \<Longrightarrow> safe_command m cmd"
  unfolding recovery_command_def safe_command_def
  by (auto simp: first_error_None check_archive_ok split: if_splits option.splits)

lemma argv_safe: "recovery_argv m r = Inr argv \<Longrightarrow> \<exists>cmd. argv = privileged_argv m cmd \<and> safe_command m cmd"
  using command_safe [of m r] by (auto simp: recovery_argv_def rbind_Inr_iff)

lemma check_runs:
  assumes "check_and_recover toml m m' file = (res, file', Some argv)"
  shows "\<exists>r. recovery_argv m' r = Inr argv" "ma_interactive m" "\<not> ma_foreign m" "answered_yes m'" "ma_lock m \<noteq> LockHeld"
    "file' \<noteq> file \<longrightarrow> ma_exit m' argv = Some 0"
  using assms
  by (auto simp: check_and_recover_def Let_def case_prod_beta split: sum.splits option.splits if_splits)

lemma pkgname_plain:
  assumes "PKGNAME_RE s"
  shows "s \<noteq> []" "hd s \<noteq> CHR ''-''" "CHR ''/'' \<notin> set s"
proof -
  have first: "pkg_first c \<Longrightarrow> c \<noteq> CHR ''-'' \<and> c \<noteq> CHR ''/''" and rest: "pkg_rest c \<Longrightarrow> c \<noteq> CHR ''/''" for c
    by (auto simp: pkg_first_def pkg_rest_def lower_alnum_def is_digit_def less_eq_char_def)
  have body: "t \<noteq> [] \<and> hd t \<noteq> CHR ''-'' \<and> CHR ''/'' \<notin> set t" if "pkgname_body t" for t
    using that first rest by (cases t) (auto simp: pkgname_body_def list_all_iff)
  from assms consider "pkgname_body s" | "s \<noteq> []" "last s = CHR 0x0A" "pkgname_body (butlast s)"
    by (auto simp: PKGNAME_RE_def to_dollar_def)
  then have "s \<noteq> [] \<and> hd s \<noteq> CHR ''-'' \<and> CHR ''/'' \<notin> set s"
  proof cases
    case 2
    from body [OF 2(3)] 2(1) have "hd (butlast s) = hd s" by (cases s) (auto split: if_splits)
    moreover have "set s = insert (last s) (set (butlast s))" using append_butlast_last_id [OF 2(1)] by (metis list.simps(15) rotate1.simps(2) set_rotate1)
    ultimately show ?thesis using body [OF 2(3)] 2(1,2) by auto
  qed (use body in blast)
  then show "s \<noteq> []" "hd s \<noteq> CHR ''-''" "CHR ''/'' \<notin> set s" by blast+
qed

text \<open>The arguments of a command after \<open>--\<close>.\<close>

definition operands :: "string list \<Rightarrow> string list" where
  "operands cmd = tl (dropWhile (\<lambda>a. a \<noteq> ''--'') cmd)"

lemma safe_operands:
  assumes "safe_command m cmd" "a \<in> set (operands cmd)"
  shows "a \<noteq> [] \<and> hd a \<noteq> CHR ''-''"
  using assms unfolding safe_command_def
proof (elim disjE exE conjE)
  fix names assume "list_all PKGNAME_RE names" "cmd = [''pacman'', ''-S'', ''--''] @ names"
  then show ?thesis using assms(2) pkgname_plain [of a] by (auto simp: operands_def list_all_iff)
next
  fix files assume "list_all (root_archive m) files" "cmd = [''pacman'', ''-U'', ''--noconfirm'', ''--''] @ files"
  then have "root_archive m a" using assms(2) by (auto simp: operands_def list_all_iff)
  then show ?thesis by (cases a) (auto simp: root_archive_def)
qed (use assms(2) in \<open>simp add: operands_def\<close>)

text \<open>C10: the command a stale record makes sysforge run as root is, whatever the record says, one of
  the three templates: a sync of valid package names, an install of root-owned archives of the
  cache, or a rebuild of the initramfs.  No operand can be read as an option, and it runs only
  for a record of the user or root, when no other run is alive, after a yes at a terminal.\<close>

theorem recovery_runs_template:
  assumes "check_and_recover toml m m' file = (res, file', Some argv)"
  shows "\<exists>cmd. argv = privileged_argv m' cmd \<and> safe_command m' cmd \<and>
    (\<forall>a \<in> set (operands cmd). a \<noteq> [] \<and> hd a \<noteq> CHR ''-'') \<and>
    ma_interactive m \<and> \<not> ma_foreign m \<and> ma_lock m \<noteq> LockHeld \<and> answered_yes m' \<and>
    (file' \<noteq> file \<longrightarrow> ma_exit m' argv = Some 0)"
proof -
  from check_runs(1) [OF assms] obtain cmd where "argv = privileged_argv m' cmd" "safe_command m' cmd"
    using argv_safe by blast
  with check_runs(2-) [OF assms] safe_operands show ?thesis by blast
qed

text \<open>The archive of an upgrade is passed by the path of the record, not by the path that was checked.\<close>

lemma upgrade_keeps_path:
  assumes "recovery_command m r = Inr cmd" "rec_kind r = RECOVERY_PACMAN_UPGRADE"
  shows "operands cmd = rec_args r"
  using assms
  by (auto simp: recovery_command_def operands_def RECOVERY_PACMAN_SYNC_def RECOVERY_PACMAN_UPGRADE_def
      split: if_splits option.splits)

section \<open>Reading a record back\<close>

definition read_int :: "string \<Rightarrow> int option" where
  "read_int v = (case py_int v of Some i \<Rightarrow> if int_str i = v then Some i else None | None \<Rightarrow> None)"

definition read_sval :: "string \<Rightarrow> tv option" where
  "read_sval v =
     (if v = ''true'' then Some (TBool True) else if v = ''false'' then Some (TBool False)
      else (case read_value v of
              Some (VStr s) \<Rightarrow> Some (TStr s)
            | Some (VArr xs) \<Rightarrow> Some (TList (map TStr xs))
            | None \<Rightarrow> map_option TInt (read_int v)))"

definition read_record_line :: "string \<Rightarrow> (string \<times> tv) option" where
  "read_record_line l =
     (case partition1 CHR ''='' l of
        Some (k, v) \<Rightarrow>
          if ends_with '' '' k \<and> starts_with '' '' v \<and> bare_key (butlast k)
          then map_option (Pair (butlast k)) (read_sval (tl v)) else None
      | None \<Rightarrow> None)"

definition read_sentinel_line :: "string \<Rightarrow> (string, tv) dict option \<Rightarrow> (string, tv) dict option option" where
  "read_sentinel_line l sec =
     (if l = [] \<or> hd l = CHR ''#'' then Some sec
      else if l = ''['' @ SENTINEL_SECTION @ '']'' then (if sec = None then Some (Some []) else None)
      else (case sec of
              None \<Rightarrow> None
            | Some r \<Rightarrow>
                (case read_record_line l of
                   None \<Rightarrow> None
                 | Some (k, v) \<Rightarrow> if dhas r k then None else Some (Some (r @ [(k, v)])))))"

fun read_sentinel_lines :: "string list \<Rightarrow> (string, tv) dict option \<Rightarrow> (string, tv) dict option option" where
  "read_sentinel_lines [] sec = Some sec"
| "read_sentinel_lines (l # ls) sec =
     (case read_sentinel_line l sec of None \<Rightarrow> None | Some sec' \<Rightarrow> read_sentinel_lines ls sec')"

definition sentinel_toml :: toml where
  "sentinel_toml text =
     (case read_sentinel_lines (split_on CHR 0x0A text) None of
        None \<Rightarrow> None
      | Some None \<Rightarrow> Some []
      | Some (Some r) \<Rightarrow> Some [(SENTINEL_SECTION, TTable r)])"

definition sval_tv :: "sval \<Rightarrow> tv option" where
  "sval_tv v =
     (case v of
        SNone \<Rightarrow> None | SBool b \<Rightarrow> Some (TBool b) | SInt i \<Rightarrow> Some (TInt i)
      | SList xs \<Rightarrow> Some (TList (map TStr xs)) | SStr s \<Rightarrow> Some (TStr s))"

definition sval_ok :: "sval \<Rightarrow> bool" where
  "sval_ok v = (case v of SStr s \<Rightarrow> text_ok s | SList xs \<Rightarrow> list_all text_ok xs | _ \<Rightarrow> True)"

definition record_ok :: "(string, sval) dict \<Rightarrow> bool" where
  "record_ok body \<longleftrightarrow> list_all (\<lambda>(k, v). bare_key k \<and> sval_ok v) body"

lemma read_sentinel_str: "text_ok s \<Longrightarrow> read_value (sentinel_str s) = Some (VStr s)"
  by (simp add: sentinel_str_def read_value_text)

lemma read_sentinel_list:
  assumes "list_all text_ok xs"
  shows "read_value (''['' @ py_join '', '' (map sentinel_str xs) @ '']'') = Some (VArr xs)"
proof (cases "xs = []")
  case True
  then show ?thesis by (simp add: read_value_def)
next
  case False
  have "read_elems (py_join '', '' (map sentinel_str xs) @ '']'') = Some xs"
    using read_elems_quoted [of xs toml_escape] assms False
    by (simp add: sentinel_str_def [abs_def] read_basic_text list_all_iff)
  moreover have "py_join '', '' (map sentinel_str xs) @ '']'' \<noteq> '']''"
    using False by (cases xs; cases "tl xs") (auto simp: sentinel_str_def quoted_def)
  ultimately show ?thesis by (simp add: read_value_def)
qed

lemma int_str_head: "int_str i \<noteq> [] \<and> (is_digit (hd (int_str i)) \<or> hd (int_str i) = CHR ''-'')"
  using nat_str_digit by (simp add: int_str_def)

lemma read_int_text: "read_sval (int_str i) = Some (TInt i)"
proof -
  have h: "int_str i \<noteq> [] \<and> hd (int_str i) \<noteq> CHR 0x22 \<and> hd (int_str i) \<noteq> CHR ''['' \<and>
      hd (int_str i) \<noteq> CHR ''t'' \<and> hd (int_str i) \<noteq> CHR ''f''"
    using int_str_head [of i] by (auto simp: is_digit_def less_eq_char_def)
  then have "read_value (int_str i) = None" by (cases "int_str i") (simp_all add: read_value_def)
  moreover have "int_str i \<noteq> ''true''" "int_str i \<noteq> ''false''" using h by auto
  ultimately show ?thesis by (simp add: read_sval_def read_int_def py_int_str)
qed

lemma read_sval_text:
  assumes "sval_ok v" "sval_text v = Some t"
  shows "read_sval t = sval_tv v" "sval_tv v \<noteq> None"
proof -
  have quote: "sentinel_str s \<noteq> ''true''" "sentinel_str s \<noteq> ''false''" for s
    by (simp_all add: sentinel_str_def quoted_def)
  show "read_sval t = sval_tv v"
  proof (cases v)
    case (SStr s)
    then have t: "t = sentinel_str s" using assms by (simp add: sval_text_def)
    show ?thesis
      using assms quote [of s] SStr unfolding t by (simp add: sval_ok_def sval_tv_def read_sval_def read_sentinel_str)
  next
    case (SList xs)
    then have "t = ''['' @ py_join '', '' (map sentinel_str xs) @ '']''" using assms by (simp add: sval_text_def)
    moreover have "t \<noteq> ''true''" "t \<noteq> ''false''" using calculation by simp_all
    ultimately show ?thesis
      using assms SList read_sentinel_list [of xs] by (simp only: read_sval_def) (simp add: sval_ok_def sval_tv_def)
  next
    case (SBool b)
    then show ?thesis using assms by (cases b) (auto simp: sval_text_def sval_tv_def read_sval_def)
  qed (use assms in \<open>auto simp: sval_text_def sval_tv_def read_int_text\<close>)
  show "sval_tv v \<noteq> None" using assms(2) by (cases v) (simp_all add: sval_text_def sval_tv_def)
qed

lemma read_record_pair:
  assumes "bare_key k"
  shows "read_record_line (pair_line k t) = map_option (Pair k) (read_sval t)"
proof -
  have "partition1 CHR ''='' ((k @ '' '') @ CHR ''='' # CHR '' '' # t) = Some (k @ '' '', CHR '' '' # t)"
    using bare_key_clean(1) [OF assms] by (intro partition1_append) simp
  with assms show ?thesis by (simp add: read_record_line_def pair_line_def)
qed

definition field_tv :: "(string, sval) dict \<Rightarrow> string \<Rightarrow> (string \<times> tv) list" where
  "field_tv body k = (case sval_tv (the (dget body k)) of None \<Rightarrow> [] | Some v \<Rightarrow> [(k, v)])"

lemma read_sval_fields:
  assumes "list_all (\<lambda>k. bare_key k \<and> sval_ok (the (dget body k))) ks" "distinct ks" "set ks \<inter> set (map fst acc) = {}"
  shows "read_sentinel_lines (concat (map (\<lambda>k. case sval_text (the (dget body k)) of None \<Rightarrow> [] | Some t \<Rightarrow> [pair_line k t]) ks) @ rest)
      (Some acc) = read_sentinel_lines rest (Some (acc @ concat (map (field_tv body) ks)))"
  using assms
proof (induction ks arbitrary: acc)
  case (Cons k ks)
  then have k: "bare_key k" "sval_ok (the (dget body k))" "dget acc k = None" "k \<notin> set ks"
    by (auto simp: map_of_eq_None_iff)
  show ?case
  proof (cases "sval_text (the (dget body k))")
    case None
    then have "field_tv body k = []" by (cases "the (dget body k)") (simp_all add: sval_text_def field_tv_def sval_tv_def)
    with None Cons show ?thesis by simp
  next
    case (Some t)
    then obtain v where v: "sval_tv (the (dget body k)) = Some v" "read_sval t = Some v"
      using read_sval_text [OF k(2)] by force
    have "read_sentinel_line (pair_line k t) (Some acc) = Some (Some (acc @ [(k, v)]))"
    proof -
      have "hd (pair_line k t) = hd k \<and> pair_line k t \<noteq> []" using bare_key_clean(4) [OF k(1)] by (simp add: pair_line_def)
      with bare_key_clean(5,6) [OF k(1)] have "hd (pair_line k t) \<noteq> CHR ''#''" "pair_line k t \<noteq> []"
        "pair_line k t \<noteq> ''['' @ SENTINEL_SECTION @ '']''" by auto
      with k(3) read_record_pair [OF k(1), of t] v(2) show ?thesis
        unfolding read_sentinel_line_def by (simp add: dhas_def)
    qed
    with Some v Cons k(4) show ?thesis by (simp add: field_tv_def)
  qed
qed simp

lemma read_sentinel_comment: "hd l = CHR ''#'' \<Longrightarrow> read_sentinel_line l sec = Some sec"
  by (simp add: read_sentinel_line_def)

definition record_tv :: "(string, sval) dict \<Rightarrow> (string, tv) dict" where
  "record_tv body = concat (map (field_tv body) (sorted_set (map fst body)))"

lemma record_lines_clean:
  assumes "record_ok body" "l \<in> set (record_lines body)"
  shows "CHR 0x0A \<notin> set l"
proof -
  from assms(2) obtain k where k: "k \<in> set (sorted_set (map fst body))"
      "l \<in> set (case sval_text (the (dget body k)) of None \<Rightarrow> [] | Some t \<Rightarrow> [pair_line k t])"
    unfolding record_lines_def set_concat set_map by blast
  then obtain t where l: "l = pair_line k t" "k \<in> fst ` set body" "sval_text (the (dget body k)) = Some t"
    by (cases "sval_text (the (dget body k))") (simp_all add: sorted_set_def)
  from l(2) obtain v where v: "dget body k = Some v" by (metis map_of_eq_None_iff option.exhaust)
  then have k: "bare_key k" using assms(1) by (auto simp: record_ok_def list_all_iff dest: map_of_SomeD)
  have str: "CHR 0x0A \<notin> set (sentinel_str s)" for s using toml_escape_clean by (simp add: sentinel_str_def quoted_def)
  have join: "CHR 0x0A \<notin> set (py_join '', '' (map sentinel_str xs))" for xs
  proof (induction xs)
    case (Cons x xs)
    then show ?case using str [of x] by (cases xs) simp_all
  qed simp
  have "CHR 0x0A \<notin> set (nat_str n)" for n
    using nat_str_digits [of n] by (auto simp: list_all_iff is_digit_def less_eq_char_def)
  then have "CHR 0x0A \<notin> set (int_str i)" for i by (simp add: int_str_def)
  then have "CHR 0x0A \<notin> set t"
    using l(3) v str join by (cases v) (auto simp: sval_text_def split: if_splits)
  with bare_key_clean(3) [OF k] show ?thesis by (simp add: l pair_line_def)
qed

lemma sentinel_reads:
  assumes "record_ok body"
  shows "sentinel_toml (sentinel_serialize body) = Some [(SENTINEL_SECTION, TTable (record_tv body))]"
proof -
  have ok: "list_all (\<lambda>k. bare_key k \<and> sval_ok (the (dget body k))) (sorted_set (map fst body))"
  proof (unfold list_all_iff, intro ballI)
    fix k assume "k \<in> set (sorted_set (map fst body))"
    then have "dget body k \<noteq> None" by (simp add: sorted_set_def map_of_eq_None_iff)
    then show "bare_key k \<and> sval_ok (the (dget body k))"
      using assms by (fastforce simp: record_ok_def list_all_iff dest: map_of_SomeD)
  qed
  have lines: "split_on CHR 0x0A (sentinel_serialize body) =
      [''# SysForge stage-in-progress sentinel'',
         ''# Present means a previous run began an install-bearing stage'',
         ''# (toolchain/kernel/packages) and did not complete cleanly.'',
         ''# Sysforge refuses to proceed until the system is verified or'',
         ''# the sentinel is cleared. Do not edit by hand.'',
         [], ''['' @ SENTINEL_SECTION @ '']''] @ record_lines body @ [[]]"
    unfolding sentinel_serialize_def using record_lines_clean [OF assms]
    by (intro split_clean_lines) (auto simp: SENTINEL_SECTION_def)
  have header: "read_sentinel_line (''['' @ SENTINEL_SECTION @ '']'') None = Some (Some [])"
    by (simp add: read_sentinel_line_def)
  have "read_sentinel_lines (record_lines body @ [[]]) (Some []) = Some (Some (record_tv body))"
    unfolding record_lines_def
    by (subst read_sval_fields [OF ok]) (simp_all add: sorted_set_def record_tv_def, simp add: read_sentinel_line_def)
  then have "read_sentinel_lines (split_on CHR 0x0A (sentinel_serialize body)) None = Some (Some (record_tv body))"
    using header by (simp add: lines read_sentinel_comment) (simp add: read_sentinel_line_def)
  then show ?thesis by (simp add: sentinel_toml_def)
qed

lemma record_tv_get: "dget (record_tv body) k = (case dget body k of None \<Rightarrow> None | Some v \<Rightarrow> sval_tv v)"
proof -
  have gen: "dget (concat (map (field_tv body) ks)) k = (if k \<in> set ks then sval_tv (the (dget body k)) else None)" for ks
    by (induction ks) (auto simp: field_tv_def map_add_def split: option.splits)
  have "k \<in> set (sorted_set (map fst body)) \<longleftrightarrow> dget body k \<noteq> None" by (simp add: sorted_set_def map_of_eq_None_iff)
  then show ?thesis by (auto simp: record_tv_def gen split: option.split)
qed

lemma started_stage:
  "dget metadata ''stage'' = None \<Longrightarrow> dget (started_record now stage metadata) ''stage'' = Some (SStr stage)"
  by (simp add: started_record_def dget_dmerge_notin)

lemma started_active:
  assumes "record_ok (started_record now stage metadata)" "dget metadata ''stage'' = None"
  shows "get_active sentinel_toml (Some (mark_started now stage metadata)) =
    Inr (Some (record_tv (started_record now stage metadata)))"
proof -
  have "dget (record_tv (started_record now stage metadata)) ''stage'' = Some (TStr stage)"
    by (simp add: record_tv_get started_stage [OF assms(2)] sval_tv_def)
  then have "record_tv (started_record now stage metadata) \<noteq> []" by auto
  then show ?thesis by (simp add: get_active_def mark_started_def sentinel_reads [OF assms(1)])
qed

text \<open>A record is read back as it was written: what \<open>mark_started\<close> leaves in the file, the next
  run's \<open>get_active\<close> finds, field by field; a field with no value is left out.\<close>

theorem sentinel_record_roundtrip:
  assumes "record_ok (started_record now stage metadata)" "dget metadata ''stage'' = None"
  shows "\<exists>r. get_active sentinel_toml (Some (mark_started now stage metadata)) = Inr (Some r) \<and>
    dget r ''stage'' = Some (TStr stage) \<and>
    (\<forall>k. dget r k = (case dget (started_record now stage metadata) k of None \<Rightarrow> None | Some v \<Rightarrow> sval_tv v))"
  using started_active [OF assms] by (simp add: record_tv_get started_stage [OF assms(2)] sval_tv_def)

section \<open>Runs one after the other\<close>

text \<open>What a scope did: whether its body ran, and what it means for the next run.\<close>

lemma entry_passes:
  assumes "scope_entry toml m m' file = (Inr True, file')" "get_active toml file = Inr (Some r)"
  shows "answered_yes m'" "ma_interactive m" "\<not> ma_foreign m" "ma_lock m \<noteq> LockHeld" "file' = None"
    "recovery_from_record m r = Some rc \<Longrightarrow> \<exists>argv. recovery_argv m' rc = Inr argv \<and> ma_exit m' argv = Some 0"
  using assms
  by (auto simp: scope_entry_def check_and_recover_def clear_sentinel_def Let_def case_prod_beta
      split: sum.splits option.splits if_splits clear_result.splits)

lemma entry_keeps: "scope_entry toml m m' file = (ok, file') \<Longrightarrow> \<not> answered_yes m' \<Longrightarrow> file' = file"
  by (auto simp: scope_entry_def check_and_recover_def split: sum.splits option.splits if_splits)

lemma body_leaves:
  assumes "scope_body env stage rec metadata body file s = (Ran e armed, file', s')"
  shows "(\<exists>b. e = Completes b) \<Longrightarrow> se_clear_ok env \<Longrightarrow> file' = None"
    "(\<nexists>b. e = Completes b) \<Longrightarrow> armed \<Longrightarrow> se_write_ok env \<Longrightarrow>
       file' = Some (mark_started (se_now env) stage (dmerge (record_fields rec) metadata))"
    "\<not> se_arm_on_mutation env \<Longrightarrow> armed"
  using assms by (cases "body s"; auto simp: scope_body_def Let_def split: body_end.splits)+

lemma scope_ran:
  assumes "sentinel_scope toml m m' env stage rec metadata body (file, s) = (Ran e armed, file', s')"
  shows "\<exists>file1. scope_entry toml m m' file = (Inr True, file1) \<and>
    scope_body env stage rec metadata body file1 s = (Ran e armed, file', s')" "se_lock env \<noteq> LockHeld"
  using assms by (auto simp: sentinel_scope_def split: prod.splits sum.splits if_splits)

lemma scope_not_ran:
  assumes "sentinel_scope toml m m' env stage rec metadata body (file, s) = (out, file', s')" "\<nexists>e armed. out = Ran e armed"
  shows "s' = s" "\<not> answered_yes m' \<Longrightarrow> file' = file"
proof -
  obtain ok f where ok: "scope_entry toml m m' file = (ok, f)" by fastforce
  have "s' = s \<and> file' = f"
    using assms by (auto simp: sentinel_scope_def ok scope_body_def Let_def split: prod.splits sum.splits if_splits)
  then show "s' = s" "\<not> answered_yes m' \<Longrightarrow> file' = file" using entry_keeps [OF ok] by simp_all
qed

lemma scope_file:
  assumes "sentinel_scope toml m m' env stage rec metadata body (file, s) = (Ran e armed, file', s')"
    and "\<nexists>b. e = Completes b" "armed" "se_write_ok env"
  shows "file' = Some (mark_started (se_now env) stage (dmerge (record_fields rec) metadata))"
proof -
  obtain file1 where "scope_body env stage rec metadata body file1 s = (Ran e armed, file', s')"
    using scope_ran(1) [OF assms(1)] by blast
  from body_leaves(2) [OF this assms(2-4)] show ?thesis .
qed

text \<open>C32: a stage starts over the record of an interrupted run only after a yes at a terminal and, when
  the record names a valid recovery, only after that command has succeeded; the run itself
  leaves its own record when it is cut short or fails, and none when it completes.\<close>

theorem scope_guards_record:
  assumes "sentinel_scope toml m m' env stage rec metadata body (file, s) = (Ran e armed, file', s')"
  shows "se_lock env \<noteq> LockHeld \<and>
    (\<forall>r. get_active toml file = Inr (Some r) \<longrightarrow>
      ma_interactive m \<and> \<not> ma_foreign m \<and> ma_lock m \<noteq> LockHeld \<and> answered_yes m' \<and>
      (\<forall>rc. recovery_from_record m r = Some rc \<longrightarrow>
         (\<exists>argv. recovery_argv m' rc = Inr argv \<and> ma_exit m' argv = Some 0))) \<and>
    ((\<exists>b. e = Completes b) \<and> se_clear_ok env \<longrightarrow> file' = None) \<and>
    ((\<nexists>b. e = Completes b) \<and> armed \<and> se_write_ok env \<longrightarrow>
      file' = Some (mark_started (se_now env) stage (dmerge (record_fields rec) metadata)))"
proof -
  from scope_ran(1) [OF assms] obtain file1 where f: "scope_entry toml m m' file = (Inr True, file1)"
    "scope_body env stage rec metadata body file1 s = (Ran e armed, file', s')" by blast
  from entry_passes [OF f(1)] body_leaves(1,2) [OF f(2)] scope_ran(2) [OF assms] show ?thesis by blast
qed

text \<open>
  A later run, whatever its stage: what it sees, and what its body does.  A sequence of runs,
  each with the file the one before it left.
\<close>

record 's later_run =
  lr_before :: machine
  lr_after :: machine
  lr_env :: scope_env
  lr_stage :: string
  lr_recovery :: "recovery option"
  lr_metadata :: "(string, sval) dict"
  lr_body :: "'s \<Rightarrow> string body_end \<times> bool \<times> 's"

definition run_later :: "toml \<Rightarrow> 's later_run \<Rightarrow> string option \<times> 's \<Rightarrow> string scope_end \<times> string option \<times> 's" where
  "run_later toml r fs =
     sentinel_scope toml (lr_before r) (lr_after r) (lr_env r) (lr_stage r) (lr_recovery r) (lr_metadata r) (lr_body r) fs"

fun run_all_later :: "toml \<Rightarrow> 's later_run list \<Rightarrow> string option \<times> 's \<Rightarrow> string option \<times> 's" where
  "run_all_later toml [] fs = fs"
| "run_all_later toml (r # rs) fs = run_all_later toml rs (snd (run_later toml r fs))"

lemma later_blocked:
  assumes "get_active toml file = Inr (Some r)" "\<not> (ma_interactive (lr_before x) \<and> answered_yes (lr_after x))"
  shows "snd (run_later toml x (file, s)) = (file, s) \<and> (\<nexists>e armed. fst (run_later toml x (file, s)) = Ran e armed)"
proof -
  obtain ok f where ok: "scope_entry toml (lr_before x) (lr_after x) file = (ok, f)" by fastforce
  have "ok \<noteq> Inr True" using entry_passes(1,2) [OF _ assms(1), of "lr_before x" "lr_after x" f] ok assms(2) by auto
  moreover have "f = file"
    using ok assms(2) by (auto simp: scope_entry_def check_and_recover_def split: sum.splits option.splits if_splits)
  ultimately show ?thesis
    using ok by (auto simp: run_later_def sentinel_scope_def split: sum.splits)
qed

text \<open>C12: an interruption is not forgotten: once a run has been cut short after its record was written,
  no run after it starts its body or changes anything, however many there are and whatever
  their stages, until one of them is answered yes at a terminal.\<close>

theorem interruption_blocks_later_runs:
  assumes "sentinel_scope sentinel_toml m m' env stage rec metadata body (file, s) = (Ran e armed, file', s')"
    and "\<nexists>b. e = Completes b" "armed" "se_write_ok env"
    and "record_ok (started_record (se_now env) stage (dmerge (record_fields rec) metadata))"
    and "dget (dmerge (record_fields rec) metadata) ''stage'' = None"
    and "list_all (\<lambda>x. \<not> (ma_interactive (lr_before x) \<and> answered_yes (lr_after x))) later"
  shows "run_all_later sentinel_toml later (file', s') = (file', s')"
proof -
  have "file' = Some (mark_started (se_now env) stage (dmerge (record_fields rec) metadata))"
    by (rule scope_file [OF assms(1-4)])
  with started_active [OF assms(5,6)] obtain r where "get_active sentinel_toml file' = Inr (Some r)" by blast
  note blocked = later_blocked [OF this, THEN conjunct1]
  from assms(7) show ?thesis
  proof (induction later)
    case (Cons x later)
    then have "snd (run_later sentinel_toml x (file', s')) = (file', s')" by (intro blocked) simp
    with Cons show ?case by simp
  qed simp
qed

section \<open>Runs at the same time\<close>

text \<open>
  Any number of runs, each a process at one point of the check or the scope.  A step is one
  access to the file or the lock; a process can also be cut short anywhere, and the kernel
  then releases its lock.  The record in the file is known by the run that wrote it.  Three
  lists remember the runs cut short in their body, the runs whose operator said yes, and
  those of them that said it while another run held the lock.
\<close>

datatype pc = Start | Probing | Reading | Asking | Passed | Holding | InBody | Clearing | Ended | Stopped

record world =
  w_file :: "nat option"
  w_lock :: "nat option"
  w_pc :: "nat \<Rightarrow> pc"
  w_cut :: "nat list"
  w_yes :: "nat list"
  w_late :: "nat list"

definition to :: "nat \<Rightarrow> pc \<Rightarrow> world \<Rightarrow> world" where
  "to p c w = w\<lparr>w_pc := (w_pc w)(p := c)\<rparr>"

definition release :: "nat \<Rightarrow> world \<Rightarrow> world" where
  "release p w = w\<lparr>w_lock := (if w_lock w = Some p then None else w_lock w)\<rparr>"

definition first_world :: world where
  "first_world = \<lparr>w_file = None, w_lock = None, w_pc = (\<lambda>p. Start), w_cut = [], w_yes = [], w_late = []\<rparr>"

inductive world_step :: "nat \<Rightarrow> world \<Rightarrow> world \<Rightarrow> bool" where
  look_none: "w_pc w p = Start \<Longrightarrow> w_file w = None \<Longrightarrow> world_step p w (to p Passed w)"
| look_some: "w_pc w p = Start \<Longrightarrow> w_file w \<noteq> None \<Longrightarrow> world_step p w (to p Probing w)"
| probe_held: "w_pc w p = Probing \<Longrightarrow> w_lock w \<noteq> None \<Longrightarrow> world_step p w (to p Stopped w)"
| probe_free: "w_pc w p = Probing \<Longrightarrow> w_lock w = None \<Longrightarrow> world_step p w (to p Reading w)"
| read_none: "w_pc w p = Reading \<Longrightarrow> w_file w = None \<Longrightarrow> world_step p w (to p Passed w)"
| read_some: "w_pc w p = Reading \<Longrightarrow> w_file w \<noteq> None \<Longrightarrow> world_step p w (to p Asking w)"
| say_no: "w_pc w p = Asking \<Longrightarrow> world_step p w (to p Stopped w)"
| say_yes: "w_pc w p = Asking \<Longrightarrow>
    world_step p w (to p Passed (w\<lparr>w_file := None, w_yes := p # w_yes w,
      w_late := (if w_lock w = None then w_late w else p # w_late w)\<rparr>))"
| lock_held: "w_pc w p = Passed \<Longrightarrow> w_lock w \<noteq> None \<Longrightarrow> world_step p w (to p Stopped w)"
| lock_taken: "w_pc w p = Passed \<Longrightarrow> w_lock w = None \<Longrightarrow> world_step p w (to p Holding (w\<lparr>w_lock := Some p\<rparr>))"
| arm: "w_pc w p = Holding \<Longrightarrow> world_step p w (to p InBody (w\<lparr>w_file := Some p\<rparr>))"
| clear: "w_pc w p = InBody \<Longrightarrow> world_step p w (to p Clearing (w\<lparr>w_file := None\<rparr>))"
| finish: "w_pc w p = Clearing \<Longrightarrow> world_step p w (to p Ended (release p w))"
| cut: "w_pc w p = InBody \<Longrightarrow> world_step p w (to p Stopped (release p (w\<lparr>w_cut := p # w_cut w\<rparr>)))"
| die: "w_pc w p \<noteq> InBody \<Longrightarrow> world_step p w (to p Stopped (release p w))"

inductive world_reach :: "world \<Rightarrow> bool" where
  first: "world_reach first_world"
| step: "world_reach w \<Longrightarrow> world_step p w w' \<Longrightarrow> world_reach w'"

definition in_scope :: "world \<Rightarrow> nat \<Rightarrow> bool" where
  "in_scope w p \<longleftrightarrow> w_pc w p \<in> {Holding, InBody, Clearing}"

lemma to_simps [simp]: "w_pc (to p c w) q = (if q = p then c else w_pc w q)" "w_file (to p c w) = w_file w"
  "w_lock (to p c w) = w_lock w" "w_late (to p c w) = w_late w" "w_cut (to p c w) = w_cut w" "w_yes (to p c w) = w_yes w"
  by (simp_all add: to_def)

lemma release_simps [simp]: "w_pc (release p w) = w_pc w" "w_file (release p w) = w_file w" "w_late (release p w) = w_late w"
  "w_lock (release p w) = (if w_lock w = Some p then None else w_lock w)" "w_cut (release p w) = w_cut w" "w_yes (release p w) = w_yes w"
  by (simp_all add: release_def)

lemma step_frame:
  assumes "world_step p w w'"
  shows "q \<noteq> p \<Longrightarrow> w_pc w' q = w_pc w q"
    "w_lock w' = w_lock w \<and> (in_scope w' p \<longleftrightarrow> in_scope w p) \<or> w_lock w = None \<and> w_lock w' = Some p \<and> in_scope w' p \<or>
     \<not> in_scope w' p \<and> w_lock w' = (if w_lock w = Some p then None else w_lock w)"
    "w_file w' = w_file w \<or> in_scope w p \<or> w_file w' = None \<and> (w_lock w = None \<and> w_late w' = w_late w \<or> w_late w' \<noteq> [])"
    "w_pc w' p = InBody \<Longrightarrow> w_file w' = Some p" "w_late w' = [] \<Longrightarrow> w_late w = []"
  using assms by (cases rule: world_step.cases; auto simp: in_scope_def split: if_splits; fail)+

lemma reach_lock: "world_reach w \<Longrightarrow> in_scope w q \<longleftrightarrow> w_lock w = Some q"
proof (induction arbitrary: q rule: world_reach.induct)
  case (step w p w')
  show ?case
  proof (cases "q = p")
    case True
    then show ?thesis using step_frame(2) [OF step.hyps(2)] step.IH [of p] by (auto split: if_splits)
  next
    case False
    then have "in_scope w' q \<longleftrightarrow> in_scope w q" using step_frame(1) [OF step.hyps(2)] by (simp add: in_scope_def)
    with False show ?thesis using step_frame(2) [OF step.hyps(2)] step.IH [of p] step.IH [of q] by (auto split: if_splits)
  qed
qed (simp add: first_world_def in_scope_def)

lemma reach_record: "world_reach w \<Longrightarrow> w_late w = [] \<Longrightarrow> w_pc w q = InBody \<Longrightarrow> w_file w = Some q"
proof (induction arbitrary: q rule: world_reach.induct)
  case (step w p w')
  note frame = step_frame [OF step.hyps(2)] and lock = reach_lock [OF step.hyps(1)]
  show ?case
  proof (cases "q = p")
    case True
    with frame(4) step.prems show ?thesis by simp
  next
    case False
    then have q: "w_pc w q = InBody" using frame(1) step.prems by simp
    then have "w_lock w = Some q" using lock [of q] by (simp add: in_scope_def)
    then have "w_file w' = w_file w" using frame(3) lock [of p] False step.prems(1) by auto
    with step.IH [OF frame(5) [OF step.prems(1)] q] show ?thesis by simp
  qed
qed (simp add: first_world_def)


text \<open>
  The check comes before the lock, so a run that passed it can start over the record of a run
  that was cut short in between.
\<close>

lemma race_state:
  "\<exists>w. world_reach w \<and> w_cut w = [0] \<and> w_yes w = [] \<and> w_late w = [] \<and> w_pc w 1 = InBody \<and> w_file w = Some 1"
proof -
  let ?w2 = "to 1 Passed (to 0 Passed first_world)"
  let ?w3 = "to 0 Holding (?w2\<lparr>w_lock := Some 0\<rparr>)"
  let ?w4 = "to 0 InBody (?w3\<lparr>w_file := Some 0\<rparr>)"
  let ?w5 = "to 0 Stopped (release 0 (?w4\<lparr>w_cut := 0 # w_cut ?w4\<rparr>))"
  let ?w6 = "to 1 Holding (?w5\<lparr>w_lock := Some 1\<rparr>)"
  let ?w7 = "to 1 InBody (?w6\<lparr>w_file := Some 1\<rparr>)"
  note start = first_world_def
  have "world_reach (to 0 Passed first_world)" by (rule step [OF first look_none]) (simp_all add: start)
  then have "world_reach ?w2" by (rule step [OF _ look_none]) (simp_all add: start)
  then have "world_reach ?w3" by (rule step [OF _ lock_taken]) (simp_all add: start)
  then have "world_reach ?w4" by (rule step [OF _ arm]) simp
  then have "world_reach ?w5" by (rule step [OF _ cut]) simp
  then have "world_reach ?w6" by (rule step [OF _ lock_taken]) (simp_all add: start to_def release_def)
  then have "world_reach ?w7" by (rule step [OF _ arm]) simp
  moreover have "w_cut ?w7 = [0]" "w_yes ?w7 = []" "w_late ?w7 = []" "w_pc ?w7 1 = InBody" "w_file ?w7 = Some 1"
    by (simp_all add: start to_def release_def)
  ultimately show ?thesis by blast
qed

text \<open>An interruption can be forgotten with nobody asked: two runs pass the check, the first is cut
  short in its body, and the second then takes the lock and writes its own record over it.\<close>

theorem interruption_overwritten:
  "\<exists>w. world_reach w \<and> w_cut w = [0] \<and> w_yes w = [] \<and> w_pc w 1 = InBody \<and> w_file w = Some 1"
  using race_state by blast

section \<open>What the archive check does not pin\<close>

lemma swapped_not_root:
  assumes "path_parent real \<notin> set (map ((ma_resolve m)(a := real)) (ma_cache_dirs m))"
  shows "\<not> root_archive (m\<lparr>ma_resolve := (ma_resolve m)(a := real)\<rparr>) a"
  using assms by (simp add: root_archive_def)

text \<open>An archive is checked by what its path resolves to, but the command is given the path of the
  record: a link into the cache that points elsewhere when \<open>pacman\<close> opens it makes the checked
  command install a file that would not have passed.\<close>

theorem archive_check_not_pinned:
  assumes "recovery_command m r = Inr cmd" "rec_kind r = RECOVERY_PACMAN_UPGRADE" "a \<in> set (rec_args r)"
    and "m' = m\<lparr>ma_resolve := (ma_resolve m)(a := real)\<rparr>"
    and "path_parent real \<notin> set (map (ma_resolve m') (ma_cache_dirs m'))"
  shows "safe_command m cmd \<and> a \<in> set (operands cmd) \<and> \<not> safe_command m' cmd"
proof -
  have cmd: "cmd = [''pacman'', ''-U'', ''--noconfirm'', ''--''] @ rec_args r"
    using assms(1,2) by (auto simp: recovery_command_def RECOVERY_PACMAN_SYNC_def RECOVERY_PACMAN_UPGRADE_def
        split: if_splits option.splits)
  have "\<not> root_archive m' a" using swapped_not_root assms(4,5) by simp
  then have "\<not> safe_command m' cmd" using assms(3) by (auto simp: safe_command_def cmd list_all_iff)
  with command_safe [OF assms(1)] upgrade_keeps_path [OF assms(1,2)] assms(3) show ?thesis by simp
qed

section \<open>Witnesses\<close>

definition demo_machine :: machine where
  "demo_machine =
     \<lparr>ma_resolve = (\<lambda>p. if p = ''/tmp/x.pkg.tar.zst'' then ''/var/cache/pacman/pkg/x.pkg.tar.zst'' else p),
      ma_cache_dirs = [''/var/cache/pacman/pkg''], ma_uid = (\<lambda>p. Some 0), ma_root = False, ma_unattended = False,
      ma_lock = LockFree, ma_foreign = False, ma_interactive = True, ma_answer = ''y'',
      ma_exit = (\<lambda>argv. Some 0), ma_clear = Cleared\<rparr>"

definition demo_recovery :: recovery where
  "demo_recovery = \<lparr>rec_kind = RECOVERY_PACMAN_SYNC, rec_args = [''llvm'', ''llvm-libs'']\<rparr>"

definition demo_metadata :: "(string, sval) dict" where
  "demo_metadata = [(''compiler'', SStr ''llvm''), (''pgo'', SBool True), (''remaining'', SInt 12), (''note'', SNone)]"

definition demo_file :: "string option" where
  "demo_file = Some (mark_started ''2026-05-14T15:00:00Z'' ''toolchain'' (dmerge (record_fields (Some demo_recovery)) demo_metadata))"

definition demo_scope :: scope_env where
  "demo_scope = \<lparr>se_lock = LockFree, se_write_ok = True, se_clear_ok = True, se_now = ''2026-05-14T15:00:00Z'', se_arm_on_mutation = False\<rparr>"

lemma demo_check:
  "check_and_recover sentinel_toml demo_machine demo_machine demo_file =
   (Inr True, None, Some [''sudo'', ''pacman'', ''-S'', ''--'', ''llvm'', ''llvm-libs''])"
  by code_simp

theorem recovery_runs_template_witness:
  "\<exists>cmd. [''sudo'', ''pacman'', ''-S'', ''--'', ''llvm'', ''llvm-libs''] = privileged_argv demo_machine cmd \<and>
     safe_command demo_machine cmd"
  using recovery_runs_template [OF demo_check] by blast

lemma demo_record_ok: "record_ok (started_record ''2026-05-14T15:00:00Z'' ''toolchain'' (dmerge (record_fields (Some demo_recovery)) demo_metadata))"
  by code_simp

lemma demo_no_stage: "dget (dmerge (record_fields (Some demo_recovery)) demo_metadata) ''stage'' = None"
  by code_simp

theorem sentinel_record_roundtrip_witness:
  "\<exists>r. get_active sentinel_toml demo_file = Inr (Some r) \<and> dget r ''remaining'' = Some (TInt 12) \<and> dget r ''note'' = None"
proof -
  obtain r where r: "get_active sentinel_toml demo_file = Inr (Some r)"
    "\<forall>k. dget r k = (case dget (started_record ''2026-05-14T15:00:00Z'' ''toolchain'' (dmerge (record_fields (Some demo_recovery)) demo_metadata)) k
       of None \<Rightarrow> None | Some v \<Rightarrow> sval_tv v)"
    using sentinel_record_roundtrip [OF demo_record_ok demo_no_stage] unfolding demo_file_def by blast
  then have "dget r ''remaining'' = Some (TInt 12)" "dget r ''note'' = None"
    by (simp_all add: started_record_def record_fields_def demo_recovery_def demo_metadata_def dset_def sval_tv_def)
  with r(1) show ?thesis by blast
qed

definition cut_body :: "nat \<Rightarrow> string body_end \<times> bool \<times> nat" where
  "cut_body n = (CleanExit, True, Suc n)"

lemma demo_cut:
  "sentinel_scope sentinel_toml demo_machine demo_machine demo_scope ''toolchain'' (Some demo_recovery) demo_metadata
     cut_body (demo_file, 0) = (Ran CleanExit True, demo_file, Suc 0)"
  by code_simp

theorem scope_guards_record_witness:
  "answered_yes demo_machine \<and> demo_file = Some (mark_started (se_now demo_scope) ''toolchain''
     (dmerge (record_fields (Some demo_recovery)) demo_metadata))"
proof -
  obtain r where "get_active sentinel_toml demo_file = Inr (Some r)"
    using started_active [OF demo_record_ok demo_no_stage] by (simp add: demo_file_def)
  with scope_guards_record [OF demo_cut] show ?thesis by (simp add: demo_scope_def)
qed

definition cron_run :: "nat later_run" where
  "cron_run = \<lparr>lr_before = demo_machine\<lparr>ma_interactive := False\<rparr>, lr_after = demo_machine, lr_env = demo_scope,
     lr_stage = ''packages'', lr_recovery = None, lr_metadata = [], lr_body = cut_body\<rparr>"

theorem interruption_blocks_later_runs_witness:
  "run_all_later sentinel_toml [cron_run, cron_run] (demo_file, Suc 0) = (demo_file, Suc 0)"
  using interruption_blocks_later_runs [OF demo_cut, of "[cron_run, cron_run]"] demo_record_ok demo_no_stage
  by (simp add: demo_scope_def cron_run_def)


theorem archive_check_not_pinned_witness:
  "''/tmp/x.pkg.tar.zst'' \<in> set (operands [''pacman'', ''-U'', ''--noconfirm'', ''--'', ''/tmp/x.pkg.tar.zst'']) \<and>
   \<not> safe_command (demo_machine\<lparr>ma_resolve := (ma_resolve demo_machine)(''/tmp/x.pkg.tar.zst'' := ''/home/eve/x.pkg.tar.zst'')\<rparr>)
     [''pacman'', ''-U'', ''--noconfirm'', ''--'', ''/tmp/x.pkg.tar.zst'']"
proof -
  let ?r = "\<lparr>rec_kind = RECOVERY_PACMAN_UPGRADE, rec_args = [''/tmp/x.pkg.tar.zst'']\<rparr>"
  have "recovery_command demo_machine ?r = Inr [''pacman'', ''-U'', ''--noconfirm'', ''--'', ''/tmp/x.pkg.tar.zst'']"
    by code_simp
  moreover have "path_parent ''/home/eve/x.pkg.tar.zst'' \<notin> set (map (ma_resolve (demo_machine\<lparr>ma_resolve :=
      (ma_resolve demo_machine)(''/tmp/x.pkg.tar.zst'' := ''/home/eve/x.pkg.tar.zst'')\<rparr>))
      (ma_cache_dirs (demo_machine\<lparr>ma_resolve :=
      (ma_resolve demo_machine)(''/tmp/x.pkg.tar.zst'' := ''/home/eve/x.pkg.tar.zst'')\<rparr>)))"
    by code_simp
  ultimately show ?thesis
    using archive_check_not_pinned [of demo_machine ?r _ "''/tmp/x.pkg.tar.zst''"] by simp
qed

end
