(* ===== verification/PackagesStage.thy ===== *)
theory PackagesStage
  imports PipelineRunner StageSentinel AurResolve
begin

text \<open>
  Model of \<open>sysforge/pipeline/stages/packages.py\<close>, with \<open>expand_package_groups\<close> and
  \<open>resolve_repo_mode\<close> of \<open>primitives/config.py\<close>, \<open>build_resolved_deps\<close> of \<open>build/aur_deps.py\<close> and
  \<open>display_manager_for\<close> of \<open>primitives/pkg_catalog.py\<close>: the stage that builds or installs every
  package of the manifest, over the checkpoint of theory \<open>PipelineState\<close> and inside the scope of
  theory \<open>StageSentinel\<close>.

  pacman, makepkg, the PKGBUILD lookup and parser, the terminal, the snapshot and systemctl are
  the records \<open>package_env\<close> and \<open>stage_env\<close>; the outcome of a package may differ from one turn
  of the loop to another.  The order in which Python walks a set is the parameter \<open>sv_walk\<close>.
  Log lines, the progress bar and the options of makepkg other than the compilers, the variant
  and the source are left out, an error message that quotes a path keeps only its head, and
  \<open>normalize_package_entry\<close> is the identity it is in the code.

  The lemmas: the manifest's precedence, what the loop does to every package, and what a run that
  raises nothing, or in which packages fail, amounts to.
\<close>

section \<open>The manifest\<close>

type_synonym pkg_entry = "(string, pyval) dict"

record manifest =
  mf_build :: pkg_entry
  mf_packages :: "pkg_entry list"
  mf_groups :: "(string, pkg_entry option) dict"

definition str_item :: "pkg_entry \<Rightarrow> string \<Rightarrow> string option" where
  "str_item e k = (case dget e k of Some (PStr s) \<Rightarrow> Some s | _ \<Rightarrow> None)"

text \<open>The loop over the members of one group, and the one over the groups (\<open>None\<close> is no table).\<close>

fun add_members :: "string \<Rightarrow> pkg_entry \<Rightarrow> string list \<Rightarrow> string list \<times> pkg_entry list \<Rightarrow> string list \<times> pkg_entry list" where
  "add_members gname defaults [] st = st"
| "add_members gname defaults (n # ns) (seen, entries) =
     (if n = [] \<or> n \<in> set seen then add_members gname defaults ns (seen, entries)
      else add_members gname defaults ns
             (n # seen, entries @ [dset ''group'' (PStr gname) (dmerge [(''name'', PStr n)] defaults)]))"

definition add_group :: "string \<times> pkg_entry option \<Rightarrow> string list \<times> pkg_entry list \<Rightarrow> string list \<times> pkg_entry list" where
  "add_group g st =
     (case snd g of
        None \<Rightarrow> st
      | Some t \<Rightarrow> add_members (fst g) (dpop ''packages'' t)
                    (case dget t ''packages'' of Some (PList ns) \<Rightarrow> ns | _ \<Rightarrow> []) st)"

definition expand_package_groups :: "manifest \<Rightarrow> pkg_entry list" where
  "expand_package_groups mf =
     snd (fold add_group (mf_groups mf) (concat (map (\<lambda>e. case str_item e ''name'' of None \<Rightarrow> [] | Some n \<Rightarrow> [n]) (mf_packages mf)),
       mf_packages mf))"

definition REPO_MODE_PACMAN :: string where "REPO_MODE_PACMAN = ''pacman''"
definition REPO_MODE_SOURCE :: string where "REPO_MODE_SOURCE = ''build_from_source''"

definition repo_mode_error :: "pyval \<Rightarrow> string" where
  "repo_mode_error raw = ''[PACKAGES] Invalid [build] repo_mode='' @ pyval_repr raw"

text \<open>\<open>None\<close> where the file does not exist; a value that cannot be hashed is no member of a set.\<close>

definition load_packages :: "(exn + manifest) option \<Rightarrow> exn + pkg_entry \<times> pkg_entry list" where
  "load_packages file =
     (case file of
        None \<Rightarrow> Inl (RuntimeErr ''[PACKAGES] packages.toml not found'')
      | Some (Inl e) \<Rightarrow> Inl e
      | Some (Inr mf) \<Rightarrow>
          (case dget (mf_build mf) ''repo_mode'' of
             None \<Rightarrow> Inr (mf_build mf, expand_package_groups mf)
           | Some (PList xs) \<Rightarrow> Inl (OtherErr ''TypeError'' ''unhashable type'')
           | Some (PTable t) \<Rightarrow> Inl (OtherErr ''TypeError'' ''unhashable type'')
           | Some raw \<Rightarrow>
               if raw = PStr REPO_MODE_PACMAN \<or> raw = PStr REPO_MODE_SOURCE
               then Inr (mf_build mf, expand_package_groups mf)
               else Inl (RuntimeErr (repo_mode_error raw))))"

text \<open>\<open>resolve_repo_mode\<close>: the removed value raises, any other that is not known is \<open>pacman\<close>.\<close>

definition resolve_repo_mode :: "pkg_entry \<Rightarrow> exn + string" where
  "resolve_repo_mode build =
     (case dget build ''repo_mode'' of
        None \<Rightarrow> Inr REPO_MODE_PACMAN
      | Some (PStr m) \<Rightarrow>
          if m = ''profiled'' then Inl (RuntimeErr ''[build] repo_mode = 'profiled' was removed in 3.0.0. Change it to repo_mode = 'build_from_source'.'')
          else Inr (if m = REPO_MODE_SOURCE then REPO_MODE_SOURCE else REPO_MODE_PACMAN)
      | Some (PList xs) \<Rightarrow> Inl (OtherErr ''TypeError'' ''unhashable type'')
      | Some (PTable t) \<Rightarrow> Inl (OtherErr ''TypeError'' ''unhashable type'')
      | Some v \<Rightarrow> Inr REPO_MODE_PACMAN)"

definition forced_mode :: "string \<Rightarrow> pkg_entry \<Rightarrow> string" where
  "forced_mode mode pkg =
     (case dget pkg ''enable_build_from_source'' of
        Some v \<Rightarrow> if pyval_true v then REPO_MODE_SOURCE else mode
      | None \<Rightarrow> mode)"

definition effective_mode :: "pkg_entry \<Rightarrow> pkg_entry \<Rightarrow> exn + string" where
  "effective_mode build pkg = rbind (resolve_repo_mode build) (\<lambda>m. Inr (forced_mode m pkg))"

definition source_of_pkg :: "pkg_entry \<Rightarrow> pyval" where
  "source_of_pkg pkg = dget_or (PStr ''aur'') pkg ''source''"

section \<open>Installing one package\<close>

datatype makepkg_end = MkBuilt | MkAlreadyBuilt | MkRaises exn

record build_request =
  br_cc :: "pyval option"
  br_cxx :: "pyval option"
  br_ld :: "pyval option"
  br_source :: "pyval option"
  br_variant :: "pyval option"

record package_env =
  pe_interrupt :: bool
  pe_pacman :: "string \<Rightarrow> int"
  pe_find :: "string \<Rightarrow> exn + string"
  pe_repo_deps :: "string \<Rightarrow> string \<Rightarrow> exn option"
  pe_makepkg :: "build_request \<Rightarrow> string \<Rightarrow> makepkg_end"
  pe_install :: "string \<Rightarrow> exn option"

text \<open>\<open>except RuntimeError\<close>: \<open>NotImplementedError\<close> is one too; \<open>str(e)\<close> of one.\<close>

definition is_runtime :: "exn \<Rightarrow> bool" where
  "is_runtime e = (case e of RuntimeErr _ \<Rightarrow> True | NotImplErr _ \<Rightarrow> True | _ \<Rightarrow> False)"

definition exn_text :: "exn \<Rightarrow> string" where
  "exn_text e = (case e of RuntimeErr m \<Rightarrow> m | NotImplErr m \<Rightarrow> m | RebootReq m \<Rightarrow> m | OtherErr t m \<Rightarrow> m | BaseErr m \<Rightarrow> m)"

definition set_if_true :: "string \<Rightarrow> pyval option \<Rightarrow> (string, pyval) dict \<Rightarrow> (string, pyval) dict" where
  "set_if_true k v d = (case v of Some x \<Rightarrow> if pyval_true x then dset k x d else d | None \<Rightarrow> d)"

definition toolchain_overrides :: "pstate \<Rightarrow> (string, pyval) dict" where
  "toolchain_overrides d =
     (let r = get_stage_result d ''toolchain''
      in set_if_true ''variant'' (dget r ''variant'') (set_if_true ''ld_override'' (dget r ''ld'')
           (set_if_true ''cxx_override'' (dget r ''cxx'') (set_if_true ''cc_override'' (dget r ''cc'') []))))"

definition install_repo :: "package_env \<Rightarrow> bool \<Rightarrow> string \<Rightarrow> exn option" where
  "install_repo pe dry name =
     (if dry then None
      else (let code = pe_pacman pe name in
            if code \<noteq> 0
            then Some (RuntimeErr (''pacman -S failed for '' @ py_repr name @ '' (exit '' @ int_str code @ '')''))
            else None))"

definition resolve_pkgbuild :: "(string \<Rightarrow> exn + string) \<Rightarrow> string \<Rightarrow> exn + string" where
  "resolve_pkgbuild look name =
     (case look name of
        Inl (OtherErr t m) \<Rightarrow> Inl (if t = ''FileNotFoundError'' then RuntimeErr (''[PACKAGES] '' @ m) else OtherErr t m)
      | r \<Rightarrow> r)"

definition build_aur :: "package_env \<Rightarrow> bool \<Rightarrow> (string, pyval) dict \<Rightarrow> pkg_entry \<Rightarrow> string \<Rightarrow> exn option" where
  "build_aur pe dry toolchain pkg name =
     (if dry then None
      else (case resolve_pkgbuild (pe_find pe) name of
        Inl e \<Rightarrow> Some e
      | Inr path \<Rightarrow>
          (case pe_repo_deps pe path name of
             Some e \<Rightarrow> Some e
           | None \<Rightarrow>
               (case pe_makepkg pe \<lparr>br_cc = dget toolchain ''cc_override'', br_cxx = dget toolchain ''cxx_override'',
                       br_ld = dget toolchain ''ld_override'', br_source = dget pkg ''source'',
                       br_variant = dget toolchain ''variant''\<rparr> path of
                  MkRaises e \<Rightarrow> Some e
                | _ \<Rightarrow> pe_install pe (path_parent path)))))"

text \<open>The branches of the main loop over the source of a package.\<close>

definition package_action :: "package_env \<Rightarrow> bool \<Rightarrow> (string, pyval) dict \<Rightarrow> string \<Rightarrow> pkg_entry \<Rightarrow> string \<Rightarrow> exn option" where
  "package_action pe dry toolchain mode pkg name =
     (let source = source_of_pkg pkg in
      if source = PStr ''repo'' \<and> mode = REPO_MODE_SOURCE then build_aur pe dry toolchain pkg name
      else if source = PStr ''repo'' then install_repo pe dry name
      else if source \<in> {PStr ''aur'', PStr ''git'', PStr ''local''} then build_aur pe dry toolchain pkg name
      else Some (RuntimeErr (''Unknown source type '' @ pyval_repr source @ '' for '' @ py_repr name)))"

section \<open>AUR dependencies\<close>

text \<open>\<open>build_resolved_deps\<close>: one build per PKGBUILD, at the place of its first member.\<close>

definition dep_group :: "resolved_dep \<Rightarrow> (string, string list) dict \<Rightarrow> (string, string list) dict" where
  "dep_group d m =
     (case rd_pkgbuild_path d of
        Some p \<Rightarrow> if rd_source d = SrcAur then dset p (dget_or [] m p @ [rd_name d]) m else m
      | None \<Rightarrow> m)"

definition dep_groups :: "resolved_dep list \<Rightarrow> (string, string list) dict" where
  "dep_groups deps = fold dep_group deps []"

text \<open>The exception, the PKGBUILDs built and installed, and the names of their members.\<close>

fun build_groups ::
    "(string \<Rightarrow> makepkg_end) \<Rightarrow> (string \<Rightarrow> exn option) \<Rightarrow> (string, string list) dict
     \<Rightarrow> exn option \<times> string list \<times> string list" where
  "build_groups mk inst [] = (None, [], [])"
| "build_groups mk inst ((path, ns) # groups) =
     (case mk path of
        MkRaises e \<Rightarrow> (Some e, [], [])
      | _ \<Rightarrow>
          (case inst (path_parent path) of
             Some e \<Rightarrow> (Some e, [], [])
           | None \<Rightarrow>
               (case build_groups mk inst groups of (e, paths, built) \<Rightarrow> (e, path # paths, ns @ built))))"

definition build_resolved_deps ::
    "(string \<Rightarrow> makepkg_end) \<Rightarrow> (string \<Rightarrow> exn option) \<Rightarrow> resolved_dep list \<Rightarrow> exn option \<times> string list \<times> string list" where
  "build_resolved_deps mk inst deps = build_groups mk inst (dep_groups deps)"

record deps_env =
  de_find :: "string \<Rightarrow> exn + string"
  de_root :: "string \<Rightarrow> exn + (string \<times> string list \<times> string list)"
  de_world :: resolver_env
  de_fuel :: nat
  de_make :: "string \<Rightarrow> makepkg_end"
  de_install :: "string \<Rightarrow> exn option"

text \<open>
  The dependencies of one package of the manifest.  A cycle raises \<open>RuntimeError\<close>, and so does a
  recursion too deep for Python (\<open>RecursionError\<close> is one); a name with no record is a \<open>KeyError\<close>.
\<close>

definition dep_exn :: "dep_error \<Rightarrow> exn" where
  "dep_exn e =
     (case e of
        CycleError n req \<Rightarrow>
          RuntimeErr (''Dependency cycle detected: '' @ n @ '' is already being resolved (required by '' @ req @ '')'')
      | OutOfFuel \<Rightarrow> RuntimeErr ''maximum recursion depth exceeded'')"

definition package_deps :: "deps_env \<Rightarrow> string \<Rightarrow> exn + resolved_dep list" where
  "package_deps de name =
     rbind (resolve_pkgbuild (de_find de) name) (\<lambda>path.
     rbind (de_root de path) (\<lambda>root.
       case resolve_aur_deps (de_world de) True (de_fuel de) root of
         Inl e \<Rightarrow> Inl (dep_exn e)
       | Inr None \<Rightarrow> Inl (OtherErr ''KeyError'' name)
       | Inr (Some ds) \<Rightarrow> Inr ds))"

fun collect_deps :: "(string \<Rightarrow> exn + resolved_dep list) \<Rightarrow> string list \<Rightarrow> string list \<Rightarrow> exn + resolved_dep list" where
  "collect_deps deps_of known [] = Inr []"
| "collect_deps deps_of known (n # ns) =
     (case deps_of n of
        Inl e \<Rightarrow> if is_runtime e then collect_deps deps_of known ns else Inl e
      | Inr ds \<Rightarrow>
          rbind (collect_deps deps_of known ns) (\<lambda>rest. Inr (filter (\<lambda>d. rd_name d \<notin> set known) ds @ rest)))"

fun unique_deps :: "string list \<Rightarrow> resolved_dep list \<Rightarrow> resolved_dep list" where
  "unique_deps seen [] = []"
| "unique_deps seen (d # ds) =
     (if rd_name d \<in> set seen then unique_deps seen ds else d # unique_deps (rd_name d # seen) ds)"

definition needs_deps :: "string \<Rightarrow> pkg_entry \<Rightarrow> bool" where
  "needs_deps mode pkg \<longleftrightarrow>
     source_of_pkg pkg \<in> {PStr ''aur'', PStr ''git''} \<or>
     source_of_pkg pkg = PStr ''repo'' \<and> forced_mode mode pkg = REPO_MODE_SOURCE"

section \<open>The stage\<close>

record stage_options =
  so_dry_run :: bool
  so_retry_failed :: bool

record stage_env =
  sv_manifest :: "(exn + manifest) option"
  sv_snapshot :: "exn option"
  sv_choice :: string
  sv_each :: "string \<Rightarrow> string"
  sv_walk :: "string list \<Rightarrow> string list"
  sv_now :: "nat \<Rightarrow> string"
  sv_deps :: deps_env
  sv_turn :: "nat \<Rightarrow> package_env"
  sv_enable :: "string \<Rightarrow> exn option"
  sv_before :: machine
  sv_after :: machine
  sv_scope :: scope_env
  sv_late_signal :: bool

text \<open>What the stage carries: the checkpoint, its file, and the log of the packages it acted on.\<close>

record stage_st =
  ss_data :: pstate
  ss_file :: "string option"
  ss_log :: "(string \<times> exn option) list"
  ss_deps :: "string list"
  ss_enabled :: "string list"

definition abort_prompt :: exn where
  "abort_prompt = RuntimeErr ''[PACKAGES] Aborted by user at failed-package prompt''"

fun choose_each :: "(string \<Rightarrow> string) \<Rightarrow> string list \<Rightarrow> exn + (string list \<times> string list)" where
  "choose_each ask [] = Inr ([], [])"
| "choose_each ask (n # ns) =
     (if ask n = ''r'' then rbind (choose_each ask ns) (\<lambda>(retry, skip). Inr (n # retry, skip))
      else if ask n = ''s'' then rbind (choose_each ask ns) (\<lambda>(retry, skip). Inr (retry, n # skip))
      else Inl (RuntimeErr ''[PACKAGES] Aborted by user''))"

definition prompt_failed :: "stage_env \<Rightarrow> stage_options \<Rightarrow> string list \<Rightarrow> exn + (string list \<times> string list)" where
  "prompt_failed sv opts failed =
     (if so_retry_failed opts then Inr (failed, [])
      else if sv_choice sv = ''r'' then Inr (failed, [])
      else if sv_choice sv = ''s'' then Inr ([], failed)
      else if sv_choice sv = ''a'' then Inl abort_prompt
      else choose_each (sv_each sv) failed)"

text \<open>\<open>state._progress()[...] = ...\<close>, without the \<open>touch\<close> of the methods.\<close>

definition edit_progress :: "(progress \<Rightarrow> progress) \<Rightarrow> pstate \<Rightarrow> pstate" where
  "edit_progress f d =
     (let d1 = ensure_progress d in upd_stage ''packages'' (\<lambda>s. s\<lparr>sd_progress := Some (f (progress_of d1))\<rparr>) d1)"

definition requeue :: "string \<Rightarrow> pstate \<Rightarrow> exn + pstate" where
  "requeue n d =
     (case get_package_progress d of (p, d1) \<Rightarrow>
        if pr_remaining p = None then Inl (OtherErr ''KeyError'' ''remaining'')
        else
          (let d2 = (if n \<in> set (or_nil (pr_remaining p)) then d1
                     else edit_progress (\<lambda>p. p\<lparr>pr_remaining := Some (or_nil (pr_remaining p) @ [n])\<rparr>) d1)
           in Inr (edit_progress (\<lambda>p. p\<lparr>pr_failed := without n (pr_failed p)\<rparr>) d2)))"

fun requeue_all :: "string list \<Rightarrow> pstate \<Rightarrow> exn option \<times> pstate" where
  "requeue_all [] d = (None, d)"
| "requeue_all (n # ns) d = (case requeue n d of Inl e \<Rightarrow> (Some e, d) | Inr d1 \<Rightarrow> requeue_all ns d1)"

definition save_st :: "bool \<Rightarrow> stage_st \<Rightarrow> stage_st" where
  "save_st ro s = s\<lparr>ss_file := save ro (ss_data s) (ss_file s)\<rparr>"

definition on_data :: "(pstate \<Rightarrow> pstate) \<Rightarrow> stage_st \<Rightarrow> stage_st" where
  "on_data f s = s\<lparr>ss_data := f (ss_data s)\<rparr>"

text \<open>One turn of the main loop, and the loop; an exception other than \<open>RuntimeError\<close> ends it.\<close>

record loop_env =
  lp_dry :: bool
  lp_read_only :: bool
  lp_toolchain :: "(string, pyval) dict"
  lp_build :: pkg_entry
  lp_packages :: "(string, pkg_entry) dict"
  lp_retry :: "string list"
  lp_skip :: "string list"
  lp_built :: "string list"
  lp_skipped :: "string list"

definition log_action :: "string \<Rightarrow> exn option \<Rightarrow> stage_st \<Rightarrow> stage_st" where
  "log_action n e s = s\<lparr>ss_log := ss_log s @ [(n, e)]\<rparr>"

definition attempt ::
    "loop_env \<Rightarrow> (nat \<Rightarrow> string) \<Rightarrow> package_env \<Rightarrow> nat \<Rightarrow> string \<Rightarrow> string \<Rightarrow> stage_st \<Rightarrow> exn option \<times> stage_st" where
  "attempt lp now pe i mode n s =
     (let s1 = save_st (lp_read_only lp) (on_data (mark_package_building (now (2 * i)) n) s);
          e = package_action pe (lp_dry lp) (lp_toolchain lp) mode (the (dget (lp_packages lp) n)) n;
          s2 = log_action n e s1
      in (e, case e of
               None \<Rightarrow> save_st (lp_read_only lp) (on_data (mark_package_built (now (2 * i + 1)) n) s2)
             | Some e \<Rightarrow>
                 if is_runtime e
                 then save_st (lp_read_only lp) (on_data (mark_package_failed (now (2 * i + 1)) n (exn_text e)) s2)
                 else s2))"

text \<open>\<open>built\<close> is the set the loop adds to; the packages of \<open>lp_built\<close> are in it from the start.\<close>

fun build_loop ::
    "loop_env \<Rightarrow> (nat \<Rightarrow> string) \<Rightarrow> (nat \<Rightarrow> package_env) \<Rightarrow> nat \<Rightarrow> string list \<Rightarrow> string list \<Rightarrow> stage_st
     \<Rightarrow> exn option \<times> stage_st" where
  "build_loop lp now turn i built [] s = (None, s)"
| "build_loop lp now turn i built (n # ns) s =
     (let (p, d) = get_package_progress (ss_data s); s0 = on_data (\<lambda>_. d) s in
      case effective_mode (lp_build lp) (the (dget (lp_packages lp) n)) of
        Inl e \<Rightarrow> (Some e, s0)
      | Inr mode \<Rightarrow>
          if n \<in> set built \<and> n \<notin> set (lp_retry lp) then build_loop lp now turn (Suc i) built ns s0
          else if n \<in> set (lp_skipped lp) \<or> n \<in> set (lp_skip lp) then build_loop lp now turn (Suc i) built ns s0
          else if n \<notin> set (or_nil (pr_remaining p)) \<and> n \<notin> set (lp_retry lp)
          then build_loop lp now turn (Suc i) built ns s0
          else if \<not> lp_dry lp \<and> pe_interrupt (turn i) then (Some (BaseErr ''CleanExitRequested''), s0)
          else (case attempt lp now (turn i) i mode n s0 of
                  (None, s1) \<Rightarrow> build_loop lp now turn (Suc i) (n # built) ns s1
                | (Some e, s1) \<Rightarrow>
                    if is_runtime e then build_loop lp now turn (Suc i) built ns s1 else (Some e, s1)))"

text \<open>The display managers of the catalog, and the services enabled at the end.\<close>

definition display_manager_for :: "string \<Rightarrow> string option" where
  "display_manager_for de =
     map_of [(''gnome'', ''gdm''), (''kde'', ''sddm''), (''xfce'', ''lightdm''), (''mate'', ''lightdm''),
       (''cinnamon'', ''lightdm''), (''lxqt'', ''sddm''), (''budgie'', ''lightdm''), (''cosmic'', ''cosmic-greeter'')] de"

fun enable_display_managers ::
    "(string \<Rightarrow> exn option) \<Rightarrow> bool \<Rightarrow> string list \<Rightarrow> pkg_entry list \<Rightarrow> string list \<Rightarrow> exn option \<times> string list" where
  "enable_display_managers enable dry built [] enabled = (None, enabled)"
| "enable_display_managers enable dry built (e # es) enabled =
     (case (case str_item e ''group'' of None \<Rightarrow> None | Some g \<Rightarrow> if g = [] then None else display_manager_for g) of
        None \<Rightarrow> enable_display_managers enable dry built es enabled
      | Some dm \<Rightarrow>
          if dm \<in> set enabled \<or> dm \<notin> set built then enable_display_managers enable dry built es enabled
          else if dry then enable_display_managers enable dry built es (enabled @ [dm])
          else (case enable dm of
                  Some e \<Rightarrow> (Some e, enabled @ [dm])
                | None \<Rightarrow> enable_display_managers enable dry built es (enabled @ [dm])))"

text \<open>The body of the scope: the dependency builds, then the loop.\<close>

definition dep_pass :: "stage_env \<Rightarrow> bool \<Rightarrow> string list \<Rightarrow> string list \<Rightarrow> exn option \<times> string list" where
  "dep_pass sv dry known aur_names =
     (if aur_names = [] \<or> dry then (None, [])
      else (case collect_deps (package_deps (sv_deps sv)) known aur_names of
              Inl e \<Rightarrow> (Some e, [])
            | Inr ds \<Rightarrow>
                (if unique_deps [] ds = [] then (None, [])
                 else (case build_resolved_deps (de_make (sv_deps sv)) (de_install (sv_deps sv)) (unique_deps [] ds) of
                         (e, paths, built) \<Rightarrow> (e, paths)))))"

definition stage_body ::
    "stage_env \<Rightarrow> loop_env \<Rightarrow> nat \<Rightarrow> string list \<Rightarrow> string list \<Rightarrow> stage_st \<Rightarrow> exn option \<times> stage_st" where
  "stage_body sv lp i all_names aur_names s =
     (case dep_pass sv (lp_dry lp) (map fst (lp_packages lp)) aur_names of (e, paths) \<Rightarrow>
       (let s1 = s\<lparr>ss_deps := ss_deps s @ paths\<rparr>
        in case e of
             Some e \<Rightarrow> (Some e, s1)
           | None \<Rightarrow> build_loop lp (sv_now sv) (sv_turn sv) i (lp_built lp) all_names s1))"

definition body_result :: "stage_env \<Rightarrow> exn option \<times> stage_st \<Rightarrow> exn body_end \<times> bool \<times> stage_st" where
  "body_result sv r =
     (case r of (e, s) \<Rightarrow>
       ((case e of
           None \<Rightarrow> Completes (sv_late_signal sv)
         | Some (BaseErr m) \<Rightarrow> if m = ''CleanExitRequested'' then CleanExit else Raises (BaseErr m)
         | Some e \<Rightarrow> Raises e), True, s))"

definition scope_exn :: "exn scope_end \<Rightarrow> exn option" where
  "scope_exn r =
     (case r of
        Checked (Sentinel NotATable) \<Rightarrow> Some (OtherErr ''TypeError'' ''record'')
      | Checked (Sentinel (Os m)) \<Rightarrow> Some (OtherErr ''OSError'' m)
      | Checked (Recovery e) \<Rightarrow> Some (OtherErr ''ValueError'' ''recovery'')
      | Refused \<Rightarrow> Some (RuntimeErr ''[PACKAGES] refusing to start'')
      | LockContended \<Rightarrow> Some (RuntimeErr ''Another sysforge install stage is running'')
      | Ran (Completes late) _ \<Rightarrow> if late then Some (BaseErr ''KeyboardInterrupt'') else None
      | Ran CleanExit _ \<Rightarrow>
          Some (RuntimeErr ''[PACKAGES] interrupted by user (Ctrl-C). Re-run with `sysforge run packages` to resume.'')
      | Ran (Raises e) _ \<Rightarrow> Some e)"

definition stage_failures :: "string list \<Rightarrow> exn" where
  "stage_failures failed = RuntimeErr (''[PACKAGES] stage finished with failures: '' @ pyval_repr (PList failed))"

text \<open>The end of the stage: the services, then the verdict.\<close>

definition stage_end :: "stage_env \<Rightarrow> bool \<Rightarrow> pkg_entry list \<Rightarrow> stage_st \<Rightarrow> exn option \<times> stage_st" where
  "stage_end sv dry packages s =
     (let (p, d) = get_package_progress (ss_data s);
          (e, enabled) = enable_display_managers (sv_enable sv) dry (or_nil (pr_built p)) packages [];
          s1 = s\<lparr>ss_data := d, ss_enabled := enabled\<rparr>
      in case e of
           Some e \<Rightarrow> (Some e, s1)
         | None \<Rightarrow>
             (let failed = or_nil (pr_failed (fst (get_package_progress d)))
              in (if failed \<noteq> [] then Some (stage_failures failed) else None, s1)))"

fun entry_names :: "pkg_entry list \<Rightarrow> string list option" where
  "entry_names [] = Some []"
| "entry_names (e # es) =
     (case str_item e ''name'' of None \<Rightarrow> None | Some n \<Rightarrow> map_option (\<lambda>ns. n # ns) (entry_names es))"

definition package_map :: "string list \<Rightarrow> pkg_entry list \<Rightarrow> (string, pkg_entry) dict" where
  "package_map all_names packages = fold (\<lambda>(n, e). dset n e) (zip all_names packages) []"

text \<open>The answers to the prompt, recorded.\<close>

definition settle_failed :: "stage_env \<Rightarrow> bool \<Rightarrow> string list \<Rightarrow> string list \<Rightarrow> stage_st \<Rightarrow> exn option \<times> stage_st" where
  "settle_failed sv ro retry skip s =
     (let d = fold (\<lambda>(i, n). mark_package_skipped (sv_now sv i) n) (enumerate 1 (sv_walk sv skip)) (ss_data s)
      in case requeue_all (sv_walk sv retry) d of
           (Some e, d1) \<Rightarrow> (Some e, s\<lparr>ss_data := d1\<rparr>)
         | (None, d1) \<Rightarrow> (None, save_st ro (s\<lparr>ss_data := d1\<rparr>)))"

definition run_scope ::
    "stage_env \<Rightarrow> bool \<Rightarrow> nat \<Rightarrow> (stage_st \<Rightarrow> exn option \<times> stage_st) \<Rightarrow> string option \<times> stage_st
     \<Rightarrow> exn option \<times> string option \<times> stage_st" where
  "run_scope sv dry remaining body fs =
     (if dry then (case body (snd fs) of (e, s) \<Rightarrow> (e, fst fs, s))
      else (case sentinel_scope sentinel_toml (sv_before sv) (sv_after sv) (sv_scope sv) ''packages'' None
                   [(''remaining'', SInt (int remaining))] (\<lambda>s. body_result sv (body s)) fs of
              (r, sent, s) \<Rightarrow> (scope_exn r, sent, s)))"

text \<open>The stage after the manifest is read and the prompt answered.\<close>

definition run_rest ::
    "stage_env \<Rightarrow> stage_options \<Rightarrow> loop_env \<Rightarrow> string list \<Rightarrow> pkg_entry list \<Rightarrow> string option \<times> stage_st
     \<Rightarrow> exn option \<times> string option \<times> stage_st" where
  "run_rest sv opts lp all_names packages fs =
     (let left = filter (\<lambda>n. n \<notin> set (lp_built lp) \<and> n \<notin> set (lp_skipped lp) \<and> n \<notin> set (lp_skip lp)) all_names in
      case (if left = [] then Inr REPO_MODE_PACMAN else resolve_repo_mode (lp_build lp)) of
        Inl e \<Rightarrow> (Some e, fs)
      | Inr mode \<Rightarrow>
          (let aur_names = filter (\<lambda>n. needs_deps mode (the (dget (lp_packages lp) n))) left in
           case run_scope sv (so_dry_run opts) (length left)
                  (stage_body sv lp (Suc (length (lp_skip lp))) all_names aur_names) fs of
             (Some e, sent, s) \<Rightarrow> (Some e, sent, s)
           | (None, sent, s) \<Rightarrow> (case stage_end sv (so_dry_run opts) packages s of (e, s1) \<Rightarrow> (e, sent, s1))))"

definition run_packages ::
    "stage_env \<Rightarrow> stage_options \<Rightarrow> bool \<Rightarrow> string option \<times> stage_st \<Rightarrow> exn option \<times> string option \<times> stage_st" where
  "run_packages sv opts ro fs =
     (let (sent, s) = fs; toolchain = toolchain_overrides (ss_data s) in
      case load_packages (sv_manifest sv) of
        Inl e \<Rightarrow> (Some e, fs)
      | Inr (build, packages) \<Rightarrow>
      case sv_snapshot sv of
        Some e \<Rightarrow> (Some e, fs)
      | None \<Rightarrow>
      case entry_names packages of
        None \<Rightarrow> (Some (OtherErr ''KeyError'' ''name''), fs)
      | Some all_names \<Rightarrow>
          (let s1 = save_st ro (on_data (init_package_list (sv_now sv 0) all_names) s);
               (p, d) = get_package_progress (ss_data s1);
               s2 = s1\<lparr>ss_data := d\<rparr>;
               failed = or_nil (pr_failed p);
               lp = \<lparr>lp_dry = so_dry_run opts, lp_read_only = ro, lp_toolchain = toolchain, lp_build = build,
                 lp_packages = package_map all_names packages, lp_retry = [], lp_skip = [],
                 lp_built = or_nil (pr_built p), lp_skipped = or_nil (pr_skipped p)\<rparr>
           in if failed = [] then run_rest sv opts lp all_names packages (sent, s2)
              else (case prompt_failed sv opts failed of
                 Inl e \<Rightarrow> (Some e, sent, s2)
               | Inr (retry, skip) \<Rightarrow>
                   (case settle_failed sv ro retry skip s2 of
                      (Some e, s3) \<Rightarrow> (Some e, sent, s3)
                    | (None, s3) \<Rightarrow> run_rest sv opts (lp\<lparr>lp_retry := retry, lp_skip := skip\<rparr>) all_names packages (sent, s3)))))"

section \<open>The manifest's precedence\<close>

definition entry_name_list :: "pkg_entry list \<Rightarrow> string list" where
  "entry_name_list es = concat (map (\<lambda>e. case str_item e ''name'' of None \<Rightarrow> [] | Some n \<Rightarrow> [n]) es)"

lemma entry_names_list: "entry_names es = Some ns \<Longrightarrow> entry_name_list es = ns"
  by (induction es arbitrary: ns) (auto simp: entry_name_list_def split: option.splits)

lemma entry_name_append: "entry_name_list (a @ b) = entry_name_list a @ entry_name_list b"
  by (simp add: entry_name_list_def)

definition group_names :: "pkg_entry option \<Rightarrow> string list" where
  "group_names g = (case g of None \<Rightarrow> [] | Some t \<Rightarrow> (case dget t ''packages'' of Some (PList ns) \<Rightarrow> ns | _ \<Rightarrow> []))"

text \<open>A group whose defaults name nothing: the members keep their names.\<close>

definition plain_group :: "pkg_entry option \<Rightarrow> bool" where
  "plain_group g \<longleftrightarrow> (case g of None \<Rightarrow> True | Some t \<Rightarrow> dget t ''name'' = None)"

definition member_entry :: "string \<Rightarrow> pkg_entry \<Rightarrow> string \<Rightarrow> pkg_entry" where
  "member_entry g t n = dset ''group'' (PStr g) (dmerge [(''name'', PStr n)] (dpop ''packages'' t))"

lemma member_name: "dget t ''name'' = None \<Longrightarrow> str_item (member_entry g t n) ''name'' = Some n"
  by (simp add: str_item_def member_entry_def dget_dmerge_notin)

lemma add_members_spec:
  assumes "dget t ''name'' = None"
  shows "\<exists>ms. add_members g (dpop ''packages'' t) ns (seen, es) = (rev ms @ seen, es @ map (member_entry g t) ms) \<and>
    distinct ms \<and> set ms = set ns - set seen - {[]}"
proof (induction ns arbitrary: seen es)
  case Nil
  show ?case by (intro exI [of _ "[]"]) simp
next
  case (Cons n ns)
  show ?case
  proof (cases "n = [] \<or> n \<in> set seen")
    case True
    with Cons [of seen es] show ?thesis by auto
  next
    case False
    obtain ms where ms: "add_members g (dpop ''packages'' t) ns (n # seen, es @ [member_entry g t n]) =
        (rev ms @ n # seen, (es @ [member_entry g t n]) @ map (member_entry g t) ms)"
      "distinct ms" "set ms = set ns - set (n # seen) - {[]}" using Cons by blast
    with False show ?thesis by (intro exI [of _ "n # ms"]) (auto simp: member_entry_def)
  qed
qed

lemma names_of_members: "dget t ''name'' = None \<Longrightarrow> entry_name_list (map (member_entry g t) ms) = ms"
  by (induction ms) (simp_all add: entry_name_list_def member_name)

text \<open>The fold over the groups keeps a list of entries whose names are exactly those seen.\<close>

definition group_inv :: "pkg_entry list \<Rightarrow> string list \<times> pkg_entry list \<Rightarrow> bool" where
  "group_inv base st \<longleftrightarrow> (\<exists>ext. snd st = base @ ext) \<and> set (fst st) = set (entry_name_list (snd st))"

lemma add_group_inv:
  assumes "plain_group t" "group_inv base st"
  shows "group_inv base (add_group (g, t) st)"
    "distinct (entry_name_list (snd st)) \<Longrightarrow> distinct (entry_name_list (snd (add_group (g, t) st)))"
    "set (entry_name_list (snd (add_group (g, t) st))) = set (entry_name_list (snd st)) \<union> (set (group_names t) - {[]})"
proof -
  obtain seen es where st: "st = (seen, es)" by (cases st)
  have "group_inv base (add_group (g, t) st) \<and>
      (distinct (entry_name_list (snd st)) \<longrightarrow> distinct (entry_name_list (snd (add_group (g, t) st)))) \<and>
      set (entry_name_list (snd (add_group (g, t) st))) = set (entry_name_list (snd st)) \<union> (set (group_names t) - {[]})"
  proof (cases t)
    case None
    with assms(2) show ?thesis by (simp add: add_group_def group_names_def)
  next
    case (Some u)
    then have u: "dget u ''name'' = None" using assms(1) by (simp add: plain_group_def)
    from add_members_spec [OF u, of g "group_names t" seen es] obtain ms where
      ms: "add_group (g, t) st = (rev ms @ seen, es @ map (member_entry g u) ms)" "distinct ms"
        "set ms = set (group_names t) - set seen - {[]}"
      by (auto simp: add_group_def Some st group_names_def)
    with assms(2) names_of_members [OF u] show ?thesis
      by (auto simp: group_inv_def st entry_name_append)
  qed
  then show "group_inv base (add_group (g, t) st)"
    "distinct (entry_name_list (snd st)) \<Longrightarrow> distinct (entry_name_list (snd (add_group (g, t) st)))"
    "set (entry_name_list (snd (add_group (g, t) st))) = set (entry_name_list (snd st)) \<union> (set (group_names t) - {[]})"
    by blast+
qed

lemma fold_groups:
  assumes "list_all (plain_group \<circ> snd) gs" "group_inv base st"
  shows "group_inv base (fold add_group gs st) \<and>
    (distinct (entry_name_list (snd st)) \<longrightarrow> distinct (entry_name_list (snd (fold add_group gs st)))) \<and>
    set (entry_name_list (snd (fold add_group gs st))) =
      set (entry_name_list (snd st)) \<union> (\<Union>g \<in> set gs. set (group_names (snd g)) - {[]})"
  using assms
proof (induction gs arbitrary: st)
  case (Cons g gs)
  obtain a t where g: "g = (a, t)" by (cases g)
  have t: "plain_group t" using Cons.prems(1) by (simp add: g)
  from Cons.IH [OF _ add_group_inv(1) [OF t Cons.prems(2), of a]] Cons.prems add_group_inv(2,3) [OF t Cons.prems(2), of a]
  show ?case by (simp add: g) blast
qed simp

lemma expand_spec:
  assumes "list_all (plain_group \<circ> snd) (mf_groups mf)"
  shows "\<exists>ext. expand_package_groups mf = mf_packages mf @ ext"
    "distinct (entry_name_list (mf_packages mf)) \<Longrightarrow> distinct (entry_name_list (expand_package_groups mf))"
    "set (entry_name_list (expand_package_groups mf)) =
       set (entry_name_list (mf_packages mf)) \<union> (\<Union>g \<in> set (mf_groups mf). set (group_names (snd g)) - {[]})"
proof -
  have "group_inv (mf_packages mf) (entry_name_list (mf_packages mf), mf_packages mf)" by (simp add: group_inv_def)
  from fold_groups [OF assms this] show "\<exists>ext. expand_package_groups mf = mf_packages mf @ ext"
    "distinct (entry_name_list (mf_packages mf)) \<Longrightarrow> distinct (entry_name_list (expand_package_groups mf))"
    "set (entry_name_list (expand_package_groups mf)) =
       set (entry_name_list (mf_packages mf)) \<union> (\<Union>g \<in> set (mf_groups mf). set (group_names (snd g)) - {[]})"
    by (simp_all add: expand_package_groups_def group_inv_def flip: entry_name_list_def)
qed

section \<open>The loop over the packages\<close>

abbreviation built_of :: "pstate \<Rightarrow> string set" where "built_of d \<equiv> set (or_nil (pr_built (progress_of d)))"
abbreviation failed_of :: "pstate \<Rightarrow> string set" where "failed_of d \<equiv> set (or_nil (pr_failed (progress_of d)))"
abbreviation skipped_of :: "pstate \<Rightarrow> string set" where "skipped_of d \<equiv> set (or_nil (pr_skipped (progress_of d)))"
abbreviation remaining_of :: "pstate \<Rightarrow> string set" where
  "remaining_of d \<equiv> set (or_nil (pr_remaining (progress_of d)))"

text \<open>What one attempt does to the buckets.\<close>

definition settle :: "string \<times> exn option \<Rightarrow> progress \<Rightarrow> progress" where
  "settle a p =
     (case a of (n, e) \<Rightarrow>
        (case e of
           None \<Rightarrow> built_progress n (building_progress n p)
         | Some e \<Rightarrow> if is_runtime e then failed_progress n (building_progress n p) else building_progress n p))"

lemma progress_of_failed [simp]: "progress_of (mark_package_failed u n e d) = failed_progress n (progress_of d)"
  by (simp add: mark_package_failed_def progress_of_keep)

lemma attempt_settles:
  assumes "attempt lp now pe i mode n s = (e, s')"
  shows "progress_of (ss_data s') = settle (n, e) (progress_of (ss_data s))" "ss_log s' = ss_log s @ [(n, e)]"
    "e = package_action pe (lp_dry lp) (lp_toolchain lp) mode (the (dget (lp_packages lp) n)) n"
  using assms
  by (auto simp: attempt_def Let_def save_st_def on_data_def log_action_def settle_def mark_package_building_def
      mark_package_built_def split: option.splits)

lemma settle_buckets:
  "set (or_nil (pr_remaining (settle (n, e) p))) = set (or_nil (pr_remaining p)) - {n}"
  "set (or_nil (pr_built (settle (n, e) p))) = set (or_nil (pr_built p)) \<union> (if e = None then {n} else {})"
  "set (or_nil (pr_skipped (settle (n, e) p))) = set (or_nil (pr_skipped p))"
  "set (or_nil (pr_failed (settle (n, e) p))) =
     (if e = None then set (or_nil (pr_failed p)) - {n}
      else set (or_nil (pr_failed p)) \<union> (if is_runtime (the e) then {n} else {}))"
  by (auto simp: settle_def built_progress_def building_progress_def failed_progress_def without_def with_name_def
      split: option.splits)

definition due :: "loop_env \<Rightarrow> string list \<Rightarrow> progress \<Rightarrow> string \<Rightarrow> bool" where
  "due lp built p n \<longleftrightarrow>
     (n \<notin> set built \<or> n \<in> set (lp_retry lp)) \<and> n \<notin> set (lp_skipped lp) \<and> n \<notin> set (lp_skip lp) \<and>
     (n \<in> set (or_nil (pr_remaining p)) \<or> n \<in> set (lp_retry lp))"

definition ordinary :: "exn option \<Rightarrow> bool" where "ordinary e \<longleftrightarrow> e = None \<or> is_runtime (the e)"

lemma filter_due_rest:
  assumes "n \<notin> set ns" "built' = built \<or> built' = n # built"
  shows "filter (due lp built' (settle (n, e) p)) ns = filter (due lp built p) ns"
proof (rule filter_cong [OF refl])
  fix m assume "m \<in> set ns"
  with assms(1) have "m \<noteq> n" by blast
  with assms(2) show "due lp built' (settle (n, e) p) m = due lp built p m"
    by (auto simp: due_def settle_buckets)
qed

lemma build_loop_spec:
  assumes "build_loop lp now turn i built ns s = (r, s')" "distinct ns"
  shows "\<exists>l rest. ss_log s' = ss_log s @ l \<and>
    filter (due lp built (progress_of (ss_data s))) ns = map fst l @ rest \<and>
    progress_of (ss_data s') = fold settle l (progress_of (ss_data s)) \<and>
    (r = None \<longrightarrow> rest = [] \<and> list_all (\<lambda>a. ordinary (snd a)) l)"
  using assms
proof (induction ns arbitrary: i built s)
  case Nil
  then show ?case by (intro exI [of _ "[]"]) simp
next
  case (Cons n ns)
  define s0 where "s0 = on_data (\<lambda>_. ensure_progress (ss_data s)) s"
  have s0: "progress_of (ss_data s0) = progress_of (ss_data s)" "ss_log s0 = ss_log s"
    by (simp_all add: s0_def on_data_def)
  let ?due = "due lp built (progress_of (ss_data s))"
  have stop: ?case if "r \<noteq> None" "s' = s0"
    using that by (auto simp: s0 simp del: filter.simps)
  obtain ei where ei: "effective_mode (lp_build lp) (the (dget (lp_packages lp) n)) = ei" by simp
  show ?case
  proof (cases ei)
    case (Inl e)
    with Cons.prems(1) have "r \<noteq> None" "s' = s0"
      by (auto simp: ei get_package_progress_def s0_def on_data_def)
    then show ?thesis by (rule stop)
  next
    case (Inr mode)
    note step = Cons.prems(1) [simplified, unfolded get_package_progress_def prod.case Let_def ei Inr sum.case,
        folded s0_def, unfolded progress_of_ensure]
    show ?thesis
    proof (cases "?due n")
      case False
      then have "build_loop lp now turn (Suc i) built ns s0 = (r, s')"
        using step by (auto simp: due_def split: if_splits)
      from Cons.IH [OF this] Cons.prems(2) False show ?thesis by (simp add: s0)
    next
      case True
      show ?thesis
      proof (cases "\<not> lp_dry lp \<and> pe_interrupt (turn i)")
        case int: True
        with True step have "r \<noteq> None" "s' = s0" by (auto simp: due_def split: if_splits)
        then show ?thesis by (rule stop)
      next
        case False
        obtain e s1 where at: "attempt lp now (turn i) i mode n s0 = (e, s1)" by fastforce
        note a = attempt_settles [OF at]
        have go: ?thesis if "build_loop lp now turn (Suc i) built' ns s1 = (r, s')" "built' = built \<or> built' = n # built"
          "ordinary e" for built'
        proof -
          from Cons.IH [OF that(1)] Cons.prems(2) obtain l rest where
            "ss_log s' = ss_log s1 @ l" "filter (due lp built' (progress_of (ss_data s1))) ns = map fst l @ rest"
            "progress_of (ss_data s') = fold settle l (progress_of (ss_data s1))"
            "r = None \<longrightarrow> rest = [] \<and> list_all (\<lambda>a. ordinary (snd a)) l" by auto
          with a that filter_due_rest [of n ns built' built lp e "progress_of (ss_data s)"] Cons.prems(2) True show ?thesis
            by (intro exI [of _ "(n, e) # l"] exI [of _ rest]) (simp add: s0)
        qed
        show ?thesis
        proof (cases e)
          case None
          with True False at step show ?thesis by (intro go [of "n # built"]) (auto simp: due_def ordinary_def)
        next
          case (Some x)
          show ?thesis
          proof (cases "is_runtime x")
            case rt: True
            with Some True False at step show ?thesis by (intro go [of built]) (auto simp: due_def ordinary_def)
          next
            case nrt: False
            with Some True False at step have "r \<noteq> None" "s' = s1" by (auto simp: due_def split: if_splits)
            with a(1,2) True show ?thesis
              by (intro exI [of _ "[(n, e)]"] exI [of _ "filter ?due ns"]) (auto simp: s0)
          qed
        qed
      qed
    qed
  qed
qed

lemma fold_settle:
  "set (or_nil (pr_remaining (fold settle l p))) = set (or_nil (pr_remaining p)) - set (map fst l)"
  "set (or_nil (pr_built (fold settle l p))) = set (or_nil (pr_built p)) \<union> {n. (n, None) \<in> set l}"
  "set (or_nil (pr_skipped (fold settle l p))) = set (or_nil (pr_skipped p))"
  by (induction l arbitrary: p) (auto simp: settle_buckets split: if_splits)

lemma fold_settle_failed:
  assumes "distinct (map fst l)" "list_all (\<lambda>a. ordinary (snd a)) l"
  shows "set (or_nil (pr_failed (fold settle l p))) =
    (set (or_nil (pr_failed p)) - {n. (n, None) \<in> set l}) \<union> {n. \<exists>e. (n, Some e) \<in> set l}"
  using assms
proof (induction l arbitrary: p)
  case (Cons a l)
  obtain n e where a: "a = (n, e)" by (cases a)
  from Cons.prems have n: "(n, x) \<notin> set l" for x by (force simp: a)
  show ?case using Cons n by (cases e) (auto simp: a settle_buckets ordinary_def)
qed simp

text \<open>A loop in which nothing but \<open>RuntimeError\<close> is raised goes through the whole list.\<close>

definition orderly :: "loop_env \<Rightarrow> (nat \<Rightarrow> package_env) \<Rightarrow> bool" where
  "orderly lp turn \<longleftrightarrow> (\<exists>m. resolve_repo_mode (lp_build lp) = Inr m) \<and>
     (\<forall>i. (lp_dry lp \<or> \<not> pe_interrupt (turn i)) \<and>
       (\<forall>mode pkg n. ordinary (package_action (turn i) (lp_dry lp) (lp_toolchain lp) mode pkg n)))"

lemma attempt_fst: "fst (attempt lp now pe i mode n s) = package_action pe (lp_dry lp) (lp_toolchain lp) mode (the (dget (lp_packages lp) n)) n"
  by (simp add: attempt_def Let_def)

lemma build_loop_total: "orderly lp turn \<Longrightarrow> fst (build_loop lp now turn i built ns s) = None"
proof (induction ns arbitrary: i built s)
  case (Cons n ns)
  obtain m where m: "effective_mode (lp_build lp) (the (dget (lp_packages lp) n)) = Inr m"
    using Cons.prems by (auto simp: orderly_def effective_mode_def)
  have "\<not> (\<not> lp_dry lp \<and> pe_interrupt (turn i))" using Cons.prems by (auto simp: orderly_def)
  then have i: "lp_dry lp \<or> \<not> pe_interrupt (turn i)" by simp
  let ?s0 = "on_data (\<lambda>_. ensure_progress (ss_data s)) s"
  obtain e t where at: "attempt lp now (turn i) i m n ?s0 = (e, t)" by fastforce
  have e: "e = None \<or> (\<exists>x. e = Some x \<and> is_runtime x)"
    using attempt_fst [of lp now "turn i" i m n ?s0] Cons.prems unfolding orderly_def ordinary_def at
    by (metis fst_conv option.exhaust_sel)
  show ?case using e i Cons.IH [OF Cons.prems] by (auto simp: m get_package_progress_def Let_def at)
qed simp

section \<open>The stage around the loop\<close>

definition same_st :: "stage_st \<Rightarrow> stage_st \<Rightarrow> bool" where
  "same_st s t \<longleftrightarrow> ss_data s = ss_data t \<and> ss_file s = ss_file t \<and> ss_log s = ss_log t"

definition loop_ran :: "stage_env \<Rightarrow> loop_env \<Rightarrow> nat \<Rightarrow> string list \<Rightarrow> stage_st \<Rightarrow> exn option \<Rightarrow> stage_st \<Rightarrow> bool" where
  "loop_ran sv lp i ns s r s' \<longleftrightarrow>
     (\<exists>s1. same_st s1 s \<and> build_loop lp (sv_now sv) (sv_turn sv) i (lp_built lp) ns s1 = (r, s'))"

lemma same_refl [simp]: "same_st s s" "same_st (s\<lparr>ss_deps := x\<rparr>) s" by (simp_all add: same_st_def)

lemma stage_body_cases:
  assumes "stage_body sv lp i ns aur s = (r, s')"
  shows "(r \<noteq> None \<and> same_st s' s) \<or> loop_ran sv lp i ns s r s'"
  using assms unfolding stage_body_def loop_ran_def
  by (auto simp: Let_def split: if_splits sum.splits prod.splits option.splits)

lemma run_scope_cases:
  assumes "run_scope sv dry k body (sent, s) = (e, sent', s')"
  shows "(e \<noteq> None \<and> s' = s) \<or> (\<exists>r. body s = (r, s') \<and> (e = None \<longrightarrow> r = None))"
proof (cases dry)
  case True
  with assms show ?thesis by (auto simp: run_scope_def split: prod.splits)
next
  case False
  let ?b = "\<lambda>s. body_result sv (body s)"
  obtain out f' t where sc: "sentinel_scope sentinel_toml (sv_before sv) (sv_after sv) (sv_scope sv) ''packages'' None
      [(''remaining'', SInt (int k))] ?b (sent, s) = (out, f', t)" by (metis prod_cases3)
  with assms False have e: "e = scope_exn out" "s' = t" by (auto simp: run_scope_def)
  show ?thesis
  proof (cases "\<exists>x armed. out = Ran x armed")
    case True
    then obtain x armed where x: "out = Ran x armed" by blast
    from scope_ran(1) [OF sc [unfolded x]] obtain file1 where f:
      "scope_body (sv_scope sv) ''packages'' None [(''remaining'', SInt (int k))] ?b file1 s = (Ran x armed, f', t)" by blast
    obtain r u where b: "body s = (r, u)" by fastforce
    then have br: "body_result sv (body s) = (fst (body_result sv (r, u)), True, u)" by (simp add: body_result_def)
    with f have t: "t = u" "x = fst (body_result sv (r, u))" unfolding scope_body_def br by (auto simp: Let_def)
    have "e = None \<longrightarrow> r = None"
      unfolding e(1) x t(2) by (cases r) (simp_all add: body_result_def scope_exn_def split: exn.splits)
    with b e(2) t(1) show ?thesis by blast
  next
    case False
    with scope_not_ran(1) [OF sc] have "t = s" by blast
    moreover have "scope_exn out \<noteq> None" using False
      by (cases out) (simp_all add: scope_exn_def split: check_error.split sentinel_error.split)
    ultimately show ?thesis using e by simp
  qed
qed

lemma stage_end_facts:
  assumes "stage_end sv dry packages s = (e, s')"
  shows "ss_log s' = ss_log s" "ss_file s' = ss_file s" "progress_of (ss_data s') = progress_of (ss_data s)"
    "ss_data s' = ensure_progress (ss_data s)" "e = None \<Longrightarrow> failed_of (ss_data s) = {}"
  using assms by (auto simp: stage_end_def get_package_progress_def Let_def split: prod.splits option.splits if_splits)

lemma rest_cases:
  assumes "run_rest sv opts lp ns packages (sent, s) = (e, sent', s')"
  shows "(e \<noteq> None \<and> same_st s' s) \<or>
    (\<exists>i r s2. loop_ran sv lp i ns s r s2 \<and> ss_log s' = ss_log s2 \<and> ss_file s' = ss_file s2 \<and>
       (ss_data s' = ss_data s2 \<or> ss_data s' = ensure_progress (ss_data s2)) \<and>
       (e = None \<longrightarrow> r = None \<and> failed_of (ss_data s2) = {}))"
proof -
  define left where "left = filter (\<lambda>n. n \<notin> set (lp_built lp) \<and> n \<notin> set (lp_skipped lp) \<and> n \<notin> set (lp_skip lp)) ns"
  obtain m where m: "(if left = [] then Inr REPO_MODE_PACMAN else resolve_repo_mode (lp_build lp)) = m" by simp
  show ?thesis
  proof (cases m)
    case (Inl x)
    with assms m show ?thesis by (auto simp: run_rest_def Let_def left_def)
  next
    case (Inr mode)
    define aur where "aur = filter (\<lambda>n. needs_deps mode (the (dget (lp_packages lp) n))) left"
    let ?body = "stage_body sv lp (Suc (length (lp_skip lp))) ns aur"
    obtain e1 f1 s1 where sc: "run_scope sv (so_dry_run opts) (length left) ?body (sent, s) = (e1, f1, s1)"
      by (metis prod_cases3)
    have run: "(e, sent', s') = (case e1 of Some x \<Rightarrow> (Some x, f1, s1) | None \<Rightarrow>
        (case stage_end sv (so_dry_run opts) packages s1 of (x, s2) \<Rightarrow> (x, f1, s2)))"
      using assms m Inr sc by (cases e1) (auto simp: run_rest_def left_def aur_def)
    from run_scope_cases [OF sc] show ?thesis
    proof
      assume "e1 \<noteq> None \<and> s1 = s"
      with run show ?thesis by auto
    next
      assume "\<exists>r. ?body s = (r, s1) \<and> (e1 = None \<longrightarrow> r = None)"
      then obtain r where r: "?body s = (r, s1)" "e1 = None \<longrightarrow> r = None" by blast
      show ?thesis
      proof (cases e1)
        case (Some x)
        with stage_body_cases [OF r(1)] run show ?thesis by auto
      next
        case None
        obtain x t where t: "stage_end sv (so_dry_run opts) packages s1 = (x, t)" by fastforce
        with run None have "e = x" "s' = t" by auto
        with stage_end_facts [OF t] stage_body_cases [OF r(1)] r(2) None show ?thesis by auto
      qed
    qed
  qed
qed

section \<open>The answers to the prompt\<close>

lemma choose_each_union: "choose_each ask ns = Inr (retry, skip) \<Longrightarrow> set retry \<union> set skip = set ns"
proof (induction ns arbitrary: retry skip)
  case (Cons n ns)
  then show ?case by (auto simp: rbind_Inr_iff split: if_splits)
qed simp

lemma prompt_union:
  assumes "prompt_failed sv opts failed = Inr (retry, skip)"
  shows "set retry \<union> set skip = set failed"
  using assms choose_each_union by (auto simp: prompt_failed_def split: if_splits)

definition walks :: "(string list \<Rightarrow> string list) \<Rightarrow> bool" where "walks w \<longleftrightarrow> (\<forall>xs. set (w xs) = set xs)"

lemma progress_edit [simp]: "progress_of (edit_progress f d) = f (progress_of d)"
  by (simp add: edit_progress_def progress_of_def [of "upd_stage _ _ _"] Let_def)

lemma requeue_buckets:
  assumes "requeue n d = Inr d'"
  shows "remaining_of d' = insert n (remaining_of d)" "built_of d' = built_of d" "skipped_of d' = skipped_of d"
    "failed_of d' = failed_of d - {n}"
  using assms by (auto simp: requeue_def get_package_progress_def without_def Let_def split: if_splits)

lemma requeue_all_buckets:
  assumes "requeue_all ns d = (e, d')"
  shows "built_of d' = built_of d" "skipped_of d' = skipped_of d" "failed_of d' \<subseteq> failed_of d"
    "remaining_of d' \<subseteq> remaining_of d \<union> set ns" "remaining_of d \<subseteq> remaining_of d'"
    "e = None \<Longrightarrow> failed_of d' = failed_of d - set ns"
  using assms
proof (induction ns arbitrary: d)
  case (Cons n ns)
  { case 1 with Cons.IH requeue_buckets [of n d] show ?case by (auto split: sum.splits) }
  { case 2 with Cons.IH requeue_buckets [of n d] show ?case by (auto split: sum.splits) }
  { case 3 with Cons.IH requeue_buckets [of n d] show ?case by (fastforce split: sum.splits) }
  { case 4 with Cons.IH requeue_buckets [of n d] show ?case by (fastforce split: sum.splits) }
  { case 5 with Cons.IH requeue_buckets [of n d] show ?case by (fastforce split: sum.splits) }
  { case 6 with Cons.IH requeue_buckets [of n d] show ?case by (fastforce split: sum.splits) }
qed auto

abbreviation skip_each :: "(nat \<Rightarrow> string) \<Rightarrow> (nat \<times> string) list \<Rightarrow> pstate \<Rightarrow> pstate" where
  "skip_each now xs d \<equiv> fold (\<lambda>(i, n). mark_package_skipped (now i) n) xs d"

lemma skip_fold:
  "built_of (skip_each now xs d) = built_of d" "skipped_of (skip_each now xs d) = skipped_of d \<union> snd ` set xs"
  "failed_of (skip_each now xs d) = failed_of d - snd ` set xs"
  "remaining_of (skip_each now xs d) = remaining_of d - snd ` set xs"
  by (induction xs arbitrary: d) (auto simp: mark_package_skipped_def skipped_progress_def without_def with_name_def
      split: if_splits)

lemma settle_failed_buckets:
  assumes "settle_failed sv ro retry skip s = (e, s')" "walks (sv_walk sv)"
  defines "d \<equiv> ss_data s" and "d' \<equiv> ss_data s'"
  shows "built_of d' = built_of d" "skipped_of d' = skipped_of d \<union> set skip" "failed_of d' \<subseteq> failed_of d"
    "remaining_of d' \<subseteq> remaining_of d \<union> set retry" "remaining_of d - set skip \<subseteq> remaining_of d'"
    "e = None \<Longrightarrow> failed_of d' = failed_of d - set retry - set skip" "ss_log s' = ss_log s"
proof -
  let ?d = "fold (\<lambda>(i, n). mark_package_skipped (sv_now sv i) n) (enumerate 1 (sv_walk sv skip)) d"
  obtain x d1 where r: "requeue_all (sv_walk sv retry) ?d = (x, d1)" by fastforce
  from assms(1) r have d1: "d' = d1" "e = x" "ss_log s' = ss_log s"
    by (auto simp: settle_failed_def Let_def save_st_def d_def d'_def split: option.splits)
  have w: "snd ` set (enumerate 1 (sv_walk sv skip)) = set skip" "set (sv_walk sv retry) = set retry"
    using assms(2) by (simp_all add: walks_def flip: set_map)
  show "built_of d' = built_of d" "skipped_of d' = skipped_of d \<union> set skip" "failed_of d' \<subseteq> failed_of d"
    "remaining_of d' \<subseteq> remaining_of d \<union> set retry" "remaining_of d - set skip \<subseteq> remaining_of d'"
    "e = None \<Longrightarrow> failed_of d' = failed_of d - set retry - set skip" "ss_log s' = ss_log s"
    using requeue_all_buckets [OF r] skip_fold [of "sv_now sv" "enumerate 1 (sv_walk sv skip)" d] d1 w
    by auto
qed

section \<open>A run that succeeds\<close>

text \<open>The state and the constants of the loop once the list is initialised, before the prompt.\<close>

definition listed_st :: "stage_env \<Rightarrow> bool \<Rightarrow> string list \<Rightarrow> stage_st \<Rightarrow> stage_st" where
  "listed_st sv ro ns s =
     (let t = save_st ro (on_data (init_package_list (sv_now sv 0) ns) s) in t\<lparr>ss_data := ensure_progress (ss_data t)\<rparr>)"

definition first_env ::
    "stage_options \<Rightarrow> bool \<Rightarrow> pstate \<Rightarrow> pkg_entry \<Rightarrow> pkg_entry list \<Rightarrow> string list \<Rightarrow> progress \<Rightarrow> loop_env" where
  "first_env opts ro d build packages ns q =
     \<lparr>lp_dry = so_dry_run opts, lp_read_only = ro, lp_toolchain = toolchain_overrides d,
       lp_build = build, lp_packages = package_map ns packages, lp_retry = [], lp_skip = [],
       lp_built = or_nil (pr_built q), lp_skipped = or_nil (pr_skipped q)\<rparr>"

lemma first_env_simps [simp]:
  "lp_built (first_env opts ro d build packages ns q) = or_nil (pr_built q)"
  "lp_skipped (first_env opts ro d build packages ns q) = or_nil (pr_skipped q)"
  "lp_retry (first_env opts ro d build packages ns q) = []" "lp_skip (first_env opts ro d build packages ns q) = []"
  "lp_build (first_env opts ro d build packages ns q) = build"
  "lp_read_only (first_env opts ro d build packages ns q) = ro" "lp_dry (first_env opts ro d build packages ns q) = so_dry_run opts"
  "lp_toolchain (first_env opts ro d build packages ns q) = toolchain_overrides d"
  by (simp_all add: first_env_def)

lemma listed_progress [simp]:
  "progress_of (ss_data (listed_st sv ro ns s)) = init_progress ns (progress_of (ss_data s))"
  "ss_log (listed_st sv ro ns s) = ss_log s"
  by (simp_all add: listed_st_def save_st_def on_data_def init_package_list_def Let_def)

lemma run_unfold:
  fixes s :: stage_st and opts :: stage_options and ro :: bool
  assumes "load_packages (sv_manifest sv) = Inr (build, packages)" "sv_snapshot sv = None" "entry_names packages = Some ns"
  defines "q \<equiv> init_progress ns (progress_of (ss_data s))" and "t \<equiv> listed_st sv ro ns s"
  defines "lp \<equiv> first_env opts ro (ss_data s) build packages ns q"
  shows "run_packages sv opts ro (sent, s) =
    (if or_nil (pr_failed q) = [] then run_rest sv opts lp ns packages (sent, t)
     else case prompt_failed sv opts (or_nil (pr_failed q)) of
         Inl e \<Rightarrow> (Some e, sent, t)
       | Inr (retry, skip) \<Rightarrow>
           (case settle_failed sv ro retry skip t of
              (Some e, s3) \<Rightarrow> (Some e, sent, s3)
            | (None, s3) \<Rightarrow> run_rest sv opts (lp\<lparr>lp_retry := retry, lp_skip := skip\<rparr>) ns packages (sent, s3)))"
proof -
  have p: "progress_of (ensure_progress (ss_data (save_st ro (on_data (init_package_list (sv_now sv 0) ns) s)))) =
      init_progress ns (progress_of (ss_data s))"
    by (simp add: save_st_def on_data_def init_package_list_def)
  show ?thesis
    unfolding run_packages_def Let_def prod.case assms(1-3) sum.case option.case get_package_progress_def
      t_def listed_st_def lp_def q_def first_env_def p ..
qed

text \<open>What precedes the loop of a run that raises nothing.\<close>

lemma run_starts:
  assumes "run_packages sv opts ro (sent, s) = (None, sent', s')"
  obtains build packages ns where "load_packages (sv_manifest sv) = Inr (build, packages)"
    "entry_names packages = Some ns" "sv_snapshot sv = None"
  using assms by (auto simp: run_packages_def Let_def split: sum.splits option.splits)

lemma run_succeeds:
  assumes "run_packages sv opts ro (sent, s) = (None, sent', s')" "walks (sv_walk sv)"
    and ld: "load_packages (sv_manifest sv) = Inr (build, packages)" and ns: "entry_names packages = Some ns"
  obtains lp i t t' where
    "loop_ran sv lp i ns t None t'" "progress_of (ss_data s') = progress_of (ss_data t')" "ss_log s' = ss_log t'"
    "failed_of (ss_data s') = {}" "ss_log t = ss_log s"
    "set ns \<subseteq> remaining_of (ss_data t) \<union> set (lp_built lp) \<union> set (lp_skipped lp) \<union> set (lp_retry lp) \<union> set (lp_skip lp)"
    "set (lp_built lp) = built_of (ss_data t)" "skipped_of (ss_data t) = set (lp_skipped lp) \<union> set (lp_skip lp)"
    "failed_of (ss_data t) = {}"
proof -
  note goal = that
  define q where "q = init_progress ns (progress_of (ss_data s))"
  let ?t = "listed_st sv ro ns s" and ?lp = "first_env opts ro (ss_data s) build packages ns q"
  have acc: "set ns \<subseteq> accounted q" by (simp add: q_def init_progress_accounts)
  have sn: "sv_snapshot sv = None" by (rule run_starts [OF assms(1)])
  note run = run_unfold [OF ld sn ns, where opts = opts and ro = ro and sent = sent and s = s, folded q_def, unfolded assms(1)]
  have fin: thesis if rest: "run_rest sv opts l ns packages (sent, t) = (None, sent', s')" and t: "ss_log t = ss_log s"
      "lp_built l = or_nil (pr_built q)" "lp_skipped l = or_nil (pr_skipped q)"
      "set (lp_retry l) \<union> set (lp_skip l) = set (or_nil (pr_failed q))"
      "built_of (ss_data t) = set (or_nil (pr_built q))"
      "skipped_of (ss_data t) = set (or_nil (pr_skipped q)) \<union> set (lp_skip l)" "failed_of (ss_data t) = {}"
      "set (or_nil (pr_remaining q)) - set (lp_skip l) \<subseteq> remaining_of (ss_data t)" for l t
  proof -
    from rest_cases [OF rest] obtain i t' where t': "loop_ran sv l i ns t None t'" "ss_log s' = ss_log t'"
      "ss_data s' = ss_data t' \<or> ss_data s' = ensure_progress (ss_data t')" "failed_of (ss_data t') = {}" by auto
    then have "progress_of (ss_data s') = progress_of (ss_data t')" by auto
    with t' t acc show thesis by (intro goal [of l i t t']) (auto simp: accounted_def)
  qed
  show thesis
  proof (cases "or_nil (pr_failed q) = []")
    case True
    with run show thesis by (intro fin [of ?lp ?t]) (simp_all add: q_def)
  next
    case False
    with run obtain retry skip s3 where s3: "prompt_failed sv opts (or_nil (pr_failed q)) = Inr (retry, skip)"
      "settle_failed sv ro retry skip ?t = (None, s3)"
      "run_rest sv opts (?lp\<lparr>lp_retry := retry, lp_skip := skip\<rparr>) ns packages (sent, s3) = (None, sent', s')"
      by (auto split: sum.splits prod.splits option.splits)
    have "failed_of (ss_data s3) = {}" "built_of (ss_data s3) = set (or_nil (pr_built q))"
      "skipped_of (ss_data s3) = set (or_nil (pr_skipped q)) \<union> set skip" "ss_log s3 = ss_log s"
      "set (or_nil (pr_remaining q)) - set skip \<subseteq> remaining_of (ss_data s3)"
      using prompt_union [OF s3(1)] settle_failed_buckets [OF s3(2) assms(2)] by (auto simp: q_def)
    with prompt_union [OF s3(1)] s3(3) show thesis
      by (intro fin [of "?lp\<lparr>lp_retry := retry, lp_skip := skip\<rparr>" s3]) simp_all
  qed
qed

lemma all_settled:
  assumes "run_packages sv opts ro (sent, s) = (None, sent', s')" "walks (sv_walk sv)"
    and "load_packages (sv_manifest sv) = Inr (build, packages)" "entry_names packages = Some ns" "distinct ns"
  shows "failed_of (ss_data s') = {} \<and> set ns \<subseteq> built_of (ss_data s') \<union> skipped_of (ss_data s')"
proof -
  from run_succeeds [OF assms(1-4)] obtain lp i t t' where r: "loop_ran sv lp i ns t None t'"
    "progress_of (ss_data s') = progress_of (ss_data t')" "failed_of (ss_data s') = {}"
    "set ns \<subseteq> remaining_of (ss_data t) \<union> set (lp_built lp) \<union> set (lp_skipped lp) \<union> set (lp_retry lp) \<union> set (lp_skip lp)"
    "set (lp_built lp) = built_of (ss_data t)" "skipped_of (ss_data t) = set (lp_skipped lp) \<union> set (lp_skip lp)" .
  from r(1) obtain t1 where "same_st t1 t" "build_loop lp (sv_now sv) (sv_turn sv) i (lp_built lp) ns t1 = (None, t')"
    by (auto simp: loop_ran_def)
  with build_loop_spec [OF this(2) assms(5)] obtain l where l:
    "filter (due lp (lp_built lp) (progress_of (ss_data t))) ns = map fst l"
    "progress_of (ss_data t') = fold settle l (progress_of (ss_data t))" "list_all (\<lambda>a. ordinary (snd a)) l"
    by (auto simp: same_st_def)
  then have d: "distinct (map fst l)" using assms(5) by (metis distinct_filter)
  have ok: "(n, Some e) \<notin> set l" for n e
    using fold_settle_failed [OF d l(3), of "progress_of (ss_data t)"] r(2,3) l(2) by auto
  have "n \<in> built_of (ss_data s') \<union> skipped_of (ss_data s')" if n: "n \<in> set ns" for n
  proof (cases "due lp (lp_built lp) (progress_of (ss_data t)) n")
    case True
    with n have "n \<in> set (map fst l)" by (simp flip: l(1))
    with ok have "(n, None) \<in> set l" by (metis (no_types, lifting) ex_map_conv list.set_map imageE option.exhaust prod.collapse)
    with r(2) l(2) show ?thesis by (simp add: fold_settle)
  next
    case False
    with n r(2,4-6) l(2) show ?thesis by (auto simp: due_def fold_settle)
  qed
  with r(3) show ?thesis by blast
qed

section \<open>A run in which packages fail\<close>

text \<open>Nothing outside the packages themselves raises, and no one interrupts.\<close>

definition calm :: "stage_env \<Rightarrow> bool" where
  "calm sv \<longleftrightarrow> se_lock (sv_scope sv) \<noteq> LockHeld \<and> \<not> sv_late_signal sv \<and> sv_snapshot sv = None \<and>
     (\<forall>dm. sv_enable sv dm = None) \<and> (\<forall>known aur. fst (dep_pass sv False known aur) = None) \<and>
     (\<forall>i. \<not> pe_interrupt (sv_turn sv i) \<and>
       (\<forall>toolchain mode pkg n. ordinary (package_action (sv_turn sv i) False toolchain mode pkg n)))"

lemma calm_orderly: "calm sv \<Longrightarrow> \<not> lp_dry lp \<Longrightarrow> resolve_repo_mode (lp_build lp) = Inr m \<Longrightarrow> orderly lp (sv_turn sv)"
  by (simp add: calm_def orderly_def)

lemma calm_body:
  assumes "calm sv" "\<not> lp_dry lp" "resolve_repo_mode (lp_build lp) = Inr m"
  shows "\<exists>t. stage_body sv lp i ns aur s = (None, t) \<and> loop_ran sv lp i ns s None t"
proof -
  obtain paths where p: "dep_pass sv (lp_dry lp) (map fst (lp_packages lp)) aur = (None, paths)"
  proof -
    have "fst (dep_pass sv (lp_dry lp) (map fst (lp_packages lp)) aur) = None" using assms(1,2) by (simp add: calm_def)
    with that show thesis by (metis prod.collapse)
  qed
  let ?s = "s\<lparr>ss_deps := ss_deps s @ paths\<rparr>"
  obtain r t where t: "build_loop lp (sv_now sv) (sv_turn sv) i (lp_built lp) ns ?s = (r, t)" by fastforce
  with build_loop_total [OF calm_orderly [OF assms], of "sv_now sv" i "lp_built lp" ns ?s] have "r = None" by simp
  moreover have "same_st ?s s" by simp
  ultimately show ?thesis using p t unfolding stage_body_def loop_ran_def Let_def by (auto intro!: exI [of _ ?s])
qed

lemma calm_scope:
  assumes "calm sv" "body s = (None, t)"
  shows "\<exists>sent. run_scope sv dry k body (None, s) = (None, sent, t)"
proof (cases dry)
  case True
  with assms show ?thesis by (simp add: run_scope_def)
next
  case False
  have "get_active sentinel_toml None = Inr None" by (simp add: get_active_def)
  then have "scope_entry sentinel_toml (sv_before sv) (sv_after sv) None = (Inr True, None)"
    by (simp add: scope_entry_def)
  with False assms show ?thesis
    by (auto simp: run_scope_def sentinel_scope_def scope_body_def body_result_def scope_exn_def calm_def Let_def)
qed

lemma enable_calm: "(\<And>dm. enable dm = None) \<Longrightarrow> fst (enable_display_managers enable dry built es en) = None"
  by (induction es arbitrary: en) (cases dry; simp split: option.split)+

lemma calm_end:
  assumes "calm sv"
  shows "\<exists>t. stage_end sv dry packages s =
    (if or_nil (pr_failed (progress_of (ss_data s))) = [] then None
     else Some (stage_failures (or_nil (pr_failed (progress_of (ss_data s))))), t)"
  using assms enable_calm [of "sv_enable sv" dry "or_nil (pr_built (progress_of (ss_data s)))" packages "[]"]
  by (auto simp: stage_end_def get_package_progress_def calm_def split: prod.splits)

lemma calm_rest:
  assumes "calm sv" "\<not> lp_dry lp" "\<not> so_dry_run opts" "resolve_repo_mode (lp_build lp) = Inr m"
  shows "\<exists>i t t' sent'. run_rest sv opts lp ns packages (None, s) =
      (if or_nil (pr_failed (progress_of (ss_data t'))) = [] then None
       else Some (stage_failures (or_nil (pr_failed (progress_of (ss_data t'))))), sent', t) \<and>
    loop_ran sv lp i ns s None t' \<and> ss_log t = ss_log t' \<and> progress_of (ss_data t) = progress_of (ss_data t')"
proof -
  define left where "left = filter (\<lambda>n. n \<notin> set (lp_built lp) \<and> n \<notin> set (lp_skipped lp) \<and> n \<notin> set (lp_skip lp)) ns"
  obtain mode where mode: "(if left = [] then Inr REPO_MODE_PACMAN else resolve_repo_mode (lp_build lp)) = Inr mode"
    by (cases "left = []") (use assms(4) in simp_all)
  let ?aur = "filter (\<lambda>n. needs_deps mode (the (dget (lp_packages lp) n))) left"
  let ?body = "stage_body sv lp (Suc (length (lp_skip lp))) ns ?aur"
  obtain t' where t': "?body s = (None, t')" "loop_ran sv lp (Suc (length (lp_skip lp))) ns s None t'"
    using calm_body [OF assms(1,2,4)] by blast
  obtain sent where "run_scope sv (so_dry_run opts) (length left) ?body (None, s) = (None, sent, t')"
    using calm_scope [of sv ?body, OF assms(1) t'(1)] by blast
  moreover obtain t where t: "stage_end sv (so_dry_run opts) packages t' =
    (if or_nil (pr_failed (progress_of (ss_data t'))) = [] then None
     else Some (stage_failures (or_nil (pr_failed (progress_of (ss_data t'))))), t)"
    using calm_end [OF assms(1)] by blast
  ultimately have "run_rest sv opts lp ns packages (None, s) =
    (if or_nil (pr_failed (progress_of (ss_data t'))) = [] then None
     else Some (stage_failures (or_nil (pr_failed (progress_of (ss_data t'))))), sent, t)"
    unfolding run_rest_def Let_def left_def [symmetric] mode sum.case by simp
  with t'(2) stage_end_facts(1,3) [OF t] show ?thesis by blast
qed

lemma init_progress_other [simp]:
  "pr_built (init_progress ns p) = pr_built p" "pr_skipped (init_progress ns p) = pr_skipped p"
  "pr_failed (init_progress ns p) = pr_failed p"
  by (simp_all add: init_progress_def Let_def)

lemma due_remaining:
  assumes "n \<in> set ns" "set (or_nil (pr_failed p)) = {}"
    and "lp_retry lp = []" "lp_skip lp = []" "lp_skipped lp = or_nil (pr_skipped p)"
  shows "due lp (or_nil (pr_built p)) (init_progress ns p) n \<longleftrightarrow> n \<notin> set (or_nil (pr_built p)) \<and> n \<notin> set (or_nil (pr_skipped p))"
  using assms init_progress_accounts [of ns p] by (auto simp: due_def accounted_def)

lemma calm_run:
  assumes "calm sv" "\<not> so_dry_run opts" "load_packages (sv_manifest sv) = Inr (build, packages)"
    and "entry_names packages = Some ns" "distinct ns" "resolve_repo_mode build = Inr m"
    and "pr_failed (progress_of (ss_data s)) = Some []" "run_packages sv opts ro (None, s) = (e, sent', s')"
  shows "\<exists>l. ss_log s' = ss_log s @ l \<and>
    map fst l = filter (\<lambda>n. n \<notin> built_of (ss_data s) \<and> n \<notin> skipped_of (ss_data s)) ns \<and>
    built_of (ss_data s') = built_of (ss_data s) \<union> {n. (n, None) \<in> set l} \<and>
    failed_of (ss_data s') = {n. \<exists>x. (n, Some x) \<in> set l} \<and>
    e = (if failed_of (ss_data s') = {} then None else Some (stage_failures (or_nil (pr_failed (progress_of (ss_data s'))))))"
proof -
  let ?p = "progress_of (ss_data s)"
  let ?q = "init_progress ns ?p" and ?t = "listed_st sv ro ns s"
  let ?lp = "first_env opts ro (ss_data s) build packages ns ?q"
  have sn: "sv_snapshot sv = None" using assms(1) by (simp add: calm_def)
  have run: "run_rest sv opts ?lp ns packages (None, ?t) = (e, sent', s')"
    using run_unfold [OF assms(3) sn assms(4), where opts = opts and ro = ro and sent = None and s = s] assms(7,8) by simp
  have nd: "\<not> lp_dry ?lp" and md: "resolve_repo_mode (lp_build ?lp) = Inr m" using assms(2,6) by simp_all
  from calm_rest [OF assms(1) nd assms(2) md, of ns packages ?t] run obtain i t' where t':
    "e = (if or_nil (pr_failed (progress_of (ss_data t'))) = [] then None
       else Some (stage_failures (or_nil (pr_failed (progress_of (ss_data t'))))))"
    "loop_ran sv ?lp i ns ?t None t'" "ss_log s' = ss_log t'" "progress_of (ss_data s') = progress_of (ss_data t')" by auto
  from t'(2) obtain t1 where t1: "same_st t1 ?t"
    "build_loop ?lp (sv_now sv) (sv_turn sv) i (lp_built ?lp) ns t1 = (None, t')" by (auto simp: loop_ran_def)
  from build_loop_spec [OF t1(2) assms(5)] t1(1) obtain l where l: "ss_log t' = ss_log s @ l"
    "filter (due ?lp (or_nil (pr_built ?p)) ?q) ns = map fst l" "progress_of (ss_data t') = fold settle l ?q"
    "list_all (\<lambda>a. ordinary (snd a)) l"
    by (auto simp: same_st_def)
  have "filter (due ?lp (or_nil (pr_built ?p)) ?q) ns = filter (\<lambda>n. n \<notin> built_of (ss_data s) \<and> n \<notin> skipped_of (ss_data s)) ns"
    using assms(7) by (intro filter_cong refl due_remaining) simp_all
  moreover have "distinct (map fst l)" using assms(5) by (metis distinct_filter l(2))
  ultimately show ?thesis
    using fold_settle [of l ?q] fold_settle_failed [of l ?q] l t' assms(7) by (intro exI [of _ l]) auto
qed

section \<open>Properties\<close>

text \<open>The manifest: explicit entries come first and unchanged, and a group adds each of its members that
  no explicit entry and no earlier group names, once.\<close>

theorem manifest_precedence:
  assumes "list_all (plain_group \<circ> snd) (mf_groups mf)" "distinct (entry_name_list (mf_packages mf))"
  shows "prefix (mf_packages mf) (expand_package_groups mf) \<and> distinct (entry_name_list (expand_package_groups mf)) \<and>
    set (entry_name_list (expand_package_groups mf)) =
      set (entry_name_list (mf_packages mf)) \<union> (\<Union>g \<in> set (mf_groups mf). set (group_names (snd g)) - {[]})"
  using expand_spec [OF assms(1)] assms(2) by (auto simp: prefix_def)

text \<open>C34: a run of the stage that raises nothing leaves no package failed and every package of the manifest
  built or skipped.\<close>

theorem packages_all_settled:
  assumes "run_packages sv opts ro (sent, s) = (None, sent', s')" "walks (sv_walk sv)"
    and "load_packages (sv_manifest sv) = Inr (build, packages)" "entry_names packages = Some ns" "distinct ns"
  shows "or_nil (pr_failed (progress_of (ss_data s'))) = [] \<and>
    (\<forall>n \<in> set ns. n \<in> built_of (ss_data s') \<or> n \<in> skipped_of (ss_data s'))"
  using all_settled [OF assms] by auto


section \<open>A small manifest\<close>

text \<open>Two repository packages and pacman failing on one of them; no PKGBUILD is ever found.\<close>

definition pkg_package :: "string \<Rightarrow> pkg_entry" where
  "pkg_package n = [(''name'', PStr n), (''source'', PStr ''repo'')]"

definition pkg_turn :: "string \<Rightarrow> package_env" where
  "pkg_turn bad = \<lparr>pe_interrupt = False, pe_pacman = (\<lambda>n. if n = bad then 1 else 0), pe_find = (\<lambda>n. Inl (RuntimeErr n)),
     pe_repo_deps = (\<lambda>p n. None), pe_makepkg = (\<lambda>r p. MkBuilt), pe_install = (\<lambda>d. None)\<rparr>"

definition pkg_manifest :: manifest where
  "pkg_manifest = \<lparr>mf_build = [], mf_packages = [pkg_package ''bash'', pkg_package ''zlib''], mf_groups = []\<rparr>"

definition pkg_stage :: "string \<Rightarrow> stage_env" where
  "pkg_stage bad = \<lparr>sv_manifest = Some (Inr pkg_manifest), sv_snapshot = None, sv_choice = ''r'', sv_each = (\<lambda>n. ''r''),
     sv_walk = (\<lambda>xs. xs), sv_now = (\<lambda>i. ''T''),
     sv_deps = \<lparr>de_find = (\<lambda>n. Inl (RuntimeErr n)), de_root = (\<lambda>p. Inl (RuntimeErr p)), de_world = table_env [] [], de_fuel = 1,
       de_make = (\<lambda>p. MkBuilt), de_install = (\<lambda>d. None)\<rparr>,
     sv_turn = (\<lambda>i. pkg_turn bad), sv_enable = (\<lambda>d. None), sv_before = demo_machine, sv_after = demo_machine,
     sv_scope = demo_scope, sv_late_signal = False\<rparr>"

definition pkg_options :: stage_options where
  "pkg_options = \<lparr>so_dry_run = False, so_retry_failed = True\<rparr>"

definition pkg_st :: "pstate \<Rightarrow> string option \<Rightarrow> (string \<times> exn option) list \<Rightarrow> stage_st" where
  "pkg_st d f log = \<lparr>ss_data = d, ss_file = f, ss_log = log, ss_deps = [], ss_enabled = []\<rparr>"

definition pkg_log :: "(string \<times> exn option) list" where
  "pkg_log = [(''bash'', None), (''zlib'', Some (RuntimeErr ''pacman -S failed for 'zlib' (exit 1)''))]"

definition pkg_view :: "exn option \<times> string option \<times> stage_st \<Rightarrow> exn option \<times> (string \<times> exn option) list" where
  "pkg_view r = (case r of (e, sent, s) \<Rightarrow> (e, ss_log s))"

lemma pkg_first:
  "pkg_view (run_packages (pkg_stage ''zlib'') pkg_options False (None, pkg_st empty_state None [])) =
   (Some (stage_failures [''zlib'']), pkg_log)"
  by code_simp

lemma pkg_second:
  "pkg_view (run_packages (pkg_stage ''none'') pkg_options True (None, pkg_st empty_state None [])) =
   (None, [(''bash'', None), (''zlib'', None)])"
  by code_simp

lemma pkg_loads: "load_packages (sv_manifest (pkg_stage bad)) = Inr ([], [pkg_package ''bash'', pkg_package ''zlib''])"
  "entry_names [pkg_package ''bash'', pkg_package ''zlib''] = Some [''bash'', ''zlib'']"
proof -
  show "load_packages (sv_manifest (pkg_stage bad)) = Inr ([], [pkg_package ''bash'', pkg_package ''zlib''])"
    by (simp add: load_packages_def pkg_stage_def pkg_manifest_def expand_package_groups_def)
qed (simp add: pkg_package_def str_item_def)

lemma pkg_walks: "walks (sv_walk (pkg_stage bad))" unfolding pkg_stage_def walks_def by simp

lemma pkg_calm: "calm (pkg_stage bad)"
proof -
  have "collect_deps (package_deps (sv_deps (pkg_stage bad))) known aur = Inr []" for known aur
  proof (induction aur)
    case (Cons n aur)
    have "package_deps (sv_deps (pkg_stage bad)) n = Inl (RuntimeErr n)"
      unfolding package_deps_def pkg_stage_def by (simp add: resolve_pkgbuild_def rbind_def)
    with Cons show ?case by (simp add: is_runtime_def)
  qed simp
  then have "fst (dep_pass (pkg_stage bad) False known aur) = None" for known aur by (simp add: dep_pass_def)
  moreover have "ordinary (package_action (pkg_turn bad) False t m p n)" for t m p n
    by (simp add: package_action_def build_aur_def install_repo_def resolve_pkgbuild_def ordinary_def is_runtime_def pkg_turn_def Let_def)
  ultimately show ?thesis by (simp add: calm_def) (simp add: pkg_stage_def demo_scope_def pkg_turn_def)
qed

theorem manifest_precedence_witness:
  "entry_name_list (expand_package_groups \<lparr>mf_build = [], mf_packages = [pkg_package ''gdm''],
     mf_groups = [(''gnome'', Some [(''source'', PStr ''repo''), (''packages'', PList [''gnome-shell'', ''gdm''])])]\<rparr>) = [''gdm'', ''gnome-shell''] \<and>
   distinct (entry_name_list (expand_package_groups \<lparr>mf_build = [], mf_packages = [pkg_package ''gdm''],
     mf_groups = [(''gnome'', Some [(''source'', PStr ''repo''), (''packages'', PList [''gnome-shell'', ''gdm''])])]\<rparr>))"
proof -
  let ?mf = "\<lparr>mf_build = [], mf_packages = [pkg_package ''gdm''],
     mf_groups = [(''gnome'', Some [(''source'', PStr ''repo''), (''packages'', PList [''gnome-shell'', ''gdm''])])]\<rparr>"
  have "list_all (plain_group \<circ> snd) (mf_groups ?mf)" "distinct (entry_name_list (mf_packages ?mf))"
    by code_simp+
  from manifest_precedence [OF this] show ?thesis by (intro conjI) (code_simp, blast)
qed


theorem packages_all_settled_witness:
  "\<exists>sent s'. run_packages (pkg_stage ''none'') pkg_options True (None, pkg_st empty_state None []) = (None, sent, s') \<and>
     (''zlib'' \<in> built_of (ss_data s') \<or> ''zlib'' \<in> skipped_of (ss_data s'))"
proof -
  obtain e sent s where r: "run_packages (pkg_stage ''none'') pkg_options True (None, pkg_st empty_state None []) = (e, sent, s)"
    by (metis prod_cases3)
  with pkg_second have e: "e = None" by (simp add: pkg_view_def)
  have "distinct [''bash'', ''zlib'']" by code_simp
  from packages_all_settled [OF r [unfolded e] pkg_walks pkg_loads this] r e show ?thesis by auto
qed

end
