(* ===== verification/PackagesSession.thy ===== *)
theory PackagesSession
  imports PackagesStage
begin

text \<open>
  The packages stage of theory \<open>PackagesStage\<close> over the checkpoint file: sequences of runs that are cut
  short, resumed and interleaved with the marks of the runner; and the order of the builds of the
  dependencies it collects for the manifest.
\<close>

section \<open>Runs that are cut short and resumed\<close>

subsection \<open>What the file keeps\<close>

definition wins :: "(string \<times> exn option) list \<Rightarrow> string list" where
  "wins l = map fst (filter (\<lambda>a. snd a = None) l)"

lemma wins_append: "wins (a @ b) = wins a @ wins b" by (simp add: wins_def)

lemma wins_set: "set (wins l) = {n. (n, None) \<in> set l}" by (force simp: wins_def)

definition has_progress :: "pstate \<Rightarrow> bool" where
  "has_progress d \<longleftrightarrow> sd_status (stage_entry d ''packages'') \<noteq> None \<and>
     (\<exists>p. sd_progress (stage_entry d ''packages'') = Some p \<and> progress_true p)"

lemma has_reload: "wf_state d \<Longrightarrow> has_progress d \<Longrightarrow> progress_of (norm_state d) = progress_of d"
  by (auto simp: has_progress_def intro: reload_progress)

lemma has_norm: "wf_state d \<Longrightarrow> has_progress d \<Longrightarrow> has_progress (norm_state d)"
  by (auto simp: has_progress_def norm_entry wf_state_def written_def norm_stage_def)

lemma norm_progress: "wf_state d \<Longrightarrow> progress_of (norm_state d) \<in> {progress_of d, fresh_progress}"
  by (auto simp: progress_of_def norm_entry wf_state_def norm_stage_def empty_stage_def split: option.splits)

lemma wf_norm_stage: "wf_stage x \<Longrightarrow> wf_stage (norm_stage x)"
  by (auto simp: wf_stage_def norm_stage_def dict_ok_def split: option.splits)

lemma wf_norm:
  assumes "wf_state d"
  shows "wf_state (norm_state d)"
proof -
  have "dict_ok ss \<Longrightarrow> dict_ok (map (\<lambda>(n, x). (n, norm_stage x)) (filter (\<lambda>(n, x). written x) ss))" for ss
    by (induction ss) (auto simp: dict_ok_def image_iff)
  with assms show ?thesis
    by (auto simp: wf_state_def norm_state_def list_all_iff wf_norm_stage)
qed

lemma has_on_progress: "progress_true (f (progress_of d)) \<Longrightarrow> has_progress (on_progress u f d)"
  by (simp add: has_progress_def on_progress_entry or_set_def split: option.split)

lemma has_ensure: "has_progress d \<Longrightarrow> has_progress (ensure_progress d)"
  by (auto simp: has_progress_def ensure_entry or_set_def)

lemma true_without [simp]: "progress_true (p\<lparr>pr_remaining := without n xs\<rparr>)" "progress_true (p\<lparr>pr_failed := without n xs\<rparr>)"
  "progress_true (p\<lparr>pr_remaining := Some ys\<rparr>)"
  by (simp_all add: progress_true_def without_def)

lemma true_init: "progress_true (init_progress ns p)"
  by (auto simp: init_progress_def Let_def) (auto simp: progress_true_def)

lemma true_ops: "progress_true (building_progress n p)" "progress_true (built_progress n p)"
  "progress_true (failed_progress n p)" "progress_true (skipped_progress n p)"
  by (simp_all add: building_progress_def built_progress_def failed_progress_def skipped_progress_def
      progress_true_def without_def)

lemma wf_edit:
  assumes "wf_state d" "wf_progress (f (progress_of d))"
  shows "wf_state (edit_progress f d)"
proof -
  have "wf_stage (stage_entry (ensure_progress d) ''packages'')" by (intro wf_entry wf_ensure assms)
  then show ?thesis
    using assms by (auto simp: edit_progress_def Let_def wf_stage_def intro!: wf_state_upd wf_ensure packages_bare)
qed

lemma has_edit: "progress_true (f (progress_of d)) \<Longrightarrow> has_progress (edit_progress f d)"
  by (simp add: has_progress_def edit_progress_def Let_def ensure_entry or_set_def split: option.split)

text \<open>The marks of the runner leave the progress alone.\<close>

fun stage_mark :: "state_op \<Rightarrow> bool" where
  "stage_mark (InitMeta t u) = True" | "stage_mark (Touch u) = True"
| "stage_mark (MarkRunning t u n) = True" | "stage_mark (MarkDone t u n) = True"
| "stage_mark (NoteCompleted t u n) = True" | "stage_mark (MarkFailed t u n e) = True"
| "stage_mark (MarkSkippedTo u n) = True" | "stage_mark (SetResult u n r) = True"
| "stage_mark _ = False"

lemma mark_progress: "stage_mark op \<Longrightarrow> progress_of (exec op d) = progress_of d"
  by (cases op) (simp_all add: mark_defs progress_of_keep set_stage_result_def progress_of_def [of "init_meta _ _ _"]
      flip: progress_of_def)

lemma mark_entry:
  assumes "stage_mark op" "sd_status (stage_entry d n) \<noteq> None"
  shows "sd_status (stage_entry (exec op d) n) \<noteq> None"
  using assms by (cases op) (auto simp: mark_defs set_stage_result_def)

lemma mark_table: "stage_mark op \<Longrightarrow> sd_progress (stage_entry (exec op d) n) = sd_progress (stage_entry d n)"
  by (cases op) (auto simp: mark_defs set_stage_result_def)

lemma mark_has: "stage_mark op \<Longrightarrow> has_progress d \<Longrightarrow> has_progress (exec op d)"
  unfolding has_progress_def using mark_entry mark_table by fastforce

subsection \<open>Good states\<close>

definition good :: "pstate \<Rightarrow> (string \<times> exn option) list \<Rightarrow> bool" where
  "good d log \<longleftrightarrow> wf_state d \<and> built_of d \<inter> failed_of d = {} \<and> built_of d \<inter> remaining_of d = {} \<and>
     set (wins log) \<subseteq> built_of d \<and> (has_progress d \<or> wins log = [])"

definition kept :: "string option \<Rightarrow> (string \<times> exn option) list \<Rightarrow> bool" where
  "kept file log \<longleftrightarrow> (case file of None \<Rightarrow> wins log = [] | Some t \<Rightarrow> \<exists>d. t = serialize d \<and> good d log)"

lemma kept_load:
  assumes "kept file log" "load toml_load file = Some d"
  shows "good d log"
proof (cases "file")
  case None
  with assms have "d = empty_state" "wins log = []" by (simp_all add: kept_def load_def)
  moreover have "progress_of empty_state = fresh_progress"
    by (simp add: progress_of_def empty_state_def stage_entry_def dget_or_def empty_stage_def)
  ultimately show ?thesis by (simp add: good_def empty_wf fresh_progress_def)
next
  case (Some t)
  with assms(1) obtain d' where t: "t = serialize d'" "good d' log" by (auto simp: kept_def)
  then have wf: "wf_state d'" by (simp add: good_def)
  with assms(2) Some t(1) have d: "d = norm_state d'" by (simp add: load_def load_serialize)
  show ?thesis
  proof (cases "has_progress d'")
    case True
    with t(2) show ?thesis unfolding d good_def using has_reload [OF wf True] has_norm [OF wf True] wf_norm [OF wf] by simp
  next
    case False
    with t(2) norm_progress [OF wf] wf_norm [OF wf] show ?thesis unfolding d good_def by (auto simp: fresh_progress_def)
  qed
qed

lemma good_same:
  assumes "good d log" "wf_state d'" "progress_of d' = progress_of d" "has_progress d \<Longrightarrow> has_progress d'"
  shows "good d' log"
  using assms by (simp add: good_def) blast

lemma good_marks: "good d log \<Longrightarrow> list_all (\<lambda>op. stage_mark op \<and> op_ok op) ops \<Longrightarrow> good (exec_all ops d) log"
proof (induction ops arbitrary: d)
  case (Cons op ops)
  then have "good (exec op d) log"
    by (intro good_same [OF Cons.prems(1)]) (simp_all add: mark_progress mark_has exec_wf good_def)
  with Cons show ?case by (simp add: exec_all_def)
qed (simp add: exec_all_def)

subsection \<open>A run keeps them\<close>

text \<open>The file holds what the process holds.\<close>

definition matched :: "stage_st \<Rightarrow> bool" where
  "matched s \<longleftrightarrow> wf_state (ss_data s) \<and> has_progress (ss_data s) \<and>
     (\<exists>d. ss_file s = Some (serialize d) \<and> wf_state d \<and> has_progress d \<and> progress_of d = progress_of (ss_data s))"

lemma matched_save: "wf_state (ss_data s) \<Longrightarrow> has_progress (ss_data s) \<Longrightarrow> matched (save_st False s)"
  by (auto simp: matched_def save_st_def save_def)

lemma matched_ensure: "matched s \<Longrightarrow> matched (s\<lparr>ss_data := ensure_progress (ss_data s)\<rparr>)"
  by (auto simp: matched_def wf_ensure has_ensure)

lemma matched_same: "matched s \<Longrightarrow> same_st t s \<Longrightarrow> matched t" "matched s \<Longrightarrow> matched (log_action n e s)"
  by (simp_all add: matched_def same_st_def log_action_def)

lemma has_package_ops: "has_progress (mark_package_building u n d)" "has_progress (mark_package_built u n d)"
  "has_progress (mark_package_skipped u n d)" "has_progress (init_package_list u ns d)"
  by (simp_all add: package_defs has_on_progress true_ops true_init)

lemma has_failed: "has_progress (mark_package_failed u n e d)"
  by (simp add: has_progress_def mark_package_failed_def on_progress_entry or_set_def true_ops split: option.split)

lemma attempt_matched:
  assumes "attempt lp now pe i mode n s = (e, s')" "wf_state (ss_data s)" "\<not> lp_read_only lp" "\<And>i. plain (now i)"
    and "plain n" "bare_key n"
  shows "matched s'"
proof -
  let ?d = "mark_package_building (now (2 * i)) n (ss_data s)"
  have wf: "wf_state ?d" using exec_wf [OF assms(2), of "PkgBuilding (now (2 * i)) n"] assms(4) by simp
  have wf2: "wf_state (mark_package_built (now (2 * i + 1)) n ?d)"
    "wf_state (mark_package_failed (now (2 * i + 1)) n x ?d)" for x
    using exec_wf [OF wf, of "PkgBuilt (now (2 * i + 1)) n"] exec_wf [OF wf, of "PkgFailed (now (2 * i + 1)) n x"] assms(4-6)
    by simp_all
  define s1 where "s1 = save_st False (on_data (mark_package_building (now (2 * i)) n) s)"
  have s1: "matched s1" unfolding s1_def using wf by (intro matched_save) (simp_all add: on_data_def has_package_ops)
  have d1: "ss_data (log_action n e s1) = ?d" for e by (simp add: s1_def save_st_def on_data_def log_action_def)
  have s': "s' = (case e of None \<Rightarrow> save_st False (on_data (mark_package_built (now (2 * i + 1)) n) (log_action n e s1))
    | Some x \<Rightarrow> if is_runtime x
        then save_st False (on_data (mark_package_failed (now (2 * i + 1)) n (exn_text x)) (log_action n e s1))
        else log_action n e s1)"
    using assms(1,3) by (auto simp: attempt_def Let_def s1_def split: option.split)
  show ?thesis
    unfolding s' using wf2 matched_same(2) [OF s1]
    by (auto intro!: matched_save simp: on_data_def d1 has_package_ops has_failed split: option.split)
qed

lemma loop_matched:
  assumes "build_loop lp now turn i built ns s = (r, s')" "matched s" "\<not> lp_read_only lp" "\<And>i. plain (now i)"
    and "list_all (\<lambda>n. plain n \<and> bare_key n) ns"
  shows "matched s'"
  using assms(1,2,5)
proof (induction ns arbitrary: i built s)
  case (Cons n ns)
  define s0 where "s0 = on_data (\<lambda>_. ensure_progress (ss_data s)) s"
  have s0: "matched s0" "wf_state (ss_data s0)"
    using matched_ensure [OF Cons.prems(2)] by (simp_all add: s0_def on_data_def matched_def)
  have ns: "plain n" "bare_key n" "list_all (\<lambda>n. plain n \<and> bare_key n) ns" using Cons.prems(3) by simp_all
  note step = Cons.prems(1) [simplified, unfolded get_package_progress_def prod.case Let_def, folded s0_def]
  note again = Cons.IH [OF _ s0(1) ns(3)]
  show ?case
  proof (cases "\<exists>mode. effective_mode (lp_build lp) (the (dget (lp_packages lp) n)) = Inr mode")
    case False
    then obtain x where "effective_mode (lp_build lp) (the (dget (lp_packages lp) n)) = Inl x" by (meson sum.exhaust)
    with step s0 show ?thesis by simp
  next
    case True
    then obtain mode where m: "effective_mode (lp_build lp) (the (dget (lp_packages lp) n)) = Inr mode" by blast
    obtain e s1 where at: "attempt lp now (turn i) i mode n s0 = (e, s1)" by fastforce
    have s1: "matched s1" by (rule attempt_matched [OF at s0(2) assms(3,4) ns(1,2)])
    note more = Cons.IH [OF _ s1 ns(3)]
    from step [unfolded m sum.case at prod.case] show ?thesis
      using again more s0(1) s1 by (auto split: if_splits option.splits)
  qed
qed simp

lemma fold_settle_failed_le:
  assumes "distinct (map fst l)"
  shows "set (or_nil (pr_failed (fold settle l p))) \<subseteq>
    (set (or_nil (pr_failed p)) - {n. (n, None) \<in> set l}) \<union> {n. \<exists>e. (n, Some e) \<in> set l}"
  using assms
proof (induction l arbitrary: p)
  case (Cons a l)
  obtain n e where a: "a = (n, e)" by (cases a)
  from Cons.prems have n: "(n, x) \<notin> set l" for x by (force simp: a)
  have "set (or_nil (pr_failed (fold settle l (settle a p)))) \<subseteq>
    (set (or_nil (pr_failed (settle a p))) - {n. (n, None) \<in> set l}) \<union> {n. \<exists>e. (n, Some e) \<in> set l}"
    using Cons by simp
  with n show ?case by (cases e) (auto simp: a settle_buckets split: if_splits)
qed simp

lemma matched_kept:
  assumes "matched s" "good (ss_data s) (ss_log s)"
  shows "kept (ss_file s) (ss_log s)"
proof -
  obtain d where d: "ss_file s = Some (serialize d)" "wf_state d" "has_progress d" "progress_of d = progress_of (ss_data s)"
    using assms(1) by (auto simp: matched_def)
  then have "good d (ss_log s)" by (intro good_same [OF assms(2)]) simp_all
  with d(1) show ?thesis by (auto simp: kept_def)
qed

definition names_ok :: "string list \<Rightarrow> bool" where
  "names_ok ns \<longleftrightarrow> distinct ns \<and> list_all (\<lambda>n. plain n \<and> bare_key n) ns"

lemma loop_good:
  assumes "loop_ran sv lp i ns s r s'" "matched s" "good (ss_data s) (ss_log s)" "distinct (wins (ss_log s))"
    and "names_ok ns" "set (lp_built lp) = built_of (ss_data s)" "set (lp_retry lp) \<inter> built_of (ss_data s) = {}"
    and "\<not> lp_read_only lp" "\<And>i. plain (sv_now sv i)"
  shows "matched s'" "good (ss_data s') (ss_log s')" "distinct (wins (ss_log s'))"
proof -
  obtain s1 where s1: "same_st s1 s" "build_loop lp (sv_now sv) (sv_turn sv) i (lp_built lp) ns s1 = (r, s')"
    using assms(1) by (auto simp: loop_ran_def)
  show m: "matched s'"
    using loop_matched [OF s1(2) matched_same(1) [OF assms(2) s1(1)] assms(8,9)] assms(5) by (simp add: names_ok_def)
  have dn: "distinct ns" using assms(5) by (simp add: names_ok_def)
  let ?p = "progress_of (ss_data s)"
  from build_loop_spec [OF s1(2) dn] s1(1) obtain l rest where l: "ss_log s' = ss_log s @ l"
    "filter (due lp (lp_built lp) ?p) ns = map fst l @ rest" "progress_of (ss_data s') = fold settle l ?p"
    by (auto simp: same_st_def)
  have "distinct (map fst l @ rest)" using dn by (metis distinct_filter l(2))
  then have d: "distinct (map fst l)" by simp
  have "due lp (lp_built lp) ?p n" if "n \<in> set (map fst l)" for n
    using arg_cong [OF l(2), of set] that by auto
  then have new: "set (map fst l) \<inter> built_of (ss_data s) = {}" using assms(6,7) unfolding due_def by blast
  have split: "(n, None) \<in> set l \<Longrightarrow> (n, Some e) \<notin> set l" for n e using eq_key_imp_eq_value [OF d] by blast
  have keys: "(n, e) \<in> set l \<Longrightarrow> n \<notin> built_of (ss_data s)" for n e using new by force
  have B: "built_of (ss_data s') = built_of (ss_data s) \<union> set (wins l)"
    and R: "remaining_of (ss_data s') = remaining_of (ss_data s) - set (map fst l)"
    by (simp_all add: l(3) fold_settle wins_set)
  have F: "failed_of (ss_data s') \<subseteq> (failed_of (ss_data s) - set (wins l)) \<union> {n. \<exists>e. (n, Some e) \<in> set l}"
    using fold_settle_failed_le [OF d] by (simp add: l(3) wins_set)
  have g: "built_of (ss_data s) \<inter> failed_of (ss_data s) = {}" "built_of (ss_data s) \<inter> remaining_of (ss_data s) = {}"
    "set (wins (ss_log s)) \<subseteq> built_of (ss_data s)" using assms(3) by (simp_all add: good_def)
  have W: "set (wins l) \<subseteq> set (map fst l)" by (force simp: wins_set)
  have "set (wins l) \<inter> {n. \<exists>e. (n, Some e) \<in> set l} = {}" using split by (auto simp: wins_set)
  moreover have "built_of (ss_data s) \<inter> {n. \<exists>e. (n, Some e) \<in> set l} = {}" using keys by blast
  ultimately have "built_of (ss_data s') \<inter> failed_of (ss_data s') = {}"
    using F g(1) unfolding B by blast
  moreover have "built_of (ss_data s') \<inter> remaining_of (ss_data s') = {}"
    using W g(2) new unfolding B R by blast
  moreover have "set (wins (ss_log s')) \<subseteq> built_of (ss_data s')"
    using g(3) unfolding B l(1) wins_append by auto
  ultimately show "good (ss_data s') (ss_log s')" using m by (simp add: good_def matched_def)
  have "set (wins (ss_log s)) \<inter> set (wins l) = {}" using assms(3) keys by (auto simp: good_def wins_set)
  moreover have "distinct (wins l)" using d by (simp add: wins_def distinct_map_filter)
  ultimately show "distinct (wins (ss_log s'))" using assms(4) by (simp add: l(1) wins_append)
qed

lemma skip_wf:
  assumes "wf_state d" "has_progress d" "\<And>i. plain (now i)" "list_all plain (map snd xs)"
  shows "wf_state (skip_each now xs d) \<and> has_progress (skip_each now xs d)"
  using assms(1,2,4)
proof (induction xs arbitrary: d)
  case (Cons x xs)
  obtain i n where x: "x = (i, n)" by (cases x)
  have "wf_state (mark_package_skipped (now i) n d)"
    using exec_wf [OF Cons.prems(1), of "PkgSkipped (now i) n"] assms(3) Cons.prems(3) x by simp
  with Cons show ?case by (simp add: x has_package_ops)
qed simp

lemma requeue_wf:
  assumes "requeue n d = Inr d'" "wf_state d" "plain n"
  shows "wf_state d' \<and> has_progress d'"
proof -
  have "wf_state (ensure_progress d)" by (rule wf_ensure [OF assms(2)])
  then have p: "wf_progress (progress_of d)" using wf_progress_of [OF assms(2)] by simp
  have q: "wf_state (edit_progress (\<lambda>p. p\<lparr>pr_failed := without n (pr_failed p)\<rparr>) e)" if "wf_state e" for e
    using wf_progress_of [OF that] that by (intro wf_edit) (simp_all add: wf_progress_def plain_without)
  have r: "wf_state (edit_progress (\<lambda>p. p\<lparr>pr_remaining := Some (or_nil (pr_remaining p) @ [n])\<rparr>) (ensure_progress d))"
    using p assms by (intro wf_edit wf_ensure) (simp_all add: wf_progress_def)
  from assms(1) show ?thesis
    by (auto simp: requeue_def get_package_progress_def Let_def has_edit q r wf_ensure [OF assms(2)] split: if_splits)
qed

lemma requeue_all_wf:
  "requeue_all ns d = (e, d') \<Longrightarrow> wf_state d \<Longrightarrow> has_progress d \<Longrightarrow> list_all plain ns \<Longrightarrow> wf_state d' \<and> has_progress d'"
proof (induction ns arbitrary: d)
  case (Cons n ns)
  then show ?case using requeue_wf [of n d] by (auto split: sum.splits)
qed simp

lemma settle_good:
  assumes "settle_failed sv False retry skip t = (e, t')" "matched t" "walks (sv_walk sv)" "\<And>i. plain (sv_now sv i)"
    and "set retry \<union> set skip \<subseteq> failed_of (ss_data t)" "good (ss_data t) (ss_log t)"
  shows "good (ss_data t') (ss_log t')" "ss_log t' = ss_log t" "set retry \<inter> built_of (ss_data t') = {}"
    "built_of (ss_data t') = built_of (ss_data t)" "e = None \<Longrightarrow> matched t'" "e \<noteq> None \<Longrightarrow> ss_file t' = ss_file t"
proof -
  let ?xs = "enumerate 1 (sv_walk sv skip)"
  let ?d = "skip_each (sv_now sv) ?xs (ss_data t)"
  obtain x d1 where r: "requeue_all (sv_walk sv retry) ?d = (x, d1)" by fastforce
  note b = settle_failed_buckets [OF assms(1,3)]
  have wf: "wf_state (ss_data t)" "has_progress (ss_data t)" using assms(2) by (simp_all add: matched_def)
  have "list_all plain (or_nil (pr_failed (progress_of (ss_data t))))"
    using wf_progress_of [OF wf(1)] by (simp add: wf_progress_def)
  then have pl: "list_all plain (sv_walk sv retry)" "list_all plain (sv_walk sv skip)"
    using assms(3,5) by (auto simp: list_all_iff walks_def)
  have "wf_state ?d \<and> has_progress ?d"
    using pl(2) by (intro skip_wf wf assms(4)) simp_all
  with requeue_all_wf [OF r _ _ pl(1)] have d1: "wf_state d1" "has_progress d1" by simp_all
  have s: "ss_data t' = d1" "e = x" "e = None \<Longrightarrow> ss_file t' = Some (serialize d1)" "e \<noteq> None \<Longrightarrow> ss_file t' = ss_file t"
    using assms(1) r by (auto simp: settle_failed_def Let_def save_st_def save_def split: option.splits)
  show "ss_log t' = ss_log t" "built_of (ss_data t') = built_of (ss_data t)" by (rule b)+
  show "e \<noteq> None \<Longrightarrow> ss_file t' = ss_file t" by (rule s)
  show "e = None \<Longrightarrow> matched t'" using s d1 by (auto simp: matched_def)
  have g: "built_of (ss_data t) \<inter> failed_of (ss_data t) = {}" "built_of (ss_data t) \<inter> remaining_of (ss_data t) = {}"
    "set (wins (ss_log t)) \<subseteq> built_of (ss_data t)" using assms(6) by (simp_all add: good_def)
  show "set retry \<inter> built_of (ss_data t') = {}" using b(1) g(1) assms(5) by blast
  have "built_of (ss_data t') \<inter> failed_of (ss_data t') = {}" using b(1,3) g(1) by blast
  moreover have "built_of (ss_data t') \<inter> remaining_of (ss_data t') = {}" using b(1,4) g(1,2) assms(5) by blast
  ultimately show "good (ss_data t') (ss_log t')"
    using b(1,7) g(3) d1 s(1) by (simp add: good_def)
qed

lemma listed_good:
  assumes "good (ss_data s) (ss_log s)" "names_ok ns" "\<And>i. plain (sv_now sv i)"
  shows "good (ss_data (listed_st sv False ns s)) (ss_log (listed_st sv False ns s))" "matched (listed_st sv False ns s)"
proof -
  let ?d = "init_package_list (sv_now sv 0) ns (ss_data s)" and ?t = "listed_st sv False ns s"
  have wf: "wf_state ?d"
    using exec_wf [of "ss_data s" "InitPackages (sv_now sv 0) ns"] assms by (simp add: good_def names_ok_def list_all_iff)
  have t: "ss_data ?t = ensure_progress ?d" "ss_file ?t = Some (serialize ?d)"
    by (simp_all add: listed_st_def save_st_def on_data_def save_def Let_def)
  have h: "has_progress ?d" by (rule has_package_ops)
  show "matched ?t" using wf h by (auto simp: matched_def t wf_ensure has_ensure)
  show "good (ss_data ?t) (ss_log ?t)"
    using assms(1) built_not_remaining(1) [of "progress_of (ss_data s)" ns] wf h
    by (simp add: good_def t wf_ensure has_ensure init_package_list_def)
qed

definition steady :: "stage_env \<Rightarrow> bool" where
  "steady sv \<longleftrightarrow> walks (sv_walk sv) \<and> (\<forall>i. plain (sv_now sv i)) \<and>
     (\<forall>build packages ns. load_packages (sv_manifest sv) = Inr (build, packages) \<longrightarrow> entry_names packages = Some ns \<longrightarrow> names_ok ns)"

lemma rest_good:
  assumes "run_rest sv opts lp ns packages (sent, t) = (e, sent', s')" "matched t" "good (ss_data t) (ss_log t)"
    and "distinct (wins (ss_log t))" "names_ok ns" "set (lp_built lp) = built_of (ss_data t)"
    and "set (lp_retry lp) \<inter> built_of (ss_data t) = {}" "\<not> lp_read_only lp" "\<And>i. plain (sv_now sv i)"
  shows "good (ss_data s') (ss_log s') \<and> kept (ss_file s') (ss_log s') \<and> distinct (wins (ss_log s'))"
  using rest_cases [OF assms(1)]
proof
  assume "e \<noteq> None \<and> same_st s' t"
  with matched_kept [OF assms(2,3)] assms(3,4) show ?thesis by (simp add: same_st_def)
next
  assume "\<exists>i r s2. loop_ran sv lp i ns t r s2 \<and> ss_log s' = ss_log s2 \<and> ss_file s' = ss_file s2 \<and>
       (ss_data s' = ss_data s2 \<or> ss_data s' = ensure_progress (ss_data s2)) \<and>
       (e = None \<longrightarrow> r = None \<and> failed_of (ss_data s2) = {})"
  then obtain i r s2 where r: "loop_ran sv lp i ns t r s2" and s': "ss_log s' = ss_log s2" "ss_file s' = ss_file s2"
    "ss_data s' = ss_data s2 \<or> ss_data s' = ensure_progress (ss_data s2)" by blast
  note g = loop_good [OF r assms(2-9)]
  have "good (ensure_progress (ss_data s2)) (ss_log s2)"
    using g(1,2) by (intro good_same [OF g(2)]) (auto simp: matched_def wf_ensure has_ensure)
  with g s' matched_kept [OF g(1,2)] show ?thesis by auto
qed

lemma run_good:
  assumes "run_packages sv opts False (sent, s) = (e, sent', s')" "steady sv"
    and "good (ss_data s) (ss_log s)" "kept (ss_file s) (ss_log s)" "distinct (wins (ss_log s))"
  shows "good (ss_data s') (ss_log s') \<and> kept (ss_file s') (ss_log s') \<and> distinct (wins (ss_log s'))"
proof -
  have early: ?thesis if "s' = s" using that assms(3-5) by simp
  show ?thesis
  proof (cases "\<exists>build packages ns. load_packages (sv_manifest sv) = Inr (build, packages) \<and> sv_snapshot sv = None \<and>
      entry_names packages = Some ns")
    case False
    have "s' = s"
    proof (cases "load_packages (sv_manifest sv)")
      case (Inl x)
      with assms(1) show ?thesis by (simp add: run_packages_def Let_def)
    next
      case (Inr bp)
      obtain build packages where bp: "bp = (build, packages)" by (cases bp)
      show ?thesis
        using assms(1) False Inr bp
        by (cases "sv_snapshot sv"; cases "entry_names packages") (simp_all add: run_packages_def)
    qed
    then show ?thesis by (rule early)
  next
    case True
    then obtain build packages ns where ld: "load_packages (sv_manifest sv) = Inr (build, packages)"
      and sn: "sv_snapshot sv = None" and ns: "entry_names packages = Some ns" by blast
    have ok: "walks (sv_walk sv)" "\<And>i. plain (sv_now sv i)" "names_ok ns"
      using assms(2) ld ns by (simp_all add: steady_def)
    define q where "q = init_progress ns (progress_of (ss_data s))"
    let ?t = "listed_st sv False ns s" and ?lp = "first_env opts False (ss_data s) build packages ns q"
    note t = listed_good [OF assms(3) ok(3,2)]
    have dt: "distinct (wins (ss_log ?t))" using assms(5) by simp
    note run = run_unfold [OF ld sn ns, where opts = opts and ro = False and sent = sent and s = s, folded q_def, unfolded assms(1)]
    show ?thesis
    proof (cases "or_nil (pr_failed q) = []")
      case True
      with run have r: "run_rest sv opts ?lp ns packages (sent, ?t) = (e, sent', s')" by simp
      show ?thesis by (rule rest_good [OF r t(2,1) dt ok(3) _ _ _ ok(2)]) (simp_all add: q_def)
    next
      case False
      show ?thesis
      proof (cases "prompt_failed sv opts (or_nil (pr_failed q))")
        case (Inl x)
        with run False have "s' = ?t" by simp
        with t matched_kept [OF t(2,1)] dt show ?thesis by simp
      next
        case (Inr rs)
        obtain retry skip where rs: "rs = (retry, skip)" by (cases rs)
        obtain x t3 where st: "settle_failed sv False retry skip ?t = (x, t3)" by fastforce
        have sub: "set retry \<union> set skip \<subseteq> failed_of (ss_data ?t)"
          using prompt_union [OF Inr [unfolded rs]] by (simp add: q_def)
        note g = settle_good [OF st t(2) ok(1,2) sub t(1)]
        show ?thesis
        proof (cases x)
          case (Some y)
          with run False Inr rs st have "s' = t3" by simp
          with g dt matched_kept [OF t(2,1)] Some show ?thesis by simp
        next
          case None
          with run False Inr rs st have r: "run_rest sv opts (?lp\<lparr>lp_retry := retry, lp_skip := skip\<rparr>) ns packages (sent, t3) = (e, sent', s')"
            by simp
          have d3: "distinct (wins (ss_log t3))" using g(2) dt by simp
          show ?thesis
            by (rule rest_good [OF r g(5) [OF None] g(1) d3 ok(3) _ _ _ ok(2)]) (use g(3,4) in \<open>simp_all add: q_def\<close>)
        qed
      qed
    qed
  qed
qed

text \<open>Runs of the stage over one checkpoint file, with the marks of the runner between them; a run may end
  anywhere, and what was not saved is lost.\<close>

inductive session :: "string option \<Rightarrow> (string \<times> exn option) list \<Rightarrow> bool" where
  fresh: "session None []"
| mark: "session file log \<Longrightarrow> load toml_load file = Some d \<Longrightarrow> list_all (\<lambda>op. stage_mark op \<and> op_ok op) ops \<Longrightarrow>
    session (save False (exec_all ops d) file) log"
| run: "session file log \<Longrightarrow> load toml_load file = Some d \<Longrightarrow> steady sv \<Longrightarrow>
    run_packages sv opts False (sent, \<lparr>ss_data = d, ss_file = file, ss_log = log, ss_deps = [], ss_enabled = []\<rparr>) = (e, sent', s') \<Longrightarrow>
    session (ss_file s') (ss_log s')"
| finish: "session file log \<Longrightarrow> load toml_load file = Some d \<Longrightarrow> steady sv \<Longrightarrow>
    run_packages sv opts False (sent, \<lparr>ss_data = d, ss_file = file, ss_log = log, ss_deps = [], ss_enabled = []\<rparr>) = (e, sent', s') \<Longrightarrow>
    list_all (\<lambda>op. stage_mark op \<and> op_ok op) ops \<Longrightarrow>
    session (save False (exec_all ops (ss_data s')) (ss_file s')) (ss_log s')"

lemma session_kept: "session file log \<Longrightarrow> kept file log \<and> distinct (wins log)"
proof (induction rule: session.induct)
  case fresh
  show ?case by (simp add: kept_def wins_def)
next
  case (mark "file" log d ops)
  then have "good (exec_all ops d) log" using kept_load good_marks by blast
  with mark show ?case by (auto simp: kept_def save_def)
next
  case (run "file" log d sv opts sent e sent' s')
  then show ?case using run_good [OF run.hyps(4,3)] kept_load [OF _ run.hyps(2)] by simp
next
  case (finish "file" log d sv opts sent e sent' s' ops)
  then have g: "good (ss_data s') (ss_log s')" "distinct (wins (ss_log s'))"
    using run_good [OF finish.hyps(4,3)] kept_load [OF _ finish.hyps(2)] by simp_all
  with good_marks [OF g(1) finish.hyps(5)] show ?case by (auto simp: kept_def save_def)
qed

section \<open>The order of the dependency builds\<close>

lemma deps_first_split:
  "deps_first ks cls ord \<longleftrightarrow> (\<forall>xs n ys. ord = xs @ n # ys \<longrightarrow> (\<forall>k \<in> set (ks n). cls k = SrcAur \<longrightarrow> k \<in> set xs))"
proof
  assume d: "deps_first ks cls ord"
  show "\<forall>xs n ys. ord = xs @ n # ys \<longrightarrow> (\<forall>k \<in> set (ks n). cls k = SrcAur \<longrightarrow> k \<in> set xs)"
  proof (intro allI impI)
    fix xs n ys assume "ord = xs @ n # ys"
    then have "length xs < length ord" "ord ! length xs = n" "take (length xs) ord = xs" by simp_all
    with d show "\<forall>k \<in> set (ks n). cls k = SrcAur \<longrightarrow> k \<in> set xs" unfolding deps_first_def by metis
  qed
next
  assume "\<forall>xs n ys. ord = xs @ n # ys \<longrightarrow> (\<forall>k \<in> set (ks n). cls k = SrcAur \<longrightarrow> k \<in> set xs)"
  then show "deps_first ks cls ord" unfolding deps_first_def by (metis id_take_nth_drop)
qed

lemma deps_first_append: "deps_first ks cls a \<Longrightarrow> deps_first ks cls b \<Longrightarrow> deps_first ks cls (a @ b)"
  unfolding deps_first_def by (auto simp: nth_append)

lemma filter_split: "filter P ord = xs @ n # ys \<Longrightarrow> \<exists>us vs. ord = us @ n # vs \<and> filter P us = xs"
proof (induction ord arbitrary: xs)
  case (Cons m ord)
  show ?case
  proof (cases "P m \<and> xs = []")
    case True
    with Cons.prems show ?thesis by (metis append_Cons append_Nil filter.simps list.inject)
  next
    case False
    then obtain xs' where "filter P ord = xs' @ n # ys" "xs = (if P m then m # xs' else xs')"
      using Cons.prems by (cases xs) (auto split: if_splits)
    with Cons.IH [OF this(1)] show ?thesis by (metis append_Cons filter.simps(2))
  qed
qed simp

lemma deps_first_filter:
  assumes "deps_first ks cls ord" "\<And>k. cls' k = SrcAur \<Longrightarrow> cls k = SrcAur \<and> P k"
  shows "deps_first ks cls' (filter P ord)"
  unfolding deps_first_split
proof (intro allI impI ballI)
  fix xs n ys k assume e: "filter P ord = xs @ n # ys" and k: "k \<in> set (ks n)" "cls' k = SrcAur"
  from e obtain us vs where "ord = us @ n # vs" "xs = filter P us"
    using filter_split by metis
  with assms k show "k \<in> set xs" by (auto simp: deps_first_split)
qed

lemma unique_split:
  "unique_deps seen ds = xs @ d # ys \<Longrightarrow>
   \<exists>us vs. ds = us @ d # vs \<and> rd_name ` set us \<subseteq> set seen \<union> rd_name ` set xs"
proof (induction seen ds arbitrary: xs rule: unique_deps.induct)
  case (2 seen e ds)
  show ?case
  proof (cases "rd_name e \<in> set seen")
    case True
    with 2 obtain us vs where "ds = us @ d # vs" "rd_name ` set us \<subseteq> set seen \<union> rd_name ` set xs" by auto
    with True have "e # ds = (e # us) @ d # vs \<and> rd_name ` set (e # us) \<subseteq> set seen \<union> rd_name ` set xs" by auto
    then show ?thesis by blast
  next
    case False
    show ?thesis
    proof (cases xs)
      case Nil
      with False 2(3) have "e # ds = [] @ d # ds \<and> rd_name ` set [] \<subseteq> set seen \<union> rd_name ` set xs" by auto
      then show ?thesis by blast
    next
      case (Cons x xs')
      with False 2(3) have "x = e" "unique_deps (rd_name e # seen) ds = xs' @ d # ys" by auto
      with 2(2) [OF False this(2)] obtain us vs where "ds = us @ d # vs"
        "rd_name ` set us \<subseteq> set (rd_name e # seen) \<union> rd_name ` set xs'" by auto
      with Cons \<open>x = e\<close> have "e # ds = (e # us) @ d # vs \<and> rd_name ` set (e # us) \<subseteq> set seen \<union> rd_name ` set xs" by auto
      then show ?thesis by blast
    qed
  qed
qed simp

lemma unique_names: "distinct (map rd_name (unique_deps seen ds))" "rd_name ` set (unique_deps seen ds) = rd_name ` set ds - set seen"
proof -
  show names: "rd_name ` set (unique_deps seen ds) = rd_name ` set ds - set seen" for seen
    by (induction seen ds rule: unique_deps.induct) auto
  show "distinct (map rd_name (unique_deps seen ds))"
  proof (induction ds arbitrary: seen)
    case (Cons d ds)
    have "rd_name ` set (unique_deps s es) = rd_name ` set es - set s" for s es
      by (induction s es rule: unique_deps.induct) auto
    with Cons show ?case by simp
  qed simp
qed

lemma deps_first_unique:
  assumes "deps_first ks cls (map rd_name ds)"
  shows "deps_first ks cls (map rd_name (unique_deps [] ds))"
  unfolding deps_first_split
proof (intro allI impI ballI)
  fix xs n ys k assume e: "map rd_name (unique_deps [] ds) = xs @ n # ys" and k: "k \<in> set (ks n)" "cls k = SrcAur"
  from e obtain as d bs where s: "unique_deps [] ds = as @ d # bs" "map rd_name as = xs" "rd_name d = n"
    by (auto simp: map_eq_append_conv map_eq_Cons_conv)
  from unique_split [OF s(1)] obtain us vs where u: "ds = us @ d # vs" "rd_name ` set us \<subseteq> rd_name ` set as" by auto
  then have "map rd_name ds = map rd_name us @ n # map rd_name vs" using s(3) by simp
  with assms k have "k \<in> set (map rd_name us)" unfolding deps_first_split by blast
  with u(2) s(2) show "k \<in> set xs" by auto
qed

text \<open>The groups: the PKGBUILDs in the order of their first members, each with all its members.\<close>

definition to_build :: "resolved_dep \<Rightarrow> bool" where
  "to_build d \<longleftrightarrow> rd_source d = SrcAur \<and> rd_pkgbuild_path d \<noteq> None"

definition members_of :: "resolved_dep list \<Rightarrow> string \<Rightarrow> string list" where
  "members_of ds p = map rd_name (filter (\<lambda>d. to_build d \<and> rd_pkgbuild_path d = Some p) ds)"

fun group_paths :: "resolved_dep list \<Rightarrow> string list" where
  "group_paths [] = []"
| "group_paths (d # ds) =
     (if to_build d then the (rd_pkgbuild_path d) # filter (\<lambda>p. p \<noteq> the (rd_pkgbuild_path d)) (group_paths ds) else group_paths ds)"

lemma group_paths_snoc:
  "group_paths (ds @ [d]) =
     (if to_build d \<and> the (rd_pkgbuild_path d) \<notin> set (group_paths ds) then group_paths ds @ [the (rd_pkgbuild_path d)] else group_paths ds)"
  by (induction ds) auto

lemma dset_map:
  "dset k v (map (\<lambda>p. (p, g p)) ps) =
     map (\<lambda>p. (p, if p = k then v else g p)) (if k \<in> set ps then ps else ps @ [k])" if "distinct ps"
  using that by (induction ps) (auto simp: dset_def)

lemma dget_map: "dget (map (\<lambda>p. (p, g p)) ps) k = (if k \<in> set ps then Some (g k) else None)"
  by (induction ps) auto

lemma group_paths_distinct: "distinct (group_paths ds)"
  by (induction ds) auto

lemma members_nil: "p \<notin> set (group_paths ds) \<Longrightarrow> members_of ds p = []"
  by (induction ds) (auto simp: members_of_def split: if_splits)

lemma dep_groups_eq: "dep_groups ds = map (\<lambda>p. (p, members_of ds p)) (group_paths ds)"
proof (induction ds rule: rev_induct)
  case (snoc d ds)
  have *: "dep_groups (ds @ [d]) = dep_group d (dep_groups ds)" by (simp add: dep_groups_def)
  show ?case
  proof (cases "to_build d")
    case False
    then show ?thesis
      unfolding * snoc by (auto simp: dep_group_def to_build_def group_paths_snoc members_of_def split: option.split)
  next
    case True
    then obtain p where p: "rd_pkgbuild_path d = Some p" "rd_source d = SrcAur" by (auto simp: to_build_def)
    have m: "members_of (ds @ [d]) q = (if q = p then members_of ds p @ [rd_name d] else members_of ds q)" for q
      using True p by (auto simp: members_of_def)
    show ?thesis
      unfolding * snoc using True p members_nil [of p ds]
      by (auto simp: dep_group_def dset_map [OF group_paths_distinct] dget_map dget_or_def group_paths_snoc m)
  qed
qed (simp add: dep_groups_def)

lemma group_first:
  assumes "group_paths ds = ps @ p # qs"
  shows "\<exists>us d vs. ds = us @ d # vs \<and> to_build d \<and> rd_pkgbuild_path d = Some p \<and>
    (\<forall>u \<in> set us. to_build u \<longrightarrow> the (rd_pkgbuild_path u) \<in> set ps)"
  using assms
proof (induction ds arbitrary: ps qs)
  case (Cons d ds)
  show ?case
  proof (cases "to_build d \<and> ps = []")
    case True
    with Cons.prems have "d # ds = [] @ d # ds \<and> to_build d \<and> rd_pkgbuild_path d = Some p" by (auto simp: to_build_def)
    then show ?thesis by (metis empty_iff empty_set)
  next
    case False
    have "\<exists>ps' qs'. group_paths ds = ps' @ p # qs' \<and> set ps' \<subseteq> set ps \<and> (to_build d \<longrightarrow> the (rd_pkgbuild_path d) \<in> set ps)"
    proof (cases "to_build d")
      case True
      with False Cons.prems obtain ps' where ps: "ps = the (rd_pkgbuild_path d) # ps'"
        "filter (\<lambda>p. p \<noteq> the (rd_pkgbuild_path d)) (group_paths ds) = ps' @ p # qs" by (cases ps) auto
      from filter_split [OF ps(2)] obtain us vs where "group_paths ds = us @ p # vs"
        "filter (\<lambda>p. p \<noteq> the (rd_pkgbuild_path d)) us = ps'" by blast
      with ps(1) show ?thesis by auto
    next
      case b: False
      with Cons.prems show ?thesis by auto
    qed
    then obtain ps' qs' where p: "group_paths ds = ps' @ p # qs'" "set ps' \<subseteq> set ps"
      "to_build d \<longrightarrow> the (rd_pkgbuild_path d) \<in> set ps" by blast
    from Cons.IH [OF p(1)] obtain us e vs where "ds = us @ e # vs" "to_build e" "rd_pkgbuild_path e = Some p"
      "\<forall>u \<in> set us. to_build u \<longrightarrow> the (rd_pkgbuild_path u) \<in> set ps'" by blast
    with p(2,3) have "d # ds = (d # us) @ e # vs \<and> to_build e \<and> rd_pkgbuild_path e = Some p \<and>
      (\<forall>u \<in> set (d # us). to_build u \<longrightarrow> the (rd_pkgbuild_path u) \<in> set ps)" by auto
    then show ?thesis by blast
  qed
qed simp

text \<open>The dependencies collected for the whole manifest.\<close>

definition builds_class :: "(string \<Rightarrow> dep_source) \<Rightarrow> string list \<Rightarrow> string \<Rightarrow> dep_source" where
  "builds_class cls known n = (if n \<in> set known then SrcInstalled else cls n)"

lemma single_batch: "resolve_aur_deps env fetch fuel root = resolve_aur_deps_batch env fetch fuel [root]"
  by (cases root) (simp add: resolve_aur_deps_def resolve_aur_deps_batch_def rbind_def split: sum.splits)

lemma collect_ordered:
  assumes "collect_deps deps_of known ns = Inr ds"
    and "\<And>n es. deps_of n = Inr es \<Longrightarrow> deps_first ks cls (map rd_name es)"
  shows "deps_first ks (builds_class cls known) (map rd_name ds) \<and> rd_name ` set ds \<inter> set known = {}"
  using assms(1)
proof (induction ns arbitrary: ds)
  case (Cons n ns)
  show ?case
  proof (cases "deps_of n")
    case (Inl e)
    with Cons show ?thesis by (auto split: if_splits)
  next
    case (Inr es)
    with Cons.prems obtain rest where r: "collect_deps deps_of known ns = Inr rest"
      "ds = filter (\<lambda>d. rd_name d \<notin> set known) es @ rest" by (auto simp: rbind_Inr_iff)
    have "deps_first ks (builds_class cls known) (filter (\<lambda>n. n \<notin> set known) (map rd_name es))"
      by (rule deps_first_filter [OF assms(2) [OF Inr]]) (simp add: builds_class_def split: if_splits)
    moreover have "filter (\<lambda>n. n \<notin> set known) (map rd_name es) = map rd_name (filter (\<lambda>d. rd_name d \<notin> set known) es)"
      by (simp add: filter_map o_def)
    ultimately show ?thesis using Cons.IH [OF r(1)] r(2) deps_first_append by auto
  qed
qed simp

lemma package_deps_ordered:
  assumes "answers_by_name (de_world de) True missing repo aur"
    and "\<And>path root. de_root de path = Inr root \<Longrightarrow> \<forall>s \<in> set (root_specs [root]). tok_ok s"
    and "package_deps de n = Inr es"
  shows "deps_first (kids (de_world de) True) (class_of missing repo aur) (map rd_name es)"
proof -
  obtain path root where r: "de_root de path = Inr root" "resolve_aur_deps (de_world de) True (de_fuel de) root = Inr (Some es)"
  proof -
    obtain path root where r: "de_root de path = Inr root"
      "(case resolve_aur_deps (de_world de) True (de_fuel de) root of Inl e \<Rightarrow> Inl (dep_exn e)
        | Inr None \<Rightarrow> Inl (OtherErr ''KeyError'' n) | Inr (Some ds) \<Rightarrow> Inr ds) = Inr es"
      using assms(3) unfolding package_deps_def rbind_Inr_iff by blast
    have "resolve_aur_deps (de_world de) True (de_fuel de) root = Inr (Some es)"
      using r(2) by (cases "resolve_aur_deps (de_world de) True (de_fuel de) root") (simp_all split: option.splits)
    with r(1) that show thesis by blast
  qed
  from batch_result [OF assms(1) assms(2) [OF r(1)] r(2) [unfolded single_batch]] show ?thesis by auto
qed

lemma groups_ordered:
  assumes "deps_first ks cls (map rd_name ds)" "dep_groups ds = before @ (p, m) # after" "k \<in> set (ks (hd m))" "cls k = SrcAur"
  shows "m \<noteq> [] \<and> ((\<exists>(q, ns) \<in> set before. k \<in> set ns) \<or> (\<exists>d \<in> set ds. rd_name d = k \<and> \<not> to_build d))"
proof -
  from assms(2) obtain ps qs where ps: "group_paths ds = ps @ p # qs" "before = map (\<lambda>p. (p, members_of ds p)) ps" "m = members_of ds p"
    by (auto simp: dep_groups_eq map_eq_append_conv map_eq_Cons_conv)
  from group_first [OF ps(1)] obtain us d vs where u: "ds = us @ d # vs" "to_build d" "rd_pkgbuild_path d = Some p"
    "\<forall>u \<in> set us. to_build u \<longrightarrow> the (rd_pkgbuild_path u) \<in> set ps" by blast
  have "p \<notin> set ps" using group_paths_distinct [of ds] ps(1) by simp
  then have "members_of us p = []" using u(4) by (force simp: members_of_def filter_empty_conv)
  then have m: "m = rd_name d # members_of vs p" using u ps(3) by (simp add: members_of_def)
  have "map rd_name ds = map rd_name us @ rd_name d # map rd_name vs" by (simp add: u(1))
  with assms(1,3,4) m have "k \<in> set (map rd_name us)" unfolding deps_first_split by (metis list.sel(1))
  then obtain v where v: "v \<in> set us" "rd_name v = k" by auto
  show ?thesis
  proof (cases "to_build v")
    case False
    with v u(1) m show ?thesis by auto
  next
    case True
    then obtain q where q: "rd_pkgbuild_path v = Some q" by (auto simp: to_build_def)
    with u(4) v(1) True have "q \<in> set ps" by force
    moreover have "k \<in> set (members_of ds q)" using v True q u(1) by (auto simp: members_of_def)
    ultimately show ?thesis using m ps(2) by auto
  qed
qed

lemma build_groups_prefix: "build_groups mk inst gs = (e, paths, built) \<Longrightarrow> prefix paths (map fst gs) \<and> (e = None \<longrightarrow> paths = map fst gs)"
proof (induction gs arbitrary: e paths built)
  case (Cons g gs)
  obtain path ns where g: "g = (path, ns)" by (cases g)
  obtain e1 ps b where r: "build_groups mk inst gs = (e1, ps, b)" by (metis prod_cases3)
  show ?case
  proof (cases "\<exists>x. mk path = MkRaises x")
    case True
    with Cons.prems show ?thesis by (auto simp: g)
  next
    case False
    then have "build_groups mk inst (g # gs) =
      (case inst (path_parent path) of Some x \<Rightarrow> (Some x, [], []) | None \<Rightarrow> (e1, path # ps, ns @ b))"
      by (cases "mk path") (simp_all add: g r split: option.split)
    with Cons.prems Cons.IH [OF r] show ?thesis by (auto simp: g split: option.splits)
  qed
qed simp

section \<open>Properties\<close>


text \<open>The dependencies the stage collects for the manifest are built one PKGBUILD at a time, up to the first
  failure; and what the first member of a PKGBUILD needs from the AUR, the manifest aside, is a
  member of an earlier one, or has no PKGBUILD to build.\<close>

theorem dep_builds_ordered:
  assumes "answers_by_name (de_world de) True missing repo aur"
    and "\<forall>path root. de_root de path = Inr root \<longrightarrow> (\<forall>s \<in> set (root_specs [root]). tok_ok s)"
    and "collect_deps (package_deps de) known ns = Inr ds"
    and "build_resolved_deps mk inst (unique_deps [] ds) = (e, paths, built)"
  shows "prefix paths (map fst (dep_groups (unique_deps [] ds))) \<and> distinct paths \<and>
    (\<forall>before p m after k. dep_groups (unique_deps [] ds) = before @ (p, m) # after \<and>
       k \<in> set (kids (de_world de) True (hd m)) \<and> class_of missing repo aur k = SrcAur \<and> k \<notin> set known \<longrightarrow>
       (\<exists>(q, ns) \<in> set before. k \<in> set ns) \<or> (\<exists>d \<in> set ds. rd_name d = k \<and> \<not> to_build d))"
proof -
  let ?us = "unique_deps [] ds"
  let ?ks = "kids (de_world de) True" and ?cls = "builds_class (class_of missing repo aur) known"
  have "deps_first ?ks ?cls (map rd_name ds)"
    using collect_ordered [OF assms(3)] package_deps_ordered [OF assms(1)] assms(2) by metis
  then have d: "deps_first ?ks ?cls (map rd_name ?us)" by (rule deps_first_unique)
  have p: "prefix paths (map fst (dep_groups ?us))"
    using build_groups_prefix assms(4) by (auto simp: build_resolved_deps_def)
  then have "distinct paths" using group_paths_distinct [of ?us] by (auto simp: prefix_def dep_groups_eq o_def)
  moreover have "set (unique_deps seen xs) \<subseteq> set xs" for seen and xs :: "resolved_dep list"
    by (induction seen xs rule: unique_deps.induct) auto
  ultimately show ?thesis
    using p groups_ordered [OF d] by (fastforce simp: builds_class_def)
qed

section \<open>Concrete sessions\<close>

lemma pkg_steady: "steady (pkg_stage bad)"
proof -
  have ok: "names_ok [''bash'', ''zlib'']" and t: "plain ''T''" by code_simp+
  have "names_ok ns" if "load_packages (sv_manifest (pkg_stage bad)) = Inr (build, packages)" "entry_names packages = Some ns"
    for build packages ns
    using that ok by (metis Inr_inject Pair_inject option.inject pkg_loads)
  moreover have "plain (sv_now (pkg_stage bad) i)" for i using t by (simp add: pkg_stage_def)
  ultimately show ?thesis using pkg_walks unfolding steady_def by blast
qed

lemma pkg_session: "\<exists>f. session f pkg_log"
proof -
  obtain e sent s where r: "run_packages (pkg_stage ''zlib'') pkg_options False (None, pkg_st empty_state None []) = (e, sent, s)"
    by (metis prod_cases3)
  with pkg_first have "ss_log s = pkg_log" by (simp add: pkg_view_def)
  moreover have "load toml_load None = Some empty_state" by (simp add: load_def)
  ultimately show ?thesis using session.run [OF session.fresh _ pkg_steady r [unfolded pkg_st_def]] by auto
qed


text \<open>A table of AUR packages, each with a PKGBUILD of its own.\<close>

definition built_env :: "string list \<Rightarrow> (string, string list \<times> string list) dict \<Rightarrow> resolver_env" where
  "built_env miss aur = (table_env miss aur)\<lparr>env_pkgbuild :=
     (\<lambda>n. map_option (\<lambda>(d, m). (''/src/'' @ n @ ''/PKGBUILD'', d, m)) (dget aur n))\<rparr>"

lemma built_answers:
  assumes "\<forall>(k, d, m) \<in> set aur. \<forall>s \<in> set (d @ m). tok_ok s"
  shows "answers_by_name (built_env miss aur) True (\<lambda>n. n \<in> set miss) (\<lambda>n. False) (dget aur)"
proof -
  note t = table_answers [OF assms, of miss]
  have rpc: "\<forall>s \<in> set (snd (child_deps (table_env miss aur) False (env_aur (table_env miss aur) ns) n)). tok_ok s" for ns n
    using t by (simp add: answers_by_name_def)
  have dm: "\<forall>s \<in> set (d @ m). tok_ok s" if "dget aur n = Some (d, m)" for n d m
    using assms map_of_SomeD [OF that] by fastforce
  have "\<forall>s \<in> set (snd (child_deps (built_env miss aur) True (env_aur (built_env miss aur) ns) n)). tok_ok s" for ns n
    using rpc [of ns n] dm [of n]
    by (auto simp: child_deps_def built_env_def table_env_def split: prod.splits option.splits if_splits)
  moreover have "get_missing_deps (built_env miss aur) = get_missing_deps (table_env miss aur)"
    by (simp add: fun_eq_iff get_missing_deps_def built_env_def table_env_def)
  ultimately show ?thesis using t by (simp add: answers_by_name_def) (simp add: built_env_def table_env_def)
qed

definition pkg_deps :: deps_env where
  "pkg_deps = \<lparr>de_find = (\<lambda>n. Inr (''/src/'' @ n @ ''/PKGBUILD'')),
     de_root = (\<lambda>p. Inr (''root'', [''yay'', ''glibc''], [])), de_world = built_env (map fst demo_aur) demo_aur, de_fuel = 4,
     de_make = (\<lambda>p. MkBuilt), de_install = (\<lambda>d. None)\<rparr>"

lemma pkg_collect:
  "map_sum id (\<lambda>ds. (map rd_name ds, map fst (dep_groups (unique_deps [] ds)))) (collect_deps (package_deps pkg_deps) [''yay''] [''paru'', ''aura'']) =
   Inr ([''go-tool'', ''libyay'', ''go-tool'', ''libyay''], [''/src/go-tool/PKGBUILD'', ''/src/libyay/PKGBUILD''])"
  by code_simp

theorem dep_builds_ordered_witness:
  "\<exists>ds. collect_deps (package_deps pkg_deps) [''yay''] [''paru'', ''aura''] = Inr ds \<and> ds \<noteq> [] \<and>
     distinct (map fst (dep_groups (unique_deps [] ds)))"
proof -
  obtain ds where ds: "collect_deps (package_deps pkg_deps) [''yay''] [''paru'', ''aura''] = Inr ds" "ds \<noteq> []"
    using pkg_collect by (cases "collect_deps (package_deps pkg_deps) [''yay''] [''paru'', ''aura'']") auto
  have specs: "\<forall>(k, d, m) \<in> set demo_aur. \<forall>s \<in> set (d @ m). tok_ok s" by code_simp
  have w: "de_world pkg_deps = built_env (map fst demo_aur) demo_aur" by (simp add: pkg_deps_def)
  have "\<forall>s \<in> set (root_specs [(''root'', [''yay'', ''glibc''], [])]). tok_ok s" by code_simp
  then have roots: "\<forall>path root. de_root pkg_deps path = Inr root \<longrightarrow> (\<forall>s \<in> set (root_specs [root]). tok_ok s)"
    by (simp add: pkg_deps_def)
  obtain e paths built where b: "build_resolved_deps (\<lambda>p. MkBuilt) (\<lambda>d. None) (unique_deps [] ds) = (e, paths, built)"
    by (metis prod_cases3)
  have all: "build_groups (\<lambda>p. MkBuilt) (\<lambda>d. None) gs = (None, map fst gs, concat (map snd gs))" for gs
    by (induction gs) auto
  have "distinct paths"
    using dep_builds_ordered [OF built_answers [OF specs, where miss = "map fst demo_aur", folded w] roots ds(1) b] by blast
  with b all [of "dep_groups (unique_deps [] ds)"] ds show ?thesis by (simp add: build_resolved_deps_def)
qed

end
