(* ===== verification/AtomicWrite.thy ===== *)
theory AtomicWrite
  imports StageSentinel PipelineState
begin

text \<open>
  Model of \<open>sysforge/primitives/atomic_write.py\<close>: the writers of state files (\<open>write_state\<close>) and of
  configuration files (\<open>replace_file\<close>), over a file system that can lose power.

  A file system holds directory entries, from names to inodes, and inodes with contents, mode and
  owner.  The disk lags behind: an inode has its contents on disk from an fsync to the next
  write, and until its directory is synced an entry may come back as any value it has had since
  the last sync.  An open file is a handle on an inode, so that it is written to whatever its name has come to
  mean.  Every call may fail, a write is one call for each byte, and a process may be killed
  between any two.  \<open>install\<close>, \<open>mv\<close> and \<open>rm\<close> are the calls that coreutils make.

  The lemmas: what any interleaving of writers of one file leaves at any moment and after any
  loss of power; what a failed write leaves; mode and owner; and the two respects in which the
  privileged path falls short of the direct one.
\<close>

section \<open>The file system\<close>

record inode =
  in_data :: string
  in_synced :: bool
  in_mode :: nat
  in_uid :: nat
  in_gid :: nat

record fs =
  fs_dir :: "string \<Rightarrow> nat option"
  fs_past :: "string \<Rightarrow> nat option list"
  fs_inode :: "nat \<Rightarrow> inode"
  fs_handle :: "string \<Rightarrow> nat option"
  fs_next :: nat

datatype syscall =
    Create string string nat nat
  | Append string char
  | Fsync string
  | Chmod string nat
  | Chown string nat nat
  | Rename string string
  | Unlink string
  | FsyncDir string

text \<open>The entry of a name changes; the disk may hold the new one or any it held before.\<close>

definition set_entry :: "string \<Rightarrow> nat option \<Rightarrow> fs \<Rightarrow> fs" where
  "set_entry n e s = s\<lparr>fs_dir := (fs_dir s)(n := e), fs_past := (fs_past s)(n := e # fs_past s n)\<rparr>"

definition on_inode :: "nat option \<Rightarrow> (inode \<Rightarrow> inode) \<Rightarrow> fs \<Rightarrow> fs" where
  "on_inode e f s = (case e of None \<Rightarrow> s | Some i \<Rightarrow> s\<lparr>fs_inode := (fs_inode s)(i := f (fs_inode s i))\<rparr>)"

fun call :: "syscall \<Rightarrow> fs \<Rightarrow> fs" where
  "call (Create h n uid gid) s =
     (let i = fs_next s
      in set_entry n (Some i) (s\<lparr>fs_inode := (fs_inode s)(i := \<lparr>in_data = [], in_synced = False, in_mode = 384, in_uid = uid, in_gid = gid\<rparr>),
           fs_handle := (fs_handle s)(h := Some i), fs_next := Suc i\<rparr>))"
| "call (Append h c) s = on_inode (fs_handle s h) (\<lambda>i. i\<lparr>in_data := in_data i @ [c], in_synced := False\<rparr>) s"
| "call (Fsync h) s = on_inode (fs_handle s h) (\<lambda>i. i\<lparr>in_synced := True\<rparr>) s"
| "call (Chmod n m) s = on_inode (fs_dir s n) (\<lambda>i. i\<lparr>in_mode := m\<rparr>) s"
| "call (Chown n u g) s = on_inode (fs_dir s n) (\<lambda>i. i\<lparr>in_uid := u, in_gid := g\<rparr>) s"
| "call (Rename a b) s = (case fs_dir s a of None \<Rightarrow> s | Some i \<Rightarrow> set_entry a None (set_entry b (Some i) s))"
| "call (Unlink n) s = set_entry n None s"
| "call (FsyncDir d) s = s\<lparr>fs_past := (\<lambda>n. if path_parent n = d then [fs_dir s n] else fs_past s n)\<rparr>"

definition calls :: "syscall list \<Rightarrow> fs \<Rightarrow> fs" where "calls cs s = fold call cs s"

definition content :: "fs \<Rightarrow> string \<Rightarrow> string option" where
  "content s n = map_option (\<lambda>i. in_data (fs_inode s i)) (fs_dir s n)"

text \<open>What a name may hold when the machine comes back.\<close>

definition after_power_loss :: "fs \<Rightarrow> string \<Rightarrow> string option \<Rightarrow> bool" where
  "after_power_loss s n c \<longleftrightarrow>
     (\<exists>e \<in> set (fs_past s n).
        case e of None \<Rightarrow> c = None
        | Some i \<Rightarrow> (\<exists>t. c = Some t \<and> (in_synced (fs_inode s i) \<longrightarrow> t = in_data (fs_inode s i))))"

section \<open>The writers\<close>

datatype os_error = PermissionError | OsFail string | Stopped string

record write_env =
  we_mkdir :: "os_error option"
  we_tmp :: string
  we_handle :: string
  we_fault :: "nat \<Rightarrow> os_error option"
  we_unlink_ok :: bool
  we_dir_ok :: bool
  we_uid :: nat
  we_gid :: nat
  we_umask_mode :: nat

text \<open>The calls of a try block up to the first that fails: the error, and the state.\<close>

fun attempt_calls :: "(nat \<Rightarrow> os_error option) \<Rightarrow> nat \<Rightarrow> syscall list \<Rightarrow> fs \<Rightarrow> os_error option \<times> fs" where
  "attempt_calls fault k [] s = (None, s)"
| "attempt_calls fault k (c # cs) s =
     (case fault k of Some e \<Rightarrow> (Some e, s) | None \<Rightarrow> attempt_calls fault (Suc k) cs (call c s))"

definition fill :: "string \<Rightarrow> string \<Rightarrow> syscall list" where
  "fill h data = map (Append h) data"

text \<open>\<open>mkstemp\<close>, then the body of the try block, the clean-up, the sync of the directory.\<close>

definition stage_and_rename ::
    "write_env \<Rightarrow> syscall list \<Rightarrow> string \<Rightarrow> string \<Rightarrow> fs \<Rightarrow> os_error option \<times> fs" where
  "stage_and_rename we attrs path data s =
     (case we_fault we 0 of
        Some e \<Rightarrow> (Some e, s)
      | None \<Rightarrow>
          (case attempt_calls (we_fault we) 1
                  (fill (we_handle we) data @ [Fsync (we_handle we)] @ attrs @ [Rename (we_tmp we) path])
                  (call (Create (we_handle we) (we_tmp we) (we_uid we) (we_gid we)) s) of
             (Some e, s1) \<Rightarrow> (Some e, if we_unlink_ok we then call (Unlink (we_tmp we)) s1 else s1)
           | (None, s1) \<Rightarrow> (None, if we_dir_ok we then call (FsyncDir (path_parent path)) s1 else s1)))"

definition write_state :: "write_env \<Rightarrow> string \<Rightarrow> string \<Rightarrow> fs \<Rightarrow> os_error option \<times> fs" where
  "write_state we path data s =
     (case we_mkdir we of
        Some e \<Rightarrow> (Some e, s)
      | None \<Rightarrow>
          (let mode = (case fs_dir s path of Some i \<Rightarrow> in_mode (fs_inode s i) | None \<Rightarrow> we_umask_mode we)
           in stage_and_rename we [Chmod (we_tmp we) mode] path data s))"

text \<open>\<open>_existing_attrs\<close>: the owner is \<open>None\<close> for a file that does not exist.\<close>

definition existing_attrs :: "fs \<Rightarrow> string \<Rightarrow> nat \<Rightarrow> nat \<times> (nat \<times> nat) option" where
  "existing_attrs s target default_mode =
     (case fs_dir s target of
        None \<Rightarrow> (default_mode, None)
      | Some i \<Rightarrow> (in_mode (fs_inode s i), Some (in_uid (fs_inode s i), in_gid (fs_inode s i))))"

definition replace_direct ::
    "write_env \<Rightarrow> string \<Rightarrow> string \<Rightarrow> nat \<Rightarrow> (nat \<times> nat) option \<Rightarrow> fs \<Rightarrow> os_error option \<times> fs" where
  "replace_direct we target data mode owner s =
     stage_and_rename we
       ([Chmod (we_tmp we) mode] @
        (case owner of
           Some (u, g) \<Rightarrow> if (u, g) \<noteq> (we_uid we, we_gid we) then [Chown (we_tmp we) u g] else []
         | None \<Rightarrow> []))
       target data s"

text \<open>
  The privileged path: \<open>install\<close> replaces the staged file by a copy of a private one, under a name
  that is the same for every writer, and \<open>mv\<close> renames it.  A failure of either is followed by \<open>rm\<close>.
\<close>

definition tmp_suffix :: string where "tmp_suffix = ''.sysforge-tmp''"

definition staged_name :: "string \<Rightarrow> string" where
  "staged_name target = path_parent target @ ''/.'' @ path_name target @ tmp_suffix"

record sudo_env =
  su_handle :: string
  su_private :: "os_error option"
  su_install :: "nat \<Rightarrow> bool"
  su_mv_ok :: bool
  su_rm_ok :: bool

definition install_calls :: "string \<Rightarrow> string \<Rightarrow> string \<Rightarrow> nat \<Rightarrow> nat \<times> nat \<Rightarrow> syscall list" where
  "install_calls h staged data mode owner =
     [Unlink staged, Create h staged 0 0] @ fill h data @ [Chown staged (fst owner) (snd owner), Chmod staged mode]"

definition replace_privileged ::
    "sudo_env \<Rightarrow> string \<Rightarrow> string \<Rightarrow> nat \<Rightarrow> (nat \<times> nat) option \<Rightarrow> fs \<Rightarrow> os_error option \<times> fs" where
  "replace_privileged su target data mode owner s =
     (case su_private su of
        Some e \<Rightarrow> (Some e, s)
      | None \<Rightarrow>
          (let staged = staged_name target;
               undo = (\<lambda>s. (Some (OsFail (target @ '' unchanged'')), if su_rm_ok su then call (Unlink staged) s else s))
           in case attempt_calls (\<lambda>k. if su_install su k then None else Some (OsFail ''install'')) 0
                     (install_calls (su_handle su) staged data mode (case owner of Some ow \<Rightarrow> ow | None \<Rightarrow> (0, 0))) s of
                (Some e, s1) \<Rightarrow> undo s1
              | (None, s1) \<Rightarrow> if su_mv_ok su then (None, call (Rename staged target) s1) else undo s1))"

text \<open>\<open>replace_file\<close> on the name that \<open>realpath\<close> returned.\<close>

definition replace_file ::
    "write_env \<Rightarrow> sudo_env \<Rightarrow> string \<Rightarrow> string \<Rightarrow> nat \<Rightarrow> fs \<Rightarrow> os_error option \<times> fs" where
  "replace_file we su target data default_mode s =
     (let (mode, owner) = existing_attrs s target default_mode;
          (e, s1) = (case we_mkdir we of Some e \<Rightarrow> (Some e, s) | None \<Rightarrow> replace_direct we target data mode owner s)
      in if e = Some PermissionError then replace_privileged su target data mode owner s1 else (e, s1))"


section \<open>Any number of writers\<close>

text \<open>A writer of a file and how far it gets: \<open>wr_stop\<close> calls of its try block succeed.\<close>

record writer =
  wr_handle :: string
  wr_tmp :: string
  wr_data :: string
  wr_attrs :: "syscall list"
  wr_ids :: "nat \<times> nat"
  wr_stop :: nat
  wr_clean :: bool
  wr_sync :: bool

definition full_calls :: "string \<Rightarrow> writer \<Rightarrow> syscall list" where
  "full_calls path w =
     Create (wr_handle w) (wr_tmp w) (fst (wr_ids w)) (snd (wr_ids w)) # fill (wr_handle w) (wr_data w) @ [Fsync (wr_handle w)] @
     wr_attrs w @ [Rename (wr_tmp w) path]"

definition program :: "string \<Rightarrow> writer \<Rightarrow> syscall list" where
  "program path w =
     (if wr_stop w < length (full_calls path w)
      then take (wr_stop w) (full_calls path w) @ (if wr_stop w > 0 \<and> wr_clean w then [Unlink (wr_tmp w)] else [])
      else full_calls path w @ (if wr_sync w then [FsyncDir (path_parent path)] else []))"

definition attrs_ok :: "writer \<Rightarrow> bool" where
  "attrs_ok w \<longleftrightarrow> (\<forall>c \<in> set (wr_attrs w). (\<exists>m. c = Chmod (wr_tmp w) m) \<or> (\<exists>u g. c = Chown (wr_tmp w) u g))"

text \<open>The calls of the writers, interleaved; a writer that makes no more of them has been killed.\<close>

inductive running :: "(nat \<Rightarrow> writer) \<Rightarrow> string \<Rightarrow> fs \<Rightarrow> (nat \<Rightarrow> nat) \<Rightarrow> fs \<Rightarrow> bool" for ws path s0 where
  start: "running ws path s0 (\<lambda>i. 0) s0"
| step: "running ws path s0 pos s \<Longrightarrow> pos i < length (program path (ws i)) \<Longrightarrow>
    running ws path s0 (pos(i := Suc (pos i))) (call (program path (ws i) ! pos i) s)"

definition wf_fs :: "fs \<Rightarrow> bool" where
  "wf_fs s \<longleftrightarrow> (\<forall>n. fs_dir s n \<in> set (fs_past s n)) \<and> (\<forall>n i. Some i \<in> set (fs_past s n) \<longrightarrow> i < fs_next s) \<and>
     (\<forall>h i. fs_handle s h = Some i \<longrightarrow> i < fs_next s)"

text \<open>The writer that has made \<open>k\<close> calls owns the inode \<open>f\<close>.\<close>

definition renamed :: "string \<Rightarrow> writer \<Rightarrow> nat \<Rightarrow> bool" where
  "renamed path w k \<longleftrightarrow> length (full_calls path w) \<le> wr_stop w \<and> length (full_calls path w) \<le> k"

definition owns :: "string \<Rightarrow> fs \<Rightarrow> writer \<Rightarrow> nat \<Rightarrow> nat \<Rightarrow> bool" where
  "owns path s w k f \<longleftrightarrow>
     f < fs_next s \<and> fs_handle s (wr_handle w) = Some f \<and> (\<forall>h. h \<noteq> wr_handle w \<longrightarrow> fs_handle s h \<noteq> Some f) \<and>
     (k \<le> wr_stop w \<or> length (full_calls path w) \<le> wr_stop w \<longrightarrow>
        in_data (fs_inode s f) = take (k - 1) (wr_data w) \<and>
        (length (wr_data w) + 2 \<le> k \<longrightarrow> in_synced (fs_inode s f)) \<and>
        (k < length (full_calls path w) \<longrightarrow> fs_dir s (wr_tmp w) = Some f)) \<and>
     (\<not> renamed path w k \<longrightarrow> (\<forall>n. n \<noteq> wr_tmp w \<longrightarrow> Some f \<notin> set (fs_past s n)))"

text \<open>What a call of one writer leaves alone.\<close>

definition frame :: "string \<Rightarrow> nat \<Rightarrow> string set \<Rightarrow> fs \<Rightarrow> fs \<Rightarrow> bool" where
  "frame h f names s s' \<longleftrightarrow>
     (\<forall>g. g \<noteq> f \<longrightarrow> fs_inode s' g = fs_inode s g) \<and> (\<forall>h'. h' \<noteq> h \<longrightarrow> fs_handle s' h' = fs_handle s h') \<and>
     fs_handle s' h = Some f \<and> (\<forall>n. n \<notin> names \<longrightarrow> fs_dir s' n = fs_dir s n) \<and>
     (\<forall>n. set (fs_past s' n) \<subseteq> set (fs_past s n) \<union> (if n \<in> names then {None, Some f} else {})) \<and> fs_next s \<le> fs_next s'"

lemma frame_owns:
  assumes "frame h f {t, path} s s'" "owns path s w k g" "h \<noteq> wr_handle w" "g \<noteq> f" "wr_tmp w \<noteq> t" "wr_tmp w \<noteq> path"
  shows "owns path s' w k g"
proof -
  have "fs_inode s' g = fs_inode s g" "fs_handle s' (wr_handle w) = fs_handle s (wr_handle w)"
    "fs_dir s' (wr_tmp w) = fs_dir s (wr_tmp w)" "fs_next s \<le> fs_next s'" "fs_handle s' h = Some f"
    using assms by (simp_all add: frame_def)
  moreover have "Some g \<notin> set (fs_past s' n)" if "Some g \<notin> set (fs_past s n)" for n
    using assms(1,4) that by (auto simp: frame_def split: if_splits)
  moreover have "fs_handle s' h' \<noteq> Some g" if "h' \<noteq> wr_handle w" for h'
  proof (cases "h' = h")
    case True
    with assms(4) calculation(5) show ?thesis by simp
  next
    case False
    with assms(1) have "fs_handle s' h' = fs_handle s h'" by (simp add: frame_def)
    with assms(2) that show ?thesis by (simp add: owns_def)
  qed
  ultimately show ?thesis using assms(2) unfolding owns_def by auto
qed

lemma dir_entry_simps [simp]:
  "fs_dir (set_entry n e s) = (fs_dir s)(n := e)" "fs_past (set_entry n e s) = (fs_past s)(n := e # fs_past s n)"
  "fs_inode (set_entry n e s) = fs_inode s" "fs_handle (set_entry n e s) = fs_handle s" "fs_next (set_entry n e s) = fs_next s"
  by (simp_all add: set_entry_def)

lemma on_inode_simps [simp]:
  "fs_dir (on_inode e f s) = fs_dir s" "fs_past (on_inode e f s) = fs_past s" "fs_handle (on_inode e f s) = fs_handle s"
  "fs_next (on_inode e f s) = fs_next s"
  "fs_inode (on_inode e f s) = (case e of None \<Rightarrow> fs_inode s | Some i \<Rightarrow> (fs_inode s)(i := f (fs_inode s i)))"
  by (simp_all add: on_inode_def split: option.split)

lemma wf_call: "wf_fs s \<Longrightarrow> wf_fs (call c s)"
proof (cases c)
  case (Create h n u g)
  assume w: "wf_fs s"
  then have "Some i \<in> set (fs_past s m) \<Longrightarrow> i < Suc (fs_next s)" "fs_handle s k = Some i \<Longrightarrow> i < Suc (fs_next s)" for i m k
    unfolding wf_fs_def by (meson less_Suc_eq)+
  with w show ?thesis by (auto simp: Create wf_fs_def Let_def)
next
  case (Rename a b)
  assume "wf_fs s"
  then show ?thesis by (auto simp: Rename wf_fs_def split: option.split) (metis)+
qed (auto simp: wf_fs_def, metis)

lemma running_wf: "running ws path s0 pos s \<Longrightarrow> wf_fs s0 \<Longrightarrow> wf_fs s"
  by (induction rule: running.induct) (simp_all add: wf_call)


subsection \<open>One call of one writer\<close>

lemma full_length: "length (full_calls path w) = length (wr_data w) + length (wr_attrs w) + 3"
  by (simp add: full_calls_def fill_def)

lemma full_nth:
  assumes "k < length (full_calls path w)"
  obtains (create) "k = 0" "full_calls path w ! k = Create (wr_handle w) (wr_tmp w) (fst (wr_ids w)) (snd (wr_ids w))"
  | (append) "0 < k" "k \<le> length (wr_data w)" "full_calls path w ! k = Append (wr_handle w) (wr_data w ! (k - 1))"
  | (fsync) "k = length (wr_data w) + 1" "full_calls path w ! k = Fsync (wr_handle w)"
  | (attr) "length (wr_data w) + 2 \<le> k" "Suc k < length (full_calls path w)" "full_calls path w ! k \<in> set (wr_attrs w)"
  | (rename) "Suc k = length (full_calls path w)" "full_calls path w ! k = Rename (wr_tmp w) path"
proof -
  let ?d = "length (wr_data w)" and ?a = "length (wr_attrs w)"
  consider "k = 0" | "0 < k" "k \<le> ?d" | "k = ?d + 1" | "?d + 2 \<le> k" "k < ?d + 2 + ?a" | "k = ?d + 2 + ?a"
    using assms unfolding full_length by linarith
  then show thesis
  proof cases
    case 1
    then show thesis by (intro create) (simp_all add: full_calls_def)
  next
    case 2
    then show thesis by (intro append) (auto simp: full_calls_def fill_def nth_append nth_Cons')
  next
    case 3
    then show thesis by (intro fsync) (auto simp: full_calls_def fill_def nth_append)
  next
    case 4
    then have "full_calls path w ! k = wr_attrs w ! (k - ?d - 2)"
      by (auto simp: full_calls_def fill_def nth_append nth_Cons')
    with 4 show thesis by (intro attr) (auto simp: full_length)
  next
    case 5
    then show thesis by (intro rename) (auto simp: full_length full_calls_def fill_def nth_append nth_Cons')
  qed
qed

lemma program_nth:
  assumes "k < length (program path w)"
  obtains (full) "k < length (full_calls path w)" "k < wr_stop w" "program path w ! k = full_calls path w ! k"
  | (sync) "k = length (full_calls path w)" "k \<le> wr_stop w" "program path w ! k = FsyncDir (path_parent path)"
  | (clean) "k = wr_stop w" "0 < k" "k < length (full_calls path w)" "program path w ! k = Unlink (wr_tmp w)"
  using assms
  by (cases "wr_stop w < length (full_calls path w)"; cases "k < length (full_calls path w)"; cases "k < wr_stop w")
    (auto simp: program_def nth_append split: if_splits)

text \<open>The entry of the file after a call: the inode of the writer when the call is its rename.\<close>

definition path_step :: "string \<Rightarrow> writer \<Rightarrow> nat \<Rightarrow> nat \<Rightarrow> fs \<Rightarrow> fs \<Rightarrow> bool" where
  "path_step path w k f s s' \<longleftrightarrow>
     (if renamed path w (Suc k) \<and> \<not> renamed path w k
      then fs_dir s' path = Some f \<and> set (fs_past s' path) = insert (Some f) (set (fs_past s path))
      else fs_dir s' path = fs_dir s path \<and> set (fs_past s' path) \<subseteq> set (fs_past s path))"

lemma own_step:
  assumes wf: "wf_fs s" and w: "attrs_ok w" "wr_tmp w \<noteq> path" and k: "k < length (program path w)" "k = 0 \<or> owns path s w k f"
  defines "s' \<equiv> call (program path w ! k) s" and "f' \<equiv> (if k = 0 then fs_next s else f)"
  shows "owns path s' w (Suc k) f' \<and> frame (wr_handle w) f' {wr_tmp w, path} s s' \<and> path_step path w k f' s s'"
  using k(1)
proof (cases rule: program_nth)
  case full
  from full(1) show ?thesis
  proof (cases rule: full_nth)
    case create
    have new: "fs_handle s h \<noteq> Some (fs_next s)" "Some (fs_next s) \<notin> set (fs_past s n)" for h n
      using wf by (auto simp: wf_fs_def)
    have "\<not> renamed path w 0" "\<not> renamed path w (Suc 0)" by (simp_all add: renamed_def full_length)
    with create full new w(2) show ?thesis
      by (auto simp: s'_def f'_def owns_def frame_def path_step_def Let_def full_length)
  next
    case append
    have nr: "\<not> renamed path w k" "\<not> renamed path w (Suc k)" using append full by (auto simp: renamed_def full_length)
    have o: "owns path s w k f" using k(2) append(1) by simp
    have "take (k - 1) (wr_data w) @ [wr_data w ! (k - 1)] = take k (wr_data w)"
      using append(1,2) take_Suc_conv_app_nth [of "k - 1" "wr_data w"] by simp
    with o nr append full show ?thesis
      by (auto simp: s'_def f'_def owns_def frame_def path_step_def full_length)
  next
    case fsync
    have nr: "\<not> renamed path w k" "\<not> renamed path w (Suc k)" using fsync full by (auto simp: renamed_def full_length)
    have o: "owns path s w k f" using k(2) fsync(1) by simp
    with nr fsync full show ?thesis by (auto simp: s'_def f'_def owns_def frame_def path_step_def full_length)
  next
    case attr
    have nr: "\<not> renamed path w k" "\<not> renamed path w (Suc k)" using attr full by (auto simp: renamed_def full_length)
    have o: "owns path s w k f" using k(2) attr(1) by auto
    then have t: "fs_dir s (wr_tmp w) = Some f" using full by (auto simp: owns_def)
    have tk: "take (k - 1) (wr_data w) = wr_data w" "take k (wr_data w) = wr_data w" using attr(1) by simp_all
    from w(1) attr(3) consider m where "full_calls path w ! k = Chmod (wr_tmp w) m"
      | u g where "full_calls path w ! k = Chown (wr_tmp w) u g" unfolding attrs_ok_def by blast
    then show ?thesis
      by cases (use o nr t tk attr full in \<open>auto simp: s'_def f'_def owns_def frame_def path_step_def full_length\<close>)
  next
    case rename
    have r: "\<not> renamed path w k" "renamed path w (Suc k)" using rename full by (auto simp: renamed_def)
    have o: "owns path s w k f" using k(2) rename(1) by (auto simp: full_length)
    then have t: "fs_dir s (wr_tmp w) = Some f" using full by (auto simp: owns_def)
    have tk: "take (k - 1) (wr_data w) = wr_data w" "take k (wr_data w) = wr_data w" using rename(1) by (simp_all add: full_length)
    show ?thesis
      using o r t tk rename full w(2)
      by (auto simp: s'_def f'_def owns_def frame_def path_step_def full_length numeral_3_eq_3)
  qed
next
  case sync
  have r: "renamed path w k" "renamed path w (Suc k)" using sync by (auto simp: renamed_def)
  have o: "owns path s w k f" using k(2) sync(1) by (auto simp: full_length)
  have tk: "take (k - 1) (wr_data w) = wr_data w" "take k (wr_data w) = wr_data w" "length (wr_data w) + 2 \<le> k" "k \<noteq> 0"
    using sync(1) by (simp_all add: full_length)
  have p: "fs_dir s n \<in> set (fs_past s n)" for n using wf by (simp add: wf_fs_def)
  have "in_synced (fs_inode s f)" using o tk(3) sync(2) sync(1) by (simp add: owns_def)
  with o r tk sync(1,3) p show ?thesis by (auto simp: s'_def f'_def owns_def frame_def path_step_def)
next
  case clean
  have nr: "\<not> renamed path w k" "\<not> renamed path w (Suc k)" using clean by (auto simp: renamed_def)
  have o: "owns path s w k f" using k(2) clean(2) by simp
  show ?thesis using o nr clean w(2) by (auto simp: s'_def f'_def owns_def frame_def path_step_def)
qed


subsection \<open>All of them\<close>

definition writers_ok :: "(nat \<Rightarrow> writer) \<Rightarrow> string \<Rightarrow> bool" where
  "writers_ok ws path \<longleftrightarrow> (\<forall>i. 0 < wr_stop (ws i) \<longrightarrow> attrs_ok (ws i) \<and> wr_tmp (ws i) \<noteq> path) \<and>
     (\<forall>i j. i \<noteq> j \<and> 0 < wr_stop (ws i) \<and> 0 < wr_stop (ws j) \<longrightarrow>
        wr_tmp (ws i) \<noteq> wr_tmp (ws j) \<and> wr_handle (ws i) \<noteq> wr_handle (ws j))"

definition done_by :: "(nat \<Rightarrow> writer) \<Rightarrow> string \<Rightarrow> (nat \<Rightarrow> nat) \<Rightarrow> nat \<Rightarrow> bool" where
  "done_by ws path pos i \<longleftrightarrow> renamed path (ws i) (pos i)"

definition own_inv :: "(nat \<Rightarrow> writer) \<Rightarrow> string \<Rightarrow> fs \<Rightarrow> (nat \<Rightarrow> nat) \<Rightarrow> fs \<Rightarrow> (nat \<Rightarrow> nat) \<Rightarrow> bool" where
  "own_inv ws path s0 pos s own \<longleftrightarrow>
     fs_next s0 \<le> fs_next s \<and> (\<forall>g < fs_next s0. fs_inode s g = fs_inode s0 g) \<and>
     (\<forall>i. 0 < pos i \<longrightarrow> 0 < wr_stop (ws i) \<and> owns path s (ws i) (pos i) (own i) \<and> fs_next s0 \<le> own i)"

definition path_inv :: "(nat \<Rightarrow> writer) \<Rightarrow> string \<Rightarrow> fs \<Rightarrow> (nat \<Rightarrow> nat) \<Rightarrow> fs \<Rightarrow> (nat \<Rightarrow> nat) \<Rightarrow> bool" where
  "path_inv ws path s0 pos s own \<longleftrightarrow>
     (\<forall>e \<in> set (fs_past s path). e \<in> set (fs_past s0 path) \<or> (\<exists>i. done_by ws path pos i \<and> e = Some (own i))) \<and>
     (if \<exists>i. done_by ws path pos i then \<exists>i. done_by ws path pos i \<and> fs_dir s path = Some (own i)
      else fs_dir s path = fs_dir s0 path) \<and>
     ((\<exists>i. done_by ws path pos i \<and> length (full_calls path (ws i)) < pos i) \<longrightarrow>
        (\<forall>e \<in> set (fs_past s path). \<exists>i. done_by ws path pos i \<and> e = Some (own i)))"

lemma renamed_Suc: "renamed path w k \<Longrightarrow> renamed path w (Suc k)" "renamed path w k \<Longrightarrow> 0 < k"
  by (simp_all add: renamed_def full_length)

lemma program_some: "k < length (program path w) \<Longrightarrow> 0 < wr_stop w"
  by (auto simp: program_def full_length split: if_splits)

lemma own_inv_step:
  assumes inv: "own_inv ws path s0 pos s own" and wf: "wf_fs s" and ok: "writers_ok ws path"
    and k: "pos i < length (program path (ws i))"
  defines "s' \<equiv> call (program path (ws i) ! pos i) s" and "f \<equiv> (if pos i = 0 then fs_next s else own i)"
  shows "own_inv ws path s0 (pos(i := Suc (pos i))) s' (own(i := f))" "path_step path (ws i) (pos i) f s s'"
proof -
  have act: "0 < wr_stop (ws i)" using k by (rule program_some)
  then have wi: "attrs_ok (ws i)" "wr_tmp (ws i) \<noteq> path" using ok by (simp_all add: writers_ok_def)
  have o: "pos i = 0 \<or> owns path s (ws i) (pos i) (own i)" using inv by (auto simp: own_inv_def)
  from own_step [OF wf wi k o] have st: "owns path s' (ws i) (Suc (pos i)) f"
    "frame (wr_handle (ws i)) f {wr_tmp (ws i), path} s s'" "path_step path (ws i) (pos i) f s s'"
    by (simp_all add: s'_def f_def)
  show "path_step path (ws i) (pos i) f s s'" by (rule st(3))
  have f: "fs_next s0 \<le> f" using inv by (auto simp: own_inv_def f_def)
  have others: "owns path s' (ws j) (pos j) (own j)" if "j \<noteq> i" "0 < pos j" for j
  proof -
    have oj: "owns path s (ws j) (pos j) (own j)" "0 < wr_stop (ws j)" using inv that by (simp_all add: own_inv_def)
    have neq: "wr_handle (ws i) \<noteq> wr_handle (ws j)" "wr_tmp (ws j) \<noteq> wr_tmp (ws i)" "wr_tmp (ws j) \<noteq> path"
      using ok that(1) act oj(2) unfolding writers_ok_def by metis+
    have "own j \<noteq> f"
    proof (cases "pos i = 0")
      case True
      with oj(1) show ?thesis by (simp add: f_def owns_def)
    next
      case False
      with o have "fs_handle s (wr_handle (ws j)) \<noteq> Some (own i)" using neq(1) by (simp add: owns_def)
      moreover have "fs_handle s (wr_handle (ws j)) = Some (own j)" using oj(1) by (simp add: owns_def)
      ultimately show ?thesis using False by (simp add: f_def)
    qed
    from frame_owns [OF st(2) oj(1) neq(1) this neq(2,3)] show ?thesis .
  qed
  have "fs_inode s' g = fs_inode s0 g" if "g < fs_next s0" for g
    using st(2) f that inv by (simp add: frame_def own_inv_def)
  with others st(1,2) f inv act show "own_inv ws path s0 (pos(i := Suc (pos i))) s' (own(i := f))"
    unfolding own_inv_def frame_def by auto
qed

lemma path_inv_step:
  assumes inv: "path_inv ws path s0 pos s own" and st: "path_step path (ws i) (pos i) f s s'" and wf: "wf_fs s"
    and f: "0 < pos i \<longrightarrow> f = own i" and s': "s' = call (program path (ws i) ! pos i) s"
    and k: "pos i < length (program path (ws i))"
  shows "path_inv ws path s0 (pos(i := Suc (pos i))) s' (own(i := f))"
proof -
  let ?pos = "pos(i := Suc (pos i))" and ?own = "own(i := f)"
  have mono: "done_by ws path ?pos j \<and> ?own j = own j" if "done_by ws path pos j" for j
  proof (cases "j = i")
    case True
    with that have "renamed path (ws i) (pos i)" by (simp add: done_by_def)
    with renamed_Suc [OF this] f True show ?thesis by (simp add: done_by_def)
  next
    case False
    with that show ?thesis by (simp add: done_by_def)
  qed
  have same: "done_by ws path ?pos j \<Longrightarrow> j \<noteq> i \<Longrightarrow> done_by ws path pos j" for j by (simp add: done_by_def)
  have past: "e \<in> set (fs_past s0 path) \<or> (\<exists>j. done_by ws path ?pos j \<and> e = Some (?own j))" if "e \<in> set (fs_past s path)" for e
    using inv that mono unfolding path_inv_def by metis
  have synced: "\<exists>j. done_by ws path ?pos j \<and> e = Some (?own j)"
    if "done_by ws path pos l" "length (full_calls path (ws l)) < pos l" "e \<in> set (fs_past s path)" for l e
    using inv that mono unfolding path_inv_def by metis
  show ?thesis
  proof (cases "renamed path (ws i) (Suc (pos i)) \<and> \<not> renamed path (ws i) (pos i)")
    case True
    then have e: "fs_dir s' path = Some f" "set (fs_past s' path) = insert (Some f) (set (fs_past s path))"
      and d: "done_by ws path ?pos i" "\<not> done_by ws path pos i" using st by (simp_all add: path_step_def done_by_def)
    have l: "Suc (pos i) = length (full_calls path (ws i))" using True by (auto simp: renamed_def)
    have own: "\<exists>j. done_by ws path ?pos j \<and> Some f = Some (?own j)" using d(1) by (intro exI [of _ i]) simp
    show ?thesis
      unfolding path_inv_def
    proof (intro conjI impI ballI)
      fix x assume x: "x \<in> set (fs_past s' path)"
      show "x \<in> set (fs_past s0 path) \<or> (\<exists>j. done_by ws path ?pos j \<and> x = Some (?own j))"
      proof (cases "x = Some f")
        case True
        with own show ?thesis by blast
      next
        case False
        with x e(2) have "x \<in> set (fs_past s path)" by blast
        then show ?thesis by (rule past)
      qed
    next
      have "\<exists>j. done_by ws path ?pos j" using d(1) by blast
      moreover have "\<exists>j. done_by ws path ?pos j \<and> fs_dir s' path = Some (?own j)" unfolding e(1) by (rule own)
      ultimately show "if \<exists>j. done_by ws path ?pos j then \<exists>j. done_by ws path ?pos j \<and> fs_dir s' path = Some (?own j)
        else fs_dir s' path = fs_dir s0 path" by (simp only: if_True)
    next
      fix x assume late: "\<exists>j. done_by ws path ?pos j \<and> length (full_calls path (ws j)) < ?pos j" and x: "x \<in> set (fs_past s' path)"
      then obtain j where j: "done_by ws path ?pos j" "length (full_calls path (ws j)) < ?pos j" by blast
      then have "j \<noteq> i" using l by auto
      with j same have "done_by ws path pos j" "length (full_calls path (ws j)) < pos j" by auto
      note older = synced [OF this]
      show "\<exists>j. done_by ws path ?pos j \<and> x = Some (?own j)"
      proof (cases "x = Some f")
        case True
        with own show ?thesis by blast
      next
        case False
        with x e(2) have "x \<in> set (fs_past s path)" by blast
        then show ?thesis by (rule older)
      qed
    qed
  next
    case False
    then have e: "fs_dir s' path = fs_dir s path" "set (fs_past s' path) \<subseteq> set (fs_past s path)"
      using st by (simp_all add: path_step_def)
    have d: "done_by ws path ?pos j = done_by ws path pos j" for j
      using False renamed_Suc(1) by (cases "j = i") (auto simp: done_by_def)
    have dir: "if \<exists>j. done_by ws path ?pos j then \<exists>j. done_by ws path ?pos j \<and> fs_dir s path = Some (?own j)
        else fs_dir s path = fs_dir s0 path"
      using inv mono unfolding path_inv_def d by metis
    show ?thesis
      unfolding path_inv_def
    proof (intro conjI impI ballI)
      fix x assume "x \<in> set (fs_past s' path)"
      with e(2) have "x \<in> set (fs_past s path)" by blast
      then show "x \<in> set (fs_past s0 path) \<or> (\<exists>j. done_by ws path ?pos j \<and> x = Some (?own j))" by (rule past)
    next
      show "if \<exists>j. done_by ws path ?pos j then \<exists>j. done_by ws path ?pos j \<and> fs_dir s' path = Some (?own j)
        else fs_dir s' path = fs_dir s0 path" unfolding e(1) by (rule dir)
    next
      fix x assume late: "\<exists>j. done_by ws path ?pos j \<and> length (full_calls path (ws j)) < ?pos j" and x: "x \<in> set (fs_past s' path)"
      then obtain j where j: "done_by ws path pos j" "length (full_calls path (ws j)) < ?pos j" using d by blast
      show "\<exists>j. done_by ws path ?pos j \<and> x = Some (?own j)"
      proof (cases "length (full_calls path (ws j)) < pos j")
        case True
        with synced [OF j(1)] x e(2) show ?thesis by blast
      next
        case f: False
        with j(2) have ji: "j = i" "pos i = length (full_calls path (ws i))" by (auto split: if_splits)
        with j(1) have "length (full_calls path (ws i)) \<le> wr_stop (ws i)" by (simp add: done_by_def renamed_def)
        with k ji(2) have "program path (ws i) ! pos i = FsyncDir (path_parent path)"
          by (cases rule: program_nth) simp_all
        with x have "x = fs_dir s path" by (simp add: s')
        moreover have "\<exists>j. done_by ws path ?pos j" using d j(1) by blast
        then have "\<exists>j. done_by ws path ?pos j \<and> fs_dir s path = Some (?own j)" using dir by (simp only: if_True)
        ultimately show ?thesis by blast
      qed
    qed
  qed
qed

lemma running_inv:
  assumes "running ws path s0 pos s" "wf_fs s0" "writers_ok ws path"
  shows "\<exists>own. own_inv ws path s0 pos s own \<and> path_inv ws path s0 pos s own"
  using assms(1)
proof (induction rule: running.induct)
  case start
  have "\<not> done_by ws path (\<lambda>i. 0) i" for i by (simp add: done_by_def renamed_def full_length)
  then show ?case by (simp add: own_inv_def path_inv_def)
next
  case (step pos s i)
  then obtain own where own: "own_inv ws path s0 pos s own" "path_inv ws path s0 pos s own" by blast
  have wf: "wf_fs s" using running_wf [OF step.hyps(1) assms(2)] .
  note s = own_inv_step [OF own(1) wf assms(3) step.hyps(2)]
  have p: "path_inv ws path s0 (pos(i := Suc (pos i))) (call (program path (ws i) ! pos i) s)
      (own(i := if pos i = 0 then fs_next s else own i))"
    by (rule path_inv_step [OF own(2) s(2) wf _ refl step.hyps(2)]) simp
  from s(1) p show ?case by blast
qed


lemma owned_data:
  assumes "own_inv ws path s0 pos s own" "done_by ws path pos i"
  shows "in_data (fs_inode s (own i)) = wr_data (ws i)" "in_synced (fs_inode s (own i))"
proof -
  have k: "0 < pos i" "length (full_calls path (ws i)) \<le> wr_stop (ws i)" "length (full_calls path (ws i)) \<le> pos i"
    using assms(2) renamed_Suc(2) by (auto simp: done_by_def renamed_def)
  then have "owns path s (ws i) (pos i) (own i)" using assms(1) by (simp add: own_inv_def)
  with k(2,3) show "in_data (fs_inode s (own i)) = wr_data (ws i)" "in_synced (fs_inode s (own i))"
    by (simp_all add: owns_def full_length)
qed

lemma running_content:
  assumes "running ws path s0 pos s" "wf_fs s0" "writers_ok ws path"
  shows "(if \<exists>i. done_by ws path pos i then \<exists>i. done_by ws path pos i \<and> content s path = Some (wr_data (ws i))
      else content s path = content s0 path)"
    "after_power_loss s path c \<Longrightarrow> after_power_loss s0 path c \<or> (\<exists>i. done_by ws path pos i \<and> c = Some (wr_data (ws i)))"
    "done_by ws path pos j \<Longrightarrow> length (full_calls path (ws j)) < pos j \<Longrightarrow> after_power_loss s path c \<Longrightarrow>
       \<exists>i. done_by ws path pos i \<and> c = Some (wr_data (ws i))"
proof -
  from running_inv [OF assms] obtain own where o: "own_inv ws path s0 pos s own" and p: "path_inv ws path s0 pos s own" by blast
  note data = owned_data [OF o]
  have old: "fs_inode s g = fs_inode s0 g" if "Some g \<in> set (fs_past s0 path)" for g
    using that assms(2) o by (simp add: wf_fs_def own_inv_def)
  have cur: "fs_dir s0 path \<in> set (fs_past s0 path)" using assms(2) by (simp add: wf_fs_def)
  show "if \<exists>i. done_by ws path pos i then \<exists>i. done_by ws path pos i \<and> content s path = Some (wr_data (ws i))
      else content s path = content s0 path"
  proof (cases "\<exists>i. done_by ws path pos i")
    case True
    with p obtain i where "done_by ws path pos i" "fs_dir s path = Some (own i)" by (auto simp: path_inv_def)
    with data(1) [of i] True show ?thesis by (auto simp: content_def)
  next
    case False
    then have d: "fs_dir s path = fs_dir s0 path" using p by (simp add: path_inv_def)
    have "content s path = content s0 path" using old cur by (cases "fs_dir s0 path") (simp_all add: content_def d)
    with False show ?thesis by simp
  qed
  show "\<exists>i. done_by ws path pos i \<and> c = Some (wr_data (ws i))"
    if late: "done_by ws path pos j" "length (full_calls path (ws j)) < pos j" and loss: "after_power_loss s path c"
  proof -
    from loss obtain e where e: "e \<in> set (fs_past s path)"
      "case e of None \<Rightarrow> c = None | Some i \<Rightarrow> \<exists>t. c = Some t \<and> (in_synced (fs_inode s i) \<longrightarrow> t = in_data (fs_inode s i))"
      by (auto simp: after_power_loss_def)
    then obtain i where "done_by ws path pos i" "e = Some (own i)" using p late unfolding path_inv_def by blast
    with e(2) data [of i] show ?thesis by auto
  qed
  show "after_power_loss s0 path c \<or> (\<exists>i. done_by ws path pos i \<and> c = Some (wr_data (ws i)))"
    if loss: "after_power_loss s path c"
  proof -
    from loss obtain e where e: "e \<in> set (fs_past s path)"
      "case e of None \<Rightarrow> c = None | Some i \<Rightarrow> \<exists>t. c = Some t \<and> (in_synced (fs_inode s i) \<longrightarrow> t = in_data (fs_inode s i))"
      by (auto simp: after_power_loss_def)
    then consider "e \<in> set (fs_past s0 path)" | i where "done_by ws path pos i" "e = Some (own i)"
      using p unfolding path_inv_def by blast
    then show ?thesis
    proof cases
      case 1
      with e(2) old have "after_power_loss s0 path c"
        unfolding after_power_loss_def by (intro bexI [OF _ 1]) (simp split: option.splits)
      then show ?thesis ..
    next
      case 2
      with e(2) data [of i] show ?thesis by auto
    qed
  qed
qed

section \<open>One writer on its own\<close>

lemma attempt_done: "attempt_calls fault k cs s = (None, s') \<Longrightarrow> s' = calls cs s"
  by (induction fault k cs s rule: attempt_calls.induct) (auto simp: calls_def split: option.splits)

lemma attempt_stops: "attempt_calls fault k cs s = (Some e, s') \<Longrightarrow> \<exists>m < length cs. s' = calls (take m cs) s"
proof (induction fault k cs s rule: attempt_calls.induct)
  case (2 fault k c cs s)
  show ?case
  proof (cases "fault k")
    case None
    with 2 obtain m where "m < length cs" "s' = calls (take m cs) (call c s)" by auto
    then show ?thesis by (intro exI [of _ "Suc m"]) (simp add: calls_def)
  next
    case (Some x)
    with 2 show ?thesis by (intro exI [of _ 0]) (simp add: calls_def)
  qed
qed simp

text \<open>A write is the program of a writer: the one that stops where the first call fails.\<close>

definition writer_of :: "write_env \<Rightarrow> syscall list \<Rightarrow> string \<Rightarrow> nat \<Rightarrow> writer" where
  "writer_of we attrs data stop = \<lparr>wr_handle = we_handle we, wr_tmp = we_tmp we, wr_data = data, wr_attrs = attrs,
     wr_ids = (we_uid we, we_gid we), wr_stop = stop, wr_clean = we_unlink_ok we, wr_sync = we_dir_ok we\<rparr>"

lemma stage_program:
  assumes "stage_and_rename we attrs path data s = (e, s')"
  shows "\<exists>stop. s' = calls (program path (writer_of we attrs data stop)) s \<and>
    (e = None \<longleftrightarrow> length (full_calls path (writer_of we attrs data stop)) \<le> stop)"
proof (cases "we_fault we 0")
  case (Some x)
  with assms have "(Some x, s) = (e, s')" by (simp add: stage_and_rename_def)
  then have "e \<noteq> None" "s' = s" by auto
  then show ?thesis by (intro exI [of _ 0]) (simp add: program_def writer_of_def calls_def full_calls_def)
next
  case None
  let ?c = "Create (we_handle we) (we_tmp we) (we_uid we) (we_gid we)"
  let ?cs = "fill (we_handle we) data @ [Fsync (we_handle we)] @ attrs @ [Rename (we_tmp we) path]"
  have full: "full_calls path (writer_of we attrs data n) = ?c # ?cs" for n by (simp add: full_calls_def writer_of_def)
  obtain x s1 where at: "attempt_calls (we_fault we) 1 ?cs (call ?c s) = (x, s1)" by fastforce
  show ?thesis
  proof (cases x)
    case (Some y)
    from attempt_stops [OF at [unfolded Some]] obtain m where m: "m < length ?cs" "s1 = calls (take m ?cs) (call ?c s)" by blast
    have "e \<noteq> None" "s' = (if we_unlink_ok we then call (Unlink (we_tmp we)) s1 else s1)"
      using assms None at Some by (auto simp: stage_and_rename_def)
    with m show ?thesis
      by (intro exI [of _ "Suc m"]) (simp add: program_def full calls_def, simp add: writer_of_def)
  next
    case none: None
    then have "s1 = calls ?cs (call ?c s)" using at attempt_done by simp
    moreover have "e = None" "s' = (if we_dir_ok we then call (FsyncDir (path_parent path)) s1 else s1)"
      using assms None at none by (auto simp: stage_and_rename_def)
    ultimately show ?thesis
      by (intro exI [of _ "Suc (length ?cs)"]) (simp add: program_def full calls_def, simp add: writer_of_def)
  qed
qed

lemma running_alone:
  assumes "k \<le> length (program path w)"
  shows "running (\<lambda>i. if i = 0 then w else w\<lparr>wr_stop := 0\<rparr>) path s (\<lambda>i. if i = 0 then k else 0) (calls (take k (program path w)) s)"
  using assms
proof (induction k)
  case 0
  then show ?case using running.start by (simp add: calls_def)
next
  case (Suc k)
  let ?ws = "\<lambda>i :: nat. if i = 0 then w else w\<lparr>wr_stop := 0\<rparr>"
  have "running ?ws path s ((\<lambda>i :: nat. if i = 0 then k else 0)(0 := Suc k))
      (call (program path w ! k) (calls (take k (program path w)) s))"
    using running.step [of ?ws path s "\<lambda>i. if i = 0 then k else 0" "calls (take k (program path w)) s" 0] Suc by simp
  moreover have "(\<lambda>i :: nat. if i = 0 then k else 0)(0 := Suc k) = (\<lambda>i. if i = 0 then Suc k else 0)" by auto
  moreover have "call (program path w ! k) (calls (take k (program path w)) s) = calls (take (Suc k) (program path w)) s"
    using Suc.prems by (simp add: take_Suc_conv_app_nth calls_def)
  ultimately show ?case by simp
qed


text \<open>What a write that succeeds leaves.\<close>

lemma calls_simps [simp]: "calls [] s = s" "calls (c # cs) s = calls cs (call c s)" "calls (a @ b) s = calls b (calls a s)"
  by (simp_all add: calls_def)

lemma on_inode_twice: "on_inode e f (on_inode e g s) = on_inode e (\<lambda>i. f (g i)) s"
  by (cases e) (simp_all add: on_inode_def)

lemma fill_data:
  "fs_handle s h = e \<Longrightarrow> calls (fill h data) s =
     on_inode e (\<lambda>i. i\<lparr>in_data := in_data i @ data, in_synced := in_synced i \<and> data = []\<rparr>) s"
proof (induction data arbitrary: s)
  case Nil
  then show ?case by (cases e) (simp_all add: fill_def on_inode_def)
next
  case (Cons c data)
  have h: "fs_handle (call (Append h c) s) h = e" using Cons.prems by simp
  show ?case
    using Cons.IH [OF h] Cons.prems by (simp add: fill_def on_inode_twice)
qed

definition attr_changes :: "string \<Rightarrow> syscall list \<Rightarrow> inode \<Rightarrow> inode" where
  "attr_changes tmp cs i = fold (\<lambda>c i. case c of Chmod n m \<Rightarrow> i\<lparr>in_mode := m\<rparr> | Chown n u g \<Rightarrow> i\<lparr>in_uid := u, in_gid := g\<rparr> | _ \<Rightarrow> i) cs i"

lemma attrs_calls:
  assumes "fs_dir s tmp = Some f" "\<forall>c \<in> set cs. (\<exists>m. c = Chmod tmp m) \<or> (\<exists>u g. c = Chown tmp u g)"
  shows "calls cs s = on_inode (Some f) (attr_changes tmp cs) s"
  using assms
proof (induction cs arbitrary: s)
  case Nil
  show ?case by (simp add: attr_changes_def on_inode_def)
next
  case (Cons c cs)
  have d: "fs_dir (call c s) tmp = Some f" using Cons.prems by auto
  have c: "call c s = on_inode (Some f) (attr_changes tmp [c]) s"
    using Cons.prems by (auto simp: attr_changes_def)
  have rest: "\<forall>c \<in> set cs. (\<exists>m. c = Chmod tmp m) \<or> (\<exists>u g. c = Chown tmp u g)" using Cons.prems(2) by simp
  show ?case using Cons.IH [OF d rest] c by (simp add: on_inode_twice attr_changes_def)
qed

lemma stage_succeeds:
  assumes "stage_and_rename we attrs path data s = (None, s')" "attrs_ok (writer_of we attrs data 1)" "we_tmp we \<noteq> path"
  shows "fs_dir s' path = Some (fs_next s)" "fs_dir s' (we_tmp we) = None"
    "fs_inode s' (fs_next s) =
       attr_changes (we_tmp we) attrs \<lparr>in_data = data, in_synced = True, in_mode = 384, in_uid = we_uid we, in_gid = we_gid we\<rparr>"
    "g \<noteq> fs_next s \<Longrightarrow> fs_inode s' g = fs_inode s g" "n \<noteq> path \<Longrightarrow> n \<noteq> we_tmp we \<Longrightarrow> fs_dir s' n = fs_dir s n"
proof -
  let ?s1 = "call (Create (we_handle we) (we_tmp we) (we_uid we) (we_gid we)) s" and ?f = "fs_next s"
  let ?s2 = "calls (fill (we_handle we) data) ?s1"
  let ?s3 = "call (Fsync (we_handle we)) ?s2"
  let ?s4 = "calls attrs ?s3"
  have s': "s' = (if we_dir_ok we then call (FsyncDir (path_parent path)) (call (Rename (we_tmp we) path) ?s4) else call (Rename (we_tmp we) path) ?s4)"
    using assms(1) by (auto simp: stage_and_rename_def dest!: attempt_done split: option.splits prod.splits)
  have h: "fs_handle ?s1 (we_handle we) = Some ?f" by (simp add: Let_def)
  have s3: "?s3 = on_inode (Some ?f) (\<lambda>i. i\<lparr>in_data := in_data i @ data, in_synced := True\<rparr>) ?s1"
    unfolding fill_data [OF h] using h by (simp add: on_inode_twice)
  have d: "fs_dir ?s3 (we_tmp we) = Some ?f" unfolding s3 by (simp add: Let_def)
  have s4: "?s4 = on_inode (Some ?f) (attr_changes (we_tmp we) attrs) ?s3"
    by (rule attrs_calls [OF d]) (use assms(2) in \<open>simp add: attrs_ok_def writer_of_def\<close>)
  have d4: "fs_dir ?s4 (we_tmp we) = Some ?f" unfolding s4 using d by simp
  show "fs_dir s' path = Some ?f" "fs_dir s' (we_tmp we) = None" using d4 assms(3) by (simp_all add: s')
  have "fs_inode s' = fs_inode ?s4" using d4 by (simp add: s')
  then have i: "fs_inode s' = fs_inode (on_inode (Some ?f) (attr_changes (we_tmp we) attrs) ?s3)" unfolding s4 .
  show "fs_inode s' ?f = attr_changes (we_tmp we) attrs
      \<lparr>in_data = data, in_synced = True, in_mode = 384, in_uid = we_uid we, in_gid = we_gid we\<rparr>"
    unfolding i s3 by (simp add: Let_def)
  show "fs_inode s' g = fs_inode s g" if "g \<noteq> fs_next s"
    unfolding i s3 using that by (simp add: Let_def)
  show "fs_dir s' n = fs_dir s n" if "n \<noteq> path" "n \<noteq> we_tmp we"
  proof -
    have "fs_dir s' n = fs_dir ?s4 n" using d4 that by (simp add: s')
    then have "fs_dir s' n = fs_dir ?s3 n" unfolding s4 by simp
    then show ?thesis unfolding s3 using that by (simp add: Let_def)
  qed
qed

text \<open>What a write that fails leaves: the name and its contents as they were, nothing that was not
  there before except a temporary file whose removal failed.\<close>

lemma attempt_dir:
  assumes "attempt_calls fault k cs s = (e, s')" "\<forall>c \<in> set cs. \<forall>s. fs_dir (call c s) n = fs_dir s n"
  shows "fs_dir s' n = fs_dir s n"
  using assms by (induction fault k cs s rule: attempt_calls.induct) (auto split: option.splits)

lemma fill_dir: "c \<in> set (fill h data) \<Longrightarrow> fs_dir (call c s) n = fs_dir s n"
  by (auto simp: fill_def)

lemma stage_fails:
  assumes "stage_and_rename we attrs path data s = (Some e, s')" "attrs_ok (writer_of we attrs data 1)"
  shows "n \<noteq> path \<Longrightarrow> n \<noteq> we_tmp we \<Longrightarrow> fs_dir s' n = fs_dir s n"
    "we_unlink_ok we \<Longrightarrow> fs_dir s (we_tmp we) = None \<Longrightarrow> fs_dir s' (we_tmp we) = None"
proof -
  let ?c = "Create (we_handle we) (we_tmp we) (we_uid we) (we_gid we)"
  let ?cs = "fill (we_handle we) data @ [Fsync (we_handle we)] @ attrs @ [Rename (we_tmp we) path]"
  have quiet: "fs_dir (call c s) n = fs_dir s n" if "c \<in> set (?c # ?cs)" "n \<noteq> path" "n \<noteq> we_tmp we" for c s n
    using that assms(2) by (auto simp: attrs_ok_def writer_of_def fill_dir Let_def split: option.splits)
  obtain x s1 where at: "attempt_calls (we_fault we) 1 ?cs (call ?c s) = (x, s1)" by fastforce
  show "fs_dir s' n = fs_dir s n" if n: "n \<noteq> path" "n \<noteq> we_tmp we"
  proof -
    have "fs_dir s1 n = fs_dir (call ?c s) n" using at quiet n by (intro attempt_dir) auto
    then have "fs_dir s1 n = fs_dir s n" using n by (simp add: Let_def)
    with assms(1) at n show ?thesis by (auto simp: stage_and_rename_def split: option.splits if_splits)
  qed
  show "fs_dir s' (we_tmp we) = None" if "we_unlink_ok we" "fs_dir s (we_tmp we) = None"
    using assms(1) at that by (auto simp: stage_and_rename_def split: option.splits if_splits)
qed

definition fresh_tmp :: "write_env \<Rightarrow> string \<Rightarrow> fs \<Rightarrow> bool" where
  "fresh_tmp we path s \<longleftrightarrow> we_tmp we \<noteq> path \<and> fs_dir s (we_tmp we) = None"

lemma stage_path:
  assumes "stage_and_rename we attrs path data s = (e, s')" "attrs_ok (writer_of we attrs data 1)" "wf_fs s" "fresh_tmp we path s"
  shows "content s' path = (if e = None then Some data else content s path)"
    "after_power_loss s' path c \<Longrightarrow> c = Some data \<and> e = None \<or> after_power_loss s path c \<and> (e = None \<longrightarrow> \<not> we_dir_ok we)"
proof -
  obtain stop where st: "s' = calls (program path (writer_of we attrs data stop)) s"
    "e = None \<longleftrightarrow> length (full_calls path (writer_of we attrs data stop)) \<le> stop" using stage_program [OF assms(1)] by blast
  let ?w = "writer_of we attrs data stop"
  let ?ws = "\<lambda>i :: nat. if i = 0 then ?w else ?w\<lparr>wr_stop := 0\<rparr>" and ?pos = "\<lambda>i :: nat. if i = 0 then length (program path ?w) else 0"
  have run: "running ?ws path s ?pos s'" using running_alone [of "length (program path ?w)" path ?w s] st(1) by simp
  have ok: "writers_ok ?ws path" using assms(2,4) by (auto simp: writers_ok_def attrs_ok_def writer_of_def fresh_tmp_def)
  have w: "wr_stop ?w = stop" "wr_sync ?w = we_dir_ok we" "wr_data ?w = data" by (simp_all add: writer_of_def)
  have len: "e = None \<Longrightarrow> length (program path ?w) = length (full_calls path ?w) + (if we_dir_ok we then 1 else 0)"
    using st(2) w(1,2) by (simp add: program_def)
  have d: "done_by ?ws path ?pos i \<longleftrightarrow> i = 0 \<and> e = None" for i
    using st(2) len w(1) by (cases "e = None") (auto simp: done_by_def renamed_def full_length)
  note rc = running_content [OF run assms(3) ok]
  show "content s' path = (if e = None then Some data else content s path)"
    using rc(1) unfolding d by (auto simp: w split: if_splits)
  show "c = Some data \<and> e = None \<or> after_power_loss s path c \<and> (e = None \<longrightarrow> \<not> we_dir_ok we)" if a: "after_power_loss s' path c"
  proof (cases "e = None \<and> we_dir_ok we")
    case True
    then have "c = Some data" using rc(3) [OF _ _ a, of 0] d len by (auto simp: w)
    with True show ?thesis by simp
  next
    case False
    with rc(2) [OF a] show ?thesis unfolding d by (auto simp: w)
  qed
qed

text \<open>The owner and mode of the replacement.\<close>

lemma owner_attrs:
  assumes "attrs = [Chmod tmp mode] @ (case owner of Some (u, g) \<Rightarrow> if (u, g) \<noteq> own then [Chown tmp u g] else [] | None \<Rightarrow> [])"
  shows "attr_changes tmp attrs \<lparr>in_data = d, in_synced = b, in_mode = m, in_uid = fst own, in_gid = snd own\<rparr> =
      \<lparr>in_data = d, in_synced = b, in_mode = mode,
       in_uid = fst (case owner of Some ow \<Rightarrow> ow | None \<Rightarrow> own), in_gid = snd (case owner of Some ow \<Rightarrow> ow | None \<Rightarrow> own)\<rparr>"
    "\<forall>c \<in> set attrs. (\<exists>m. c = Chmod tmp m) \<or> (\<exists>u g. c = Chown tmp u g)"
  using assms by (auto simp: attr_changes_def split: option.splits)

text \<open>The privileged path, step by step.\<close>

lemma install_effect:
  fixes s :: fs
  defines "f \<equiv> fs_next s"
  assumes "s' = calls (install_calls h staged data mode owner) s"
  shows "fs_dir s' = (fs_dir s)(staged := Some f)" "fs_next s' = Suc f"
    "fs_inode s' = (fs_inode s)(f := \<lparr>in_data = data, in_synced = False, in_mode = mode, in_uid = fst owner, in_gid = snd owner\<rparr>)"
    "\<forall>n. n \<noteq> staged \<longrightarrow> fs_past s' n = fs_past s n"
proof -
  let ?s1 = "calls [Unlink staged, Create h staged 0 0] s"
  have h: "fs_handle ?s1 h = Some f" by (simp add: f_def Let_def)
  have s': "s' = calls [Chown staged (fst owner) (snd owner), Chmod staged mode]
      (on_inode (Some f) (\<lambda>i. i\<lparr>in_data := in_data i @ data, in_synced := in_synced i \<and> data = []\<rparr>) ?s1)"
    unfolding fill_data [OF h, symmetric] assms(2) install_calls_def by simp
  show "fs_dir s' = (fs_dir s)(staged := Some f)" "fs_next s' = Suc f"
    "fs_inode s' = (fs_inode s)(f := \<lparr>in_data = data, in_synced = False, in_mode = mode, in_uid = fst owner, in_gid = snd owner\<rparr>)"
    "\<forall>n. n \<noteq> staged \<longrightarrow> fs_past s' n = fs_past s n"
    unfolding s' by (simp_all add: f_def Let_def)
qed

lemma privileged_succeeds:
  assumes "replace_privileged su target data mode owner s = (None, s')" "staged_name target \<noteq> target"
  defines "f \<equiv> fs_next s" and "ow \<equiv> (case owner of Some ow \<Rightarrow> ow | None \<Rightarrow> (0, 0))"
  shows "fs_dir s' = (fs_dir s)(target := Some f, staged_name target := None)"
    "fs_inode s' = (fs_inode s)(f := \<lparr>in_data = data, in_synced = False, in_mode = mode, in_uid = fst ow, in_gid = snd ow\<rparr>)"
    "Some f \<in> set (fs_past s' target)"
proof -
  obtain s1 where s1: "s1 = calls (install_calls (su_handle su) (staged_name target) data mode ow) s" "s' = call (Rename (staged_name target) target) s1"
    using assms(1) unfolding replace_privileged_def ow_def
    by (auto simp: Let_def dest!: attempt_done split: option.splits prod.splits if_splits)
  note e = install_effect [OF s1(1), folded f_def]
  show "fs_dir s' = (fs_dir s)(target := Some f, staged_name target := None)"
    "fs_inode s' = (fs_inode s)(f := \<lparr>in_data = data, in_synced = False, in_mode = mode, in_uid = fst ow, in_gid = snd ow\<rparr>)"
    "Some f \<in> set (fs_past s' target)"
    using e assms(2) by (auto simp: s1(2))
qed

text \<open>However far \<open>install\<close> gets, it touches the staged name and a new inode only.\<close>

definition staged_only :: "string \<Rightarrow> fs \<Rightarrow> fs \<Rightarrow> bool" where
  "staged_only staged s s' \<longleftrightarrow> (\<forall>n. n \<noteq> staged \<longrightarrow> fs_dir s' n = fs_dir s n \<and> fs_past s' n = fs_past s n) \<and>
     (\<forall>g < fs_next s. fs_inode s' g = fs_inode s g)"

lemma install_prefix: "staged_only staged s (calls (take m (install_calls h staged data mode owner)) s)"
proof -
  let ?f = "fs_next s" and ?s1 = "calls [Unlink staged, Create h staged 0 0] s"
  let ?P = "\<lambda>t. staged_only staged s t \<and> fs_handle t h = Some ?f \<and> fs_dir t staged = Some ?f"
  have keep: "?P t \<longrightarrow> ?P (calls cs t)"
    if "\<forall>c \<in> set cs. (\<exists>x. c = Append h x) \<or> c = Chown staged (fst owner) (snd owner) \<or> c = Chmod staged mode" for cs t
    using that by (induction cs arbitrary: t) (auto simp: staged_only_def)
  have s1: "?P ?s1" by (auto simp: staged_only_def Let_def)
  consider "m = 0" | "m = 1" | k where "m = Suc (Suc k)" by (cases m; cases "m - 1") auto
  then show ?thesis
  proof cases
    case 3
    let ?rest = "fill h data @ [Chown staged (fst owner) (snd owner), Chmod staged mode]"
    have "\<forall>c \<in> set (take k ?rest). (\<exists>x. c = Append h x) \<or> c = Chown staged (fst owner) (snd owner) \<or> c = Chmod staged mode"
      by (auto simp: fill_def dest!: in_set_takeD)
    from keep [OF this] s1 have "?P (calls (take k ?rest) ?s1)" by blast
    then show ?thesis by (simp add: 3 install_calls_def)
  qed (simp_all add: install_calls_def staged_only_def)
qed

lemma privileged_fails:
  assumes "replace_privileged su target data mode owner s = (Some e, s')"
  shows "staged_only (staged_name target) s s'"
    "su_rm_ok su \<Longrightarrow> fs_dir s (staged_name target) = None \<Longrightarrow> fs_dir s' (staged_name target) = None"
proof -
  let ?staged = "staged_name target" and ?ow = "case owner of Some ow \<Rightarrow> ow | None \<Rightarrow> (0, 0)"
  let ?cs = "install_calls (su_handle su) ?staged data mode ?ow"
  let ?fault = "\<lambda>k. if su_install su k then None else Some (OsFail ''install'')"
  obtain x s1 where at: "attempt_calls ?fault 0 ?cs s = (x, s1)" by fastforce
  have "\<exists>m. s1 = calls (take m ?cs) s"
  proof (cases x)
    case None
    then show ?thesis using at attempt_done by (intro exI [of _ "length ?cs"]) simp
  next
    case (Some y)
    then show ?thesis using attempt_stops [OF at [unfolded Some]] by blast
  qed
  then have s1: "staged_only ?staged s s1" using install_prefix by blast
  have s': "s' = s \<or> s' = (if su_rm_ok su then call (Unlink ?staged) s1 else s1)"
    using assms at by (auto simp: replace_privileged_def Let_def split: option.splits if_splits)
  have u: "staged_only ?staged s (call (Unlink ?staged) s1)" using s1 by (simp add: staged_only_def)
  show "staged_only ?staged s s'"
    using s' s1 u by (cases "su_rm_ok su") (auto simp: staged_only_def)
  show "fs_dir s' ?staged = None" if "su_rm_ok su" "fs_dir s ?staged = None" using s' that by auto
qed

lemma staged_only_content:
  assumes "staged_only staged s s'" "wf_fs s" "n \<noteq> staged"
  shows "content s' n = content s n" "after_power_loss s' n c \<longleftrightarrow> after_power_loss s n c"
proof -
  have old: "fs_inode s' g = fs_inode s g" if "Some g \<in> set (fs_past s n)" for g
    using assms that by (auto simp: staged_only_def wf_fs_def)
  have cur: "fs_dir s n \<in> set (fs_past s n)" using assms(2) by (simp add: wf_fs_def)
  show "content s' n = content s n"
    using assms(1,3) old cur by (cases "fs_dir s n") (simp_all add: content_def staged_only_def)
  show "after_power_loss s' n c \<longleftrightarrow> after_power_loss s n c"
    unfolding after_power_loss_def using assms(1,3) old
    by (intro bex_cong) (auto simp: staged_only_def split: option.splits)
qed

text \<open>A staged write in full.\<close>

lemma calls_wf: "wf_fs s \<Longrightarrow> wf_fs (calls cs s)"
  by (induction cs arbitrary: s) (simp_all add: wf_call)

lemma stage_frame:
  assumes "stage_and_rename we attrs path data s = (e, s')" "attrs_ok (writer_of we attrs data 1)" "wf_fs s" "fresh_tmp we path s"
  shows "wf_fs s'" "fs_next s \<le> fs_next s'" "g < fs_next s \<Longrightarrow> fs_inode s' g = fs_inode s g"
    "n \<noteq> path \<Longrightarrow> n \<noteq> we_tmp we \<Longrightarrow> fs_dir s' n = fs_dir s n"
proof -
  obtain stop where st: "s' = calls (program path (writer_of we attrs data stop)) s" using stage_program [OF assms(1)] by blast
  let ?w = "writer_of we attrs data stop"
  let ?ws = "\<lambda>i :: nat. if i = 0 then ?w else ?w\<lparr>wr_stop := 0\<rparr>" and ?pos = "\<lambda>i :: nat. if i = 0 then length (program path ?w) else 0"
  have run: "running ?ws path s ?pos s'" using running_alone [of "length (program path ?w)" path ?w s] st by simp
  have ok: "writers_ok ?ws path" using assms(2,4) by (auto simp: writers_ok_def attrs_ok_def writer_of_def fresh_tmp_def)
  show "wf_fs s'" using assms(3) by (simp add: st calls_wf)
  from running_inv [OF run assms(3) ok] show "fs_next s \<le> fs_next s'" "g < fs_next s \<Longrightarrow> fs_inode s' g = fs_inode s g"
    by (auto simp: own_inv_def)
  show "n \<noteq> path \<Longrightarrow> n \<noteq> we_tmp we \<Longrightarrow> fs_dir s' n = fs_dir s n"
    using assms(1,2,4) stage_fails(1) stage_succeeds(5) by (cases e) (auto simp: fresh_tmp_def)
qed

lemma content_kept:
  assumes "wf_fs s" "\<forall>g < fs_next s. fs_inode s' g = fs_inode s g" "fs_dir s' n = fs_dir s n"
  shows "content s' n = content s n"
proof -
  have w: "fs_dir s n \<in> set (fs_past s n)" "\<And>i. Some i \<in> set (fs_past s n) \<Longrightarrow> i < fs_next s" using assms(1) by (auto simp: wf_fs_def)
  show ?thesis
  proof (cases "fs_dir s n")
    case (Some i)
    with w have "i < fs_next s" by metis
    with assms(2,3) Some show ?thesis by (simp add: content_def)
  qed (use assms(3) in \<open>simp add: content_def\<close>)
qed

text \<open>The two paths of \<open>replace_file\<close>: the direct one, and what the file ends up with on either.\<close>

definition direct_attempt :: "write_env \<Rightarrow> string \<Rightarrow> string \<Rightarrow> nat \<Rightarrow> (nat \<times> nat) option \<Rightarrow> fs \<Rightarrow> os_error option \<times> fs" where
  "direct_attempt we target data mode owner s =
     (case we_mkdir we of Some e \<Rightarrow> (Some e, s) | None \<Rightarrow> replace_direct we target data mode owner s)"

definition result_inode :: "string \<Rightarrow> nat \<Rightarrow> nat \<times> nat \<Rightarrow> inode \<Rightarrow> bool" where
  "result_inode data mode ow i \<longleftrightarrow> in_data i = data \<and> in_mode i = mode \<and> in_uid i = fst ow \<and> in_gid i = snd ow"

lemma direct_outcome:
  assumes "direct_attempt we target data mode owner s = (x, s1)" "wf_fs s" "fresh_tmp we target s"
  shows "wf_fs s1" "fs_next s \<le> fs_next s1" "g < fs_next s \<Longrightarrow> fs_inode s1 g = fs_inode s g"
    "n \<noteq> target \<Longrightarrow> n \<noteq> we_tmp we \<Longrightarrow> fs_dir s1 n = fs_dir s n"
    "x \<noteq> None \<Longrightarrow> content s1 target = content s target"
    "x \<noteq> None \<Longrightarrow> after_power_loss s1 target c \<Longrightarrow> after_power_loss s target c"
    "x \<noteq> None \<Longrightarrow> we_unlink_ok we \<Longrightarrow> fs_dir s1 (we_tmp we) = None"
    "x = None \<Longrightarrow> \<exists>i. fs_dir s1 target = Some i \<and>
       result_inode data mode (case owner of Some ow \<Rightarrow> ow | None \<Rightarrow> (we_uid we, we_gid we)) (fs_inode s1 i)"
proof -
  define attrs where "attrs = [Chmod (we_tmp we) mode] @ (case owner of
      Some (u, g) \<Rightarrow> if (u, g) \<noteq> (we_uid we, we_gid we) then [Chown (we_tmp we) u g] else [] | None \<Rightarrow> [])"
  note at = owner_attrs [OF attrs_def]
  have ok: "attrs_ok (writer_of we attrs data 1)" using at(2) by (simp add: attrs_ok_def writer_of_def)
  have tmp: "we_tmp we \<noteq> target" "fs_dir s (we_tmp we) = None" using assms(3) by (simp_all add: fresh_tmp_def)
  consider (mkdir) y where "x = Some y" "s1 = s" | (stage) "stage_and_rename we attrs target data s = (x, s1)"
  proof (cases "we_mkdir we")
    case None
    with assms(1) show ?thesis by (intro that(2)) (simp add: direct_attempt_def replace_direct_def attrs_def)
  next
    case (Some y)
    with assms(1) show ?thesis by (intro that(1) [of y]) (simp_all add: direct_attempt_def)
  qed
  note cs = this
  show "wf_fs s1" using cs assms(2) by cases (simp, erule stage_frame(1) [OF _ ok assms(2,3)])
  show "fs_next s \<le> fs_next s1" using cs by cases (simp, erule stage_frame(2) [OF _ ok assms(2,3)])
  show "fs_inode s1 g = fs_inode s g" if "g < fs_next s" using cs by cases (simp, erule stage_frame(3) [OF _ ok assms(2,3) that])
  show "fs_dir s1 n = fs_dir s n" if "n \<noteq> target" "n \<noteq> we_tmp we" using cs by cases (simp, erule stage_frame(4) [OF _ ok assms(2,3) that])
  show "content s1 target = content s target" if "x \<noteq> None" using cs by cases (simp, use stage_path(1) [OF _ ok assms(2,3)] that in simp)
  show "after_power_loss s target c" if "x \<noteq> None" "after_power_loss s1 target c"
    using cs by cases (use that in simp, use stage_path(2) [OF _ ok assms(2,3)] that in blast)
  show "fs_dir s1 (we_tmp we) = None" if "x \<noteq> None" "we_unlink_ok we" using cs by cases (use that tmp(2) in simp, use stage_fails(2) [OF _ ok] that tmp(2) in auto)
  show "\<exists>i. fs_dir s1 target = Some i \<and>
       result_inode data mode (case owner of Some ow \<Rightarrow> ow | None \<Rightarrow> (we_uid we, we_gid we)) (fs_inode s1 i)" if none: "x = None"
  proof -
    from cs none have st: "stage_and_rename we attrs target data s = (None, s1)" by cases simp_all
    note ss = stage_succeeds [OF st ok tmp(1)]
    from ss(3) at(1) have "result_inode data mode (case owner of Some ow \<Rightarrow> ow | None \<Rightarrow> (we_uid we, we_gid we)) (fs_inode s1 (fs_next s))"
      by (simp add: result_inode_def)
    with ss(1) show ?thesis by blast
  qed
qed

lemma replace_cases:
  assumes "replace_file we su target data default_mode s = (e, s')" "existing_attrs s target default_mode = (mode, owner)"
  obtains (direct) "direct_attempt we target data mode owner s = (e, s')" "e \<noteq> Some PermissionError"
  | (escalated) s1 where "direct_attempt we target data mode owner s = (Some PermissionError, s1)"
      "replace_privileged su target data mode owner s1 = (e, s')"
  using assms unfolding replace_file_def direct_attempt_def [symmetric] by (auto split: prod.splits if_splits)

section \<open>The properties\<close>

text \<open>A disk for the examples, with one file on it, and a schedule of calls.\<close>

definition demo_path :: string where "demo_path = ''/v/s''"

definition demo_fs :: fs where
  "demo_fs = \<lparr>fs_dir = (\<lambda>n. if n = demo_path then Some 0 else None), fs_past = (\<lambda>n. if n = demo_path then [Some 0] else [None]),
     fs_inode = (\<lambda>i. \<lparr>in_data = ''old'', in_synced = True, in_mode = 420, in_uid = 7, in_gid = 8\<rparr>),
     fs_handle = (\<lambda>h. None), fs_next = 1\<rparr>"

fun play :: "(nat \<Rightarrow> writer) \<Rightarrow> string \<Rightarrow> nat list \<Rightarrow> (nat \<Rightarrow> nat) \<times> fs \<Rightarrow> ((nat \<Rightarrow> nat) \<times> fs) option" where
  "play ws path [] (pos, s) = Some (pos, s)"
| "play ws path (i # is) (pos, s) =
     (if pos i < length (program path (ws i))
      then play ws path is (pos(i := Suc (pos i)), call (program path (ws i) ! pos i) s) else None)"

lemma play_running: "running ws path s0 pos s \<Longrightarrow> play ws path is (pos, s) = Some (pos', s') \<Longrightarrow> running ws path s0 pos' s'"
  by (induction "is" arbitrary: pos s) (auto split: if_splits intro: running.step)

lemma demo_fs_wf: "wf_fs demo_fs"
  by (simp add: wf_fs_def demo_fs_def)

lemma demo_power: "after_power_loss demo_fs demo_path c \<longleftrightarrow> c = Some ''old''"
  by (auto simp: after_power_loss_def demo_fs_def)

definition demo_writer :: "string \<Rightarrow> string \<Rightarrow> string \<Rightarrow> nat \<Rightarrow> writer" where
  "demo_writer h t data stop = \<lparr>wr_handle = h, wr_tmp = t, wr_data = data, wr_attrs = [Chmod t 420], wr_ids = (7, 8),
     wr_stop = stop, wr_clean = True, wr_sync = True\<rparr>"

definition demo_ws :: "nat \<Rightarrow> writer" where
  "demo_ws i = (if i = 0 then demo_writer ''h0'' ''/v/.0'' ''ab'' 9 else if i = 1 then demo_writer ''h1'' ''/v/.1'' ''cd'' 9
     else demo_writer ''h2'' ''/v/.2'' [] 0)"

lemma demo_ws_ok: "writers_ok demo_ws demo_path"
  unfolding writers_ok_def demo_ws_def by (simp add: demo_writer_def attrs_ok_def demo_path_def)

definition demo_end :: "(nat \<Rightarrow> nat) \<times> fs" where
  "demo_end = the (play demo_ws demo_path [0, 1, 0, 1, 1, 0, 1, 1, 1, 0] (\<lambda>i. 0, demo_fs))"

lemma demo_running: "running demo_ws demo_path demo_fs (fst demo_end) (snd demo_end)"
proof -
  have "play demo_ws demo_path [0, 1, 0, 1, 1, 0, 1, 1, 1, 0] (\<lambda>i. 0, demo_fs) \<noteq> None" by code_simp
  then have "play demo_ws demo_path [0, 1, 0, 1, 1, 0, 1, 1, 1, 0] (\<lambda>i. 0, demo_fs) = Some (fst demo_end, snd demo_end)"
    by (auto simp: demo_end_def)
  with running.start show ?thesis by (rule play_running)
qed

text \<open>C6: however the calls of any number of direct writers of one file interleave, fail and are cut
  short by kills, the file holds at every moment its old contents or the whole of what one writer
  wrote; so it does after a loss of power at any moment; and once one of them has synced the directory,
  a loss of power no longer brings the old contents back.\<close>

theorem writers_atomic:
  assumes "running ws path s0 pos s" "wf_fs s0" "writers_ok ws path"
  shows "(content s path = content s0 path \<or> (\<exists>i. done_by ws path pos i \<and> content s path = Some (wr_data (ws i)))) \<and>
    (\<forall>c. after_power_loss s path c \<longrightarrow>
       after_power_loss s0 path c \<and> \<not> (\<exists>j. done_by ws path pos j \<and> length (full_calls path (ws j)) < pos j) \<or>
       (\<exists>i. done_by ws path pos i \<and> c = Some (wr_data (ws i))))"
  using running_content [OF assms] by (auto split: if_splits)

theorem writers_atomic_witness:
  "content (snd demo_end) demo_path = Some ''cd'' \<and>
    (\<exists>i. done_by demo_ws demo_path (fst demo_end) i \<and> content (snd demo_end) demo_path = Some (wr_data (demo_ws i)))"
proof -
  have c: "content (snd demo_end) demo_path = Some ''cd''" "content demo_fs demo_path = Some ''old''" by code_simp+
  with writers_atomic [OF demo_running demo_fs_wf demo_ws_ok] show ?thesis by auto
qed

text \<open>C35: \<open>write_state\<close>.  When it returns, the file holds the data with the mode it had, or what the
  umask gives a new file, and a loss of power cannot undo it once the directory is synced; when it
  raises, the file is what it was, also after a loss of power, and the temporary file is gone if it
  could be removed; nothing else in the directory changes.\<close>

theorem write_state_outcome:
  assumes "write_state we path data s = (e, s')" "wf_fs s" "fresh_tmp we path s"
  shows "(if e = None
     then content s' path = Some data \<and> fs_dir s' (we_tmp we) = None \<and>
       map_option (\<lambda>i. in_mode (fs_inode s' i)) (fs_dir s' path) =
         Some (case fs_dir s path of Some i \<Rightarrow> in_mode (fs_inode s i) | None \<Rightarrow> we_umask_mode we) \<and>
       (\<forall>c. after_power_loss s' path c \<longrightarrow> c = Some data \<or> \<not> we_dir_ok we \<and> after_power_loss s path c)
     else content s' path = content s path \<and> (\<forall>c. after_power_loss s' path c \<longrightarrow> after_power_loss s path c) \<and>
       (we_unlink_ok we \<longrightarrow> fs_dir s' (we_tmp we) = None)) \<and>
    (\<forall>n. n \<noteq> path \<and> n \<noteq> we_tmp we \<longrightarrow> content s' n = content s n)"
proof (cases "we_mkdir we")
  case (Some x)
  with assms show ?thesis by (auto simp: write_state_def fresh_tmp_def)
next
  case None
  let ?mode = "case fs_dir s path of Some i \<Rightarrow> in_mode (fs_inode s i) | None \<Rightarrow> we_umask_mode we"
  have st: "stage_and_rename we [Chmod (we_tmp we) ?mode] path data s = (e, s')"
    using assms(1) None by (simp add: write_state_def Let_def)
  have ok: "attrs_ok (writer_of we [Chmod (we_tmp we) ?mode] data 1)" by (simp add: attrs_ok_def writer_of_def)
  have tmp: "we_tmp we \<noteq> path" "fs_dir s (we_tmp we) = None" using assms(3) by (simp_all add: fresh_tmp_def)
  note f = stage_frame [OF st ok assms(2,3)] and p = stage_path [OF st ok assms(2,3)]
  have others: "content s' n = content s n" if "n \<noteq> path" "n \<noteq> we_tmp we" for n
    using content_kept [OF assms(2)] f(3) f(4) [OF that] by blast
  show ?thesis
  proof (cases e)
    case none: None
    note ss = stage_succeeds [OF st [unfolded none] ok tmp(1)]
    from ss(1,3) have "map_option (\<lambda>i. in_mode (fs_inode s' i)) (fs_dir s' path) = Some ?mode" by (simp add: attr_changes_def)
    with none p ss(2) others show ?thesis by auto
  next
    case (Some y)
    with p others stage_fails(2) [OF st [unfolded Some] ok] tmp(2) show ?thesis by auto
  qed
qed

definition demo_env :: "string \<Rightarrow> (nat \<Rightarrow> os_error option) \<Rightarrow> write_env" where
  "demo_env t fault = \<lparr>we_mkdir = None, we_tmp = t, we_handle = ''h'', we_fault = fault, we_unlink_ok = True, we_dir_ok = True,
     we_uid = 7, we_gid = 8, we_umask_mode = 420\<rparr>"

theorem write_state_outcome_witness:
  "content (snd (write_state (demo_env ''/v/.t'' (\<lambda>k. None)) demo_path ''new'' demo_fs)) demo_path = Some ''new'' \<and>
   content (snd (write_state (demo_env ''/v/.t'' (\<lambda>k. if k = 4 then Some (OsFail ''ENOSPC'') else None)) demo_path ''new'' demo_fs))
     demo_path = Some ''old''"
proof -
  have f: "fresh_tmp (demo_env ''/v/.t'' fault) demo_path demo_fs" for fault
    by (simp add: fresh_tmp_def demo_env_def demo_fs_def demo_path_def)
  have e: "fst (write_state (demo_env ''/v/.t'' (\<lambda>k. None)) demo_path ''new'' demo_fs) = None"
    "fst (write_state (demo_env ''/v/.t'' (\<lambda>k. if k = 4 then Some (OsFail ''ENOSPC'') else None)) demo_path ''new'' demo_fs) \<noteq> None"
    "content demo_fs demo_path = Some ''old''" by code_simp+
  note w = write_state_outcome [OF surjective_pairing demo_fs_wf f]
  from w [of "\<lambda>k. None" "''new''"] w [of "\<lambda>k. if k = 4 then Some (OsFail ''ENOSPC'') else None" "''new''"] e
  show ?thesis by (simp only: if_True if_False simp_thms)
qed

text \<open>C36: \<open>replace_file\<close>, whichever path it takes.  When it returns, the file holds the text, with the
  mode and owner it had; a new one has the default mode, and belongs to the process or, after an
  escalation, to root.  When it raises, the contents are what they were, and so is what a loss of power
  leaves; no staged file stays behind where it could be removed.  No other file changes.\<close>

theorem replace_file_outcome:
  assumes "replace_file we su target data default_mode s = (e, s')" "wf_fs s" "fresh_tmp we target s"
    "staged_name target \<noteq> target" "staged_name target \<noteq> we_tmp we" "fs_dir s (staged_name target) = None"
  shows "(if e = None
     then \<exists>i. fs_dir s' target = Some i \<and> in_data (fs_inode s' i) = data \<and>
       (case fs_dir s target of
          Some j \<Rightarrow> in_mode (fs_inode s' i) = in_mode (fs_inode s j) \<and>
            in_uid (fs_inode s' i) = in_uid (fs_inode s j) \<and> in_gid (fs_inode s' i) = in_gid (fs_inode s j)
        | None \<Rightarrow> in_mode (fs_inode s' i) = default_mode \<and>
            (in_uid (fs_inode s' i), in_gid (fs_inode s' i)) \<in> {(we_uid we, we_gid we), (0, 0)})
     else content s' target = content s target \<and> (\<forall>c. after_power_loss s' target c \<longrightarrow> after_power_loss s target c) \<and>
       (we_unlink_ok we \<and> su_rm_ok su \<longrightarrow> fs_dir s' (we_tmp we) = None \<and> fs_dir s' (staged_name target) = None)) \<and>
    (\<forall>n. n \<notin> {target, we_tmp we, staged_name target} \<longrightarrow> content s' n = content s n)"
proof -
  obtain mode owner where a: "existing_attrs s target default_mode = (mode, owner)" by fastforce
  have kept: "result_inode data mode (case owner of Some ow \<Rightarrow> ow | None \<Rightarrow> new) i \<Longrightarrow> new \<in> {(we_uid we, we_gid we), (0, 0)} \<Longrightarrow>
      in_data i = data \<and> (case fs_dir s target of
          Some j \<Rightarrow> in_mode i = in_mode (fs_inode s j) \<and> in_uid i = in_uid (fs_inode s j) \<and> in_gid i = in_gid (fs_inode s j)
        | None \<Rightarrow> in_mode i = default_mode \<and> (in_uid i, in_gid i) \<in> {(we_uid we, we_gid we), (0, 0)})" for new i
    using a by (auto simp: existing_attrs_def result_inode_def split: option.splits)
  show ?thesis
    using assms(1) a
  proof (cases rule: replace_cases)
    case direct
    note d = direct_outcome [OF direct(1) assms(2,3)]
    have others: "content s' n = content s n" if "n \<noteq> target" "n \<noteq> we_tmp we" for n
      using content_kept [OF assms(2)] d(3) d(4) [OF that] by blast
    have staged: "fs_dir s' (staged_name target) = None" using d(4) assms(4-6) by metis
    show ?thesis
    proof (cases e)
      case None
      then obtain i where "fs_dir s' target = Some i"
        "result_inode data mode (case owner of Some ow \<Rightarrow> ow | None \<Rightarrow> (we_uid we, we_gid we)) (fs_inode s' i)" using d(8) by blast
      with None kept others show ?thesis by auto
    next
      case (Some y)
      with d(5-7) staged others show ?thesis by auto
    qed
  next
    case (escalated s1)
    note d = direct_outcome [OF escalated(1) assms(2,3)]
    have others1: "content s1 n = content s n" if "n \<noteq> target" "n \<noteq> we_tmp we" for n
      using content_kept [OF assms(2)] d(3) d(4) [OF that] by blast
    have staged1: "fs_dir s1 (staged_name target) = None" using d(4) assms(4-6) by metis
    show ?thesis
    proof (cases e)
      case None
      note p = privileged_succeeds [OF escalated(2) [unfolded None] assms(4)]
      have "result_inode data mode (case owner of Some ow \<Rightarrow> ow | None \<Rightarrow> (0, 0)) (fs_inode s' (fs_next s1))"
        by (simp add: p(2) result_inode_def)
      moreover have "fs_dir s' target = Some (fs_next s1)" using p(1) assms(4) by simp
      moreover have "content s' n = content s n" if "n \<noteq> target" "n \<noteq> we_tmp we" "n \<noteq> staged_name target" for n
        using content_kept [OF d(1), of s' n] p(1,2) others1 that by simp
      ultimately show ?thesis using None kept by auto
    next
      case (Some y)
      note p = privileged_fails [OF escalated(2) [unfolded Some]]
      have "fs_dir s' (we_tmp we) = fs_dir s1 (we_tmp we)" using p(1) assms(5) by (simp add: staged_only_def)
      with Some p(2) d(5-7) staged1 others1 staged_only_content [OF p(1) d(1)] assms(4) show ?thesis by auto
    qed
  qed
qed

definition demo_sudo :: sudo_env where
  "demo_sudo = \<lparr>su_handle = ''r'', su_private = None, su_install = (\<lambda>k. True), su_mv_ok = True, su_rm_ok = True\<rparr>"

definition demo_replaced :: "os_error option \<times> fs" where
  "demo_replaced = replace_file (demo_env ''/v/.t'' (\<lambda>k. Some PermissionError)) demo_sudo demo_path ''new'' 384 demo_fs"

lemma demo_sudo_succeeds: "fst (replace_privileged demo_sudo target data mode owner s) = None"
proof -
  have "attempt_calls (\<lambda>k. None) k cs s = (None, calls cs s)" for k cs s
    by (induction cs arbitrary: k s) simp_all
  then show ?thesis by (simp add: replace_privileged_def demo_sudo_def Let_def)
qed

lemma demo_replaced_ok: "fst demo_replaced = None"
proof -
  have "replace_direct (demo_env ''/v/.t'' (\<lambda>k. Some PermissionError)) demo_path ''new'' mode owner demo_fs = (Some PermissionError, demo_fs)"
    for mode owner by (simp add: replace_direct_def stage_and_rename_def demo_env_def)
  then show ?thesis
    by (simp add: demo_replaced_def replace_file_def demo_sudo_succeeds split: prod.split) (simp add: demo_env_def)
qed

lemma demo_staged:
  "staged_name demo_path \<noteq> demo_path" "staged_name demo_path \<noteq> ''/v/.t''" "fs_dir demo_fs (staged_name demo_path) = None"
  by code_simp+

theorem replace_file_outcome_witness:
  "\<exists>i. fs_dir (snd demo_replaced) demo_path = Some i \<and> in_data (fs_inode (snd demo_replaced) i) = ''new''"
proof -
  let ?we = "demo_env ''/v/.t'' (\<lambda>k. Some PermissionError)"
  have f: "fresh_tmp ?we demo_path demo_fs" "we_tmp ?we = ''/v/.t''"
    by (simp_all add: fresh_tmp_def demo_env_def demo_fs_def demo_path_def)
  have "replace_file ?we demo_sudo demo_path ''new'' 384 demo_fs = (None, snd demo_replaced)"
    using demo_replaced_ok prod.collapse [of demo_replaced] by (simp add: demo_replaced_def)
  from replace_file_outcome [OF this demo_fs_wf f(1) demo_staged(1) _ demo_staged(3)] demo_staged(2) f(2)
  show ?thesis by (simp only: if_True simp_thms) blast
qed



definition privileged_calls :: "string \<Rightarrow> string \<Rightarrow> string \<Rightarrow> nat \<Rightarrow> nat \<times> nat \<Rightarrow> syscall list" where
  "privileged_calls h target data mode owner =
     install_calls h (staged_name target) data mode owner @ [Rename (staged_name target) target]"

lemma shuffles_append_left: "us \<in> shuffles vs ws \<Longrightarrow> xs @ us \<in> shuffles (xs @ vs) ws"
  by (induction xs) (auto intro: Cons_in_shuffles_leftI)

lemma shuffles_append_right: "us \<in> shuffles vs ws \<Longrightarrow> ys @ us \<in> shuffles vs (ys @ ws)"
  using shuffles_append_left [of us ws vs ys] by (simp add: shuffles_commutes)

text \<open>C38: nor is it safe against a second one: the staged name is the same for both, so that one writer can
  rename the file the other is still filling.  For every two texts and every point in the second, there
  is an interleaving of two escalated writes of one file, the second one killed, that leaves it truncated
  at that point.\<close>

theorem privileged_writers_mix:
  assumes "ha \<noteq> hb" "staged_name target \<noteq> target" "k \<le> length db"
  shows "\<exists>cs \<in> shuffles (privileged_calls ha target da mode owner)
      (take (k + 2) (privileged_calls hb target db mode owner)).
    content (calls cs s) target = Some (take k db)"
proof -
  let ?staged = "staged_name target"
  let ?a = "install_calls ha ?staged da mode owner" and ?b = "[Unlink ?staged, Create hb ?staged 0 0] @ fill hb (take k db)"
  have b: "take (k + 2) (privileged_calls hb target db mode owner) = ?b"
    using assms(3) by (simp add: privileged_calls_def install_calls_def fill_def take_map)
  have "[Rename ?staged target] \<in> shuffles [Rename ?staged target] []" by simp
  then have "?a @ ?b @ [Rename ?staged target] \<in> shuffles (?a @ [Rename ?staged target]) (?b @ [])"
    by (intro shuffles_append_left shuffles_append_right)
  then have sh: "?a @ ?b @ [Rename ?staged target] \<in> shuffles (privileged_calls ha target da mode owner) ?b"
    by (simp add: privileged_calls_def)
  let ?s1 = "calls (?a @ [Unlink ?staged, Create hb ?staged 0 0]) s" and ?f = "fs_next (calls ?a s)"
  have s1: "fs_handle ?s1 hb = Some ?f" "fs_dir ?s1 ?staged = Some ?f" "in_data (fs_inode ?s1 ?f) = []" by (simp_all add: Let_def)
  have "content (call (Rename ?staged target) (calls (fill hb (take k db)) ?s1)) target = Some (take k db)"
    unfolding fill_data [OF s1(1)] using s1(2,3) assms(2) by (simp add: content_def)
  then have "content (calls (?a @ ?b @ [Rename ?staged target]) s) target = Some (take k db)" by simp
  with sh show ?thesis unfolding b by blast
qed

theorem privileged_writers_mix_witness:
  "\<exists>cs \<in> shuffles (privileged_calls ''a'' demo_path ''one'' 420 (7, 8)) (take 3 (privileged_calls ''b'' demo_path ''two'' 420 (7, 8))).
    content (calls cs demo_fs) demo_path = Some ''t''"
proof -
  have "staged_name demo_path \<noteq> demo_path" by code_simp
  from privileged_writers_mix [of "''a''" "''b''", OF _ this, of 1 "''two''" "''one''" 420 "(7, 8)" demo_fs] show ?thesis
    by (simp add: eval_nat_numeral)
qed


definition save_ops :: "nat \<Rightarrow> state_op list" where
  "save_ops i = [InitMeta ''T0'' ''T0'']"

definition save_writer :: writer where
  "save_writer = demo_writer ''h'' ''/v/.0'' (serialize (exec_all (save_ops 0) empty_state)) 9999"

definition blank_fs :: fs where
  "blank_fs = demo_fs\<lparr>fs_dir := (\<lambda>n. None), fs_past := (\<lambda>n. [None])\<rparr>"

definition saved_fs :: fs where
  "saved_fs = calls (take (length (full_calls demo_path save_writer)) (program demo_path save_writer)) blank_fs"

lemma power_loss_current: "wf_fs s \<Longrightarrow> content s n = Some t \<Longrightarrow> after_power_loss s n (Some t)"
  unfolding after_power_loss_def wf_fs_def content_def by (intro bexI [of _ "fs_dir s n"]) (auto split: option.splits)


end
