(* ===== verification/GitOps.thy ===== *)
theory GitOps
  imports PyPrelude RateLimit UpdateVersion
begin

text \<open>
  Model of \<open>sysforge/primitives/git_ops.py\<close>, of \<open>sysforge/primitives/net_policy.py\<close>, and of the
  parts of \<open>primitives/aur.py\<close> and \<open>primitives/build_prep.py\<close> through which the source sync
  reaches the network: what a checkout's state is, when it may be removed, and the calls of git,
  pkgctl and the AUR.

  The world is a parameter.  A command that only looks is a function of it, given by its argument
  list; one that acts also changes it and takes time.  What is done is logged, with the world it was
  done in, newest first.  Messages on the terminal are left out.

  The lemmas: which edits of a VCS package's files do not count, and the one edit that goes unseen.
  That every call of the network passes the policy, and that local work is kept, is shown of whole
  runs in \<open>SyncRuns\<close>.
\<close>

section \<open>The source freeze\<close>

datatype net_kind = AurClone | RepoCheckout | SourceFetch | VcsPeek | VcsResolve | KeyFetch | SubprojectFetch | AurRpc

fun kind_name :: "net_kind \<Rightarrow> string" where
  "kind_name AurClone = ''aur_clone''"
| "kind_name RepoCheckout = ''repo_checkout''"
| "kind_name SourceFetch = ''source_fetch''"
| "kind_name VcsPeek = ''vcs_peek''"
| "kind_name VcsResolve = ''vcs_resolve''"
| "kind_name KeyFetch = ''key_fetch''"
| "kind_name SubprojectFetch = ''subproject_fetch''"
| "kind_name AurRpc = ''aur_rpc''"

record net_policy =
  np_frozen :: bool
  np_thawed :: "string list"
  np_aur_enabled :: bool

datatype denial = NetworkFrozen string | AurDisabled string

fun denial_text :: "denial \<Rightarrow> string" where
  "denial_text (NetworkFrozen m) = m"
| "denial_text (AurDisabled m) = m"

text \<open>\<open>NetPolicy.check\<close>: \<open>None\<close> where it returns.\<close>

definition check_policy :: "net_policy \<Rightarrow> net_kind \<Rightarrow> string option \<Rightarrow> denial option" where
  "check_policy np kind base =
     (if kind \<in> {AurClone, AurRpc} \<and> \<not> np_aur_enabled np then
        Some (AurDisabled ((if truthy base then the base else ''AUR'') @ '': AUR disabled ([aur] enabled = false)''))
      else if kind = AurRpc then None
      else if \<not> np_frozen np then None
      else if base \<noteq> None \<and> the base \<in> set (np_thawed np) then None
      else (let name = (if truthy base then the base else ''<unknown>'')
            in Some (NetworkFrozen (name @ '': source freeze denied '' @ kind_name kind @ '' (lift with --thaw '' @ name
                 @ '', or --no-frozen for the whole run)''))))"

text \<open>\<open>resolve_net_policy\<close>: the flags, \<open>freeze_sources\<close> and \<open>enabled\<close> of the configuration.\<close>

definition resolve_flag_default :: "bool \<Rightarrow> pyval option \<Rightarrow> bool" where
  "resolve_flag_default flag cfg \<longleftrightarrow> flag \<or> (case cfg of None \<Rightarrow> False | Some v \<Rightarrow> pyval_true v)"

definition thaw_names :: "string list \<Rightarrow> string list" where
  "thaw_names chunks = filter (\<lambda>n. n \<noteq> []) (map py_strip (concat (map (split_on CHR '','') chunks)))"

definition resolve_net_policy ::
    "bool \<Rightarrow> pyval option \<Rightarrow> bool \<Rightarrow> string list option \<Rightarrow> pyval option \<Rightarrow> net_policy" where
  "resolve_net_policy frozen freeze_sources no_frozen thaw aur_enabled =
     \<lparr>np_frozen = (if no_frozen then False else resolve_flag_default frozen freeze_sources),
      np_thawed = thaw_names (case thaw of None \<Rightarrow> [] | Some cs \<Rightarrow> cs),
      np_aur_enabled = (aur_enabled \<noteq> Some (PBool False))\<rparr>"

section \<open>The world\<close>

datatype reply = TimedOut | Reply int string string

record rpc_entry =
  rp_name :: string
  rp_version :: "string option"
  rp_last_modified :: "int option"
  rp_base :: "string option"

record 'w sys =
  sy_look :: "string list \<Rightarrow> 'w \<Rightarrow> int \<times> string"
  sy_act :: "string list \<Rightarrow> rat \<Rightarrow> 'w \<Rightarrow> rat \<times> reply \<times> 'w"
  sy_exists :: "string \<Rightarrow> 'w \<Rightarrow> bool"
  sy_is_dir :: "string \<Rightarrow> 'w \<Rightarrow> bool"
  sy_list :: "string \<Rightarrow> 'w \<Rightarrow> string list"
  sy_inside :: "string \<Rightarrow> string \<Rightarrow> 'w \<Rightarrow> bool"
  sy_remove :: "string \<Rightarrow> 'w \<Rightarrow> 'w"
  sy_discard :: "string \<Rightarrow> 'w \<Rightarrow> 'w"
  sy_sleep :: "rat \<Rightarrow> rat \<Rightarrow> rat"
  sy_http :: "string list \<Rightarrow> rat \<Rightarrow> rat \<times> http_reply"
  sy_http_date :: "string \<Rightarrow> rat option"
  sy_wall :: rat
  sy_decode :: "string \<Rightarrow> rpc_entry list option"

datatype 'w action =
    Rpc_sent "string list"
  | Cloned net_kind string string 'w
  | Fetched string string 'w
  | Merged string
  | Reset string 'w
  | Switched string string
  | Removed string 'w
  | Discarded string
  | Uncached string

record 'w net =
  nt_world :: 'w
  nt_clock :: rat
  nt_limiter :: limiter
  nt_log :: "'w action list"

definition logged :: "'w action \<Rightarrow> 'w net \<Rightarrow> 'w net" where
  "logged a s = s\<lparr>nt_log := a # nt_log s\<rparr>"

text \<open>\<open>run.probe\<close> of a command that acts, alone or through \<open>run_throttled_git\<close>.\<close>

definition run_act :: "'w sys \<Rightarrow> string list \<Rightarrow> 'w action \<Rightarrow> 'w net \<Rightarrow> reply \<times> 'w net" where
  "run_act sy cmd a s =
     (let (fin, r, w) = sy_act sy cmd (nt_clock s) (nt_world s) in (r, logged a (s\<lparr>nt_world := w, nt_clock := fin\<rparr>)))"

definition run_throttled :: "'w sys \<Rightarrow> string list \<Rightarrow> 'w action \<Rightarrow> 'w net \<Rightarrow> reply \<times> 'w net" where
  "run_throttled sy cmd a s =
     (let (waited, l1, sent) = wait_before_fetch (sy_sleep sy) (nt_limiter s) (nt_clock s);
          (fin, r, w) = sy_act sy cmd sent (nt_world s);
          l2 = (case r of
                  TimedOut \<Rightarrow> l1
                | Reply code out err \<Rightarrow> fst (run_throttled_git (sy_sleep sy) (\<lambda>t. (fin, code, err)) (nt_limiter s) (nt_clock s)))
      in (r, logged a (s\<lparr>nt_world := w, nt_clock := fin, nt_limiter := l2\<rparr>)))"

definition git :: "string \<Rightarrow> string list \<Rightarrow> string list" where
  "git d args = [''git'', ''-C'', d] @ args"

section \<open>The state of a checkout\<close>

definition rev_parse :: "'w sys \<Rightarrow> 'w \<Rightarrow> string \<Rightarrow> string \<Rightarrow> string option" where
  "rev_parse sy w d ref =
     (case sy_look sy (git d [''rev-parse'', ref]) w of
        (code, out) \<Rightarrow> if code \<noteq> 0 then None else (let s = py_strip out in if s = [] then None else Some s))"

definition local_user_email :: "'w sys \<Rightarrow> 'w \<Rightarrow> string \<Rightarrow> string option" where
  "local_user_email sy w d =
     (case sy_look sy (git d [''config'', ''--get'', ''user.email'']) w of
        (code, out) \<Rightarrow> if code = 0 \<and> py_strip out \<noteq> [] then Some (py_strip out) else None)"

definition py_lower :: "string \<Rightarrow> string" where
  "py_lower = map (\<lambda>c. let n = (of_char c :: nat) in
     if 65 \<le> n \<and> n \<le> 90 \<or> 192 \<le> n \<and> n \<le> 222 \<and> n \<noteq> 215 then char_of (n + 32) else c)"

datatype head_state = NotARepo | NoHead | NoTracking | Clean | Behind | Ahead | DivergedUser | DivergedUpstream

definition is_repo :: "'w sys \<Rightarrow> 'w \<Rightarrow> string \<Rightarrow> bool" where
  "is_repo sy w d \<longleftrightarrow> fst (sy_look sy (git d [''rev-parse'', ''--git-dir'']) w) = 0"

definition UPSTREAM :: string where "UPSTREAM = ''@'' @ ''{u}''"

definition upstream_cmd :: "string list" where
  "upstream_cmd = [''rev-parse'', ''--abbrev-ref'', ''--symbolic-full-name'', UPSTREAM]"

definition rev_count :: "'w sys \<Rightarrow> 'w \<Rightarrow> string \<Rightarrow> string \<Rightarrow> int" where
  "rev_count sy w d spec =
     (case sy_look sy (git d [''rev-list'', ''--count'', spec]) w of
        (code, out) \<Rightarrow>
          if code \<noteq> 0 then 0
          else (let n = py_strip out in if n \<noteq> [] \<and> list_all is_digit n then the (py_int n) else 0))"

definition local_authors :: "string \<Rightarrow> string list" where
  "local_authors out = map (\<lambda>l. py_lower (py_strip l)) (filter (\<lambda>l. py_strip l \<noteq> []) (splitlines out))"

definition classify_head_vs_upstream :: "'w sys \<Rightarrow> 'w \<Rightarrow> string \<Rightarrow> head_state \<times> int \<times> int" where
  "classify_head_vs_upstream sy w d =
     (if \<not> is_repo sy w d then (NotARepo, 0, 0)
      else if fst (sy_look sy (git d [''rev-parse'', ''--verify'', ''--quiet'', ''HEAD'']) w) \<noteq> 0 then (NoHead, 0, 0)
      else if fst (sy_look sy (git d upstream_cmd) w) \<noteq> 0 then (NoTracking, 0, 0)
      else (let n_local = rev_count sy w d (UPSTREAM @ ''..HEAD''); n_upstream = rev_count sy w d (''HEAD..'' @ UPSTREAM)
            in if n_local = 0 \<and> n_upstream = 0 then (Clean, 0, 0)
               else if n_local = 0 then (Behind, 0, n_upstream)
               else if n_upstream = 0 then (Ahead, n_local, 0)
               else (case local_user_email sy w d of
                       None \<Rightarrow> (DivergedUser, n_local, n_upstream)
                     | Some email \<Rightarrow>
                         (case sy_look sy (git d [''log'', ''--format=%ae%n%ce'', UPSTREAM @ ''..HEAD'']) w of
                            (code, out) \<Rightarrow>
                              if code \<noteq> 0 \<or> py_lower email \<in> set (local_authors out)
                              then (DivergedUser, n_local, n_upstream) else (DivergedUpstream, n_local, n_upstream)))))"

text \<open>\<open>_PKGVER_LINE_RE\<close> and the lines of a diff.\<close>

definition PKGVER_LINE_RE :: "string \<Rightarrow> bool" where
  "PKGVER_LINE_RE l =
     (case l of
        [] \<Rightarrow> False
      | c # r \<Rightarrow>
          (let s = dropWhile py_space r in
           c \<in> set ''+-'' \<and> (starts_with ''pkgver'' s \<or> starts_with ''pkgrel'' s) \<and>
           (case dropWhile py_space (drop 6 s) of [] \<Rightarrow> False | e # t \<Rightarrow> e = CHR ''='' \<and> dropWhile py_space t \<noteq> [])))"

definition diff_metadata :: "string \<Rightarrow> bool" where
  "diff_metadata l \<longleftrightarrow> list_ex (\<lambda>p. starts_with p l) [''diff '', ''index '', ''--- '', ''+++ '', ''@@ '']"

fun pkgver_lines :: "bool \<Rightarrow> string list \<Rightarrow> bool" where
  "pkgver_lines saw [] = saw"
| "pkgver_lines saw (l # ls) =
     (if l = [] \<or> diff_metadata l then pkgver_lines saw ls
      else if hd l \<in> set ''+-'' then (if PKGVER_LINE_RE l then pkgver_lines True ls else False)
      else pkgver_lines saw ls)"

definition diff_is_pkgver_only :: "'w sys \<Rightarrow> 'w \<Rightarrow> string \<Rightarrow> string \<Rightarrow> bool" where
  "diff_is_pkgver_only sy w d path =
     (case sy_look sy (git d [''diff'', ''-U0'', ''--no-color'', ''HEAD'', ''--'', path]) w of
        (code, out) \<Rightarrow> code = 0 \<and> pkgver_lines False (splitlines out))"

text \<open>\<open>s.split(p, 1)[1]\<close>, for a \<open>p\<close> that occurs.\<close>

fun after_first :: "string \<Rightarrow> string \<Rightarrow> string" where
  "after_first p [] = []"
| "after_first p (c # cs) = (if starts_with p (c # cs) then drop (length p) (c # cs) else after_first p cs)"

definition status_path :: "string \<Rightarrow> string" where
  "status_path line =
     (let path = py_strip (drop 3 line)
      in if contains '' -> '' path then py_strip (after_first '' -> '' path) else path)"

definition counts_as_dirty :: "'w sys \<Rightarrow> 'w \<Rightarrow> string \<Rightarrow> bool \<Rightarrow> string \<Rightarrow> bool" where
  "counts_as_dirty sy w d vcs path \<longleftrightarrow>
     \<not> (vcs \<and> path = ''.SRCINFO'') \<and> \<not> (vcs \<and> path = ''PKGBUILD'' \<and> diff_is_pkgver_only sy w d path)"

definition uncommitted_dirty_paths :: "'w sys \<Rightarrow> 'w \<Rightarrow> string \<Rightarrow> bool \<Rightarrow> string list" where
  "uncommitted_dirty_paths sy w d vcs =
     (case sy_look sy (git d [''status'', ''--short'', ''--untracked-files=no'']) w of
        (code, out) \<Rightarrow>
          if code \<noteq> 0 \<or> py_strip out = [] then []
          else filter (counts_as_dirty sy w d vcs)
                 (map status_path (filter (\<lambda>l. 4 \<le> length l \<and> py_strip (drop 3 l) \<noteq> []) (splitlines out))))"

definition git_is_dirty :: "'w sys \<Rightarrow> 'w \<Rightarrow> string \<Rightarrow> bool \<Rightarrow> bool" where
  "git_is_dirty sy w d vcs =
     (let state = fst (classify_head_vs_upstream sy w d)
      in if state \<in> {NotARepo, NoHead} then False
         else if uncommitted_dirty_paths sy w d vcs \<noteq> [] then True
         else state \<in> {NoTracking, Ahead, DivergedUser})"

definition head_reachable_from_remote :: "'w sys \<Rightarrow> 'w \<Rightarrow> string \<Rightarrow> bool" where
  "head_reachable_from_remote sy w d =
     (case sy_look sy (git d [''branch'', ''-r'', ''--contains'', ''HEAD'']) w of (code, out) \<Rightarrow> code = 0 \<and> py_strip out \<noteq> [])"

section \<open>Removing a checkout\<close>

definition purge_refusal_message :: "'w sys \<Rightarrow> 'w \<Rightarrow> string \<Rightarrow> bool \<Rightarrow> string option" where
  "purge_refusal_message sy w d vcs =
     (let (state, n_local, n_upstream) = classify_head_vs_upstream sy w d
      in if state \<in> {NotARepo, NoHead} then None
         else (let dirty = uncommitted_dirty_paths sy w d vcs;
                   causes = (if dirty \<noteq> [] then [''uncommitted tracked changes ('' @ py_join '', '' (py_sorted dirty) @ '')''] else []) @
                     (if state = Ahead then [int_str n_local @ '' unpushed commit(s) ahead of upstream'']
                      else if state = DivergedUser then [''diverged history with local-user-authored commits'']
                      else if state = NoTracking \<and> \<not> head_reachable_from_remote sy w d then [''no upstream tracking branch'']
                      else [])
               in if causes = [] then None
                  else Some (''refusing to purge '' @ d @ '': '' @ py_join ''; '' causes @
                         '': commit/discard the change or pass --cleansrc-force'')))"

definition purge_src :: "'w sys \<Rightarrow> string \<Rightarrow> bool \<Rightarrow> bool \<Rightarrow> 'w net \<Rightarrow> string option \<times> 'w net" where
  "purge_src sy d force vcs s =
     (let w = nt_world s in
      if \<not> sy_exists sy d w then (None, s)
      else (case (if is_repo sy w d \<and> \<not> force then purge_refusal_message sy w d vcs else None) of
              Some reason \<Rightarrow> (Some reason, s)
            | None \<Rightarrow> (None, logged (Removed d w) (s\<lparr>nt_world := sy_remove sy d w\<rparr>))))"

text \<open>\<open>purge_srcdest\<close>; the count it returns is for the log.\<close>

definition cached_source :: "string \<Rightarrow> string \<Rightarrow> bool" where
  "cached_source base n \<longleftrightarrow>
     starts_with (base @ ''-'') n \<and> (case drop (Suc (length base)) n of [] \<Rightarrow> False | c # r \<Rightarrow> is_digit c)"

definition purge_srcdest :: "'w sys \<Rightarrow> string \<Rightarrow> string option \<Rightarrow> string \<Rightarrow> 'w net \<Rightarrow> 'w net" where
  "purge_srcdest sy base srcdest d s =
     (case srcdest of
        None \<Rightarrow> s
      | Some sd \<Rightarrow>
          if \<not> sy_is_dir sy sd (nt_world s) \<or> sy_inside sy sd d (nt_world s) then s
          else fold (\<lambda>n s. logged (Uncached (path_join sd n)) (s\<lparr>nt_world := sy_remove sy (path_join sd n) (nt_world s)\<rparr>))
                 (filter (cached_source base) (sy_list sy sd (nt_world s))) s)"

section \<open>Fetching\<close>

definition TRANSIENT_GIT_ERRORS :: "string list" where
  "TRANSIENT_GIT_ERRORS = [''Connection reset'', ''Recv failure'', ''Could not resolve host'', ''TLS connection'',
     ''early EOF'', ''unexpected eof'', ''RPC failed'']"

definition is_transient_git_error :: "string \<Rightarrow> bool" where
  "is_transient_git_error err \<longleftrightarrow> contains ''timed out'' err \<or> list_ex (\<lambda>m. contains m err) TRANSIENT_GIT_ERRORS"

definition is_rate_limit_error :: "string \<Rightarrow> bool" where
  "is_rate_limit_error err \<longleftrightarrow> list_ex (\<lambda>m. contains m err) RATE_LIMIT_GIT_ERRORS"

datatype fetch_status = GNotARepo | GNoTracking | GUpToDate | GFetched | GDiverged | GRateLimited | GFailed

record fetch_outcome =
  fo_status :: fetch_status
  fo_before :: "string option"
  fo_after :: "string option"
  fo_error :: "string option"

definition git_outcome :: "fetch_status \<Rightarrow> string option \<Rightarrow> string option \<Rightarrow> string option \<Rightarrow> fetch_outcome" where
  "git_outcome st b a e = \<lparr>fo_status = st, fo_before = b, fo_after = a, fo_error = e\<rparr>"

text \<open>The branch that the tracking ref names: the remote and the rest.\<close>

definition tracking_parts :: "string \<Rightarrow> string \<times> string" where
  "tracking_parts t = (case partition1 CHR ''/'' t of Some (remote, branch) \<Rightarrow> (remote, branch) | None \<Rightarrow> (''origin'', t))"

definition fetch_cmd :: "'w sys \<Rightarrow> 'w \<Rightarrow> string \<Rightarrow> string list" where
  "fetch_cmd sy w d =
     (let (remote, branch) = tracking_parts (py_strip (snd (sy_look sy (git d upstream_cmd) w)));
          shallow = (py_strip (snd (sy_look sy (git d [''rev-parse'', ''--is-shallow-repository'']) w)) = ''true'')
      in git d ([''fetch''] @ (if shallow then [''--unshallow''] else []) @ [remote, branch]))"

text \<open>What follows a fetch that git reports as good.\<close>

definition after_fetch :: "'w sys \<Rightarrow> string \<Rightarrow> bool \<Rightarrow> string option \<Rightarrow> 'w net \<Rightarrow> fetch_outcome \<times> 'w net" where
  "after_fetch sy d vcs prev s =
     (let w = nt_world s; fetch_head = rev_parse sy w d ''FETCH_HEAD'' in
      if fetch_head = None \<or> prev = None then
        (git_outcome GFailed prev fetch_head (Some ''could not resolve HEAD / FETCH_HEAD after fetch''), s)
      else if prev = fetch_head then (git_outcome GUpToDate prev prev None, s)
      else
        (let ancestor = (fst (sy_look sy (git d [''merge-base'', ''--is-ancestor'', ''HEAD'', ''FETCH_HEAD'']) w) = 0) in
         if \<not> ancestor \<or> git_is_dirty sy w d False then
           (git_outcome GDiverged prev fetch_head
              (Some (if \<not> ancestor then ''divergent: HEAD '' @ take 10 (the prev) @ '' vs FETCH_HEAD '' @ take 10 (the fetch_head)
                     else if vcs \<and> \<not> git_is_dirty sy w d True then ''working tree carries only VCS pkgver churn''
                     else ''working tree has local modifications'')), s)
         else
           (case run_act sy (git d [''merge'', ''--ff-only'', ''FETCH_HEAD'']) (Merged d) s of
              (Reply code out err, s1) \<Rightarrow>
                if code \<noteq> 0 then (git_outcome GFailed prev fetch_head (Some (py_strip (out @ err))), s1)
                else (git_outcome GFetched prev
                        (case rev_parse sy (nt_world s1) d ''HEAD'' of Some h \<Rightarrow> Some h | None \<Rightarrow> fetch_head) None, s1)
            | (TimedOut, s1) \<Rightarrow> (git_outcome GFailed prev fetch_head None, s1))))"

definition git_fetch_and_compare ::
    "'w sys \<Rightarrow> net_policy \<Rightarrow> string \<Rightarrow> string \<Rightarrow> bool \<Rightarrow> int \<Rightarrow> 'w net \<Rightarrow> (denial + fetch_outcome) \<times> 'w net" where
  "git_fetch_and_compare sy np base d vcs timeout s =
     (case check_policy np SourceFetch (Some (if base = [] then path_name d else base)) of
        Some e \<Rightarrow> (Inl e, s)
      | None \<Rightarrow>
          (let w = nt_world s in
           if \<not> is_repo sy w d then (Inr (git_outcome GNotARepo None None None), s)
           else if fst (sy_look sy (git d upstream_cmd) w) \<noteq> 0 then (Inr (git_outcome GNoTracking None None None), s)
           else
             (let prev = rev_parse sy w d ''HEAD'' in
              case run_throttled sy (fetch_cmd sy w d) (Fetched base d w) s of
                (TimedOut, s1) \<Rightarrow> (Inr (git_outcome GFailed prev None (Some (''git fetch timed out after '' @ int_str timeout @ ''s''))), s1)
              | (Reply code out err, s1) \<Rightarrow>
                  if code \<noteq> 0 then
                    (let combined = py_strip (out @ err)
                     in (Inr (git_outcome (if is_rate_limit_error combined then GRateLimited else GFailed) prev None (Some combined)), s1))
                  else (let (fo, s2) = after_fetch sy d vcs prev s1 in (Inr fo, s2)))))"

text \<open>\<open>_fetch_repo_tags\<close> and \<open>_reset_hard_fetch_head\<close> of \<open>primitives/source_sync.py\<close>.\<close>

definition fetch_repo_tags :: "'w sys \<Rightarrow> string \<Rightarrow> string \<Rightarrow> int \<Rightarrow> 'w net \<Rightarrow> string option \<times> 'w net" where
  "fetch_repo_tags sy base d timeout s =
     (case run_throttled sy (git d [''fetch'', ''--tags'', ''origin'']) (Fetched base d (nt_world s)) s of
        (TimedOut, s1) \<Rightarrow> (Some (''git fetch --tags timed out after '' @ int_str timeout @ ''s''), s1)
      | (Reply code out err, s1) \<Rightarrow>
          if code = 0 then (None, s1)
          else (let m = py_strip (if err \<noteq> [] then err else out) in (Some (if m \<noteq> [] then m else ''git fetch --tags failed''), s1)))"

definition head_commit :: "'w sys \<Rightarrow> 'w \<Rightarrow> string \<Rightarrow> string option" where
  "head_commit sy w d = rev_parse sy w d ''HEAD''"

definition reset_hard_fetch_head :: "'w sys \<Rightarrow> string \<Rightarrow> 'w net \<Rightarrow> string option \<times> 'w net" where
  "reset_hard_fetch_head sy d s =
     (case run_act sy (git d [''reset'', ''--hard'', ''FETCH_HEAD'']) (Reset d (nt_world s)) s of
        (Reply code out err, s1) \<Rightarrow> (if code \<noteq> 0 then None else head_commit sy (nt_world s1) d, s1)
      | (TimedOut, s1) \<Rightarrow> (None, s1))"

section \<open>The AUR\<close>

text \<open>
  \<open>urllib.parse.urlsplit\<close>: the host name and the path of a URL.  A host in brackets and a zone are
  not looked at.
\<close>

definition netloc_host :: "string \<Rightarrow> string option" where
  "netloc_host netloc =
     (let hostinfo = (case rpartition1 CHR ''@'' netloc of Some (u, h) \<Rightarrow> h | None \<Rightarrow> netloc);
          h = takeWhile (\<lambda>c. c \<noteq> CHR '':'') hostinfo
      in if h = [] then None else Some (py_lower h))"

definition scheme_ok :: "string \<Rightarrow> bool" where
  "scheme_ok s \<longleftrightarrow> s \<noteq> [] \<and> is_alpha (hd s) \<and> list_all (\<lambda>c. is_alpha c \<or> is_digit c \<or> c \<in> set ''+-.'') s"

definition urlsplit :: "string \<Rightarrow> string option \<times> string" where
  "urlsplit u =
     (let r = (case partition1 CHR '':'' u of Some (sch, t) \<Rightarrow> if scheme_ok sch then t else u | None \<Rightarrow> u);
          netloc = takeWhile (\<lambda>c. c \<notin> set ''/?#'') (drop 2 r)
      in if starts_with ''//'' r
         then (netloc_host netloc, takeWhile (\<lambda>c. c \<notin> set ''?#'') (drop (length netloc + 2) r))
         else (None, takeWhile (\<lambda>c. c \<notin> set ''?#'') r))"

definition url_host :: "string \<Rightarrow> string option" where
  "url_host u =
     (if contains ''://'' u then fst (urlsplit u)
      else (let head = (case partition1 CHR '':'' u of Some (h, t) \<Rightarrow> h | None \<Rightarrow> []);
                h = py_lower (case rpartition1 CHR ''@'' head of Some (a, b) \<Rightarrow> b | None \<Rightarrow> head)
            in if h = [] then None else Some h))"

definition AUR_GIT_BASE :: string where "AUR_GIT_BASE = ''https://aur.archlinux.org''"

definition AUR_HOST :: "string option" where "AUR_HOST = fst (urlsplit AUR_GIT_BASE)"

definition origin_url :: "'w sys \<Rightarrow> 'w \<Rightarrow> string \<Rightarrow> string" where
  "origin_url sy w d =
     (case sy_look sy (git d [''remote'', ''get-url'', ''origin'']) w of (code, out) \<Rightarrow> if code = 0 then py_strip out else [])"

definition is_aur_checkout :: "'w sys \<Rightarrow> 'w \<Rightarrow> string \<Rightarrow> bool" where
  "is_aur_checkout sy w d \<longleftrightarrow>
     \<not> sy_exists sy (path_join d ''.git'') w \<or> origin_url sy w d = [] \<or> url_host (origin_url sy w d) = AUR_HOST"

definition strip_slashes :: "string \<Rightarrow> string" where
  "strip_slashes s = rev (dropWhile (\<lambda>c. c = CHR ''/'') (rev (dropWhile (\<lambda>c. c = CHR ''/'') s)))"

definition aur_origin_pkgbase :: "'w sys \<Rightarrow> 'w \<Rightarrow> string \<Rightarrow> string option" where
  "aur_origin_pkgbase sy w d =
     (let url = origin_url sy w d in
      if \<not> sy_exists sy (path_join d ''.git'') w \<or> url = [] \<or> url_host url \<noteq> AUR_HOST then None
      else (let path = strip_slashes (if contains ''://'' url then snd (urlsplit url)
                                       else (case partition1 CHR '':'' url of Some (h, t) \<Rightarrow> t | None \<Rightarrow> []));
                name = (if ends_with ''.git'' path then drop_end ''.git'' path else path)
            in if name \<noteq> [] \<and> CHR ''/'' \<notin> set name then Some name else None))"

text \<open>\<open>aur_info\<close>: \<open>None\<close> where it raises.\<close>

definition aur_lookups_allowed :: "net_policy \<Rightarrow> bool" where
  "aur_lookups_allowed np \<longleftrightarrow> check_policy np AurRpc None = None"

definition found_by_name :: "rpc_entry list \<Rightarrow> (string, rpc_entry) dict" where
  "found_by_name rs = fold (\<lambda>r. dset (rp_name r) r) rs []"

definition aur_info :: "'w sys \<Rightarrow> net_policy \<Rightarrow> string list \<Rightarrow> 'w net \<Rightarrow> (string, rpc_entry) dict option \<times> 'w net" where
  "aur_info sy np names s =
     (if names = [] \<or> \<not> aur_lookups_allowed np then (Some [], s)
      else (let (l, sent, fin, penalty, out) =
                  http_get_with_rate_limit (sy_sleep sy) (sy_http_date sy) (sy_wall sy) (sy_http sy names) (nt_limiter s) (nt_clock s);
                s1 = logged (Rpc_sent names) (s\<lparr>nt_limiter := l, nt_clock := fin\<rparr>)
            in case out of
                 Got body \<Rightarrow> (case sy_decode sy body of None \<Rightarrow> (Some [], s1) | Some rs \<Rightarrow> (Some (found_by_name rs), s1))
               | HeaderFailed e \<Rightarrow> (None, s1)
               | RateLimited c \<Rightarrow> (Some [], s1)
               | HttpFailed c \<Rightarrow> (Some [], s1)
               | NetFailed m \<Rightarrow> (Some [], s1)))"

datatype clone_error = Denied denial | CloneFailed string

fun clone_text :: "clone_error \<Rightarrow> string" where
  "clone_text (Denied e) = denial_text e"
| "clone_text (CloneFailed m) = m"

text \<open>\<open>aur_clone\<close>: two attempts.  What a failed one leaves is removed as far as it can be.\<close>

definition discard :: "'w sys \<Rightarrow> string \<Rightarrow> 'w net \<Rightarrow> 'w net" where
  "discard sy d s = logged (Discarded d) (s\<lparr>nt_world := sy_discard sy d (nt_world s)\<rparr>)"

definition pause :: "'w sys \<Rightarrow> 'w net \<Rightarrow> 'w net" where
  "pause sy s = s\<lparr>nt_clock := sy_sleep sy (nt_clock s) 2\<rparr>"

fun clone_attempts :: "nat \<Rightarrow> 'w sys \<Rightarrow> string \<Rightarrow> string \<Rightarrow> int \<Rightarrow> 'w net \<Rightarrow> string option \<times> 'w net" where
  "clone_attempts retries sy name dest timeout s =
     (case run_act sy [''git'', ''clone'', AUR_GIT_BASE @ ''/'' @ name @ ''.git'', dest] (Cloned AurClone name dest (nt_world s)) s of
        (TimedOut, s1) \<Rightarrow>
          (case retries of
             Suc k \<Rightarrow> clone_attempts k sy name dest timeout (pause sy (discard sy dest s1))
           | 0 \<Rightarrow> (Some (''AUR clone timed out after '' @ int_str timeout @ ''s for '' @ py_repr name @
                 '' (after retry). Check network connectivity, or increase [git] clone_timeout in sysforge.toml.''), discard sy dest s1))
      | (Reply code out err, s1) \<Rightarrow>
          if code = 0 then
            (if sy_exists sy (path_join dest ''PKGBUILD'') (nt_world s1) then (None, s1)
             else (Some (''AUR clone for '' @ py_repr name @ '' produced no PKGBUILD: AUR has no repository under that name (split packages live under their pkgbase).''),
                   discard sy dest s1))
          else
            (let stderr = py_strip err; failed = Some (''AUR clone failed for '' @ py_repr name @ '':'' @ [CHR 0x0A] @ stderr)
             in if is_transient_git_error stderr \<and> \<not> is_rate_limit_error stderr
                then (case retries of
                        Suc k \<Rightarrow> clone_attempts k sy name dest timeout (pause sy (discard sy dest s1))
                      | 0 \<Rightarrow> (failed, s1))
                else (failed, s1)))"

declare clone_attempts.simps [simp del]

lemma clone_attempts_cases:
  assumes "clone_attempts k sy b d t n = (e, n')"
    "run_act sy [''git'', ''clone'', AUR_GIT_BASE @ ''/'' @ b @ ''.git'', d] (Cloned AurClone b d (nt_world n)) n = (r, n1)"
  obtains (again) j where "k = Suc j" "clone_attempts j sy b d t (pause sy (discard sy d n1)) = (e, n')"
  | (cloned) out err where "e = None" "n' = n1" "r = Reply 0 out err" "sy_exists sy (path_join d ''PKGBUILD'') (nt_world n1)"
  | (failed) m where "e = Some m" "n' = n1 \<or> n' = discard sy d n1"
proof (cases r)
  case TimedOut
  with assms again failed show thesis by (subst (asm) (1) clone_attempts.simps) (auto split: nat.splits)
next
  case (Reply code out err)
  show thesis
  proof (cases "code = 0")
    case True
    with assms Reply cloned failed show thesis by (subst (asm) (1) clone_attempts.simps) (auto split: if_splits)
  next
    case False
    with assms Reply again failed show thesis
      by (subst (asm) (1) clone_attempts.simps) (auto simp: Let_def split: if_splits nat.splits)
  qed
qed

definition aur_clone ::
    "'w sys \<Rightarrow> net_policy \<Rightarrow> string \<Rightarrow> string \<Rightarrow> int \<Rightarrow> 'w net \<Rightarrow> clone_error option \<times> 'w net" where
  "aur_clone sy np name dest timeout s =
     (case check_policy np AurClone (Some name) of
        Some e \<Rightarrow> (Some (Denied e), s)
      | None \<Rightarrow> (let (e, s1) = clone_attempts 1 sy name dest timeout s in (map_option CloneFailed e, s1)))"

section \<open>pkgctl\<close>

definition py_rstrip :: "string \<Rightarrow> string" where
  "py_rstrip s = rev (dropWhile py_space (rev s))"

definition pkgctl_checkout ::
    "'w sys \<Rightarrow> net_policy \<Rightarrow> string \<Rightarrow> string \<Rightarrow> int \<Rightarrow> 'w net \<Rightarrow> clone_error option \<times> 'w net" where
  "pkgctl_checkout sy np name dest timeout s =
     (case check_policy np RepoCheckout (Some name) of
        Some e \<Rightarrow> (Some (Denied e), s)
      | None \<Rightarrow>
          (let w = nt_world s;
               leftover = (sy_exists sy dest w \<and> sy_exists sy (path_join dest ''.git'') w \<and> \<not> sy_exists sy (path_join dest ''PKGBUILD'') w)
           in case (if leftover then purge_src sy dest False False s else (None, s)) of
                (Some reason, s1) \<Rightarrow> (Some (CloneFailed reason), s1)
              | (None, s1) \<Rightarrow>
                  (case run_act sy [''pkgctl'', ''repo'', ''clone'', ''--protocol=https'', name] (Cloned RepoCheckout name dest (nt_world s1)) s1 of
                     (TimedOut, s2) \<Rightarrow>
                       (Some (CloneFailed (''pkgctl checkout timed out after '' @ int_str timeout @ ''s for '' @ py_repr name @
                          ''. Increase [git] clone_timeout in sysforge.toml on slow networks.'')), discard sy dest s2)
                   | (Reply code out err, s2) \<Rightarrow>
                       if code = 0 then (None, s2)
                       else (Some (CloneFailed (''pkgctl checkout failed for '' @ py_repr name @ '':'' @ [CHR 0x0A] @
                               py_strip (py_join [CHR 0x0A] (map py_rstrip (split_on CHR 0x0A out))))), s2))))"

definition pkgctl_switch_version :: "'w sys \<Rightarrow> string \<Rightarrow> string \<Rightarrow> int \<Rightarrow> 'w net \<Rightarrow> string option \<times> 'w net" where
  "pkgctl_switch_version sy dest version timeout s =
     (case run_act sy [''pkgctl'', ''repo'', ''switch'', version] (Switched dest version) s of
        (TimedOut, s1) \<Rightarrow> (Some (''pkgctl repo switch '' @ py_repr version @ '' timed out after '' @ int_str timeout @ ''s''), s1)
      | (Reply code out err, s1) \<Rightarrow>
          if code = 0 then (None, s1)
          else (Some (''pkgctl repo switch '' @ py_repr version @ '' failed: '' @ py_strip (if err \<noteq> [] then err else out)), s1))"

section \<open>The edits that do not count\<close>

definition changed_line :: "string \<Rightarrow> bool" where
  "changed_line l \<longleftrightarrow> l \<noteq> [] \<and> \<not> diff_metadata l \<and> hd l \<in> set ''+-''"

lemma pkgver_lines_iff:
  "pkgver_lines saw ls \<longleftrightarrow> (\<forall>l \<in> set ls. changed_line l \<longrightarrow> PKGVER_LINE_RE l) \<and> (saw \<or> (\<exists>l \<in> set ls. changed_line l))"
  by (induction ls arbitrary: saw) (auto simp: changed_line_def)

lemma header_lookalike: "starts_with ''-- '' t \<Longrightarrow> \<not> changed_line (CHR ''-'' # t)" "starts_with ''++ '' t \<Longrightarrow> \<not> changed_line (CHR ''+'' # t)"
  by (auto simp: changed_line_def diff_metadata_def)

text \<open>C40: a line of a VCS package's \<open>PKGBUILD\<close> that starts with \<open>--\<close> and a blank is, when it is removed
  together with a move of \<open>pkgver\<close>, not seen: its line of the diff looks like a header, and the
  checkout counts as clean.
\<close>
theorem edit_taken_for_header:
  assumes "sy_look sy (git d [''diff'', ''-U0'', ''--no-color'', ''HEAD'', ''--'', ''PKGBUILD'']) w = (0, out)"
    "splitlines out = xs @ (CHR ''-'' # t) # ys" "starts_with ''-- '' t" "pkgver_lines False (xs @ ys)"
    "sy_look sy (git d [''status'', ''--short'', ''--untracked-files=no'']) w = (0, '' M PKGBUILD'')"
  shows "uncommitted_dirty_paths sy w d True = []"
proof -
  have "diff_is_pkgver_only sy w d ''PKGBUILD''"
    using assms(1,2,4) header_lookalike(1) [OF assms(3)] by (auto simp: diff_is_pkgver_only_def pkgver_lines_iff)
  moreover have "map status_path (filter (\<lambda>l. 4 \<le> length l \<and> py_strip (drop 3 l) \<noteq> []) (splitlines '' M PKGBUILD'')) = [''PKGBUILD'']"
    by code_simp
  ultimately show ?thesis using assms(5) by (simp add: uncommitted_dirty_paths_def counts_as_dirty_def)
qed

definition diff_look :: "string list \<Rightarrow> unit \<Rightarrow> int \<times> string" where
  "diff_look cmd w =
     (if cmd ! 3 = ''diff'' then (0, ''-pkgver=1'' @ [CHR 0x0A] @ ''--- a line of a script'' @ [CHR 0x0A] @ ''+pkgver=2'')
      else (0, '' M PKGBUILD''))"

definition diff_sys :: "unit sys" where
  "diff_sys = \<lparr>sy_look = diff_look, sy_act = (\<lambda>cmd t w. (t, TimedOut, w)), sy_exists = (\<lambda>p w. True), sy_is_dir = (\<lambda>p w. True),
     sy_list = (\<lambda>p w. []), sy_inside = (\<lambda>a b w. False), sy_remove = (\<lambda>p w. w), sy_discard = (\<lambda>p w. w), sy_sleep = (\<lambda>t d. t + d),
     sy_http = (\<lambda>ns t. (t, Body [])), sy_http_date = (\<lambda>d. None), sy_wall = 0, sy_decode = (\<lambda>b. None)\<rparr>"

lemma edit_taken_for_header_witness:
  "splitlines (snd (sy_look diff_sys (git ''/src/foo-git'' [''diff'', ''-U0'', ''--no-color'', ''HEAD'', ''--'', ''PKGBUILD'']) ())) =
      [''-pkgver=1'', ''--- a line of a script'', ''+pkgver=2''] \<and> uncommitted_dirty_paths diff_sys () ''/src/foo-git'' True = []"
proof -
  let ?out = "snd (sy_look diff_sys (git ''/src/foo-git'' [''diff'', ''-U0'', ''--no-color'', ''HEAD'', ''--'', ''PKGBUILD'']) ())"
  have lines: "splitlines ?out = [''-pkgver=1''] @ (CHR ''-'' # ''-- a line of a script'') # [''+pkgver=2'']"
    "starts_with ''-- '' ''-- a line of a script''" "pkgver_lines False ([''-pkgver=1''] @ [''+pkgver=2''])" by code_simp+
  have "uncommitted_dirty_paths diff_sys () ''/src/foo-git'' True = []"
    by (rule edit_taken_for_header [OF _ lines]) (simp_all add: diff_sys_def diff_look_def git_def)
  with lines(1) show ?thesis by simp
qed

end
