(* ===== verification/SourceMeta.thy ===== *)
theory SourceMeta
  imports BuildState
begin

text \<open>
  Model of \<open>sysforge/primitives/source_meta.py\<close>: the cache in which the source sync keeps, for each
  pkgbase, what the AUR said and what the checkout's head was when they last agreed.  An entry is a
  dict; the file is written and read as the code and \<open>tomllib\<close> do, the reader being one of what
  the writer writes.

  The lemmas: what is saved is loaded, entry by entry.
\<close>

record meta_cache =
  mc_entries :: "(string, entry) dict"
  mc_rpc_at :: "string option"

definition empty_cache :: meta_cache where
  "empty_cache = \<lparr>mc_entries = [], mc_rpc_at = None\<rparr>"

definition META_KEYS :: "string list" where
  "META_KEYS = [''rpc_version'', ''rpc_last_modified'', ''rpc_package_base'', ''pkgbuild_sha256'', ''head_commit'',
     ''last_fetch_at'', ''is_vcs'']"

section \<open>Operations\<close>

definition meta_get :: "meta_cache \<Rightarrow> string \<Rightarrow> entry option" where
  "meta_get c base = dget (mc_entries c) base"

definition meta_delete :: "string \<Rightarrow> meta_cache \<Rightarrow> meta_cache" where
  "meta_delete base c = c\<lparr>mc_entries := dpop base (mc_entries c)\<rparr>"

record meta_fields =
  mf_version :: "string option"
  mf_last_modified :: "int option"
  mf_base :: "string option"
  mf_head :: "string option"
  mf_vcs :: "bool option"
  mf_sha256 :: "string option"
  mf_fetched_at :: "string option"

definition no_fields :: meta_fields where
  "no_fields = \<lparr>mf_version = None, mf_last_modified = None, mf_base = None, mf_head = None, mf_vcs = None,
     mf_sha256 = None, mf_fetched_at = None\<rparr>"

text \<open>\<open>update\<close>: a field that is \<open>None\<close> is left as it is.\<close>

definition meta_update :: "string \<Rightarrow> meta_fields \<Rightarrow> meta_cache \<Rightarrow> meta_cache" where
  "meta_update base f c =
     c\<lparr>mc_entries := dset base
        (fold (\<lambda>(k, v). set_field k v)
           [(''rpc_version'', map_option PStr (mf_version f)), (''rpc_last_modified'', map_option PInt (mf_last_modified f)),
            (''rpc_package_base'', map_option PStr (mf_base f)), (''head_commit'', map_option PStr (mf_head f)),
            (''is_vcs'', map_option PBool (mf_vcs f)), (''pkgbuild_sha256'', map_option PStr (mf_sha256 f)),
            (''last_fetch_at'', map_option PStr (mf_fetched_at f))]
           (dget_or [] (mc_entries c) base)) (mc_entries c)\<rparr>"

definition forget_rpc :: "string \<Rightarrow> meta_cache \<Rightarrow> meta_cache" where
  "forget_rpc base c =
     (case dget (mc_entries c) base of
        None \<Rightarrow> c
      | Some e \<Rightarrow> c\<lparr>mc_entries := dset base (fold dpop [''rpc_version'', ''rpc_last_modified'', ''rpc_package_base''] e) (mc_entries c)\<rparr>)"

definition mark_rpc_sync :: "string \<Rightarrow> meta_cache \<Rightarrow> meta_cache" where
  "mark_rpc_sync now c = c\<lparr>mc_rpc_at := Some now\<rparr>"

section \<open>The file\<close>

definition meta_line :: "entry \<Rightarrow> string \<Rightarrow> string list" where
  "meta_line e k =
     (case dget e k of
        None \<Rightarrow> []
      | Some (PBool b) \<Rightarrow> [pair_line k (if b then ''true'' else ''false'')]
      | Some (PInt i) \<Rightarrow> [pair_line k (int_str i)]
      | Some v \<Rightarrow> [raw_line k (toml_escape (pyval_str v))])"

definition meta_lines :: "string \<times> entry \<Rightarrow> string list" where
  "meta_lines be = (''['' @ quoted (toml_escape (fst be)) @ '']'') # concat (map (meta_line (snd be)) META_KEYS) @ [[]]"

definition meta_file_lines :: "meta_cache \<Rightarrow> string list" where
  "meta_file_lines c =
     [''# SysForge source metadata cache'', ''# Populated by sysforge.primitives.source_sync; safe to delete.'', [],
      ''schema_version = 1''] @
     (case mc_rpc_at c of Some t \<Rightarrow> if t \<noteq> [] then [raw_line ''last_rpc_at'' t] else [] | None \<Rightarrow> []) @ [[]] @
     concat (map meta_lines (by_key (mc_entries c)))"

definition serialize_meta :: "meta_cache \<Rightarrow> string" where
  "serialize_meta c = py_join [CHR 0x0A] (meta_file_lines c)"

text \<open>Reading.  A value is a string, an integer or a boolean.\<close>

definition read_meta_value :: "string \<Rightarrow> pyval option" where
  "read_meta_value v =
     (if v = ''true'' then Some (PBool True) else if v = ''false'' then Some (PBool False)
      else (case read_value v of
              Some (VStr s) \<Rightarrow> Some (PStr s)
            | Some (VArr xs) \<Rightarrow> Some (PList xs)
            | None \<Rightarrow> (case py_int v of Some i \<Rightarrow> if int_str i = v then Some (PInt i) else None | None \<Rightarrow> None)))"

definition read_meta_pair :: "string \<Rightarrow> (string \<times> pyval) option" where
  "read_meta_pair l =
     (case partition1 CHR ''='' l of
        Some (k, v) \<Rightarrow>
          if ends_with '' '' k \<and> starts_with '' '' v \<and> bare_key (butlast k)
          then map_option (\<lambda>x. (butlast k, x)) (read_meta_value (tl v)) else None
      | None \<Rightarrow> None)"

definition read_meta_header :: "string \<Rightarrow> string option" where
  "read_meta_header l =
     (if starts_with [CHR ''['', CHR 0x22] l
      then (case read_basic (drop 2 l) of Some (k, r) \<Rightarrow> if r = '']'' then Some k else None | None \<Rightarrow> None) else None)"

text \<open>The state of the reader: the top level, the table that is open, and the tables so far.\<close>

type_synonym meta_state = "entry \<times> string option \<times> (string, entry) dict"

definition read_meta_line :: "string \<Rightarrow> meta_state \<Rightarrow> meta_state option" where
  "read_meta_line l st =
     (case st of (glob, cur, d) \<Rightarrow>
        if l = [] \<or> starts_with ''#'' l then Some st
        else if starts_with ''['' l then
          (case read_meta_header l of
             None \<Rightarrow> None
           | Some k \<Rightarrow> if dhas d k \<or> dhas glob k then None else Some (glob, Some k, d @ [(k, [])]))
        else (case read_meta_pair l of
                None \<Rightarrow> None
              | Some (k, v) \<Rightarrow>
                  (case cur of
                     None \<Rightarrow> if dhas glob k then None else Some (glob @ [(k, v)], None, d)
                   | Some base \<Rightarrow>
                       if dhas (dget_or [] d base) k then None
                       else Some (glob, cur, dset base (dget_or [] d base @ [(k, v)]) d))))"

fun read_meta_lines :: "string list \<Rightarrow> meta_state \<Rightarrow> meta_state option" where
  "read_meta_lines [] st = Some st"
| "read_meta_lines (l # ls) st = (case read_meta_line l st of None \<Rightarrow> None | Some st1 \<Rightarrow> read_meta_lines ls st1)"

text \<open>\<open>_load\<close>: an unreadable file and one of another schema count as empty.\<close>

definition load_meta :: "string option \<Rightarrow> meta_cache" where
  "load_meta file =
     (case file of
        None \<Rightarrow> empty_cache
      | Some text \<Rightarrow>
          (case read_meta_lines (split_on CHR 0x0A text) ([], None, []) of
             None \<Rightarrow> empty_cache
           | Some (glob, cur, d) \<Rightarrow>
               if dget_or (PInt 1) glob ''schema_version'' \<noteq> PInt 1 then empty_cache
               else \<lparr>mc_entries = d,
                     mc_rpc_at = (case dget glob ''last_rpc_at'' of Some (PStr t) \<Rightarrow> Some t | _ \<Rightarrow> None)\<rparr>))"

section \<open>Round trip\<close>

definition meta_kind :: "string \<Rightarrow> pyval \<Rightarrow> bool" where
  "meta_kind k v \<longleftrightarrow>
     (if k = ''is_vcs'' then (\<exists>b. v = PBool b) else if k = ''rpc_last_modified'' then (\<exists>i. v = PInt i)
      else (\<exists>s. v = PStr s))"

definition meta_entry_ok :: "entry \<Rightarrow> bool" where
  "meta_entry_ok e \<longleftrightarrow> (\<forall>k v. dget e k = Some v \<longrightarrow> k \<in> set META_KEYS \<and> meta_kind k v \<and> (\<forall>s. v = PStr s \<longrightarrow> text_ok s))"

definition meta_ok :: "meta_cache \<Rightarrow> bool" where
  "meta_ok c \<longleftrightarrow> dict_ok (mc_entries c) \<and>
     (\<forall>b e. dget (mc_entries c) b = Some e \<longrightarrow> text_ok b \<and> b \<noteq> ''schema_version'' \<and> b \<noteq> ''last_rpc_at'' \<and> meta_entry_ok e) \<and>
     (\<forall>t. mc_rpc_at c = Some t \<longrightarrow> t \<noteq> [] \<and> list_all (\<lambda>ch. text_char ch \<and> tesc ch = [ch]) t)"

definition kept_fields :: "entry \<Rightarrow> entry" where
  "kept_fields e = pick id e META_KEYS"

definition reread_meta :: "meta_cache \<Rightarrow> meta_cache" where
  "reread_meta c = c\<lparr>mc_entries := map (\<lambda>(b, e). (b, kept_fields e)) (by_key (mc_entries c))\<rparr>"

lemma META_KEYS_bare: "list_all bare_key META_KEYS" "distinct META_KEYS"
  by code_simp+

lemma int_str_value: "read_meta_value (int_str i) = Some (PInt i)"
proof -
  have "int_str i \<noteq> [] \<and> hd (int_str i) \<noteq> CHR ''t'' \<and> hd (int_str i) \<noteq> CHR ''f'' \<and> hd (int_str i) \<noteq> CHR 0x22 \<and> hd (int_str i) \<noteq> CHR ''[''"
    using nat_str_digit [of "nat i"] by (auto simp: int_str_def is_digit_def less_eq_char_def)
  then obtain c r where c: "int_str i = c # r" "c \<noteq> CHR ''t''" "c \<noteq> CHR ''f''" "c \<noteq> CHR 0x22" "c \<noteq> CHR ''[''"
    by (cases "int_str i") auto
  then have "read_value (int_str i) = None" by (simp add: read_value_def)
  with c py_int_str [of i] show ?thesis by (auto simp: read_meta_value_def)
qed

lemma text_value: "text_ok s \<Longrightarrow> read_meta_value (quoted (toml_escape s)) = Some (PStr s)"
  using read_value_text [of s] by (simp add: read_meta_value_def quoted_def)

lemma read_meta_pair_value:
  assumes "bare_key k" "read_meta_value v = Some x"
  shows "read_meta_pair (pair_line k v) = Some (k, x)"
proof -
  have "partition1 CHR ''='' ((k @ '' '') @ CHR ''='' # CHR '' '' # v) = Some (k @ '' '', CHR '' '' # v)"
    using bare_key_clean(1) [OF assms(1)] by (intro partition1_append) simp
  with assms show ?thesis by (simp add: read_meta_pair_def pair_line_def)
qed

lemma meta_line_reads:
  assumes "meta_entry_ok e" "dget e k = Some v"
  shows "\<exists>l. meta_line e k = [l] \<and> read_meta_pair l = Some (k, v) \<and> l \<noteq> [] \<and> \<not> starts_with ''#'' l \<and> \<not> starts_with ''['' l \<and> CHR 0x0A \<notin> set l"
proof -
  from assms have k: "k \<in> set META_KEYS" "meta_kind k v" "\<And>s. v = PStr s \<Longrightarrow> text_ok s" by (auto simp: meta_entry_ok_def)
  then have b: "bare_key k" using META_KEYS_bare(1) by (simp add: list_all_iff)
  obtain x where x: "meta_line e k = [pair_line k x]" "read_meta_value x = Some v" "CHR 0x0A \<notin> set x"
  proof (cases v)
    case (PBool c)
    then show thesis using assms(2) that [of "if c then ''true'' else ''false''"] by (simp add: meta_line_def read_meta_value_def)
  next
    case (PInt i)
    have "CHR 0x0A \<notin> set (int_str i)"
      using nat_str_digits [of "nat i"] nat_str_digits [of "nat (- i)"]
      by (auto simp: int_str_def list_all_iff is_digit_def less_eq_char_def)
    with PInt show thesis using assms(2) that [of "int_str i"] int_str_value by (simp add: meta_line_def)
  next
    case (PStr s)
    with k(3) show thesis using assms(2) that [of "quoted (toml_escape s)"] text_value
      by (simp add: meta_line_def raw_line_def pyval_str_def quoted_def toml_escape_clean)
  qed (use k(2) in \<open>auto simp: meta_kind_def split: if_splits\<close>)
  have "pair_line k x \<noteq> []" "hd (pair_line k x) = hd k" "CHR 0x0A \<notin> set (pair_line k x)"
    using bare_key_clean(3,4) [OF b] x(3) by (simp_all add: pair_line_def)
  with bare_key_clean(5,6) [OF b] read_meta_pair_value [OF b x(2)] show ?thesis
    unfolding x(1) by (cases "pair_line k x") simp_all
qed

lemma read_meta_append:
  "read_meta_lines (a @ b) st = (case read_meta_lines a st of None \<Rightarrow> None | Some st1 \<Rightarrow> read_meta_lines b st1)"
  by (induction a arbitrary: st) (simp_all split: option.split)

lemma read_meta_fields:
  assumes "meta_entry_ok e" "b \<notin> set (map fst d)"
  shows "distinct js \<Longrightarrow> fst ` set acc \<inter> set js = {} \<Longrightarrow>
    read_meta_lines (concat (map (meta_line e) js)) (glob, Some b, d @ [(b, acc)]) = Some (glob, Some b, d @ [(b, acc @ pick id e js)])"
proof (induction js arbitrary: acc)
  case Nil
  then show ?case by (simp add: pick_def)
next
  case (Cons k js)
  show ?case
  proof (cases "dget e k")
    case None
    with Cons show ?thesis by (simp add: pick_def meta_line_def)
  next
    case (Some v)
    from meta_line_reads [OF assms(1) this] obtain l where l: "meta_line e k = [l]" "read_meta_pair l = Some (k, v)"
      "l \<noteq> []" "\<not> starts_with ''#'' l" "\<not> starts_with ''['' l" by blast
    have g: "dget_or [] (d @ [(b, acc)]) b = acc"
      using assms(2) by (simp add: dget_or_def map_add_def map_of_eq_None_iff [symmetric] split: option.split)
    have "k \<notin> fst ` set acc" using Cons.prems(2) by auto
    then have "\<not> dhas acc k" by (simp add: dhas_def map_of_eq_None_iff)
    with l g assms(2) have "read_meta_line l (glob, Some b, d @ [(b, acc)]) = Some (glob, Some b, d @ [(b, acc @ [(k, v)])])"
      by (simp add: read_meta_line_def dset_last)
    with Cons.IH [of "acc @ [(k, v)]"] Cons.prems l(1) Some show ?thesis by (auto simp: pick_def)
  qed
qed

lemma read_meta_table:
  assumes "meta_entry_ok e" "b \<notin> set (map fst d)" "text_ok b" "\<not> dhas glob b"
  shows "read_meta_lines (meta_lines (b, e)) (glob, cur, d) = Some (glob, Some b, d @ [(b, kept_fields e)])"
proof -
  let ?l = "''['' @ quoted (toml_escape b) @ '']''"
  have "read_meta_header ?l = Some b" using assms(3) by (simp add: read_meta_header_def quoted_def read_basic_text)
  moreover have "\<not> dhas d b" using assms(2) by (simp add: dhas_def map_of_eq_None_iff)
  ultimately have "read_meta_line ?l (glob, cur, d) = Some (glob, Some b, d @ [(b, [])])"
    using assms(4) by (simp add: read_meta_line_def)
  moreover have "read_meta_lines (concat (map (meta_line e) META_KEYS)) (glob, Some b, d @ [(b, [])]) =
      Some (glob, Some b, d @ [(b, [] @ kept_fields e)])"
    unfolding kept_fields_def by (rule read_meta_fields [OF assms(1,2) META_KEYS_bare(2)]) simp
  ultimately show ?thesis
    unfolding meta_lines_def by (simp add: read_meta_append) (simp add: read_meta_line_def)
qed

lemma read_meta_tables:
  assumes "list_all (\<lambda>(b, e). text_ok b \<and> meta_entry_ok e \<and> \<not> dhas glob b) bs" "distinct (map fst (d @ bs))"
  shows "\<exists>cur'. read_meta_lines (concat (map meta_lines bs)) (glob, cur, d) =
    Some (glob, cur', d @ map (\<lambda>(b, e). (b, kept_fields e)) bs)"
  using assms
proof (induction bs arbitrary: d cur)
  case (Cons be bs)
  obtain b e where be: "be = (b, e)" by fastforce
  have t: "read_meta_lines (meta_lines (b, e)) (glob, cur, d) = Some (glob, Some b, d @ [(b, kept_fields e)])"
    using Cons.prems by (intro read_meta_table) (auto simp: be)
  have "\<exists>cur'. read_meta_lines (concat (map meta_lines bs)) (glob, Some b, d @ [(b, kept_fields e)]) =
      Some (glob, cur', (d @ [(b, kept_fields e)]) @ map (\<lambda>(b, e). (b, kept_fields e)) bs)"
    using Cons.prems by (intro Cons.IH) (auto simp: be)
  with t show ?case by (auto simp: be read_meta_append)
qed simp

lemma meta_file_clean:
  assumes "meta_ok c"
  shows "\<forall>l \<in> set (meta_file_lines c). CHR 0x0A \<notin> set l"
proof -
  have m: "CHR 0x0A \<notin> set l" if "(b, e) \<in> set (mc_entries c)" "l \<in> set (meta_lines (b, e))" for b e l
  proof -
    have e: "meta_entry_ok e" using that(1) assms member_get [of "mc_entries c" b e] by (auto simp: meta_ok_def)
    from that(2) consider "l = ''['' @ quoted (toml_escape b) @ '']''" | "l = []" | k where "l \<in> set (meta_line e k)"
      by (auto simp: meta_lines_def)
    then show ?thesis
    proof cases
      case (3 k)
      then obtain v where "dget e k = Some v" by (cases "dget e k") (auto simp: meta_line_def)
      from meta_line_reads [OF e this] 3 show ?thesis by auto
    qed (simp_all add: quoted_def toml_escape_clean)
  qed
  have t: "CHR 0x0A \<notin> set t" if "mc_rpc_at c = Some t" for t
  proof -
    have "list_all (\<lambda>ch. tesc ch = [ch]) t" using assms that by (auto simp: meta_ok_def list_all_iff)
    then show ?thesis by (auto simp: list_all_iff tesc_def)
  qed
  show ?thesis
    using m t by (auto simp: meta_file_lines_def raw_line_def pair_line_def quoted_def split: option.splits if_splits)
qed

lemma meta_rpc_line:
  assumes "list_all (\<lambda>ch. text_char ch \<and> tesc ch = [ch]) t"
  shows "read_meta_line (raw_line ''last_rpc_at'' t) ([(''schema_version'', PInt 1)], None, []) =
    Some ([(''schema_version'', PInt 1), (''last_rpc_at'', PStr t)], None, [])"
proof -
  have "toml_escape t = t" using assms by (induction t) (auto simp: toml_escape_chars)
  moreover have "text_ok t" using assms by (auto simp: text_ok_def list_all_iff)
  ultimately have "read_meta_value (quoted t) = Some (PStr t)" using text_value [of t] by simp
  moreover have "bare_key ''last_rpc_at''" by code_simp
  ultimately have "read_meta_pair (raw_line ''last_rpc_at'' t) = Some (''last_rpc_at'', PStr t)"
    unfolding raw_line_def by (rule read_meta_pair_value [rotated])
  then show ?thesis by (simp add: read_meta_line_def raw_line_def pair_line_def dhas_def)
qed

lemma load_serialize_meta:
  assumes "meta_ok c"
  shows "load_meta (Some (serialize_meta c)) = reread_meta c"
proof -
  let ?bs = "by_key (mc_entries c)" and ?sv = "[(''schema_version'', PInt 1)]"
  define glob where "glob = ?sv @ (case mc_rpc_at c of Some t \<Rightarrow> [(''last_rpc_at'', PStr t)] | None \<Rightarrow> [])"
  have ok: "dict_ok (mc_entries c)" using assms by (simp add: meta_ok_def)
  have split: "split_on CHR 0x0A (serialize_meta c) = meta_file_lines c"
    unfolding serialize_meta_def using meta_file_clean [OF assms] by (intro split_clean_lines) (auto simp: meta_file_lines_def)
  have "read_meta_line ''schema_version = 1'' ([], None, []) = Some (?sv, None, [])" by code_simp
  then have head: "read_meta_lines (meta_file_lines c) ([], None, []) = read_meta_lines (concat (map meta_lines ?bs)) (glob, None, [])"
    using assms meta_rpc_line unfolding meta_file_lines_def meta_ok_def glob_def
    by (cases "mc_rpc_at c") (simp_all add: read_meta_line_def [of "[]"] read_meta_line_def [of "CHR ''#'' # _"])
  have each: "list_all (\<lambda>(b, e). text_ok b \<and> meta_entry_ok e \<and> \<not> dhas glob b) ?bs"
    using assms member_get [OF ok] by (auto simp: list_all_iff meta_ok_def glob_def dhas_def split: option.splits)
  have "distinct (map fst ([] @ ?bs))" using ok by (simp add: dict_ok_def [symmetric])
  from read_meta_tables [OF each this, of None] obtain cur where
    "read_meta_lines (meta_file_lines c) ([], None, []) = Some (glob, cur, map (\<lambda>(b, e). (b, kept_fields e)) ?bs)"
    unfolding head by auto
  then show ?thesis
    unfolding load_meta_def using split
    by (simp add: reread_meta_def glob_def dget_or_def split: option.split)
qed

text \<open>A loaded entry answers every question as the saved one did.\<close>

lemma reread_entry:
  assumes "meta_ok c"
  shows "map_option (\<lambda>e. dget e k) (meta_get (reread_meta c) b) = map_option (\<lambda>e. dget e k) (meta_get c b)"
proof -
  have d: "dict_ok (mc_entries c)" using assms by (simp add: meta_ok_def)
  have "meta_get (reread_meta c) b = map_option (\<lambda>e. kept_fields e) (meta_get c b)"
    unfolding meta_get_def reread_meta_def by (simp add: map_of_map by_key_get [OF d])
  moreover have "dget (kept_fields e) k = dget e k" if "meta_get c b = Some e" for e
  proof -
    have "meta_entry_ok e" using assms that by (simp add: meta_ok_def meta_get_def)
    then show ?thesis using pick_get [OF META_KEYS_bare(2)] unfolding kept_fields_def by (cases "dget e k") (auto simp: meta_entry_ok_def)
  qed
  ultimately show ?thesis by (cases "meta_get c b") simp_all
qed

end
