(* ===== verification/SourceSync.thy ===== *)
theory SourceSync
  imports GitOps SourceMeta
begin

text \<open>
  Model of \<open>sysforge/primitives/source_sync.py\<close>: the scheduler that brings the checkouts of a run up to
  date, asking the AUR once for all of them and fetching only what has moved.

  A scheduler holds the world (\<open>GitOps\<close>), the cache (\<open>SourceMeta\<close>) and the results of the run; its
  methods are functions on it.  \<open>get_srcdest\<close> and \<open>get_repo_candidate_version\<close> are parameters, the policy
  is that of the process, which is set once.  Log lines are left out.

  The lemmas: each step adds only actions to the log that the policy permits and that take no local
  work.  What follows of runs is in \<open>SyncRuns\<close> and \<open>SyncProps\<close>.
\<close>

section \<open>The scheduler\<close>

datatype sync_status = SUpToDate | SFetched | SCloned | SDiverged | SRateLimited | SFailed | SkippedOffline
  | SkippedNoTracking | SkippedLocal | PurgeRefused | Frozen | SkippedAurDisabled

record sync_request =
  rq_base :: string
  rq_dir :: string
  rq_source :: string
  rq_force :: bool
  rq_db_name :: "string option"
  rq_pkgnames :: "string list"

record sync_result =
  sr_base :: string
  sr_status :: sync_status
  sr_before :: "string option"
  sr_after :: "string option"
  sr_error :: "string option"

definition result :: "string \<Rightarrow> sync_status \<Rightarrow> string option \<Rightarrow> string option \<Rightarrow> string option \<Rightarrow> sync_result" where
  "result base st b a e = \<lparr>sr_base = base, sr_status = st, sr_before = b, sr_after = a, sr_error = e\<rparr>"

record 'w sync_env =
  se_sys :: "'w sys"
  se_policy :: net_policy
  se_srcdest :: "string option"
  se_candidate :: "string \<Rightarrow> 'w \<Rightarrow> string option"
  se_now :: "rat \<Rightarrow> string"

record 'w sched =
  sc_net :: "'w net"
  sc_offline :: bool
  sc_repo_track :: string
  sc_cleansrc :: bool
  sc_force :: bool
  sc_abort_s :: rat
  sc_fetch_timeout :: int
  sc_clone_timeout :: int
  sc_cache :: meta_cache
  sc_results :: "(string, sync_result) dict"
  sc_rpc_done :: bool
  sc_rpc_map :: "(string, rpc_entry) dict"
  sc_aborted :: bool

definition new_sched ::
    "bool \<Rightarrow> bool \<Rightarrow> bool \<Rightarrow> string \<Rightarrow> int option \<Rightarrow> rat option \<Rightarrow> int option \<Rightarrow> int option \<Rightarrow> string option \<Rightarrow> 'w \<Rightarrow> rat \<Rightarrow> 'w sched" where
  "new_sched offline cleansrc force track interval_ms abort_s fetch_timeout clone_timeout file w t =
     \<lparr>sc_net = \<lparr>nt_world = w, nt_clock = t,
        nt_limiter = new_limiter (of_int (case interval_ms of None \<Rightarrow> 500 | Some n \<Rightarrow> if n = 0 then 500 else n) / 1000) 60, nt_log = []\<rparr>,
      sc_offline = offline, sc_repo_track = track, sc_cleansrc = (cleansrc \<or> force), sc_force = force,
      sc_abort_s = (case abort_s of None \<Rightarrow> 120 | Some a \<Rightarrow> if a = 0 then 120 else a),
      sc_fetch_timeout = (case fetch_timeout of None \<Rightarrow> 30 | Some n \<Rightarrow> n),
      sc_clone_timeout = (case clone_timeout of None \<Rightarrow> 60 | Some n \<Rightarrow> n),
      sc_cache = load_meta file, sc_results = [], sc_rpc_done = False, sc_rpc_map = [], sc_aborted = False\<rparr>"

text \<open>\<open>get_scheduler\<close> on a scheduler that exists.\<close>

definition update_flags :: "bool \<Rightarrow> bool \<Rightarrow> bool \<Rightarrow> string \<Rightarrow> 'w sched \<Rightarrow> 'w sched" where
  "update_flags offline cleansrc force track s =
     s\<lparr>sc_offline := (offline \<or> sc_offline s), sc_cleansrc := (cleansrc \<or> force \<or> sc_cleansrc s),
       sc_force := (force \<or> sc_force s), sc_repo_track := (if track \<noteq> ''stable'' then track else sc_repo_track s)\<rparr>"

definition cur_world :: "'w sched \<Rightarrow> 'w" where
  "cur_world s = nt_world (sc_net s)"

definition now :: "'w sync_env \<Rightarrow> 'w sched \<Rightarrow> string" where
  "now env s = se_now env (nt_clock (sc_net s))"

definition invalidate :: "string \<Rightarrow> 'w sched \<Rightarrow> 'w sched" where
  "invalidate base s = s\<lparr>sc_results := dpop base (sc_results s), sc_cache := meta_delete base (sc_cache s)\<rparr>"

section \<open>The RPC\<close>

definition first_of_each :: "string list \<Rightarrow> string list" where
  "first_of_each xs = rev (remdups (rev xs))"

definition add_rpc :: "string list \<Rightarrow> (string, rpc_entry) dict \<Rightarrow> (string, rpc_entry) dict \<Rightarrow> (string, rpc_entry) dict" where
  "add_rpc wanted results m =
     fold (\<lambda>(name, r) m. case rp_base r of
             Some b \<Rightarrow> if b \<in> set wanted then dsetdefault b r m else m | None \<Rightarrow> m) results
       (fold (\<lambda>(name, r) m. if name \<in> set wanted then dset name r m else m) results m)"

definition ensure_rpc :: "'w sync_env \<Rightarrow> string list \<Rightarrow> (string, string list) dict \<Rightarrow> 'w sched \<Rightarrow> 'w sched" where
  "ensure_rpc env bases members s =
     (if sc_rpc_done s \<or> sc_offline s \<or> \<not> np_aur_enabled (se_policy env) then s
      else (let s1 = s\<lparr>sc_rpc_done := True\<rparr>;
                pending = filter (\<lambda>p. \<not> dhas (sc_rpc_map s) p) bases;
                names = first_of_each (pending @ concat (map (\<lambda>p. dget_or [] members p) pending))
            in if pending = [] then s1
               else (case aur_info (se_sys env) (se_policy env) names (sc_net s1) of
                       (None, n) \<Rightarrow> s1\<lparr>sc_net := n\<rparr>
                     | (Some results, n) \<Rightarrow>
                         (let s2 = s1\<lparr>sc_net := n, sc_rpc_map := add_rpc pending results (sc_rpc_map s1)\<rparr>
                          in s2\<lparr>sc_cache := mark_rpc_sync (now env s2) (sc_cache s2)\<rparr>))))"

definition rpc_vouches :: "'w sys \<Rightarrow> 'w \<Rightarrow> string \<Rightarrow> rpc_entry option \<Rightarrow> string \<Rightarrow> bool" where
  "rpc_vouches sy w d rpc base =
     (case rpc of None \<Rightarrow> False
      | Some r \<Rightarrow> aur_origin_pkgbase sy w d = Some (case rp_base r of Some b \<Rightarrow> b | None \<Rightarrow> base))"

definition can_short_circuit :: "rpc_entry option \<Rightarrow> entry option \<Rightarrow> string option \<Rightarrow> bool" where
  "can_short_circuit rpc meta head =
     (case (rpc, meta) of
        (Some r, Some m) \<Rightarrow>
          map_option PStr (rp_version r) = dget m ''rpc_version'' \<and>
          map_option PInt (rp_last_modified r) = dget m ''rpc_last_modified'' \<and> map_option PStr head = dget m ''head_commit''
      | _ \<Rightarrow> False)"

definition record_rpc :: "'w sync_env \<Rightarrow> string \<Rightarrow> string \<Rightarrow> rpc_entry option \<Rightarrow> 'w sched \<Rightarrow> 'w sched" where
  "record_rpc env base d rpc s =
     (if rpc \<noteq> None \<and> rpc_vouches (se_sys env) (cur_world s) d rpc base
      then s\<lparr>sc_cache := meta_update base (no_fields\<lparr>mf_version := rp_version (the rpc),
             mf_last_modified := rp_last_modified (the rpc), mf_base := rp_base (the rpc)\<rparr>) (sc_cache s)\<rparr>
      else s\<lparr>sc_cache := forget_rpc base (sc_cache s)\<rparr>)"

definition record_head :: "'w sync_env \<Rightarrow> string \<Rightarrow> string option \<Rightarrow> 'w sched \<Rightarrow> 'w sched" where
  "record_head env base head s =
     s\<lparr>sc_cache := meta_update base (no_fields\<lparr>mf_head := head, mf_vcs := Some (is_vcs_pkgbase base),
        mf_fetched_at := Some (now env s)\<rparr>) (sc_cache s)\<rparr>"

section \<open>Clone and fetch\<close>

definition pin_repo_checkout ::
    "'w sync_env \<Rightarrow> string \<Rightarrow> string \<Rightarrow> string option \<Rightarrow> 'w sched \<Rightarrow> string option \<times> 'w sched" where
  "pin_repo_checkout env base d db s =
     (if sc_repo_track s \<noteq> ''stable'' then (None, s)
      else (case se_candidate env (if truthy db then the db else base) (cur_world s) of
              None \<Rightarrow> (None, s)
            | Some version \<Rightarrow>
                (let (e, n) = pkgctl_switch_version (se_sys env) d version (sc_fetch_timeout s) (sc_net s)
                 in (e, s\<lparr>sc_net := n\<rparr>))))"

text \<open>After a rate limit: too long a penalty ends the run's syncs.\<close>

definition abort_if_long :: "'w sched \<Rightarrow> 'w sched" where
  "abort_if_long s =
     (if remaining_penalty (nt_limiter (sc_net s)) (nt_clock (sc_net s)) > sc_abort_s s then s\<lparr>sc_aborted := True\<rparr> else s)"

definition wait_fetch :: "'w sync_env \<Rightarrow> 'w sched \<Rightarrow> 'w sched" where
  "wait_fetch env s =
     (let (waited, l, t) = wait_before_fetch (sy_sleep (se_sys env)) (nt_limiter (sc_net s)) (nt_clock (sc_net s))
      in s\<lparr>sc_net := (sc_net s)\<lparr>nt_limiter := l, nt_clock := t\<rparr>\<rparr>)"

definition penalise :: "string \<Rightarrow> 'w sched \<Rightarrow> 'w sched" where
  "penalise source s =
     s\<lparr>sc_net := (sc_net s)\<lparr>nt_limiter := fst (apply_retry_after (nt_limiter (sc_net s)) (nt_clock (sc_net s)) None source)\<rparr>\<rparr>"

definition run_clone :: "'w sync_env \<Rightarrow> string \<Rightarrow> string \<Rightarrow> string \<Rightarrow> 'w sched \<Rightarrow> clone_error option \<times> 'w sched" where
  "run_clone env base d source s =
     (let (e, n) = (if source = ''repo'' then pkgctl_checkout (se_sys env) (se_policy env) base d (sc_clone_timeout s) (sc_net s)
                    else aur_clone (se_sys env) (se_policy env) base d (sc_clone_timeout s) (sc_net s))
      in (e, s\<lparr>sc_net := n\<rparr>))"

definition sync_clone :: "'w sync_env \<Rightarrow> string \<Rightarrow> string \<Rightarrow> string \<Rightarrow> string option \<Rightarrow> 'w sched \<Rightarrow> sync_result \<times> 'w sched" where
  "sync_clone env base d source db s =
     (case run_clone env base d source (wait_fetch env s) of
        (Some (Denied e), s1) \<Rightarrow> (result base Frozen None None (Some (denial_text e)), s1)
      | (Some (CloneFailed err), s1) \<Rightarrow>
          if source \<noteq> ''repo'' \<and> is_rate_limit_error err
          then (result base SRateLimited None None (Some err), abort_if_long (penalise ''AUR clone 429/503'' s1))
          else (result base SFailed None None (Some err), s1)
      | (None, s1) \<Rightarrow>
          (case (if source = ''repo'' then pin_repo_checkout env base d db s1 else (None, s1)) of
             (Some err, s2) \<Rightarrow> (result base SFailed None (head_commit (se_sys env) (cur_world s2) d) (Some err), s2)
           | (None, s2) \<Rightarrow>
               (let head = head_commit (se_sys env) (cur_world s2) d;
                    rpc = (if source \<noteq> ''repo'' then dget (sc_rpc_map s2) base else None)
                in (result base SCloned None head None, record_head env base head (record_rpc env base d rpc s2)))))"

text \<open>
  The steps of \<open>_fetch\<close> after the call of git: the tags of a pinned checkout, the reset of a checkout whose
  upstream rewrote its history, the new pin.  \<open>Inl\<close> is an early return.
\<close>

definition refresh_tags ::
    "'w sync_env \<Rightarrow> string \<Rightarrow> string \<Rightarrow> bool \<Rightarrow> fetch_outcome \<Rightarrow> 'w sched \<Rightarrow> (sync_result + fetch_outcome) \<times> 'w sched" where
  "refresh_tags env base d repo_stable fo s =
     (if repo_stable \<and> fo_status fo = GNoTracking then
        (let prev = head_commit (se_sys env) (cur_world s) d;
             (e, n) = fetch_repo_tags (se_sys env) base d (sc_fetch_timeout s) (sc_net s);
             s1 = s\<lparr>sc_net := n\<rparr>
         in (case e of Some err \<Rightarrow> Inl (result base SFailed prev None (Some err))
             | None \<Rightarrow> Inr (git_outcome GUpToDate prev prev None), s1))
      else (Inr fo, s))"

definition reset_diverged ::
    "'w sync_env \<Rightarrow> string \<Rightarrow> string \<Rightarrow> fetch_outcome \<Rightarrow> 'w sched \<Rightarrow> fetch_outcome \<times> 'w sched" where
  "reset_diverged env base d fo s =
     (if fo_status fo = GDiverged \<and> \<not> git_is_dirty (se_sys env) (cur_world s) d (is_vcs_pkgbase base) then
        (let (h, n) = reset_hard_fetch_head (se_sys env) d (sc_net s); s1 = s\<lparr>sc_net := n\<rparr>
         in (case h of None \<Rightarrow> fo | Some x \<Rightarrow> git_outcome GFetched (fo_before fo) (Some x) None, s1))
      else (fo, s))"

definition repin ::
    "'w sync_env \<Rightarrow> string \<Rightarrow> string \<Rightarrow> string option \<Rightarrow> bool \<Rightarrow> fetch_outcome \<Rightarrow> 'w sched \<Rightarrow> (sync_result + fetch_outcome) \<times> 'w sched" where
  "repin env base d db repo_stable fo s =
     (if repo_stable \<and> fo_status fo \<in> {GUpToDate, GFetched} then
        (if uncommitted_dirty_paths (se_sys env) (cur_world s) d (is_vcs_pkgbase base) \<noteq> [] then
           (Inl (result base SDiverged (fo_before fo) (fo_after fo) (Some ''local edits present: not re-pinning'')), s)
         else
           (let pre = head_commit (se_sys env) (cur_world s) d; (e, s1) = pin_repo_checkout env base d db s;
                post = head_commit (se_sys env) (cur_world s1) d
            in (case e of Some err \<Rightarrow> Inl (result base SFailed pre post (Some err))
                | None \<Rightarrow> Inr (if post \<noteq> pre then git_outcome GFetched pre post None else fo), s1)))
      else (Inr fo, s))"

fun sync_status_of :: "fetch_status \<Rightarrow> sync_status" where
  "sync_status_of GNotARepo = SUpToDate"
| "sync_status_of GNoTracking = SkippedNoTracking"
| "sync_status_of GUpToDate = SUpToDate"
| "sync_status_of GFetched = SFetched"
| "sync_status_of GDiverged = SDiverged"
| "sync_status_of GRateLimited = SRateLimited"
| "sync_status_of GFailed = SFailed"

definition finish_fetch ::
    "'w sync_env \<Rightarrow> string \<Rightarrow> string \<Rightarrow> rpc_entry option \<Rightarrow> fetch_outcome \<Rightarrow> 'w sched \<Rightarrow> sync_result \<times> 'w sched" where
  "finish_fetch env base d rpc fo s =
     (let s1 = (if fo_status fo \<in> {GUpToDate, GFetched} then record_head env base (fo_after fo) (record_rpc env base d rpc s) else s)
      in if fo_status fo = GNotARepo then (result base SUpToDate None None None, s1)
         else if fo_status fo = GNoTracking then (result base SkippedNoTracking (fo_before fo) (fo_after fo) None, s1)
         else (result base (sync_status_of (fo_status fo)) (fo_before fo) (fo_after fo) (fo_error fo), s1))"

definition sync_fetch ::
    "'w sync_env \<Rightarrow> string \<Rightarrow> string \<Rightarrow> rpc_entry option \<Rightarrow> string \<Rightarrow> string option \<Rightarrow> 'w sched \<Rightarrow> sync_result \<times> 'w sched" where
  "sync_fetch env base d rpc source db s =
     (let (r, n) = git_fetch_and_compare (se_sys env) (se_policy env) base d (is_vcs_pkgbase base) (sc_fetch_timeout s) (sc_net s);
          s1 = s\<lparr>sc_net := n\<rparr>; repo_stable = (source = ''repo'' \<and> sc_repo_track s = ''stable'')
      in case r of
           Inl e \<Rightarrow> (result base Frozen None None (Some (denial_text e)), s1)
         | Inr fo \<Rightarrow>
             (case refresh_tags env base d repo_stable fo s1 of
                (Inl res, s2) \<Rightarrow> (res, s2)
              | (Inr fo2, s2) \<Rightarrow>
                  if fo_status fo2 = GRateLimited
                  then (result base SRateLimited (fo_before fo2) (fo_after fo2) (fo_error fo2), abort_if_long s2)
                  else (case reset_diverged env base d fo2 s2 of
                          (fo3, s3) \<Rightarrow>
                            (case repin env base d db repo_stable fo3 s3 of
                               (Inl res, s4) \<Rightarrow> (res, s4)
                             | (Inr fo4, s4) \<Rightarrow> finish_fetch env base d rpc fo4 s4))))"

section \<open>One package\<close>

definition reclone_blocked :: "'w sync_env \<Rightarrow> string \<Rightarrow> string \<Rightarrow> 'w sched \<Rightarrow> sync_result option" where
  "reclone_blocked env base source s =
     (if sc_offline s then Some (result base SkippedOffline None None None)
      else map_option (\<lambda>e. result base Frozen None None (Some (''--cleansrc kept the checkout: '' @ denial_text e)))
             (check_policy (se_policy env) (if source = ''repo'' then RepoCheckout else AurClone) (Some base)))"

definition purge_checkout :: "'w sync_env \<Rightarrow> string \<Rightarrow> string \<Rightarrow> 'w sched \<Rightarrow> sync_result option \<times> 'w sched" where
  "purge_checkout env base d s =
     (case purge_src (se_sys env) d (sc_force s) (is_vcs_pkgbase base) (sc_net s) of
        (Some e, n) \<Rightarrow> (Some (result base PurgeRefused None None (Some e)), s\<lparr>sc_net := n\<rparr>)
      | (None, n) \<Rightarrow> (None, s\<lparr>sc_net := purge_srcdest (se_sys env) base (se_srcdest env) d n\<rparr>))"

definition cleansrc_step :: "'w sync_env \<Rightarrow> sync_request \<Rightarrow> 'w sched \<Rightarrow> sync_result option \<times> 'w sched" where
  "cleansrc_step env rq s =
     (if sc_cleansrc s \<and> sy_exists (se_sys env) (rq_dir rq) (cur_world s) then
        (case reclone_blocked env (rq_base rq) (rq_source rq) s of
           Some r \<Rightarrow> (Some r, s)
         | None \<Rightarrow> (case purge_checkout env (rq_base rq) (rq_dir rq) s of
                      (Some r, s1) \<Rightarrow> (Some r, s1) | (None, s1) \<Rightarrow> (None, invalidate (rq_base rq) s1)))
      else (None, s))"

definition recovery_step :: "'w sync_env \<Rightarrow> sync_request \<Rightarrow> 'w sched \<Rightarrow> sync_result option \<times> 'w sched" where
  "recovery_step env rq s =
     (if sy_is_dir (se_sys env) (rq_dir rq) (cur_world s) \<and> \<not> sy_exists (se_sys env) (path_join (rq_dir rq) ''PKGBUILD'') (cur_world s)
      then purge_checkout env (rq_base rq) (rq_dir rq) s else (None, s))"

definition fetch_or_skip :: "'w sync_env \<Rightarrow> sync_request \<Rightarrow> 'w sched \<Rightarrow> sync_result \<times> 'w sched" where
  "fetch_or_skip env rq s =
     (let base = rq_base rq; d = rq_dir rq; sy = se_sys env;
          meta = meta_get (sc_cache s) base;
          rpc = (if rq_source rq \<noteq> ''repo'' then dget (sc_rpc_map s) base else None);
          head = head_commit sy (cur_world s) d
      in if \<not> (rq_force rq \<or> sc_cleansrc s) \<and> can_short_circuit rpc meta head \<and> rpc_vouches sy (cur_world s) d rpc base then
           (case (if is_vcs_pkgbase base then check_policy (se_policy env) SourceFetch (Some base) else None) of
              Some e \<Rightarrow> (result base Frozen head head (Some (denial_text e)), s)
            | None \<Rightarrow>
                (result base SUpToDate head head None,
                 s\<lparr>sc_cache := meta_update base (no_fields\<lparr>mf_fetched_at := Some (now env s)\<rparr>) (sc_cache s)\<rparr>))
         else sync_fetch env base d rpc (rq_source rq) (rq_db_name rq) s)"

definition sync_one :: "'w sync_env \<Rightarrow> sync_request \<Rightarrow> 'w sched \<Rightarrow> sync_result \<times> 'w sched" where
  "sync_one env rq s =
     (let base = rq_base rq; d = rq_dir rq; sy = se_sys env in
      if rq_source rq = ''local'' then
        (if \<not> sy_is_dir sy d (cur_world s) then result base SFailed None None (Some (''local PKGBUILD missing: '' @ d))
         else result base SkippedLocal None None None, s)
      else if rq_source rq \<noteq> ''repo'' \<and> \<not> np_aur_enabled (se_policy env) \<and> is_aur_checkout sy (cur_world s) d then
        (result base SkippedAurDisabled None None (Some ''AUR disabled ([aur] enabled = false)''), s)
      else if sc_aborted s then (result base SRateLimited None None (Some ''rate-limit abort window active''), s)
      else
        (case cleansrc_step env rq s of
           (Some r, s1) \<Rightarrow> (r, s1)
         | (None, s1) \<Rightarrow>
             if sc_offline s1 then
               (result base SkippedOffline None None
                  (if sy_is_dir sy d (cur_world s1) then None else Some ''offline: local PKGBUILD missing''), s1)
             else
               (let missing = \<not> sy_is_dir sy d (cur_world s1);
                    leftover = sy_is_dir sy d (cur_world s1) \<and> \<not> sy_exists sy (path_join d ''PKGBUILD'') (cur_world s1)
                in case recovery_step env rq s1 of
                     (Some r, s2) \<Rightarrow> (r, s2)
                   | (None, s2) \<Rightarrow>
                       if missing \<or> leftover then sync_clone env base d (rq_source rq) (rq_db_name rq) s2
                       else fetch_or_skip env rq s2)))"

section \<open>The public methods\<close>

definition sched_request :: "'w sync_env \<Rightarrow> sync_request \<Rightarrow> 'w sched \<Rightarrow> sync_result \<times> 'w sched" where
  "sched_request env rq s =
     (case dget (sc_results s) (rq_base rq) of
        Some r \<Rightarrow> (r, s)
      | None \<Rightarrow> (let (r, s1) = sync_one env rq s in (r, s1\<lparr>sc_results := dset (rq_base rq) r (sc_results s1)\<rparr>)))"

fun request_all :: "'w sync_env \<Rightarrow> sync_request list \<Rightarrow> 'w sched \<Rightarrow> (string, sync_result) dict \<times> 'w sched" where
  "request_all env [] s = ([], s)"
| "request_all env (rq # rqs) s =
     (let (r, s1) = sched_request env rq s; (out, s2) = request_all env rqs s1 in (dmerge [(rq_base rq, r)] out, s2))"

definition sync_many :: "'w sync_env \<Rightarrow> sync_request list \<Rightarrow> 'w sched \<Rightarrow> (string, sync_result) dict \<times> 'w sched" where
  "sync_many env rqs s =
     (let aur = filter (\<lambda>r. rq_source r \<in> {''aur'', ''git''} \<and> \<not> dhas (sc_rpc_map s) (rq_base r)) rqs;
          s1 = (if aur \<noteq> [] \<and> \<not> sc_offline s
                then ensure_rpc env (map rq_base aur) (fold (\<lambda>r. dset (rq_base r) (rq_pkgnames r)) aur []) s else s)
      in request_all env rqs s1)"

text \<open>\<open>close\<close>: the text of the cache's file.\<close>

definition close_text :: "'w sched \<Rightarrow> string" where
  "close_text s = serialize_meta (sc_cache s)"


section \<open>What is logged\<close>

text \<open>A log each of whose actions is good, given the ones before it.\<close>

fun good_log :: "('w action \<Rightarrow> 'w action list \<Rightarrow> bool) \<Rightarrow> 'w action list \<Rightarrow> bool" where
  "good_log R [] = True"
| "good_log R (a # l) = (R a l \<and> good_log R l)"

text \<open>A checkout that a removal or a reset takes nothing of the user's from.\<close>

definition no_local_work :: "'w sys \<Rightarrow> 'w \<Rightarrow> string \<Rightarrow> bool \<Rightarrow> bool" where
  "no_local_work sy w d vcs \<longleftrightarrow>
     (let state = fst (classify_head_vs_upstream sy w d) in
      state \<in> {NotARepo, NoHead} \<or>
      uncommitted_dirty_paths sy w d vcs = [] \<and>
      (state \<in> {Clean, Behind, DivergedUpstream} \<or> state = NoTracking \<and> head_reachable_from_remote sy w d))"

text \<open>The policy's word for a fetch.\<close>

definition fetch_denied :: "net_policy \<Rightarrow> string \<Rightarrow> string \<Rightarrow> bool" where
  "fetch_denied np base d \<longleftrightarrow> check_policy np SourceFetch (Some (if base = [] then path_name d else base)) \<noteq> None"

text \<open>What an action promises; \<open>vd\<close> tells the directories of the VCS packages, whose version lines do not count.\<close>

definition action_ok :: "'w sync_env \<Rightarrow> bool \<Rightarrow> (string \<Rightarrow> bool) \<Rightarrow> 'w action \<Rightarrow> 'w action list \<Rightarrow> bool" where
  "action_ok env forced vd a l \<longleftrightarrow>
     (case a of
        Rpc_sent names \<Rightarrow> np_aur_enabled (se_policy env)
      | Cloned k base d w \<Rightarrow> k \<in> {AurClone, RepoCheckout} \<and> check_policy (se_policy env) k (Some base) = None
      | Fetched base d w \<Rightarrow> \<not> fetch_denied (se_policy env) base d
      | Reset d w \<Rightarrow> no_local_work (se_sys env) w d (vd d)
      | Removed d w \<Rightarrow> forced \<or> \<not> is_repo (se_sys env) w d \<or> no_local_work (se_sys env) w d (vd d)
      | Discarded d \<Rightarrow> \<exists>k base w. Cloned k base d w \<in> set l \<and> \<not> sy_is_dir (se_sys env) d w
      | _ \<Rightarrow> True)"

abbreviation ok_log :: "'w sync_env \<Rightarrow> bool \<Rightarrow> (string \<Rightarrow> bool) \<Rightarrow> 'w net \<Rightarrow> bool" where
  "ok_log env forced vd n \<equiv> good_log (action_ok env forced vd) (nt_log n)"

named_theorems log_simps \<open>what the steps add to the log\<close>

lemma logged_simps [log_simps]:
  "nt_log (logged a n) = a # nt_log n" "nt_world (logged a n) = nt_world n" "nt_clock (logged a n) = nt_clock n"
  "nt_limiter (logged a n) = nt_limiter n"
  by (simp_all add: logged_def)

lemma run_act_log [log_simps]: "nt_log (snd (run_act sy cmd a n)) = a # nt_log n"
  by (simp add: run_act_def log_simps split: prod.split)

lemma run_throttled_log [log_simps]: "nt_log (snd (run_throttled sy cmd a n)) = a # nt_log n"
  by (simp add: run_throttled_def log_simps Let_def split: prod.split)

lemma not_dirty_no_work: "\<not> git_is_dirty sy w d vcs \<Longrightarrow> no_local_work sy w d vcs"
  by (cases "fst (classify_head_vs_upstream sy w d)")
    (auto simp: git_is_dirty_def no_local_work_def Let_def split: if_splits)

lemma purge_allowed_no_work: "purge_refusal_message sy w d vcs = None \<Longrightarrow> no_local_work sy w d vcs"
  by (cases "classify_head_vs_upstream sy w d"; cases "fst (classify_head_vs_upstream sy w d)")
    (auto simp: purge_refusal_message_def no_local_work_def Let_def split: if_splits)

lemma dirty_paths_mono:
  "uncommitted_dirty_paths sy w d vcs = [] \<Longrightarrow> (vcs \<longrightarrow> vcs') \<Longrightarrow> uncommitted_dirty_paths sy w d vcs' = []"
  by (auto simp: uncommitted_dirty_paths_def counts_as_dirty_def filter_empty_conv split: prod.splits)

lemma no_local_work_mono: "no_local_work sy w d vcs \<Longrightarrow> (vcs \<longrightarrow> vcs') \<Longrightarrow> no_local_work sy w d vcs'"
  using dirty_paths_mono [of sy w d vcs vcs'] by (auto simp: no_local_work_def Let_def)

lemma merged_ok: "action_ok env forced vd (Merged d) l" "action_ok env forced vd (Switched d v) l" "action_ok env forced vd (Uncached p) l"
  by (simp_all add: action_ok_def)

lemma after_fetch_ok:
  assumes "after_fetch sy d vcs prev n = (fo, n')" "ok_log env forced vd n"
  shows "ok_log env forced vd n'"
  using assms run_act_log [of sy "git d [''merge'', ''--ff-only'', ''FETCH_HEAD'']" "Merged d" n]
  by (auto simp: after_fetch_def Let_def merged_ok split: if_splits prod.splits reply.splits)

lemma fetch_ok:
  assumes "git_fetch_and_compare (se_sys env) (se_policy env) base d vcs t n = (r, n')" "ok_log env forced vd n"
  shows "ok_log env forced vd n'" "r = Inr fo \<Longrightarrow> \<not> fetch_denied (se_policy env) base d"
proof -
  show nd: "\<not> fetch_denied (se_policy env) base d" if "r = Inr fo" for fo
    using assms(1) that by (auto simp: git_fetch_and_compare_def fetch_denied_def split: option.splits)
  let ?a = "Fetched base d (nt_world n)" and ?cmd = "fetch_cmd (se_sys env) (nt_world n) d"
  have "ok_log env forced vd (snd (run_throttled (se_sys env) ?cmd ?a n))" if "\<not> fetch_denied (se_policy env) base d"
    using that assms(2) by (simp add: log_simps action_ok_def)
  note ran = this
  show "ok_log env forced vd n'"
  proof (cases r)
    case (Inl e)
    with assms show ?thesis
      by (auto simp: git_fetch_and_compare_def Let_def split: option.splits if_splits prod.splits reply.splits)
  next
    case (Inr fo)
    obtain x n1 where x: "run_throttled (se_sys env) ?cmd ?a n = (x, n1)" by fastforce
    have n1: "ok_log env forced vd n1" using ran [OF nd [OF Inr]] x by simp
    show ?thesis
      using assms Inr x n1 after_fetch_ok [OF _ n1]
      by (auto simp: git_fetch_and_compare_def Let_def split: option.splits if_splits prod.splits reply.splits)
  qed
qed

lemma tags_ok:
  assumes "fetch_repo_tags (se_sys env) base d t n = (e, n')" "ok_log env forced vd n" "\<not> fetch_denied (se_policy env) base d"
  shows "ok_log env forced vd n'"
proof -
  let ?a = "Fetched base d (nt_world n)" and ?cmd = "git d [''fetch'', ''--tags'', ''origin'']"
  obtain x n1 where x: "run_throttled (se_sys env) ?cmd ?a n = (x, n1)" by fastforce
  have "nt_log n1 = ?a # nt_log n" using run_throttled_log [of "se_sys env" ?cmd ?a n] x by simp
  then have "ok_log env forced vd n1" using assms(2,3) by (simp add: action_ok_def)
  with assms(1) x show ?thesis by (auto simp: fetch_repo_tags_def Let_def split: prod.splits reply.splits if_splits)
qed

lemma reset_ok:
  assumes "reset_hard_fetch_head (se_sys env) d n = (h, n')" "ok_log env forced vd n" "no_local_work (se_sys env) (nt_world n) d (vd d)"
  shows "ok_log env forced vd n'"
  using assms run_act_log [of "se_sys env" "git d [''reset'', ''--hard'', ''FETCH_HEAD'']" "Reset d (nt_world n)" n]
  by (auto simp: reset_hard_fetch_head_def action_ok_def split: prod.splits reply.splits if_splits)

lemma switch_ok:
  assumes "pkgctl_switch_version (se_sys env) d v t n = (e, n')" "ok_log env forced vd n"
  shows "ok_log env forced vd n'"
  using assms run_act_log [of "se_sys env" "[''pkgctl'', ''repo'', ''switch'', v]" "Switched d v" n]
  by (auto simp: pkgctl_switch_version_def merged_ok split: prod.splits reply.splits if_splits)

lemma purge_ok:
  assumes "purge_src (se_sys env) d force vcs n = (e, n')" "ok_log env forced vd n" "force \<longrightarrow> forced" "vcs \<longrightarrow> vd d"
  shows "ok_log env forced vd n'"
proof -
  let ?sy = "se_sys env" and ?w = "nt_world n"
  let ?q = "if is_repo ?sy ?w d \<and> \<not> force then purge_refusal_message ?sy ?w d vcs else None"
  have "n' = n \<or> ?q = None \<and> nt_log n' = Removed d ?w # nt_log n"
    using assms(1) by (cases ?q) (auto simp: purge_src_def Let_def log_simps split: if_splits)
  moreover have "forced \<or> \<not> is_repo ?sy ?w d \<or> no_local_work ?sy ?w d (vd d)" if "?q = None"
    using that assms(3,4) purge_allowed_no_work [of ?sy ?w d vcs] no_local_work_mono [of ?sy ?w d vcs] by (auto split: if_splits)
  ultimately show ?thesis using assms(2) by (auto simp: action_ok_def)
qed

lemma srcdest_ok:
  fixes n :: "'a net"
  shows "ok_log env forced vd n \<Longrightarrow> ok_log env forced vd (purge_srcdest sy base sd d n)"
proof -
  have "ok_log env forced vd n \<Longrightarrow> ok_log env forced vd (fold (\<lambda>p n. logged (Uncached (f p)) (n\<lparr>nt_world := g p (nt_world n)\<rparr>)) ps n)"
    for f :: "string \<Rightarrow> string" and g :: "string \<Rightarrow> 'a \<Rightarrow> 'a" and ps
    by (induction ps arbitrary: n) (simp_all add: log_simps merged_ok)
  note step = this
  show "ok_log env forced vd n \<Longrightarrow> ok_log env forced vd (purge_srcdest sy base sd d n)"
  proof (cases sd)
    case (Some x)
    show "ok_log env forced vd n \<Longrightarrow> ok_log env forced vd (purge_srcdest sy base sd d n)"
      using step [of "path_join x" "\<lambda>p. sy_remove sy (path_join x p)"] by (simp add: purge_srcdest_def Some)
  qed (simp add: purge_srcdest_def)
qed


text \<open>The clones.  One is made only where there is no directory, so that what is discarded is its own.\<close>

definition absent :: "'w sys \<Rightarrow> string \<Rightarrow> 'w net \<Rightarrow> bool" where
  "absent sy d n \<longleftrightarrow> \<not> sy_is_dir sy d (nt_world n) \<or> (\<exists>k base w. Cloned k base d w \<in> set (nt_log n) \<and> \<not> sy_is_dir sy d w)"

lemma clone_log:
  assumes "run_act (se_sys env) cmd (Cloned k base d (nt_world n)) n = (r, n')" "ok_log env forced vd n"
    "k \<in> {AurClone, RepoCheckout}" "check_policy (se_policy env) k (Some base) = None" "absent (se_sys env) d n"
  shows "ok_log env forced vd n'" "ok_log env forced vd (discard (se_sys env) d n')" "absent (se_sys env) d (discard (se_sys env) d n')"
proof -
  have log: "nt_log n' = Cloned k base d (nt_world n) # nt_log n"
    using run_act_log [of "se_sys env" cmd "Cloned k base d (nt_world n)" n] assms(1) by simp
  have c: "\<exists>k base w. Cloned k base d w \<in> set (nt_log n') \<and> \<not> sy_is_dir (se_sys env) d w"
    using assms(5) unfolding absent_def log by auto
  show ok: "ok_log env forced vd n'" using assms(2-4) unfolding log by (simp add: action_ok_def)
  show "ok_log env forced vd (discard (se_sys env) d n')" using ok c by (simp add: discard_def log_simps action_ok_def)
  show "absent (se_sys env) d (discard (se_sys env) d n')" using c by (auto simp: absent_def discard_def log_simps)
qed

lemma pause_simps [log_simps]: "nt_log (pause sy n) = nt_log n" "nt_world (pause sy n) = nt_world n"
  by (simp_all add: pause_def)

lemma clone_attempts_ok:
  assumes "clone_attempts k (se_sys env) base d t n = (e, n')" "ok_log env forced vd n"
    "check_policy (se_policy env) AurClone (Some base) = None" "absent (se_sys env) d n"
  shows "ok_log env forced vd n'"
  using assms
proof (induction k arbitrary: n rule: less_induct)
  case (less k)
  obtain r n1 where r: "run_act (se_sys env) [''git'', ''clone'', AUR_GIT_BASE @ ''/'' @ base @ ''.git'', d]
      (Cloned AurClone base d (nt_world n)) n = (r, n1)" by fastforce
  note c = clone_log [OF r less(3) _ less(4,5)]
  from less(2) r show ?case
  proof (cases rule: clone_attempts_cases)
    case (again j)
    with less.IH [OF _ again(2) _ less(4)] c show ?thesis by (simp add: log_simps absent_def)
  qed (use c in auto)
qed

lemma aur_clone_ok:
  assumes "aur_clone (se_sys env) (se_policy env) base d t n = (e, n')" "ok_log env forced vd n" "absent (se_sys env) d n"
  shows "ok_log env forced vd n'"
  using assms clone_attempts_ok [of 1 env base d t n _ n' forced]
  by (auto simp: aur_clone_def split: option.splits prod.splits)

lemma purge_world:
  assumes "purge_src sy d force vcs n = (None, n')" "\<forall>d w. \<not> sy_is_dir sy d (sy_remove sy d w)"
    "\<forall>d w. sy_is_dir sy d w \<longrightarrow> sy_exists sy d w"
  shows "\<not> sy_is_dir sy d (nt_world n')"
  using assms by (auto simp: purge_src_def Let_def log_simps split: if_splits option.splits)

lemma pkgctl_checkout_ok:
  assumes "pkgctl_checkout (se_sys env) (se_policy env) base d t n = (e, n')" "ok_log env forced vd n" "\<not> sy_is_dir (se_sys env) d (nt_world n)"
    "\<forall>d w. \<not> sy_is_dir (se_sys env) d (sy_remove (se_sys env) d w)"
  shows "ok_log env forced vd n'"
proof (cases "check_policy (se_policy env) RepoCheckout (Some base)")
  case (Some x)
  with assms(1,2) show ?thesis by (simp add: pkgctl_checkout_def)
next
  case None
  let ?w = "nt_world n" and ?sy = "se_sys env"
  define p where "p = (if sy_exists ?sy d ?w \<and> sy_exists ?sy (path_join d ''.git'') ?w \<and> \<not> sy_exists ?sy (path_join d ''PKGBUILD'') ?w
      then purge_src ?sy d False False n else (None, n))"
  obtain x n1 where x: "p = (x, n1)" by fastforce
  have ok: "ok_log env forced vd n1" using x purge_ok [OF _ assms(2)] assms(2) unfolding p_def by (auto split: if_splits)
  have dir: "absent ?sy d n1"
    using x assms(3,4) unfolding p_def absent_def
    by (auto simp: purge_src_def Let_def log_simps split: if_splits option.splits)
  show ?thesis
  proof (cases x)
    case (Some m)
    with assms(1) None x ok show ?thesis by (simp add: pkgctl_checkout_def p_def Let_def)
  next
    case ok1: None
    obtain r n2 where r: "run_act ?sy [''pkgctl'', ''repo'', ''clone'', ''--protocol=https'', base]
        (Cloned RepoCheckout base d (nt_world n1)) n1 = (r, n2)" by fastforce
    note c = clone_log [OF r ok _ None dir]
    have "n' = n2 \<or> n' = discard ?sy d n2"
      using assms(1) None x ok1 r by (auto simp: pkgctl_checkout_def p_def Let_def split: reply.splits if_splits)
    with c(1,2) show ?thesis by auto
  qed
qed

section \<open>Runs of the scheduler\<close>

definition lawful :: "'w sys \<Rightarrow> bool" where
  "lawful sy \<longleftrightarrow> (\<forall>d w. sy_is_dir sy d w \<longrightarrow> sy_exists sy d w) \<and> (\<forall>d w. \<not> sy_is_dir sy d (sy_remove sy d w)) \<and>
     (\<forall>d d' w. sy_is_dir sy d (sy_remove sy d' w) \<longrightarrow> sy_is_dir sy d w)"

lemma pin_ok:
  assumes "pin_repo_checkout env base d db s = (e, s')" "ok_log env forced vd (sc_net s)"
  shows "ok_log env forced vd (sc_net s')"
proof (cases "sc_repo_track s = ''stable'' \<and> se_candidate env (if truthy db then the db else base) (cur_world s) \<noteq> None")
  case True
  then obtain v where v: "se_candidate env (if truthy db then the db else base) (cur_world s) = Some v" by auto
  obtain x n where x: "pkgctl_switch_version (se_sys env) d v (sc_fetch_timeout s) (sc_net s) = (x, n)" by fastforce
  with assms(1) True v have "s' = s\<lparr>sc_net := n\<rparr>" by (simp add: pin_repo_checkout_def)
  with switch_ok [OF x assms(2)] show ?thesis by simp
next
  case False
  then have "s' = s" using assms(1) unfolding pin_repo_checkout_def
    by (cases "se_candidate env (if truthy db then the db else base) (cur_world s)") (auto split: if_splits)
  with assms(2) show ?thesis by simp
qed

lemma cache_only [log_simps]:
  "sc_net (record_rpc env base d rpc s) = sc_net s" "sc_net (record_head env base h s) = sc_net s"
  "sc_net (abort_if_long s) = sc_net s" "sc_net (invalidate base s) = sc_net s"
  "nt_log (sc_net (penalise m s)) = nt_log (sc_net s)" "nt_world (sc_net (penalise m s)) = nt_world (sc_net s)"
  "nt_log (sc_net (wait_fetch env s)) = nt_log (sc_net s)" "nt_world (sc_net (wait_fetch env s)) = nt_world (sc_net s)"
  by (simp_all add: record_rpc_def record_head_def abort_if_long_def invalidate_def penalise_def wait_fetch_def split: prod.split)

lemma sync_clone_ok:
  assumes "sync_clone env base d source db s = (r, s')" "ok_log env forced vd (sc_net s)" "\<not> sy_is_dir (se_sys env) d (cur_world s)" "lawful (se_sys env)"
  shows "ok_log env forced vd (sc_net s')"
proof -
  let ?s0 = "wait_fetch env s"
  obtain e s1 where c: "run_clone env base d source ?s0 = (e, s1)" by fastforce
  have w: "ok_log env forced vd (sc_net ?s0)" "absent (se_sys env) d (sc_net ?s0)" "\<not> sy_is_dir (se_sys env) d (nt_world (sc_net ?s0))"
    using assms(2,3) by (simp_all add: log_simps absent_def cur_world_def)
  have s1: "ok_log env forced vd (sc_net s1)"
  proof (cases "source = ''repo''")
    case True
    with c have "pkgctl_checkout (se_sys env) (se_policy env) base d (sc_clone_timeout ?s0) (sc_net ?s0) = (e, sc_net s1)"
      by (auto simp: run_clone_def split: prod.splits)
    from pkgctl_checkout_ok [OF this w(1,3)] assms(4) show ?thesis by (simp add: lawful_def)
  next
    case False
    with c have "aur_clone (se_sys env) (se_policy env) base d (sc_clone_timeout ?s0) (sc_net ?s0) = (e, sc_net s1)"
      by (auto simp: run_clone_def split: prod.splits)
    from aur_clone_ok [OF this w(1,2)] show ?thesis .
  qed
  show ?thesis
  proof (cases e)
    case (Some x)
    with assms(1) c s1 show ?thesis
      by (auto simp: sync_clone_def log_simps Let_def split: clone_error.splits if_splits)
  next
    case None
    obtain x s2 where p: "(if source = ''repo'' then pin_repo_checkout env base d db s1 else (None, s1)) = (x, s2)" by fastforce
    have "ok_log env forced vd (sc_net s2)" using p pin_ok [OF _ s1] s1 by (auto split: if_splits)
    with assms(1) c p None show ?thesis by (auto simp: sync_clone_def log_simps Let_def split: option.splits)
  qed
qed


lemma refresh_ok:
  assumes "refresh_tags env base d st fo s = (r, s')" "ok_log env forced vd (sc_net s)" "\<not> fetch_denied (se_policy env) base d"
  shows "ok_log env forced vd (sc_net s')"
proof -
  obtain e n where e: "fetch_repo_tags (se_sys env) base d (sc_fetch_timeout s) (sc_net s) = (e, n)" by fastforce
  from assms(1) e tags_ok [OF e assms(2,3)] assms(2) show ?thesis
    by (auto simp: refresh_tags_def Let_def split: if_splits)
qed

lemma reset_diverged_ok:
  assumes "reset_diverged env base d fo s = (fo', s')" "ok_log env forced vd (sc_net s)" "is_vcs_pkgbase base \<longrightarrow> vd d"
  shows "ok_log env forced vd (sc_net s')"
proof (cases "fo_status fo = GDiverged \<and> \<not> git_is_dirty (se_sys env) (cur_world s) d (is_vcs_pkgbase base)")
  case True
  obtain h n where h: "reset_hard_fetch_head (se_sys env) d (sc_net s) = (h, n)" by fastforce
  have "no_local_work (se_sys env) (nt_world (sc_net s)) d (vd d)"
    using True not_dirty_no_work [of "se_sys env" "cur_world s" d "is_vcs_pkgbase base", THEN no_local_work_mono] assms(3) by (simp add: cur_world_def)
  from reset_ok [OF h assms(2) this] assms(1) True h show ?thesis by (auto simp: reset_diverged_def Let_def)
qed (use assms in \<open>auto simp: reset_diverged_def\<close>)

lemma repin_ok:
  assumes "repin env base d db st fo s = (r, s')" "ok_log env forced vd (sc_net s)"
  shows "ok_log env forced vd (sc_net s')"
proof -
  obtain e s1 where e: "pin_repo_checkout env base d db s = (e, s1)" by fastforce
  from assms(1) e pin_ok [OF e assms(2)] assms(2) show ?thesis
    by (auto simp: repin_def Let_def split: if_splits)
qed

lemma finish_log [log_simps]: "finish_fetch env base d rpc fo s = (r, s') \<Longrightarrow> sc_net s' = sc_net s"
  by (auto simp: finish_fetch_def Let_def log_simps split: if_splits)

lemma sync_fetch_ok:
  assumes "sync_fetch env base d rpc source db s = (r, s')" "ok_log env forced vd (sc_net s)" "is_vcs_pkgbase base \<longrightarrow> vd d"
  shows "ok_log env forced vd (sc_net s')"
proof -
  obtain x n where x: "git_fetch_and_compare (se_sys env) (se_policy env) base d (is_vcs_pkgbase base) (sc_fetch_timeout s) (sc_net s) = (x, n)"
    by fastforce
  let ?s1 = "s\<lparr>sc_net := n\<rparr>" and ?st = "source = ''repo'' \<and> sc_repo_track s = ''stable''"
  have s1: "ok_log env forced vd (sc_net ?s1)" using fetch_ok(1) [OF x assms(2)] by simp
  show ?thesis
  proof (cases x)
    case (Inl e)
    have "(r, s') = (result base Frozen None None (Some (denial_text e)), ?s1)"
      unfolding assms(1) [symmetric] sync_fetch_def Let_def x Inl prod.case sum.case ..
    with s1 show ?thesis by simp
  next
    case (Inr fo)
    obtain y s2 where y: "refresh_tags env base d ?st fo ?s1 = (y, s2)" by fastforce
    have s2: "ok_log env forced vd (sc_net s2)" using refresh_ok [OF y s1 fetch_ok(2) [OF x assms(2) Inr]] .
    show ?thesis
    proof (cases y)
      case (Inl res)
      have "(r, s') = (res, s2)"
        unfolding assms(1) [symmetric] sync_fetch_def Let_def x Inr y Inl prod.case sum.case ..
      with s2 show ?thesis by simp
    next
      case y2: (Inr fo2)
      obtain fo3 s3 where z: "reset_diverged env base d fo2 s2 = (fo3, s3)" by fastforce
      have s3: "ok_log env forced vd (sc_net s3)" using reset_diverged_ok [OF z s2 assms(3)] .
      obtain u s4 where u: "repin env base d db ?st fo3 s3 = (u, s4)" by fastforce
      have s4: "ok_log env forced vd (sc_net s4)" using repin_ok [OF u s3] .
      have "(r, s') = (if fo_status fo2 = GRateLimited
          then (result base SRateLimited (fo_before fo2) (fo_after fo2) (fo_error fo2), abort_if_long s2)
          else (case u of Inl res \<Rightarrow> (res, s4) | Inr fo4 \<Rightarrow> finish_fetch env base d rpc fo4 s4))"
        unfolding assms(1) [symmetric] sync_fetch_def Let_def x Inr y y2 z u prod.case sum.case
        by (cases u) (simp_all only: sum.case)
      note r = this
      show ?thesis
      proof (cases "fo_status fo2 = GRateLimited")
        case True
        with r have "s' = abort_if_long s2" by simp
        with s2 show ?thesis by (simp add: log_simps)
      next
        case False
        with r have r: "(r, s') = (case u of Inl res \<Rightarrow> (res, s4) | Inr fo4 \<Rightarrow> finish_fetch env base d rpc fo4 s4)" by simp
        show ?thesis
        proof (cases u)
          case (Inl res)
          with r s4 show ?thesis by simp
        next
          case (Inr fo4)
          with r have "finish_fetch env base d rpc fo4 s4 = (r, s')" by simp
          with finish_log s4 show ?thesis by metis
        qed
      qed
    qed
  qed
qed

lemma purge_checkout_ok:
  assumes "purge_checkout env base d s = (r, s')" "ok_log env forced vd (sc_net s)" "sc_force s \<longrightarrow> forced" "is_vcs_pkgbase base \<longrightarrow> vd d"
  shows "ok_log env forced vd (sc_net s')" "sc_force s' = sc_force s" "sc_offline s' = sc_offline s"
    "lawful (se_sys env) \<Longrightarrow> r = None \<Longrightarrow> \<not> sy_is_dir (se_sys env) d (cur_world s')"
proof -
  obtain e n where e: "purge_src (se_sys env) d (sc_force s) (is_vcs_pkgbase base) (sc_net s) = (e, n)" by fastforce
  note n = purge_ok [OF e assms(2,3,4)]
  show "ok_log env forced vd (sc_net s')" "sc_force s' = sc_force s" "sc_offline s' = sc_offline s"
    using assms(1) e n srcdest_ok [OF n] by (auto simp: purge_checkout_def split: option.splits)
  assume l: "lawful (se_sys env)" and r: "r = None"
  with assms(1) e have e0: "e = None" "sc_net s' = purge_srcdest (se_sys env) base (se_srcdest env) d n"
    by (auto simp: purge_checkout_def split: option.splits)
  have d: "\<not> sy_is_dir (se_sys env) d (nt_world n)" using purge_world [OF e [unfolded e0(1)]] l by (simp add: lawful_def)
  have keep: "\<not> sy_is_dir (se_sys env) d (nt_world m) \<Longrightarrow>
      \<not> sy_is_dir (se_sys env) d (nt_world (fold (\<lambda>p n. logged (Uncached (path_join x p)) (n\<lparr>nt_world := sy_remove (se_sys env) (path_join x p) (nt_world n)\<rparr>)) ps m))"
    for ps m x
  proof (induction ps arbitrary: m)
    case (Cons p ps)
    have "\<not> sy_is_dir (se_sys env) d (sy_remove (se_sys env) (path_join x p) (nt_world m))"
      using Cons.prems l unfolding lawful_def by blast
    then show ?case unfolding fold.simps comp_apply by (intro Cons.IH) (simp add: log_simps)
  qed simp
  show "\<not> sy_is_dir (se_sys env) d (cur_world s')"
    unfolding cur_world_def e0(2) purge_srcdest_def using d keep by (auto split: option.splits)
qed



lemma sync_one_cases:
  assumes "sync_one env rq s = (r, s')"
  obtains (idle) "s' = s" "sr_status r \<in> {SFailed, SkippedLocal, SkippedAurDisabled, SRateLimited}"
  | (refused) "\<not> sc_aborted s" "cleansrc_step env rq s = (Some r, s')"
  | (offline) "\<not> sc_aborted s" "cleansrc_step env rq s = (None, s')" "sc_offline s'"
  | (leftover) s1 where "\<not> sc_aborted s" "cleansrc_step env rq s = (None, s1)" "\<not> sc_offline s1" "recovery_step env rq s1 = (Some r, s')"
  | (clone) s1 s2 where "\<not> sc_aborted s" "cleansrc_step env rq s = (None, s1)" "\<not> sc_offline s1" "recovery_step env rq s1 = (None, s2)"
      "\<not> sy_is_dir (se_sys env) (rq_dir rq) (cur_world s1) \<or>
       sy_is_dir (se_sys env) (rq_dir rq) (cur_world s1) \<and> \<not> sy_exists (se_sys env) (path_join (rq_dir rq) ''PKGBUILD'') (cur_world s1)"
      "sync_clone env (rq_base rq) (rq_dir rq) (rq_source rq) (rq_db_name rq) s2 = (r, s')"
  | (fetch) s1 where "\<not> sc_aborted s" "cleansrc_step env rq s = (None, s1)" "\<not> sc_offline s1" "sy_is_dir (se_sys env) (rq_dir rq) (cur_world s1)"
      "sy_exists (se_sys env) (path_join (rq_dir rq) ''PKGBUILD'') (cur_world s1)" "recovery_step env rq s1 = (None, s1)" "fetch_or_skip env rq s1 = (r, s')"
      "\<not> (rq_source rq \<noteq> ''repo'' \<and> \<not> np_aur_enabled (se_policy env) \<and> is_aur_checkout (se_sys env) (cur_world s) (rq_dir rq))"
proof -
  let ?idle = "rq_source rq = ''local'' \<or>
    rq_source rq \<noteq> ''repo'' \<and> \<not> np_aur_enabled (se_policy env) \<and> is_aur_checkout (se_sys env) (cur_world s) (rq_dir rq) \<or> sc_aborted s"
  show thesis
  proof (cases ?idle)
    case True
    with assms show thesis by (intro idle) (auto simp: sync_one_def Let_def result_def split: if_splits)
  next
    case False
    obtain x s1 where x: "cleansrc_step env rq s = (x, s1)" by fastforce
    obtain y s2 where y: "recovery_step env rq s1 = (y, s2)" by fastforce
    let ?missing = "\<not> sy_is_dir (se_sys env) (rq_dir rq) (cur_world s1)"
    let ?left = "sy_is_dir (se_sys env) (rq_dir rq) (cur_world s1) \<and> \<not> sy_exists (se_sys env) (path_join (rq_dir rq) ''PKGBUILD'') (cur_world s1)"
    show thesis
    proof (cases x)
      case (Some r1)
      with assms False x show thesis by (intro refused) (auto simp: sync_one_def Let_def)
    next
      case x0: None
      show thesis
      proof (cases "sc_offline s1")
        case True
        with assms False x x0 show thesis by (intro offline) (auto simp: sync_one_def Let_def)
      next
        case on: False
        show thesis
        proof (cases y)
          case (Some r2)
          with assms False x x0 y on show thesis by (intro leftover [of s1]) (auto simp: sync_one_def Let_def)
        next
          case y0: None
          show thesis
          proof (cases "?missing \<or> ?left")
            case True
            with assms False x x0 y y0 on show thesis by (intro clone [of s1 s2]) (auto simp: sync_one_def Let_def)
          next
            case ok: False
            then have "s2 = s1" using y by (auto simp: recovery_step_def)
            with assms False x x0 y y0 on ok show thesis by (intro fetch [of s1]) (auto simp: sync_one_def Let_def)
          qed
        qed
      qed
    qed
  qed
qed

lemma cleansrc_ok:
  assumes "cleansrc_step env rq s = (r, s')" "ok_log env forced vd (sc_net s)" "sc_force s \<longrightarrow> forced"
    "is_vcs_pkgbase (rq_base rq) \<longrightarrow> vd (rq_dir rq)"
  shows "ok_log env forced vd (sc_net s')" "sc_force s' = sc_force s" "sc_offline s' = sc_offline s"
proof -
  obtain x s1 where x: "purge_checkout env (rq_base rq) (rq_dir rq) s = (x, s1)" by fastforce
  note p = purge_checkout_ok(1-3) [OF x assms(2,3,4)]
  have "s' = s \<or> s' = s1 \<or> s' = invalidate (rq_base rq) s1"
    using assms(1) x by (auto simp: cleansrc_step_def split: if_splits option.splits)
  with p assms(2) show "ok_log env forced vd (sc_net s')" "sc_force s' = sc_force s" "sc_offline s' = sc_offline s"
    by (auto simp: log_simps invalidate_def)
qed

lemma sync_one_ok:
  assumes "sync_one env rq s = (r, s')" "ok_log env forced vd (sc_net s)" "sc_force s \<longrightarrow> forced" "lawful (se_sys env)"
    "is_vcs_pkgbase (rq_base rq) \<longrightarrow> vd (rq_dir rq)"
  shows "ok_log env forced vd (sc_net s')"
  using assms(1)
proof (cases rule: sync_one_cases)
  case idle
  with assms(2) show ?thesis by simp
next
  case refused
  then show ?thesis using cleansrc_ok(1) assms(2,3,5) by blast
next
  case offline
  then show ?thesis using cleansrc_ok(1) assms(2,3,5) by blast
next
  case (leftover s1)
  note c = cleansrc_ok [OF leftover(2) assms(2,3,5)]
  obtain x s2 where x: "purge_checkout env (rq_base rq) (rq_dir rq) s1 = (x, s2)" by fastforce
  have "s' = s1 \<or> s' = s2" using leftover(4) x by (auto simp: recovery_step_def split: if_splits)
  with purge_checkout_ok(1) [OF x c(1)] c assms(3,5) show ?thesis by auto
next
  case (clone s1 s2)
  note c = cleansrc_ok [OF clone(2) assms(2,3,5)]
  have p: "ok_log env forced vd (sc_net s2) \<and> \<not> sy_is_dir (se_sys env) (rq_dir rq) (cur_world s2)"
  proof (cases "sy_is_dir (se_sys env) (rq_dir rq) (cur_world s1)")
    case True
    with clone(4,5) have "purge_checkout env (rq_base rq) (rq_dir rq) s1 = (None, s2)" by (simp add: recovery_step_def)
    from purge_checkout_ok [OF this c(1)] c(2) assms(3,4,5) show ?thesis by simp
  next
    case False
    with clone(4) have "s2 = s1" by (simp add: recovery_step_def)
    with False c(1) show ?thesis by simp
  qed
  show ?thesis by (rule sync_clone_ok [OF clone(6) _ _ assms(4)]) (use p in simp_all)
next
  case (fetch s1)
  note c = cleansrc_ok [OF fetch(2) assms(2,3,5)]
  from fetch(7) c(1) sync_fetch_ok [OF _ c(1) assms(5)] show ?thesis
    by (auto simp: fetch_or_skip_def Let_def split: if_splits option.splits)
qed

end
