(* ===== verification/SyncRuns.thy ===== *)
theory SyncRuns
  imports SourceSync
begin

text \<open>
  Runs of the scheduler of \<open>SourceSync\<close>: any sequence of its public methods, between which the world and
  the time may change.  What a run logs, what it never does, and when it leaves a fetch out.
\<close>

section \<open>How the log grows\<close>

text \<open>The log only grows, and a clone and a fetch do make it grow.\<close>

abbreviation lg :: "'w net \<Rightarrow> nat" where "lg n \<equiv> length (nt_log n)"

lemma act_grows: "run_act sy cmd a n = (r, n') \<Longrightarrow> lg n' = Suc (lg n)" "run_throttled sy cmd a n = (r, n') \<Longrightarrow> lg n' = Suc (lg n)"
  using run_act_log [of sy cmd a n] run_throttled_log [of sy cmd a n] by auto

lemma after_fetch_grows: "after_fetch sy d vcs prev n = (fo, n') \<Longrightarrow> lg n \<le> lg n'"
  by (auto simp: after_fetch_def Let_def split: if_splits prod.splits reply.splits dest: act_grows)

lemma fetch_grows:
  assumes "git_fetch_and_compare sy np base d vcs t n = (r, n')"
  shows "lg n \<le> lg n'" "r = Inr fo \<Longrightarrow> fo_status fo \<notin> {GNotARepo, GNoTracking} \<Longrightarrow> lg n < lg n'"
proof -
  obtain x n1 where x: "run_throttled sy (fetch_cmd sy (nt_world n) d) (Fetched base d (nt_world n)) n = (x, n1)" by fastforce
  note g = act_grows(2) [OF x]
  have "n' = n \<and> (\<forall>fo. r = Inr fo \<longrightarrow> fo_status fo \<in> {GNotARepo, GNoTracking}) \<or> lg n1 \<le> lg n'"
    using assms x by (auto simp: git_fetch_and_compare_def git_outcome_def Let_def split: option.splits if_splits prod.splits reply.splits
        dest: after_fetch_grows)
  with g show "lg n \<le> lg n'" "r = Inr fo \<Longrightarrow> fo_status fo \<notin> {GNotARepo, GNoTracking} \<Longrightarrow> lg n < lg n'" by auto
qed

lemma tags_grow: "fetch_repo_tags sy base d t n = (e, n') \<Longrightarrow> lg n < lg n'"
  by (auto simp: fetch_repo_tags_def Let_def split: prod.splits reply.splits if_splits dest: act_grows)

lemma reset_grows: "reset_hard_fetch_head sy d n = (h, n') \<Longrightarrow> lg n \<le> lg n'"
  by (auto simp: reset_hard_fetch_head_def split: prod.splits reply.splits if_splits dest: act_grows)

lemma switch_grows: "pkgctl_switch_version sy d v t n = (e, n') \<Longrightarrow> lg n \<le> lg n'"
  by (auto simp: pkgctl_switch_version_def split: prod.splits reply.splits if_splits dest: act_grows)

lemma purge_grows: "purge_src sy d force vcs n = (e, n') \<Longrightarrow> lg n \<le> lg n'"
  by (auto simp: purge_src_def Let_def log_simps split: if_splits option.splits)

lemma srcdest_grows: "lg n \<le> lg (purge_srcdest sy base sd d n)"
proof -
  have "lg n \<le> lg (fold (\<lambda>p n. logged (Uncached (f p)) (n\<lparr>nt_world := g p (nt_world n)\<rparr>)) ps n)"
    for f :: "string \<Rightarrow> string" and g :: "string \<Rightarrow> 'a \<Rightarrow> 'a" and ps n
  proof (induction ps arbitrary: n)
    case (Cons p ps)
    show ?case by (simp, rule order_trans [OF _ Cons.IH]) (simp add: log_simps)
  qed simp
  from this [of _ "path_join _" "\<lambda>p. sy_remove sy (path_join _ p)"] show ?thesis by (simp add: purge_srcdest_def split: option.split)
qed

lemma clone_attempts_grow:
  "clone_attempts k sy b d t n = (e, n') \<Longrightarrow> lg n < lg n'"
proof (induction k arbitrary: n rule: less_induct)
  case (less k)
  obtain r n1 where r: "run_act sy [''git'', ''clone'', AUR_GIT_BASE @ ''/'' @ b @ ''.git'', d] (Cloned AurClone b d (nt_world n)) n = (r, n1)"
    by fastforce
  have n1: "nt_log n1 = Cloned AurClone b d (nt_world n) # nt_log n" using run_act_log [of sy _ _ n] r by (metis snd_conv)
  from less(2) r show ?case
  proof (cases rule: clone_attempts_cases)
    case (again j)
    with less.IH [OF _ again(2)] n1 show ?thesis by (simp add: log_simps discard_def)
  qed (use n1 in \<open>auto simp: log_simps discard_def\<close>)
qed

lemma clone_grows:
  "aur_clone sy np base d t n = (e, n') \<Longrightarrow> lg n \<le> lg n' \<and> (e = None \<longrightarrow> lg n < lg n')"
  "pkgctl_checkout sy np base d t n = (e, n') \<Longrightarrow> lg n \<le> lg n' \<and> (e = None \<longrightarrow> lg n < lg n')"
proof -
  show "lg n \<le> lg n' \<and> (e = None \<longrightarrow> lg n < lg n')" if "aur_clone sy np base d t n = (e, n')"
    using that by (auto simp: aur_clone_def split: option.splits prod.splits dest: clone_attempts_grow)
  show "lg n \<le> lg n' \<and> (e = None \<longrightarrow> lg n < lg n')" if p: "pkgctl_checkout sy np base d t n = (e, n')"
  proof (cases "check_policy np RepoCheckout (Some base)")
    case (Some x)
    with p show ?thesis by (auto simp: pkgctl_checkout_def)
  next
    case None
    define q where "q = (if sy_exists sy d (nt_world n) \<and> sy_exists sy (path_join d ''.git'') (nt_world n) \<and>
        \<not> sy_exists sy (path_join d ''PKGBUILD'') (nt_world n) then purge_src sy d False False n else (None, n))"
    obtain x n1 where x: "q = (x, n1)" by fastforce
    have g1: "lg n \<le> lg n1" using x purge_grows unfolding q_def by (auto split: if_splits)
    obtain r n2 where r: "run_act sy [''pkgctl'', ''repo'', ''clone'', ''--protocol=https'', base]
        (Cloned RepoCheckout base d (nt_world n1)) n1 = (r, n2)" by fastforce
    have g2: "lg n2 = Suc (lg n1)" "lg (discard sy d n2) = Suc (lg n2)" using act_grows(1) [OF r] by (simp_all add: discard_def log_simps)
    have "x \<noteq> None \<and> n' = n1 \<and> e \<noteq> None \<or> n' = n2 \<or> n' = discard sy d n2"
      using p None x r by (auto simp: pkgctl_checkout_def q_def Let_def split: option.splits reply.splits if_splits)
    with g1 g2 show ?thesis by auto
  qed
qed

text \<open>Most steps change the world only.\<close>

definition net_only :: "'w sched \<Rightarrow> 'w sched \<Rightarrow> bool" where
  "net_only s s' \<longleftrightarrow> s' = s\<lparr>sc_net := sc_net s'\<rparr> \<and> lg (sc_net s) \<le> lg (sc_net s')"

lemma net_only_trans:
  assumes "net_only s s'" "net_only s' s''"
  shows "net_only s s''"
proof -
  from assms obtain n m where "s' = s\<lparr>sc_net := n\<rparr>" "s'' = s'\<lparr>sc_net := m\<rparr>" "lg (sc_net s) \<le> lg n" "lg n \<le> lg m"
    unfolding net_only_def by (metis sched.select_convs(1) sched.surjective sched.update_convs(1))
  then show ?thesis by (simp add: net_only_def)
qed

lemma net_only_refl: "net_only s s" "lg (sc_net s) \<le> lg n \<Longrightarrow> net_only s (s\<lparr>sc_net := n\<rparr>)"
  by (simp_all add: net_only_def)

lemma net_only_steps:
  "net_only s (snd (run_clone env base d source s))" "net_only s (wait_fetch env s)" "net_only s (penalise m s)"
  "net_only s (snd (pin_repo_checkout env base d db s))" "net_only s (snd (refresh_tags env base d st fo s))"
  "net_only s (snd (reset_diverged env base d fo s))" "net_only s (snd (purge_checkout env base d s))"
proof -
  show "net_only s (snd (run_clone env base d source s))"
    by (cases "source = ''repo''") (auto simp: run_clone_def net_only_def split: prod.split dest: clone_grows(1) clone_grows(2))
  show "net_only s (wait_fetch env s)" "net_only s (penalise m s)"
    by (simp_all add: wait_fetch_def penalise_def net_only_def split: prod.split)
  show "net_only s (snd (refresh_tags env base d st fo s))"
    using tags_grow by (fastforce simp: refresh_tags_def Let_def net_only_refl intro!: net_only_refl(2) split: prod.split)
  show "net_only s (snd (reset_diverged env base d fo s))"
    using reset_grows by (fastforce simp: reset_diverged_def Let_def net_only_refl intro!: net_only_refl(2) split: prod.split)
  show "net_only s (snd (purge_checkout env base d s))"
    using purge_grows order_trans [OF _ srcdest_grows]
    by (fastforce simp: purge_checkout_def Let_def intro!: net_only_refl(2) split: prod.split option.split)
  show "net_only s (snd (pin_repo_checkout env base d db s))"
    using switch_grows by (cases "se_candidate env (if truthy db then the db else base) (cur_world s)")
      (fastforce simp: pin_repo_checkout_def net_only_refl intro!: net_only_refl(2) split: prod.split)+
qed

lemma net_only_repin: "net_only s (snd (repin env base d db st fo s))"
proof -
  obtain e s1 where e: "pin_repo_checkout env base d db s = (e, s1)" by fastforce
  with net_only_steps(4) [of s env base d db] have "net_only s s1" by simp
  then show ?thesis unfolding repin_def e by (simp add: net_only_refl Let_def)
qed

lemma net_only_fields:
  assumes "net_only s s'"
  shows "sc_offline s' = sc_offline s" "sc_force s' = sc_force s" "sc_cleansrc s' = sc_cleansrc s" "sc_rpc_map s' = sc_rpc_map s"
    "sc_cache s' = sc_cache s" "sc_results s' = sc_results s" "sc_aborted s' = sc_aborted s" "sc_repo_track s' = sc_repo_track s"
proof -
  from assms obtain n where n: "s' = s\<lparr>sc_net := n\<rparr>" unfolding net_only_def by blast
  show "sc_offline s' = sc_offline s" "sc_force s' = sc_force s" "sc_cleansrc s' = sc_cleansrc s" "sc_rpc_map s' = sc_rpc_map s"
    "sc_cache s' = sc_cache s" "sc_results s' = sc_results s" "sc_aborted s' = sc_aborted s" "sc_repo_track s' = sc_repo_track s"
    unfolding n by simp_all
qed

definition others_same :: "'w sched \<Rightarrow> 'w sched \<Rightarrow> bool" where
  "others_same s s' \<longleftrightarrow> sc_offline s' = sc_offline s \<and> sc_force s' = sc_force s \<and> sc_cleansrc s' = sc_cleansrc s \<and>
     sc_rpc_map s' = sc_rpc_map s \<and> sc_results s' = sc_results s"

lemma others_same_net: "net_only s s' \<Longrightarrow> others_same s s'"
  by (simp add: others_same_def net_only_fields)

lemma others_same_steps:
  "others_same s (abort_if_long s)" "others_same s (record_rpc env base d rpc s)" "others_same s (record_head env base h s)"
  by (simp_all add: others_same_def abort_if_long_def record_rpc_def record_head_def)

lemma others_same_trans: "others_same s s' \<Longrightarrow> others_same s' s'' \<Longrightarrow> others_same s s''"
  by (simp add: others_same_def)

lemma net_only_abort: "net_only s t \<Longrightarrow> others_same s (abort_if_long t) \<and> sc_cache (abort_if_long t) = sc_cache s"
  by (simp add: others_same_def net_only_fields abort_if_long_def)


lemma clone_runs: "run_clone env base d source s = (None, s') \<Longrightarrow> lg (sc_net s) < lg (sc_net s')"
  by (cases "source = ''repo''") (auto simp: run_clone_def split: prod.splits dest: clone_grows(1) clone_grows(2))

lemma sync_clone_cases:
  assumes "sync_clone env base d source db s = (r, s')"
  obtains (failed) t where "net_only s t" "s' = t \<or> s' = abort_if_long t" "sr_status r \<in> {Frozen, SRateLimited, SFailed}"
  | (cloned) t where "net_only s t" "lg (sc_net s) < lg (sc_net t)"
      "source = ''repo'' \<or> (\<exists>k n n1. clone_attempts k (se_sys env) base d n n1 = (None, sc_net t))" "r = result base SCloned None (head_commit (se_sys env) (cur_world t) d) None"
      "s' = record_head env base (head_commit (se_sys env) (cur_world t) d)
         (record_rpc env base d (if source \<noteq> ''repo'' then dget (sc_rpc_map t) base else None) t)"
proof -
  obtain e s1 where c: "run_clone env base d source (wait_fetch env s) = (e, s1)" by fastforce
  have n1: "net_only s s1"
    using net_only_trans [OF net_only_steps(2) [of s env] net_only_steps(1) [of "wait_fetch env s" env base d source]] c by simp
  obtain x s2 where p: "(if source = ''repo'' then pin_repo_checkout env base d db s1 else (None, s1)) = (x, s2)" by fastforce
  have n12: "net_only s1 s2" using net_only_steps(4) [of s1 env base d db] net_only_refl(1) [of s1] p by (auto split: if_splits)
  note n2 = net_only_trans [OF n1 n12]
  note run = assms [unfolded sync_clone_def c prod.case]
  show thesis
  proof (cases e)
    case (Some y)
    show thesis
    proof (cases y)
      case (Denied z)
      from run [unfolded Some Denied option.case clone_error.case] show thesis
        by (intro failed [OF n1]) (auto simp: result_def)
    next
      case (CloneFailed m)
      note n3 = net_only_trans [OF n1 net_only_steps(3) [of s1 "''AUR clone 429/503''"]]
      note f = run [unfolded Some CloneFailed option.case clone_error.case]
      show thesis
      proof (cases "source \<noteq> ''repo'' \<and> is_rate_limit_error m")
        case True
        with f show thesis by (intro failed [OF n3]) (auto simp: result_def)
      next
        case False
        with f show thesis by (intro failed [OF n1]) (auto simp: result_def)
      qed
    qed
  next
    case None
    note f = run [unfolded None option.case p prod.case]
    show thesis
    proof (cases x)
      case (Some m)
      from f [unfolded Some option.case] show thesis by (intro failed [OF n2]) (auto simp: result_def)
    next
      case x0: None
      have "lg (sc_net s) < lg (sc_net s1)" using clone_runs [OF c [unfolded None]] by (simp add: log_simps)
      also have "\<dots> \<le> lg (sc_net s2)" using n12 by (simp add: net_only_def)
      finally have g: "lg (sc_net s) < lg (sc_net s2)" .
      have a: "source = ''repo'' \<or> (\<exists>k n n1. clone_attempts k (se_sys env) base d n n1 = (None, sc_net s2))"
        using c [unfolded None] p by (cases "source = ''repo''") (auto simp: run_clone_def aur_clone_def split: prod.splits option.splits, blast)
      from f [unfolded x0 option.case Let_def] show thesis by (intro cloned [OF n2 g a]) auto
    qed
  qed
qed

text \<open>An outcome that counts as synced has a head, except for the pinned checkouts of the repositories.\<close>

definition headed :: "fetch_outcome \<Rightarrow> bool" where
  "headed fo \<longleftrightarrow> (fo_status fo \<in> {GUpToDate, GFetched} \<longrightarrow> fo_after fo \<noteq> None)"

lemma fetch_headed:
  assumes "git_fetch_and_compare sy np base d vcs t n = (Inr fo, n')"
  shows "headed fo"
proof -
  have a: "headed fo" if "after_fetch sy d vcs prev m = (fo, m')" for prev m m'
    using that by (auto simp: after_fetch_def headed_def git_outcome_def Let_def split: if_splits prod.splits reply.splits option.splits)
  from assms show ?thesis
    by (auto simp: git_fetch_and_compare_def Let_def headed_def git_outcome_def split: option.splits if_splits prod.splits reply.splits
        dest!: a [unfolded headed_def])
qed

lemma reset_headed: "reset_diverged env base d fo s = (fo', s') \<Longrightarrow> headed fo \<Longrightarrow> headed fo'"
  by (auto simp: reset_diverged_def headed_def git_outcome_def Let_def split: if_splits prod.splits option.splits)

lemma synced_ran:
  fixes fo fo2 fo3 fo4 :: fetch_outcome
  assumes "refresh_tags env base d st fo s1 = (Inr fo2, s2)" "reset_diverged env base d fo2 s2 = (fo3, s3)"
    "repin env base d db st fo3 s3 = (Inr fo4, s4)" "fo_status fo4 \<in> {GUpToDate, GFetched}"
  shows "fo_status fo \<notin> {GNotARepo, GNoTracking} \<or> lg (sc_net s1) < lg (sc_net s2)"
proof (cases "st \<and> fo_status fo = GNoTracking")
  case True
  with assms(1) show ?thesis by (auto simp: refresh_tags_def Let_def split: prod.splits dest: tags_grow)
next
  case False
  with assms(1) have "fo2 = fo" by (auto simp: refresh_tags_def)
  with assms show ?thesis by (auto simp: reset_diverged_def repin_def split: if_splits)
qed

lemma sync_fetch_cases:
  assumes "sync_fetch env base d rpc source db s = (r, s')"
  obtains (other) t where "net_only s t" "s' = t \<or> s' = abort_if_long t" "sr_status r \<notin> {SFetched, SCloned}"
      "sr_status r = SUpToDate \<longrightarrow> sr_after r = None"
  | (synced) t and fo :: fetch_outcome where "net_only s t" "lg (sc_net s) < lg (sc_net t)" "fo_status fo \<in> {GUpToDate, GFetched}" "source \<noteq> ''repo'' \<longrightarrow> fo_after fo \<noteq> None"
      "r = result base (sync_status_of (fo_status fo)) (fo_before fo) (fo_after fo) (fo_error fo)"
      "s' = record_head env base (fo_after fo) (record_rpc env base d rpc t)"
proof -
  obtain x n where x: "git_fetch_and_compare (se_sys env) (se_policy env) base d (is_vcs_pkgbase base) (sc_fetch_timeout s) (sc_net s) = (x, n)"
    by fastforce
  define s1 where "s1 = s\<lparr>sc_net := n\<rparr>"
  define st where "st = (source = ''repo'' \<and> sc_repo_track s = ''stable'')"
  have n1: "net_only s s1" using fetch_grows(1) [OF x] by (simp add: s1_def net_only_refl)
  note run = assms [unfolded sync_fetch_def x prod.case Let_def, folded s1_def st_def]
  show thesis
  proof (cases x)
    case (Inl e)
    from run [unfolded Inl sum.case] show thesis by (intro other [OF n1]) (auto simp: result_def)
  next
    case (Inr fo)
    note h = fetch_headed [OF x [unfolded Inr]]
    obtain y s2 where y: "refresh_tags env base d st fo s1 = (y, s2)" by fastforce
    have n12: "net_only s1 s2" using net_only_steps(5) [of s1 env base d st fo] y by simp
    note n2 = net_only_trans [OF n1 n12] and Inr0 = Inr
    note run2 = run [unfolded Inr sum.case y prod.case]
    show thesis
    proof (cases y)
      case (Inl res)
      have "sr_status res = SFailed" using y Inl by (auto simp: refresh_tags_def result_def Let_def split: if_splits prod.splits option.splits)
      with run2 [unfolded Inl sum.case prod.case] show thesis by (intro other [OF n2]) auto
    next
      case y2: (Inr fo2)
      have h2: "\<not> st \<Longrightarrow> headed fo2" using y y2 h by (auto simp: refresh_tags_def)
      obtain fo3 s3 where z: "reset_diverged env base d fo2 s2 = (fo3, s3)" by fastforce
      have n23: "net_only s2 s3" using net_only_steps(6) [of s2 env base d fo2] z by simp
      note n3 = net_only_trans [OF n2 n23]
      obtain u s4 where u: "repin env base d db st fo3 s3 = (u, s4)" by fastforce
      have n34: "net_only s3 s4" using net_only_repin [of s3 env base d db st fo3] u by simp
      note n4 = net_only_trans [OF n3 n34]
      note run3 = run2 [unfolded y2 sum.case prod.case z u]
      show thesis
      proof (cases "fo_status fo2 = GRateLimited")
        case True
        with run3 show thesis by (intro other [OF n2]) (auto simp: result_def)
      next
        case False
        note run4 = run3 [unfolded if_not_P [OF False]]
        show thesis
        proof (cases u)
          case (Inl res)
          have "sr_status res \<in> {SDiverged, SFailed}"
            using u Inl by (auto simp: repin_def result_def Let_def split: if_splits prod.splits option.splits)
          with run4 [unfolded Inl sum.case] show thesis by (intro other [OF n4]) auto
        next
          case (Inr fo4)
          have g4: "lg (sc_net s) < lg (sc_net s4)" if "fo_status fo4 \<in> {GUpToDate, GFetched}"
          proof -
            have "lg (sc_net s2) \<le> lg (sc_net s4)" using net_only_trans [OF n23 n34] by (simp add: net_only_def)
            with synced_ran [OF y [unfolded y2] z u [unfolded Inr] that] fetch_grows(2) [OF x Inr0] n1 n12 show ?thesis
              by (auto simp: s1_def net_only_def)
          qed
          have h4: "source \<noteq> ''repo'' \<Longrightarrow> headed fo4"
            using u Inr reset_headed [OF z h2] by (auto simp: repin_def st_def)
          note fin = run4 [unfolded Inr sum.case]
          show thesis
          proof (cases "fo_status fo4 \<in> {GUpToDate, GFetched}")
            case True
            with fin h4 show thesis
              by (intro synced [OF n4 g4 [OF True] True]) (auto simp: finish_fetch_def headed_def)
          next
            case False
            with fin show thesis
              by (intro other [OF n4]) (cases "fo_status fo4"; auto simp: finish_fetch_def result_def)+
          qed
        qed
      qed
    qed
  qed
qed

section \<open>Runs\<close>

inductive sched_step :: "'w sync_env \<Rightarrow> bool \<Rightarrow> (string \<Rightarrow> bool) \<Rightarrow> 'w sched \<Rightarrow> 'w sched \<Rightarrow> bool"
  for env :: "'w sync_env" and forced :: bool and vd :: "string \<Rightarrow> bool" where
  step_request: "sched_request env rq s = (r, s') \<Longrightarrow> is_vcs_pkgbase (rq_base rq) \<longrightarrow> vd (rq_dir rq) \<Longrightarrow> sched_step env forced vd s s'"
| step_many: "sync_many env rqs s = (out, s') \<Longrightarrow> \<forall>rq \<in> set rqs. is_vcs_pkgbase (rq_base rq) \<longrightarrow> vd (rq_dir rq) \<Longrightarrow>
    sched_step env forced vd s s'"
| step_invalidate: "sched_step env forced vd s (invalidate base s)"
| step_flags: "(force \<longrightarrow> forced) \<Longrightarrow> sched_step env forced vd s (update_flags offline cleansrc force track s)"
| step_elapse: "sched_step env forced vd s (s\<lparr>sc_net := (sc_net s)\<lparr>nt_world := w, nt_clock := t\<rparr>\<rparr>)"

abbreviation sched_run :: "'w sync_env \<Rightarrow> bool \<Rightarrow> (string \<Rightarrow> bool) \<Rightarrow> 'w sched \<Rightarrow> 'w sched \<Rightarrow> bool" where
  "sched_run env forced vd \<equiv> (sched_step env forced vd)\<^sup>*\<^sup>*"

lemma sched_run_call:
  "is_vcs_pkgbase (rq_base rq) \<longrightarrow> vd (rq_dir rq) \<Longrightarrow> sched_run env forced vd s (snd (sched_request env rq s))"
  "\<forall>rq \<in> set rqs. is_vcs_pkgbase (rq_base rq) \<longrightarrow> vd (rq_dir rq) \<Longrightarrow> sched_run env forced vd s (snd (sync_many env rqs s))"
  by (rule r_into_rtranclp, rule step_request [OF prod.collapse [symmetric]], simp)
    (rule r_into_rtranclp, rule step_many [OF prod.collapse [symmetric]], simp)

lemma cleansrc_keeps:
  assumes "cleansrc_step env rq s = (r, s')"
  shows "sc_force s' = sc_force s" "sc_offline s' = sc_offline s" "sc_rpc_map s' = sc_rpc_map s" "lg (sc_net s) \<le> lg (sc_net s')"
    "sc_cache s' = sc_cache s \<or> sc_cache s' = meta_delete (rq_base rq) (sc_cache s)"
    "sc_offline s \<Longrightarrow> s' = s"
proof -
  obtain x s1 where x: "purge_checkout env (rq_base rq) (rq_dir rq) s = (x, s1)" by fastforce
  have n: "net_only s s1" using net_only_steps(7) [of s env "rq_base rq" "rq_dir rq"] x by simp
  have "s' = s \<or> s' = s1 \<or> s' = invalidate (rq_base rq) s1"
    using assms x by (auto simp: cleansrc_step_def split: if_splits option.splits)
  with n net_only_fields [OF n] show "sc_force s' = sc_force s" "sc_offline s' = sc_offline s" "sc_rpc_map s' = sc_rpc_map s"
    "lg (sc_net s) \<le> lg (sc_net s')" "sc_cache s' = sc_cache s \<or> sc_cache s' = meta_delete (rq_base rq) (sc_cache s)"
    by (auto simp: invalidate_def net_only_def)
  show "s' = s" if "sc_offline s" using assms that by (auto simp: cleansrc_step_def reclone_blocked_def split: if_splits)
qed

lemma recovery_keeps: "recovery_step env rq s = (r, s') \<Longrightarrow> net_only s s'"
  using net_only_steps(7) [of s env "rq_base rq" "rq_dir rq"] by (auto simp: recovery_step_def net_only_refl split: if_splits)

lemma headed_same: "others_same s t \<Longrightarrow> others_same s (record_head env base h (record_rpc env base d rpc t))"
  by (rule others_same_trans [OF others_same_trans [OF _ others_same_steps(2)] others_same_steps(3)])

lemma clone_keeps: "sync_clone env base d source db s = (r, s') \<Longrightarrow> others_same s s' \<and> lg (sc_net s) \<le> lg (sc_net s')"
  by (erule sync_clone_cases)
    (auto simp: log_simps net_only_abort net_only_def [symmetric] headed_same others_same_net dest: others_same_net; simp add: net_only_def)+

lemma fetch_keeps: "sync_fetch env base d rpc source db s = (r, s') \<Longrightarrow> others_same s s' \<and> lg (sc_net s) \<le> lg (sc_net s')"
  by (erule sync_fetch_cases)
    (auto simp: log_simps net_only_abort net_only_def [symmetric] headed_same others_same_net dest: others_same_net; simp add: net_only_def)+

lemma fetch_or_skip_keeps:
  assumes "fetch_or_skip env rq s = (r, s')"
  shows "others_same s s' \<and> lg (sc_net s) \<le> lg (sc_net s')"
proof -
  have "s' = s \<or> (\<exists>c. s' = s\<lparr>sc_cache := c\<rparr>) \<or>
      (\<exists>rpc. sync_fetch env (rq_base rq) (rq_dir rq) rpc (rq_source rq) (rq_db_name rq) s = (r, s'))"
    using assms by (auto simp: fetch_or_skip_def Let_def split: if_splits option.splits)
  then show ?thesis
  proof (elim disjE exE)
    show ?thesis if "sync_fetch env (rq_base rq) (rq_dir rq) rpc (rq_source rq) (rq_db_name rq) s = (r, s')" for rpc
      using fetch_keeps [OF that] .
  qed (simp_all add: others_same_def)
qed

lemma sync_one_keeps:
  assumes "sync_one env rq s = (r, s')"
  shows "sc_force s' = sc_force s \<and> sc_offline s' = sc_offline s \<and> sc_rpc_map s' = sc_rpc_map s \<and> lg (sc_net s) \<le> lg (sc_net s')"
  using assms
proof (cases rule: sync_one_cases)
  case (leftover s1)
  from cleansrc_keeps [OF leftover(2)] net_only_fields [OF recovery_keeps [OF leftover(4)]] recovery_keeps [OF leftover(4)]
  show ?thesis by (auto simp: net_only_def)
next
  case (clone s1 s2)
  from cleansrc_keeps [OF clone(2)] net_only_fields [OF recovery_keeps [OF clone(4)]] recovery_keeps [OF clone(4)] clone_keeps [OF clone(6)]
  show ?thesis by (auto simp: net_only_def others_same_def)
next
  case (fetch s1)
  from cleansrc_keeps [OF fetch(2)] fetch_or_skip_keeps [OF fetch(7)] show ?thesis by (auto simp: others_same_def)
qed (auto dest: cleansrc_keeps)

lemma sync_one_offline:
  assumes "sync_one env rq s = (r, s')" "sc_offline s"
  shows "s' = s"
  using assms(1)
proof (cases rule: sync_one_cases)
  case idle
  then show ?thesis by simp
qed (use assms(2) cleansrc_keeps(2,6) in \<open>blast+\<close>)

lemma sync_one_aborted: "sync_one env rq s = (r, s') \<Longrightarrow> sc_aborted s \<Longrightarrow> s' = s"
  by (erule sync_one_cases) auto

lemma aur_info_log:
  assumes "aur_info sy np names n = (r, n')"
  shows "nt_log n' = nt_log n \<or> nt_log n' = Rpc_sent names # nt_log n \<and> np_aur_enabled np"
  using assms
  by (auto simp: aur_info_def Let_def log_simps aur_lookups_allowed_def check_policy_def
      split: if_splits prod.splits http_outcome.splits option.splits)

lemma ensure_rpc_keeps:
  assumes "ensure_rpc env bases members s = s'"
  shows "sc_force s' = sc_force s" "sc_offline s' = sc_offline s" "sc_aborted s' = sc_aborted s"
    "sc_offline s \<Longrightarrow> s' = s"
    "nt_log (sc_net s') = nt_log (sc_net s) \<or>
     (\<exists>names. nt_log (sc_net s') = Rpc_sent names # nt_log (sc_net s) \<and> np_aur_enabled (se_policy env))"
proof -
  define names where "names = (let p = filter (\<lambda>p. \<not> dhas (sc_rpc_map s) p) bases in first_of_each (p @ concat (map (\<lambda>p. dget_or [] members p) p)))"
  obtain x n where x: "aur_info (se_sys env) (se_policy env) names (sc_net s) = (x, n)" by fastforce
  have "sc_net s' = sc_net s \<or> sc_net s' = n"
    using x unfolding assms [symmetric] ensure_rpc_def names_def by (auto simp: Let_def split: option.splits)
  with aur_info_log [OF x] show "nt_log (sc_net s') = nt_log (sc_net s) \<or>
     (\<exists>names. nt_log (sc_net s') = Rpc_sent names # nt_log (sc_net s) \<and> np_aur_enabled (se_policy env))" by auto
  show "sc_force s' = sc_force s" "sc_offline s' = sc_offline s" "sc_aborted s' = sc_aborted s" "sc_offline s \<Longrightarrow> s' = s"
    using x unfolding assms [symmetric] ensure_rpc_def names_def by (auto simp: Let_def split: option.splits)
qed

lemma request_ok:
  assumes "sched_request env rq s = (r, s')" "ok_log env forced vd (sc_net s)" "sc_force s \<longrightarrow> forced" "lawful (se_sys env)"
    "is_vcs_pkgbase (rq_base rq) \<longrightarrow> vd (rq_dir rq)"
  shows "ok_log env forced vd (sc_net s')" "sc_force s' = sc_force s"
proof -
  obtain r1 s1 where x: "sync_one env rq s = (r1, s1)" by fastforce
  have "s' = s \<or> sc_net s' = sc_net s1 \<and> sc_force s' = sc_force s1"
    using assms(1) x by (auto simp: sched_request_def split: option.splits)
  with sync_one_ok [OF x assms(2-5)] sync_one_keeps [OF x] assms(2) show "ok_log env forced vd (sc_net s')" "sc_force s' = sc_force s"
    by auto
qed

lemma request_all_ok:
  assumes "request_all env rqs s = (out, s')" "ok_log env forced vd (sc_net s)" "sc_force s \<longrightarrow> forced" "lawful (se_sys env)"
    "\<forall>rq \<in> set rqs. is_vcs_pkgbase (rq_base rq) \<longrightarrow> vd (rq_dir rq)"
  shows "ok_log env forced vd (sc_net s') \<and> sc_force s' = sc_force s"
  using assms
proof (induction rqs arbitrary: s out s')
  case (Cons rq rqs)
  obtain r s1 where r: "sched_request env rq s = (r, s1)" by fastforce
  obtain o1 s2 where o1: "request_all env rqs s1 = (o1, s2)" by fastforce
  have e: "s' = s2" using Cons.prems(1) by (simp add: r o1)
  from Cons.IH [OF o1] request_ok [OF r, of forced vd] Cons.prems(2-5) show ?case unfolding e by simp
qed simp

lemma ensure_rpc_ok:
  assumes "ensure_rpc env bases members s = s'" "ok_log env forced vd (sc_net s)"
  shows "ok_log env forced vd (sc_net s')"
  using ensure_rpc_keeps(5) [OF assms(1)] assms(2) by (auto simp: action_ok_def)

lemma sched_step_ok:
  assumes "sched_step env forced vd s s'" "ok_log env forced vd (sc_net s)" "sc_force s \<longrightarrow> forced" "lawful (se_sys env)"
  shows "ok_log env forced vd (sc_net s') \<and> (sc_force s' \<longrightarrow> forced)"
  using assms(1)
proof cases
  case (step_request rq r)
  with request_ok [OF step_request(1) assms(2-4)] assms(3) show ?thesis by simp
next
  case (step_many rqs out)
  define aur where "aur = filter (\<lambda>r. rq_source r \<in> {''aur'', ''git''} \<and> \<not> dhas (sc_rpc_map s) (rq_base r)) rqs"
  define s1 where "s1 = (if aur \<noteq> [] \<and> \<not> sc_offline s
      then ensure_rpc env (map rq_base aur) (fold (\<lambda>r. dset (rq_base r) (rq_pkgnames r)) aur []) s else s)"
  have all: "request_all env rqs s1 = (out, s')" using step_many(1) unfolding sync_many_def Let_def s1_def aur_def .
  have "ok_log env forced vd (sc_net s1) \<and> sc_force s1 = sc_force s"
    using ensure_rpc_ok [OF refl assms(2)] assms(2) unfolding s1_def by (simp add: ensure_rpc_keeps(1) [OF refl])
  with request_all_ok [OF all, of forced vd] step_many(2) assms(3,4) show ?thesis by simp
qed (use assms(2,3) in \<open>auto simp: invalidate_def update_flags_def\<close>)

lemma sched_run_ok:
  assumes "sched_run env forced vd s s'" "ok_log env forced vd (sc_net s)" "sc_force s \<longrightarrow> forced" "lawful (se_sys env)"
  shows "ok_log env forced vd (sc_net s') \<and> (sc_force s' \<longrightarrow> forced)"
  using assms(1,2,3) by (induction rule: rtranclp_induct) (use sched_step_ok assms(4) in blast)+

lemma new_sched_ok: "ok_log env forced vd (sc_net (new_sched offline cleansrc force track i a ft ct file w t))"
  "sc_force (new_sched offline cleansrc force track i a ft ct file w t) = force"
  "sc_offline (new_sched offline cleansrc force track i a ft ct file w t) = offline"
  "nt_log (sc_net (new_sched offline cleansrc force track i a ft ct file w t)) = []"
  by (simp_all add: new_sched_def)

lemma good_log_at: "good_log R (l1 @ a # l2) \<Longrightarrow> R a l2"
  by (induction l1) simp_all

lemma in_good_log: "good_log R l \<Longrightarrow> a \<in> set l \<Longrightarrow> \<exists>l2. R a l2"
  by (auto simp: in_set_conv_decomp dest: good_log_at)

lemma request_silent:
  "sched_request env rq s = (r, s') \<Longrightarrow> sc_offline s \<or> sc_aborted s \<Longrightarrow>
    sc_net s' = sc_net s \<and> sc_offline s' = sc_offline s \<and> sc_aborted s' = sc_aborted s"
  using sync_one_offline [of env rq s] sync_one_aborted [of env rq s] by (auto simp: sched_request_def split: option.splits prod.splits)

lemma request_all_silent:
  "request_all env rqs s = (out, s') \<Longrightarrow> sc_offline s \<or> sc_aborted s \<Longrightarrow>
    sc_net s' = sc_net s \<and> sc_offline s' = sc_offline s \<and> sc_aborted s' = sc_aborted s"
proof (induction rqs arbitrary: s out s')
  case (Cons rq rqs)
  obtain r s1 where r: "sched_request env rq s = (r, s1)" by fastforce
  obtain o1 s2 where o1: "request_all env rqs s1 = (o1, s2)" by fastforce
  have e: "s' = s2" using Cons.prems(1) by (simp add: r o1)
  from Cons.IH [OF o1] request_silent [OF r Cons.prems(2)] Cons.prems(2) show ?case unfolding e by simp
qed simp

definition silent_step :: "'w sched \<Rightarrow> 'w sched \<Rightarrow> bool" where
  "silent_step s s' \<longleftrightarrow> (sc_offline s \<longrightarrow> sc_offline s') \<and> (sc_aborted s \<longrightarrow> sc_aborted s') \<and>
     (\<exists>new. nt_log (sc_net s') = new @ nt_log (sc_net s) \<and> (\<forall>a \<in> set new. \<exists>names. a = Rpc_sent names) \<and> (sc_offline s \<longrightarrow> new = []))"

lemma silent_log: "nt_log (sc_net s') = nt_log (sc_net s) \<Longrightarrow> sc_offline s \<longrightarrow> sc_offline s' \<Longrightarrow> sc_aborted s \<longrightarrow> sc_aborted s' \<Longrightarrow> silent_step s s'"
  by (auto simp: silent_step_def)

lemma sched_step_silent:
  assumes "sched_step env forced vd s s'" "sc_offline s \<or> sc_aborted s"
  shows "silent_step s s'"
  using assms(1)
proof cases
  case (step_request rq r)
  from request_silent [OF step_request(1) assms(2)] show ?thesis by (intro silent_log) auto
next
  case (step_many rqs out)
  define aur where "aur = filter (\<lambda>r. rq_source r \<in> {''aur'', ''git''} \<and> \<not> dhas (sc_rpc_map s) (rq_base r)) rqs"
  define s0 where "s0 = ensure_rpc env (map rq_base aur) (fold (\<lambda>r. dset (rq_base r) (rq_pkgnames r)) aur []) s"
  define s1 where "s1 = (if aur \<noteq> [] \<and> \<not> sc_offline s then s0 else s)"
  have all: "request_all env rqs s1 = (out, s')" using step_many(1) unfolding sync_many_def Let_def s1_def s0_def aur_def .
  note e = ensure_rpc_keeps [OF s0_def [symmetric]]
  have "silent_step s s1" using e(2-5) assms(2) unfolding s1_def silent_step_def by auto
  moreover from this assms(2) have "sc_offline s1 \<or> sc_aborted s1" by (auto simp: silent_step_def)
  note request_all_silent [OF all this]
  ultimately show ?thesis by (auto simp: silent_step_def)
qed (auto intro!: silent_log simp: invalidate_def update_flags_def)

lemma sched_run_silent:
  assumes "sched_run env forced vd s s'" "sc_offline s \<or> sc_aborted s"
  shows "silent_step s s'"
  using assms(1)
proof (induction rule: rtranclp_induct)
  case (step t u)
  with assms(2) have "sc_offline t \<or> sc_aborted t" by (auto simp: silent_step_def)
  from sched_step_silent [OF step(2) this] step(3) show ?case by (auto simp: silent_step_def)
qed (simp add: silent_step_def)

section \<open>When a fetch is left out\<close>

text \<open>
  The history: what clones and fetches brought.  A member is a pkgbase, the version and the time of
  the AUR's answer, and the head that the checkout had after the sync.
\<close>

type_synonym history = "(string \<times> string \<times> int \<times> string) set"

definition brought :: "sync_request \<Rightarrow> 'w sched \<Rightarrow> 'w sched \<Rightarrow> sync_result \<Rightarrow> history" where
  "brought rq s s' r =
     {(b, v, m, h). b = rq_base rq \<and> rq_source rq \<noteq> ''repo'' \<and> lg (sc_net s) < lg (sc_net s') \<and>
        sr_status r \<in> {SCloned, SFetched, SUpToDate} \<and> sr_after r = Some h \<and>
        (\<exists>e. dget (sc_rpc_map s) b = Some e \<and> rp_version e = Some v \<and> rp_last_modified e = Some m)}"

text \<open>What is relied on: the AUR's entries are complete, and a clone that succeeds has a head.\<close>

definition full_entries :: "'w sys \<Rightarrow> bool" where
  "full_entries sy \<longleftrightarrow> (\<forall>body rs e. sy_decode sy body = Some rs \<longrightarrow> e \<in> set rs \<longrightarrow> rp_version e \<noteq> None \<and> rp_last_modified e \<noteq> None)"

definition clones_have_heads :: "'w sys \<Rightarrow> bool" where
  "clones_have_heads sy \<longleftrightarrow>
     (\<forall>url d t w fin out err w'. sy_act sy [''git'', ''clone'', url, d] t w = (fin, Reply 0 out err, w') \<longrightarrow>
        sy_exists sy (path_join d ''PKGBUILD'') w' \<longrightarrow> head_commit sy w' d \<noteq> None)"

text \<open>Runs of processes that share the cache's file.\<close>

inductive sync_life :: "'w sync_env \<Rightarrow> history \<Rightarrow> 'w sched \<Rightarrow> bool" for env :: "'w sync_env" where
  life_new: "sync_life env {} (new_sched offline cleansrc force track i a ft ct None w t)"
| life_restart: "sync_life env H s \<Longrightarrow> meta_ok (sc_cache s) \<Longrightarrow>
    sync_life env H (new_sched offline cleansrc force track i a ft ct (Some (close_text s)) w t)"
| life_request: "sync_life env H s \<Longrightarrow> sched_request env rq s = (r, s') \<Longrightarrow> sync_life env (H \<union> brought rq s s' r) s'"
| life_rpc: "sync_life env H s \<Longrightarrow> sync_life env H (ensure_rpc env bases members s)"
| life_invalidate: "sync_life env H s \<Longrightarrow> sync_life env H (invalidate base s)"
| life_flags: "sync_life env H s \<Longrightarrow> sync_life env H (update_flags offline cleansrc force track s)"
| life_elapse: "sync_life env H s \<Longrightarrow> sync_life env H (s\<lparr>sc_net := (sc_net s)\<lparr>nt_world := w, nt_clock := t\<rparr>\<rparr>)"

definition backed :: "history \<Rightarrow> meta_cache \<Rightarrow> bool" where
  "backed H c \<longleftrightarrow>
     (\<forall>b e v m h. meta_get c b = Some e \<longrightarrow> dget e ''rpc_version'' = Some (PStr v) \<longrightarrow> dget e ''rpc_last_modified'' = Some (PInt m) \<longrightarrow>
        dget e ''head_commit'' = Some (PStr h) \<longrightarrow> (b, v, m, h) \<in> H)"

lemma meta_get_update:
  "meta_get (meta_update b f c) j = (if j = b then
     Some (fold (\<lambda>(k, v). set_field k v)
        [(''rpc_version'', map_option PStr (mf_version f)), (''rpc_last_modified'', map_option PInt (mf_last_modified f)),
         (''rpc_package_base'', map_option PStr (mf_base f)), (''head_commit'', map_option PStr (mf_head f)),
         (''is_vcs'', map_option PBool (mf_vcs f)), (''pkgbuild_sha256'', map_option PStr (mf_sha256 f)),
         (''last_fetch_at'', map_option PStr (mf_fetched_at f))] (dget_or [] (mc_entries c) b)) else meta_get c j)"
  by (simp add: meta_get_def meta_update_def)

lemma meta_get_delete: "meta_get (meta_delete b c) j = (if j = b then None else meta_get c j)"
  by (simp add: meta_get_def meta_delete_def)

lemma meta_get_forget:
  "meta_get (forget_rpc b c) j = (if j = b then map_option (fold dpop [''rpc_version'', ''rpc_last_modified'', ''rpc_package_base'']) (meta_get c b)
     else meta_get c j)"
  by (simp add: meta_get_def forget_rpc_def split: option.split)

lemma backed_more: "backed H c \<Longrightarrow> H \<subseteq> H' \<Longrightarrow> backed H' c"
  unfolding backed_def by blast

lemma backed_delete: "backed H c \<Longrightarrow> backed H (meta_delete b c)"
  unfolding backed_def meta_get_delete by (metis option.distinct(1))

lemma entry_or: "dget (dget_or [] (mc_entries c) b) k = Some x \<longleftrightarrow> (\<exists>e. meta_get c b = Some e \<and> dget e k = Some x)"
  by (simp add: dget_or_def meta_get_def split: option.split)

text \<open>An update of the time alone.\<close>

lemma backed_touch:
  assumes "backed H c"
  shows "backed H (meta_update b (no_fields\<lparr>mf_fetched_at := x\<rparr>) c)"
  using assms unfolding backed_def meta_get_update
  by (auto simp: no_fields_def entry_or split: if_splits)

text \<open>The two updates of a sync.\<close>

lemma backed_recorded:
  assumes "backed H c" "rp_version e = Some v" "rp_last_modified e = Some m" "(b, v, m, h) \<in> H"
  shows "backed H (meta_update b (no_fields\<lparr>mf_head := Some h, mf_vcs := x, mf_fetched_at := y\<rparr>)
    (meta_update b (no_fields\<lparr>mf_version := rp_version e, mf_last_modified := rp_last_modified e, mf_base := z\<rparr>) c))"
proof -
  define c1 where "c1 = meta_update b (no_fields\<lparr>mf_version := rp_version e, mf_last_modified := rp_last_modified e, mf_base := z\<rparr>) c"
  have "dget (dget_or [] (mc_entries c1) b) ''rpc_version'' = Some (PStr v)"
    "dget (dget_or [] (mc_entries c1) b) ''rpc_last_modified'' = Some (PInt m)" "j \<noteq> b \<Longrightarrow> meta_get c1 j = meta_get c j" for j
    using assms(2,3) by (simp_all add: c1_def meta_update_def no_fields_def meta_get_def)
  with assms(1,4) show ?thesis unfolding c1_def [symmetric] backed_def meta_get_update
    by (auto simp: no_fields_def split: if_splits)
qed

lemma backed_forgotten:
  assumes "backed H c"
  shows "backed H (meta_update b (no_fields\<lparr>mf_head := h, mf_vcs := x, mf_fetched_at := y\<rparr>) (forget_rpc b c))"
proof -
  have "dget (dget_or [] (mc_entries (forget_rpc b c)) b) ''rpc_version'' = None"
    by (simp add: dget_or_def forget_rpc_def split: option.split)
  with assms show ?thesis unfolding backed_def meta_get_update meta_get_forget
    by (auto simp: no_fields_def split: if_splits)
qed

lemma backed_synced:
  assumes "backed H c" "c = sc_cache t" "source \<noteq> ''repo'' \<longrightarrow> hc \<noteq> None" "source = ''repo'' \<longrightarrow> rpc = None"
    "\<And>e. rpc = Some e \<Longrightarrow> rp_version e \<noteq> None \<and> rp_last_modified e \<noteq> None"
    "\<And>e v m h. rpc = Some e \<Longrightarrow> rp_version e = Some v \<Longrightarrow> rp_last_modified e = Some m \<Longrightarrow> hc = Some h \<Longrightarrow> (b, v, m, h) \<in> H"
  shows "backed H (sc_cache (record_head env b hc (record_rpc env b d rpc t)))"
proof (cases "rpc \<noteq> None \<and> rpc_vouches (se_sys env) (cur_world t) d rpc b")
  case True
  then obtain e where e: "rpc = Some e" by blast
  obtain v m h where v: "rp_version e = Some v" "rp_last_modified e = Some m" "hc = Some h" "(b, v, m, h) \<in> H"
    using assms(3-6) e by fastforce
  from backed_recorded [OF assms(1) v(1,2,4)] True e v(3) assms(2) show ?thesis by (simp add: record_head_def record_rpc_def)
next
  case False
  then have "record_rpc env b d rpc t = t\<lparr>sc_cache := forget_rpc b (sc_cache t)\<rparr>" by (auto simp: record_rpc_def)
  with backed_forgotten [OF assms(1)] assms(2) show ?thesis by (simp add: record_head_def)
qed

definition full :: "rpc_entry \<Rightarrow> bool" where
  "full e \<longleftrightarrow> rp_version e \<noteq> None \<and> rp_last_modified e \<noteq> None"

definition full_values :: "(string, rpc_entry) dict \<Rightarrow> bool" where
  "full_values m \<longleftrightarrow> (\<forall>b e. dget m b = Some e \<longrightarrow> full e)"

abbreviation map_full :: "'w sched \<Rightarrow> bool" where
  "map_full s \<equiv> full_values (sc_rpc_map s)"

lemma clone_has_head:
  assumes "clones_have_heads sy"
  shows "clone_attempts k sy b d t n = (None, n') \<Longrightarrow> head_commit sy (nt_world n') d \<noteq> None"
proof (induction k arbitrary: n rule: less_induct)
  case (less k)
  obtain r n1 where r: "run_act sy [''git'', ''clone'', AUR_GIT_BASE @ ''/'' @ b @ ''.git'', d] (Cloned AurClone b d (nt_world n)) n = (r, n1)"
    by fastforce
  from less(2) r show ?case
  proof (cases rule: clone_attempts_cases)
    case (cloned out err)
    from r cloned(3) obtain fin where
      "sy_act sy [''git'', ''clone'', AUR_GIT_BASE @ ''/'' @ b @ ''.git'', d] (nt_clock n) (nt_world n) = (fin, Reply 0 out err, nt_world n1)"
      by (auto simp: run_act_def log_simps split: prod.splits)
    with assms cloned(2,4) show ?thesis unfolding clones_have_heads_def by blast
  qed (use less.IH in auto)
qed

lemma clone_backed:
  assumes "sync_clone env (rq_base rq) (rq_dir rq) (rq_source rq) db s = (r, s')" "backed H (sc_cache s)" "map_full s"
    "clones_have_heads (se_sys env)"
  shows "backed (H \<union> brought rq s s' r) (sc_cache s')"
  using assms(1)
proof (cases rule: sync_clone_cases)
  case (failed t)
  then have "sc_cache s' = sc_cache s" using net_only_abort net_only_fields(5) by blast
  with backed_more [OF assms(2)] show ?thesis by simp
next
  case (cloned t)
  note same = net_only_fields(4,5) [OF cloned(1)]
  define rpc where "rpc = (if rq_source rq \<noteq> ''repo'' then dget (sc_rpc_map t) (rq_base rq) else None)"
  have "rq_source rq \<noteq> ''repo'' \<longrightarrow> head_commit (se_sys env) (cur_world t) (rq_dir rq) \<noteq> None"
    using cloned(3) clone_has_head [OF assms(4)] unfolding cur_world_def by blast
  then show ?thesis
    unfolding cloned(5) rpc_def [symmetric]
    by (rule backed_synced [OF backed_more [OF assms(2) Un_upper1] same(2) [symmetric]])
      (use assms(3) same cloned in \<open>auto simp: rpc_def full_values_def full_def brought_def log_simps result_def split: if_splits\<close>)
qed

lemma fetch_backed:
  assumes "fetch_or_skip env rq s = (r, s')" "backed H (sc_cache s)" "map_full s"
  shows "backed (H \<union> brought rq s s' r) (sc_cache s')"
proof -
  define rpc where "rpc = (if rq_source rq \<noteq> ''repo'' then dget (sc_rpc_map s) (rq_base rq) else None)"
  note b = backed_more [OF assms(2) Un_upper1]
  consider "sc_cache s' = sc_cache s" | x where "sc_cache s' = meta_update (rq_base rq) (no_fields\<lparr>mf_fetched_at := x\<rparr>) (sc_cache s)"
    | "sync_fetch env (rq_base rq) (rq_dir rq) rpc (rq_source rq) (rq_db_name rq) s = (r, s')"
    using assms(1) unfolding fetch_or_skip_def Let_def rpc_def by (auto split: if_splits option.splits)
  then show ?thesis
  proof cases
    case 1
    with b show ?thesis by simp
  next
    case (2 x)
    show ?thesis unfolding 2 by (rule backed_touch [OF b])
  next
    case 3
    then show ?thesis
    proof (cases rule: sync_fetch_cases)
      case (other t)
      then have "sc_cache s' = sc_cache s" using net_only_abort net_only_fields(5) by blast
      with b show ?thesis by simp
    next
      case (synced t fo)
      note same = net_only_fields(4,5) [OF synced(1)]
      show ?thesis
        unfolding synced(6)
        by (rule backed_synced [OF b same(2) [symmetric] synced(4)])
          (use assms(3) same synced in \<open>auto simp: rpc_def full_values_def full_def brought_def log_simps result_def split: if_splits\<close>)
    qed
  qed
qed

lemma brought_from: "lg (sc_net s) \<le> lg (sc_net s1) \<Longrightarrow> sc_rpc_map s1 = sc_rpc_map s \<Longrightarrow> brought rq s1 s' r \<subseteq> brought rq s s' r"
  by (auto simp: brought_def)

lemma sync_one_backed:
  assumes "sync_one env rq s = (r, s')" "backed H (sc_cache s)" "map_full s" "clones_have_heads (se_sys env)"
  shows "backed (H \<union> brought rq s s' r) (sc_cache s')"
proof -
  have clean: "backed H (sc_cache s1)" "map_full s1" "sc_rpc_map s1 = sc_rpc_map s" "lg (sc_net s) \<le> lg (sc_net s1)"
    if "cleansrc_step env rq s = (x, s1)" for x s1
    using cleansrc_keeps(3,4,5) [OF that] backed_delete [OF assms(2)] assms(2,3) by auto
  from assms(1) show ?thesis
  proof (cases rule: sync_one_cases)
    case idle
    with backed_more [OF assms(2)] show ?thesis by simp
  next
    case refused
    from backed_more [OF clean(1) [OF refused(2)]] show ?thesis by simp
  next
    case offline
    from backed_more [OF clean(1) [OF offline(2)]] show ?thesis by simp
  next
    case (leftover s1)
    from backed_more [OF clean(1) [OF leftover(2)]] net_only_fields(5) [OF recovery_keeps [OF leftover(4)]] show ?thesis by simp
  next
    case (clone s1 s2)
    note c = clean [OF clone(2)] and k = recovery_keeps [OF clone(4)]
    have "map_full s2" "backed H (sc_cache s2)" using c net_only_fields(4,5) [OF k] by simp_all
    from clone_backed [OF clone(6) this(2,1) assms(4)] show ?thesis
      by (rule backed_more) (use brought_from [of s s2 rq s' r] c k net_only_fields(4) [OF k] in \<open>auto simp: net_only_def\<close>)
  next
    case (fetch s1)
    note c = clean [OF fetch(2)]
    from fetch_backed [OF fetch(7) c(1,2)] show ?thesis
      by (rule backed_more) (use brought_from [of s s1 rq s' r] c in auto)
  qed
qed

lemma full_values_dset: "full_values m \<Longrightarrow> full e \<Longrightarrow> full_values (dset b e m)"
  by (auto simp: full_values_def)

lemma full_values_setdefault: "full_values m \<Longrightarrow> full e \<Longrightarrow> full_values (dsetdefault b e m)"
  by (auto simp: full_values_def dsetdefault_def map_add_def split: option.splits if_splits)

lemma full_members: "full_values m \<Longrightarrow> dict_ok m \<Longrightarrow> (n, e) \<in> set m \<Longrightarrow> full e"
  unfolding full_values_def using member_get by metis

lemma found_full:
  "\<forall>r \<in> set rs. full r \<Longrightarrow> full_values d \<Longrightarrow> dict_ok d \<Longrightarrow>
    full_values (fold (\<lambda>r. dset (rp_name r) r) rs d) \<and> dict_ok (fold (\<lambda>r. dset (rp_name r) r) rs d)"
  by (induction rs arbitrary: d) (simp_all add: full_values_dset)

lemma fold_full:
  assumes "\<forall>p \<in> set xs. full (snd p)" "full_values m" "\<And>p m. full (snd p) \<Longrightarrow> full_values m \<Longrightarrow> full_values (f p m)"
  shows "full_values (fold f xs m)"
  using assms(1,2) by (induction xs arbitrary: m) (auto intro: assms(3))

lemma add_rpc_full:
  assumes "full_values results" "dict_ok results" "full_values m"
  shows "full_values (add_rpc wanted results m)"
proof -
  have "\<forall>p \<in> set results. full (snd p)" using full_members [OF assms(1,2)] by auto
  then show ?thesis
    unfolding add_rpc_def
    by (intro fold_full assms(3)) (auto split: option.split intro: full_values_dset full_values_setdefault)
qed

lemma aur_info_full:
  assumes "aur_info sy np names n = (Some results, n')" "full_entries sy"
  shows "full_values results \<and> dict_ok results"
proof -
  have nil: "full_values [] \<and> dict_ok []" by (simp add: full_values_def dict_ok_def)
  obtain l sent fin penalty out where h: "http_get_with_rate_limit (sy_sleep sy) (sy_http_date sy) (sy_wall sy) (sy_http sy names)
      (nt_limiter n) (nt_clock n) = (l, sent, fin, penalty, out)" by (metis prod.collapse)
  have "results = [] \<or> (\<exists>body rs. sy_decode sy body = Some rs \<and> results = found_by_name rs)"
    using assms(1) unfolding aur_info_def h Let_def prod.case
    by (cases out) (auto split: if_splits option.splits)
  moreover have "full_values (found_by_name rs) \<and> dict_ok (found_by_name rs)" if "sy_decode sy body = Some rs" for body rs
    unfolding found_by_name_def using that assms(2) nil
    by (intro found_full) (auto simp: full_entries_def full_def)
  ultimately show ?thesis using nil by blast
qed

lemma ensure_rpc_full:
  assumes "ensure_rpc env bases members s = s'" "full_entries (se_sys env)"
  shows "full_values (sc_rpc_map s) \<Longrightarrow> full_values (sc_rpc_map s')" "mc_entries (sc_cache s') = mc_entries (sc_cache s)"
proof -
  define pending where "pending = filter (\<lambda>p. \<not> dhas (sc_rpc_map s) p) bases"
  define names where "names = first_of_each (pending @ concat (map (\<lambda>p. dget_or [] members p) pending))"
  obtain x n where x: "aur_info (se_sys env) (se_policy env) names (sc_net s) = (x, n)" by fastforce
  have m: "sc_rpc_map s' = sc_rpc_map s \<or> (\<exists>results. x = Some results \<and> sc_rpc_map s' = add_rpc pending results (sc_rpc_map s))"
    using x unfolding assms(1) [symmetric] ensure_rpc_def names_def pending_def
    by (cases x) (auto simp: Let_def)
  show "full_values (sc_rpc_map s')" if "full_values (sc_rpc_map s)"
    using m add_rpc_full [OF _ _ that] aur_info_full [OF _ assms(2)] x that by auto
  show "mc_entries (sc_cache s') = mc_entries (sc_cache s)"
    using x unfolding assms(1) [symmetric] ensure_rpc_def names_def pending_def
    by (cases x) (auto simp: Let_def mark_rpc_sync_def)
qed

lemma backed_entries: "mc_entries c = mc_entries c' \<Longrightarrow> backed H c = backed H c'"
  by (simp add: backed_def meta_get_def)

lemma backed_reload:
  assumes "backed H c" "meta_ok c"
  shows "backed H (load_meta (Some (serialize_meta c)))"
proof -
  have "(b, v, m, h) \<in> H" if "meta_get (reread_meta c) b = Some e" "dget e ''rpc_version'' = Some (PStr v)"
    "dget e ''rpc_last_modified'' = Some (PInt m)" "dget e ''head_commit'' = Some (PStr h)" for b e v m h
  proof -
    from reread_entry [OF assms(2), of _ b] that(1) obtain e' where e': "meta_get c b = Some e'" "\<And>k. dget e' k = dget e k"
      by (cases "meta_get c b") fastforce+
    with assms(1) that(2-4) show ?thesis unfolding backed_def by metis
  qed
  then show ?thesis unfolding load_serialize_meta [OF assms(2)] backed_def by blast
qed

lemma sync_life_backed:
  assumes "sync_life env H s" "full_entries (se_sys env)" "clones_have_heads (se_sys env)"
  shows "backed H (sc_cache s) \<and> map_full s"
  using assms(1)
proof (induction rule: sync_life.induct)
  case (life_new offline cleansrc force track i a ft ct w t)
  show ?case by (simp add: new_sched_def backed_def full_values_def load_meta_def empty_cache_def meta_get_def)
next
  case (life_restart H s)
  with backed_reload show ?case by (simp add: new_sched_def full_values_def close_text_def)
next
  case (life_request H s rq r s')
  obtain r1 s1 where x: "sync_one env rq s = (r1, s1)" by fastforce
  have "s' = s \<or> r1 = r \<and> sc_cache s' = sc_cache s1 \<and> sc_rpc_map s' = sc_rpc_map s1 \<and> sc_net s' = sc_net s1"
    using life_request(2) x by (auto simp: sched_request_def split: option.splits)
  with sync_one_backed [OF x _ _ assms(3)] sync_one_keeps [OF x] life_request(3) backed_more [of H _ "H \<union> brought rq s s r"]
  show ?case by (auto simp: brought_def)
next
  case (life_rpc H s bases members)
  with ensure_rpc_full [OF refl assms(2)] backed_entries show ?case by blast
next
  case (life_invalidate H s base)
  then show ?case by (simp add: invalidate_def backed_delete)
qed (simp_all add: update_flags_def)

text \<open>A fetch that was left out.\<close>

lemma skipped_fetch:
  assumes "fetch_or_skip env rq s = (r, s')" "sr_status r = SUpToDate" "sr_after r = Some h" "lg (sc_net s') \<le> lg (sc_net s)"
  obtains e m where "rq_source rq \<noteq> ''repo''" "dget (sc_rpc_map s) (rq_base rq) = Some e" "meta_get (sc_cache s) (rq_base rq) = Some m"
    "map_option PStr (rp_version e) = dget m ''rpc_version''" "map_option PInt (rp_last_modified e) = dget m ''rpc_last_modified''"
    "dget m ''head_commit'' = Some (PStr h)" "rpc_vouches (se_sys env) (cur_world s) (rq_dir rq) (Some e) (rq_base rq)"
    "head_commit (se_sys env) (cur_world s) (rq_dir rq) = Some h"
proof -
  define rpc where "rpc = (if rq_source rq \<noteq> ''repo'' then dget (sc_rpc_map s) (rq_base rq) else None)"
  let ?head = "head_commit (se_sys env) (cur_world s) (rq_dir rq)"
  have "\<not> sync_fetch env (rq_base rq) (rq_dir rq) rpc (rq_source rq) (rq_db_name rq) s = (r, s')"
  proof
    assume "sync_fetch env (rq_base rq) (rq_dir rq) rpc (rq_source rq) (rq_db_name rq) s = (r, s')"
    then show False using assms(2-4) by (cases rule: sync_fetch_cases) (auto simp: log_simps)
  qed
  with assms(1-3) have sc: "can_short_circuit rpc (meta_get (sc_cache s) (rq_base rq)) ?head"
      "rpc_vouches (se_sys env) (cur_world s) (rq_dir rq) rpc (rq_base rq)" "?head = Some h"
    unfolding fetch_or_skip_def Let_def rpc_def [symmetric] by (auto simp: result_def split: if_splits option.splits)
  then obtain e m where "rpc = Some e" "meta_get (sc_cache s) (rq_base rq) = Some m" by (auto simp: can_short_circuit_def split: option.splits)
  with sc that show thesis by (auto simp: can_short_circuit_def rpc_def split: if_splits)
qed

lemma skipped_one:
  assumes "sync_one env rq s = (r, s')" "sr_status r = SUpToDate" "sr_after r = Some h" "nt_log (sc_net s') = nt_log (sc_net s)"
  obtains s1 where "cleansrc_step env rq s = (None, s1)" "fetch_or_skip env rq s1 = (r, s')" "lg (sc_net s') \<le> lg (sc_net s1)"
  using assms(1)
proof (cases rule: sync_one_cases)
  case refused
  then show thesis using assms(2) that by (auto simp: cleansrc_step_def reclone_blocked_def purge_checkout_def result_def
      split: if_splits option.splits prod.splits)
next
  case offline
  then show thesis using assms(1,2) by (auto simp: sync_one_def Let_def result_def split: if_splits)
next
  case (leftover s1)
  then show thesis using assms(2) by (auto simp: recovery_step_def purge_checkout_def result_def split: if_splits option.splits prod.splits)
next
  case (clone s1 s2)
  from clone(6) show thesis using assms(2) by (cases rule: sync_clone_cases) (auto simp: result_def)
next
  case (fetch s1)
  from cleansrc_keeps(4) [OF fetch(2)] assms(4) that [OF fetch(2,7)] show thesis by simp
qed (use assms(2) in auto)

lemma skip_is_backed:
  assumes "sync_life env H s" "full_entries (se_sys env)" "clones_have_heads (se_sys env)"
    "sync_one env rq s = (r, s')" "sr_status r = SUpToDate" "sr_after r = Some h" "nt_log (sc_net s') = nt_log (sc_net s)"
  shows "\<exists>e v m. dget (sc_rpc_map s) (rq_base rq) = Some e \<and> rp_version e = Some v \<and> rp_last_modified e = Some m \<and>
    (rq_base rq, v, m, h) \<in> H"
proof -
  note b = sync_life_backed [OF assms(1-3)]
  from skipped_one [OF assms(4-7)] obtain s1 where c: "cleansrc_step env rq s = (None, s1)"
    and f: "fetch_or_skip env rq s1 = (r, s')" "lg (sc_net s') \<le> lg (sc_net s1)" by blast
  from skipped_fetch [OF f(1) assms(5,6) f(2)] obtain e m where e: "dget (sc_rpc_map s1) (rq_base rq) = Some e"
    "meta_get (sc_cache s1) (rq_base rq) = Some m" "map_option PStr (rp_version e) = dget m ''rpc_version''"
    "map_option PInt (rp_last_modified e) = dget m ''rpc_last_modified''" "dget m ''head_commit'' = Some (PStr h)" by blast
  have s1: "backed H (sc_cache s1)" "sc_rpc_map s1 = sc_rpc_map s"
    using cleansrc_keeps(3,5) [OF c] b backed_delete by auto
  from b e(1) s1(2) have "full e" by (auto simp: full_values_def)
  then obtain v l where v: "rp_version e = Some v" "rp_last_modified e = Some l" by (auto simp: full_def)
  with e(3,4) have "dget m ''rpc_version'' = Some (PStr v)" "dget m ''rpc_last_modified'' = Some (PInt l)" by simp_all
  with s1(1) e(2,5) have "(rq_base rq, v, l, h) \<in> H" unfolding backed_def by blast
  with e(1) v s1(2) show ?thesis by auto
qed

text \<open>What a sync writes down.\<close>

definition knows :: "meta_cache \<Rightarrow> string \<Rightarrow> string \<Rightarrow> int \<Rightarrow> string \<Rightarrow> bool" where
  "knows c b v m h \<longleftrightarrow>
     (\<exists>e. meta_get c b = Some e \<and> dget e ''rpc_version'' = Some (PStr v) \<and> dget e ''rpc_last_modified'' = Some (PInt m) \<and>
        dget e ''head_commit'' = Some (PStr h))"

lemma knows_touch: "knows c b v m h \<Longrightarrow> knows (meta_update b (no_fields\<lparr>mf_fetched_at := x\<rparr>) c) b v m h"
  by (auto simp: knows_def meta_get_update no_fields_def dget_or_def meta_get_def [symmetric])

lemma recorded_known:
  assumes "rpc = Some e" "rp_version e = Some v" "rp_last_modified e = Some m" "rpc_vouches (se_sys env) (cur_world t) d rpc b"
  shows "knows (sc_cache (record_head env b (Some h) (record_rpc env b d rpc t))) b v m h"
  using assms by (simp add: knows_def record_head_def record_rpc_def meta_get_update no_fields_def) (simp add: meta_update_def no_fields_def)

definition synced_as :: "sync_request \<Rightarrow> 'w sched \<Rightarrow> sync_result \<Rightarrow> string \<Rightarrow> int \<Rightarrow> string \<Rightarrow> bool" where
  "synced_as rq s r v m h \<longleftrightarrow> sr_status r \<in> {SCloned, SFetched, SUpToDate} \<and> sr_after r = Some h \<and> rq_source rq \<noteq> ''repo'' \<and>
     (\<exists>e. dget (sc_rpc_map s) (rq_base rq) = Some e \<and> rp_version e = Some v \<and> rp_last_modified e = Some m)"

lemma fetch_known:
  assumes "fetch_or_skip env rq s = (r, s')" "synced_as rq s r v m h"
    "rpc_vouches (se_sys env) (cur_world s') (rq_dir rq) (dget (sc_rpc_map s) (rq_base rq)) (rq_base rq)"
  shows "knows (sc_cache s') (rq_base rq) v m h"
proof -
  let ?b = "rq_base rq" and ?rpc = "dget (sc_rpc_map s) (rq_base rq)"
  from assms(2) obtain e where e: "?rpc = Some e" "rp_version e = Some v" "rp_last_modified e = Some m"
    and r: "sr_status r \<in> {SCloned, SFetched, SUpToDate}" "sr_after r = Some h" "rq_source rq \<noteq> ''repo''" by (auto simp: synced_as_def)
  show ?thesis
  proof (cases "sync_fetch env ?b (rq_dir rq) ?rpc (rq_source rq) (rq_db_name rq) s = (r, s')")
    case True
    then show ?thesis
    proof (cases rule: sync_fetch_cases)
      case (synced t fo)
      from synced(5) r(2) have h: "fo_after fo = Some h" by (simp add: result_def)
      have "rpc_vouches (se_sys env) (cur_world t) (rq_dir rq) ?rpc ?b" using assms(3) unfolding synced(6) cur_world_def by (simp add: log_simps)
      from recorded_known [OF e this] show ?thesis unfolding synced(6) h .
    qed (use r in auto)
  next
    case False
    with assms(1) r have sc: "can_short_circuit ?rpc (meta_get (sc_cache s) ?b) (Some h)"
        "\<exists>x. sc_cache s' = meta_update ?b (no_fields\<lparr>mf_fetched_at := x\<rparr>) (sc_cache s)"
      unfolding fetch_or_skip_def Let_def by (auto simp: result_def split: if_splits option.splits)
    from sc(1) e have "knows (sc_cache s) ?b v m h" by (auto simp: can_short_circuit_def knows_def split: option.splits)
    with sc(2) knows_touch show ?thesis by auto
  qed
qed

lemma clone_known:
  assumes "sync_clone env (rq_base rq) (rq_dir rq) (rq_source rq) db s = (r, s')" "synced_as rq s r v m h"
    "rpc_vouches (se_sys env) (cur_world s') (rq_dir rq) (dget (sc_rpc_map s) (rq_base rq)) (rq_base rq)"
  shows "knows (sc_cache s') (rq_base rq) v m h"
proof -
  let ?b = "rq_base rq" and ?rpc = "dget (sc_rpc_map s) (rq_base rq)"
  from assms(2) obtain e where e: "?rpc = Some e" "rp_version e = Some v" "rp_last_modified e = Some m"
    and r: "sr_status r \<in> {SCloned, SFetched, SUpToDate}" "sr_after r = Some h" "rq_source rq \<noteq> ''repo''" by (auto simp: synced_as_def)
  from assms(1) show ?thesis
  proof (cases rule: sync_clone_cases)
    case (failed t)
    with r show ?thesis by auto
  next
    case (cloned t)
    from cloned(4) r(2) have h: "head_commit (se_sys env) (cur_world t) (rq_dir rq) = Some h" by (simp add: result_def)
    have "rpc_vouches (se_sys env) (cur_world t) (rq_dir rq) ?rpc ?b" using assms(3) unfolding cloned(5) cur_world_def by (simp add: log_simps)
    from recorded_known [OF e this] show ?thesis unfolding cloned(5) h net_only_fields(4) [OF cloned(1)] using r(3) by simp
  qed
qed

lemma sync_one_known:
  assumes "sync_one env rq s = (r, s')" "synced_as rq s r v m h"
    "rpc_vouches (se_sys env) (cur_world s') (rq_dir rq) (dget (sc_rpc_map s) (rq_base rq)) (rq_base rq)"
    "\<not> sc_offline s"
  shows "knows (sc_cache s') (rq_base rq) v m h"
  using assms(1)
proof (cases rule: sync_one_cases)
  case refused
  then show ?thesis using assms(2)
    by (auto simp: synced_as_def cleansrc_step_def reclone_blocked_def purge_checkout_def result_def split: if_splits option.splits prod.splits)
next
  case offline
  then show ?thesis using cleansrc_keeps(2) [OF offline(2)] assms(4) by simp
next
  case (leftover s1)
  then show ?thesis using assms(2)
    by (auto simp: synced_as_def recovery_step_def purge_checkout_def result_def split: if_splits option.splits prod.splits)
next
  case (clone s1 s2)
  have m: "sc_rpc_map s2 = sc_rpc_map s"
    using cleansrc_keeps(3) [OF clone(2)] net_only_fields(4) [OF recovery_keeps [OF clone(4)]] by simp
  show ?thesis using clone_known [OF clone(6)] assms(2,3) m by (simp add: synced_as_def)
next
  case (fetch s1)
  show ?thesis using fetch_known [OF fetch(7)] assms(2,3) cleansrc_keeps(3) [OF fetch(2)] by (simp add: synced_as_def)
qed (use assms(2) in \<open>auto simp: synced_as_def\<close>)

text \<open>A process that reads the saved cache and hears the same from the AUR.\<close>

lemma knows_reload:
  assumes "knows c b v m h" "meta_ok c"
  shows "knows (load_meta (Some (serialize_meta c))) b v m h"
proof -
  from assms(1) obtain e where e: "meta_get c b = Some e" "dget e ''rpc_version'' = Some (PStr v)"
    "dget e ''rpc_last_modified'' = Some (PInt m)" "dget e ''head_commit'' = Some (PStr h)" unfolding knows_def by blast
  from reread_entry [OF assms(2), of _ b] e(1) obtain e' where "meta_get (reread_meta c) b = Some e'" "\<And>k. dget e' k = dget e k"
    by (cases "meta_get (reread_meta c) b") fastforce+
  with e show ?thesis unfolding load_serialize_meta [OF assms(2)] knows_def by simp
qed

lemma knows_entries: "mc_entries c = mc_entries c' \<Longrightarrow> knows c = knows c'"
  by (simp add: knows_def meta_get_def fun_eq_iff)

lemma sync_skips:
  assumes "knows (sc_cache s) (rq_base rq) v m h" "dget (sc_rpc_map s) (rq_base rq) = Some e"
    "rp_version e = Some v" "rp_last_modified e = Some m" "rpc_vouches (se_sys env) (cur_world s) (rq_dir rq) (Some e) (rq_base rq)"
    "head_commit (se_sys env) (cur_world s) (rq_dir rq) = Some h" "sy_is_dir (se_sys env) (rq_dir rq) (cur_world s)"
    "sy_exists (se_sys env) (path_join (rq_dir rq) ''PKGBUILD'') (cur_world s)" "np_aur_enabled (se_policy env)"
    "is_vcs_pkgbase (rq_base rq) \<longrightarrow> \<not> np_frozen (se_policy env) \<or> rq_base rq \<in> set (np_thawed (se_policy env))"
    "rq_source rq \<notin> {''repo'', ''local''}" "\<not> rq_force rq" "\<not> sc_cleansrc s" "\<not> sc_offline s" "\<not> sc_aborted s"
  shows "\<exists>s'. sync_one env rq s = (result (rq_base rq) SUpToDate (Some h) (Some h) None, s') \<and> sc_net s' = sc_net s"
proof -
  have c: "cleansrc_step env rq s = (None, s)" "recovery_step env rq s = (None, s)" using assms by (simp_all add: cleansrc_step_def recovery_step_def)
  have one: "sync_one env rq s = fetch_or_skip env rq s" unfolding sync_one_def using assms by (simp add: Let_def c)
  have "can_short_circuit (Some e) (meta_get (sc_cache s) (rq_base rq)) (Some h)"
    using assms(1,3,4) by (auto simp: knows_def can_short_circuit_def)
  moreover have "(if is_vcs_pkgbase (rq_base rq) then check_policy (se_policy env) SourceFetch (Some (rq_base rq)) else None) = None"
    using assms(10) by (simp add: check_policy_def)
  ultimately show ?thesis unfolding one fetch_or_skip_def Let_def using assms by simp
qed


lemma ensure_rpc_more:
  assumes "ensure_rpc env bases members s = s'"
  shows "cur_world s' = cur_world s" "sc_cleansrc s' = sc_cleansrc s" "sc_results s' = sc_results s"
proof -
  define pending where "pending = filter (\<lambda>p. \<not> dhas (sc_rpc_map s) p) bases"
  define names where "names = first_of_each (pending @ concat (map (\<lambda>p. dget_or [] members p) pending))"
  obtain x n where x: "aur_info (se_sys env) (se_policy env) names (sc_net s) = (x, n)" by fastforce
  have "nt_world n = nt_world (sc_net s)"
    using x by (auto simp: aur_info_def Let_def log_simps split: if_splits prod.splits http_outcome.splits option.splits)
  then show "cur_world s' = cur_world s" "sc_cleansrc s' = sc_cleansrc s" "sc_results s' = sc_results s"
    using x unfolding assms(1) [symmetric] ensure_rpc_def names_def pending_def cur_world_def by (cases x; auto simp: Let_def)+
qed

end
