(* ===== verification/SyncProps.thy ===== *)
theory SyncProps
  imports SyncRuns
begin

text \<open>
  The properties of the source sync, and a small world in which their hypotheses hold.
\<close>

section \<open>A sample cur_world\<close>

text \<open>A world of paths, in which every command succeeds and every checkout is of the AUR.\<close>

definition sample_entry :: "string \<Rightarrow> rpc_entry" where
  "sample_entry n = \<lparr>rp_name = n, rp_version = Some ''1.0-1'', rp_last_modified = Some 7, rp_base = Some n\<rparr>"

definition sample_look :: "string list \<Rightarrow> string list \<Rightarrow> int \<times> string" where
  "sample_look cmd w =
     (let args = drop 3 cmd in
      if args = [''rev-parse'', ''HEAD''] \<or> args = [''rev-parse'', ''FETCH_HEAD''] then (0, ''c0ffee'')
      else if take 1 args = [''rev-parse''] then (0, ''origin/master'')
      else if args = [''remote'', ''get-url'', ''origin''] then (0, ''https://aur.archlinux.org/'' @ path_name (cmd ! 2) @ ''.git'')
      else (1, []))"

definition sample_act :: "string list \<Rightarrow> rat \<Rightarrow> string list \<Rightarrow> rat \<times> reply \<times> string list" where
  "sample_act cmd t w =
     (t + 1, Reply 0 [] [],
      (if take 2 cmd = [''git'', ''clone''] then (let d = cmd ! 3 in [d, path_join d ''.git'', path_join d ''PKGBUILD''] @ w) else w))"

definition sample_sys :: "string list sys" where
  "sample_sys =
     \<lparr>sy_look = sample_look, sy_act = sample_act, sy_exists = (\<lambda>p w. p \<in> set w), sy_is_dir = (\<lambda>p w. p \<in> set w),
      sy_list = (\<lambda>p w. []), sy_inside = (\<lambda>a b w. False), sy_remove = (\<lambda>p w. filter (\<lambda>q. q \<noteq> p) w), sy_discard = (\<lambda>p w. w),
      sy_sleep = (\<lambda>t d. t + d), sy_http = (\<lambda>names t. (t + 1, Body ''one'')), sy_http_date = (\<lambda>d. None), sy_wall = 0,
      sy_decode = (\<lambda>body. Some [sample_entry ''foo''])\<rparr>"

definition sample_env :: "string list sync_env" where
  "sample_env =
     \<lparr>se_sys = sample_sys, se_policy = \<lparr>np_frozen = True, np_thawed = [''foo''], np_aur_enabled = True\<rparr>, se_srcdest = None,
      se_candidate = (\<lambda>b w. None), se_now = (\<lambda>t. ''now'')\<rparr>"

definition sample_request :: sync_request where
  "sample_request = \<lparr>rq_base = ''foo'', rq_dir = ''/src/foo'', rq_source = ''aur'', rq_force = False, rq_db_name = None, rq_pkgnames = []\<rparr>"

abbreviation sample_start :: "string option \<Rightarrow> string list \<Rightarrow> string list sched" where
  "sample_start file w \<equiv> new_sched False False False ''stable'' None None None None file w 0"

lemma sample_lawful: "lawful sample_sys"
  by (simp add: lawful_def sample_sys_def)

lemma sample_full: "full_entries sample_sys"
  by (simp add: full_entries_def sample_sys_def sample_entry_def)

lemma sample_head: "head_commit sample_sys w d = Some ''c0ffee''"
proof -
  have "py_strip ''c0ffee'' = ''c0ffee''" by code_simp
  then show ?thesis by (simp add: head_commit_def rev_parse_def sample_sys_def sample_look_def git_def)
qed

lemma sample_heads: "clones_have_heads sample_sys"
  by (simp add: clones_have_heads_def sample_head)

definition sample_asked :: "string list sched \<Rightarrow> string list sched" where
  "sample_asked s = ensure_rpc sample_env [''foo''] [] s"

definition sample_cloned :: "string list sched" where
  "sample_cloned = snd (sched_request sample_env sample_request (sample_asked (sample_start None [])))"

definition sample_again :: "string list sched" where
  "sample_again = sample_asked (sample_start (Some (close_text sample_cloned)) (cur_world sample_cloned))"

definition seen :: "sync_result \<times> 'w sched \<Rightarrow> sync_result \<times> 'w action list \<times> meta_cache \<times> 'w" where
  "seen rs = (fst rs, nt_log (sc_net (snd rs)), sc_cache (snd rs), cur_world (snd rs))"

lemma sample_clone_seen:
  "seen (sched_request sample_env sample_request (sample_asked (sample_start None []))) =
    (result ''foo'' SCloned None (Some ''c0ffee'') None, [Cloned AurClone ''foo'' ''/src/foo'' [], Rpc_sent [''foo'']],
     \<lparr>mc_entries = [(''foo'', [(''rpc_version'', PStr ''1.0-1''), (''rpc_last_modified'', PInt 7), (''rpc_package_base'', PStr ''foo''),
      (''head_commit'', PStr ''c0ffee''), (''is_vcs'', PBool False), (''last_fetch_at'', PStr ''now'')])], mc_rpc_at = Some ''now''\<rparr>,
     [''/src/foo'', ''/src/foo/.git'', ''/src/foo/PKGBUILD''])"
  by code_simp

lemma sample_clone_result:
  "sched_request sample_env sample_request (sample_asked (sample_start None [])) = (result ''foo'' SCloned None (Some ''c0ffee'') None, sample_cloned)"
  using sample_clone_seen by (auto simp: seen_def sample_cloned_def prod_eq_iff)

lemma sample_clone_log: "nt_log (sc_net sample_cloned) = [Cloned AurClone ''foo'' ''/src/foo'' [], Rpc_sent [''foo'']]"
  "cur_world sample_cloned = [''/src/foo'', ''/src/foo/.git'', ''/src/foo/PKGBUILD'']"
  using sample_clone_seen by (auto simp: seen_def sample_cloned_def)

lemma sample_cache: "sc_cache sample_cloned =
  \<lparr>mc_entries = [(''foo'', [(''rpc_version'', PStr ''1.0-1''), (''rpc_last_modified'', PInt 7), (''rpc_package_base'', PStr ''foo''),
      (''head_commit'', PStr ''c0ffee''), (''is_vcs'', PBool False), (''last_fetch_at'', PStr ''now'')])], mc_rpc_at = Some ''now''\<rparr>"
  using sample_clone_seen by (auto simp: seen_def sample_cloned_def)

lemma sample_ok: "meta_ok (sc_cache sample_cloned)"
proof -
  have "list_all text_ok [''foo'', ''1.0-1'', ''c0ffee'', ''now'']" "list_all (\<lambda>ch. text_char ch \<and> tesc ch = [ch]) ''now''" by code_simp+
  then show ?thesis
    unfolding sample_cache meta_ok_def by (auto simp: dict_ok_def meta_entry_ok_def META_KEYS_def meta_kind_def split: if_splits)
qed

lemma sample_again_eq:
  "sample_again = sample_asked ((sample_start None (cur_world sample_cloned))\<lparr>sc_cache := reread_meta (sc_cache sample_cloned)\<rparr>)"
  unfolding sample_again_def close_text_def new_sched_def load_serialize_meta [OF sample_ok] by simp

lemma sample_again_facts:
  "(sc_rpc_map sample_again, cur_world sample_again, sc_offline sample_again, sc_aborted sample_again, sc_cleansrc sample_again, sc_results sample_again) =
    ([(''foo'', sample_entry ''foo'')], [''/src/foo'', ''/src/foo/.git'', ''/src/foo/PKGBUILD''], False, False, False, [])"
  unfolding sample_again_eq sample_cache sample_clone_log by code_simp

lemma sample_vouched:
  "rpc_vouches sample_sys [''/src/foo'', ''/src/foo/.git'', ''/src/foo/PKGBUILD''] ''/src/foo'' (Some (sample_entry ''foo'')) ''foo''"
  by code_simp

lemma sample_again_world: "cur_world sample_again = cur_world sample_cloned"
  using sample_again_facts by (simp add: sample_clone_log)

lemma sample_again_map: "dget (sc_rpc_map sample_again) ''foo'' = Some (sample_entry ''foo'')"
  using sample_again_facts by simp

lemma sample_knows: "knows (sc_cache sample_again) ''foo'' ''1.0-1'' 7 ''c0ffee''"
proof -
  have k: "knows (sc_cache sample_cloned) ''foo'' ''1.0-1'' 7 ''c0ffee''" by (simp add: sample_cache knows_def meta_get_def)
  have "mc_entries (sc_cache sample_again) = mc_entries (load_meta (Some (serialize_meta (sc_cache sample_cloned))))"
    using ensure_rpc_full(2) [of sample_env "[''foo'']" "[]" "sample_start (Some (close_text sample_cloned)) (cur_world sample_cloned)"] sample_full
    by (simp add: sample_again_def sample_asked_def new_sched_def close_text_def sample_env_def)
  with knows_entries knows_reload [OF k sample_ok] show ?thesis by metis
qed

lemma sample_paths: "path_join ''/src/foo'' ''PKGBUILD'' = ''/src/foo/PKGBUILD''" "\<not> is_vcs_pkgbase ''foo''"
  by code_simp+

lemma sample_skips:
  obtains s where "sched_request sample_env sample_request sample_again = (result ''foo'' SUpToDate (Some ''c0ffee'') (Some ''c0ffee'') None, s)"
    "nt_log (sc_net s) = nt_log (sc_net sample_again)"
proof -
  have "\<exists>s. sync_one sample_env sample_request sample_again = (result (rq_base sample_request) SUpToDate (Some ''c0ffee'') (Some ''c0ffee'') None, s) \<and>
      sc_net s = sc_net sample_again"
    by (rule sync_skips [of _ _ "''1.0-1''" 7 _ "sample_entry ''foo''"])
      (use sample_again_facts sample_knows sample_vouched sample_head in
        \<open>simp_all add: sample_request_def sample_env_def sample_entry_def sample_sys_def sample_paths\<close>)
  then obtain s where "sync_one sample_env sample_request sample_again = (result ''foo'' SUpToDate (Some ''c0ffee'') (Some ''c0ffee'') None, s)"
    "sc_net s = sc_net sample_again" by (auto simp: sample_request_def)
  with that sample_again_facts show thesis by (simp add: sched_request_def sample_request_def)
qed

text \<open>C4: a fetch is left out only where an earlier clone or fetch, of this process or of one whose cache
  it loaded, is known to have ended on the head that the checkout has now, and the AUR said then what
  it says now.
\<close>
theorem skipped_only_if_brought:
  assumes "full_entries (se_sys env)" "clones_have_heads (se_sys env)" "sync_life env H s" "sched_request env rq s = (r, s')"
    "dget (sc_results s) (rq_base rq) = None" "sr_status r = SUpToDate" "sr_after r = Some h" "nt_log (sc_net s') = nt_log (sc_net s)"
  shows "\<exists>e v m. dget (sc_rpc_map s) (rq_base rq) = Some e \<and> rp_version e = Some v \<and> rp_last_modified e = Some m \<and>
    (rq_base rq, v, m, h) \<in> H"
proof -
  obtain r1 s1 where x: "sync_one env rq s = (r1, s1)" by fastforce
  with assms(4,5) have "r1 = r" "sc_net s' = sc_net s1" by (auto simp: sched_request_def)
  with skip_is_backed [OF assms(3,1,2) x] assms(6-8) show ?thesis by simp
qed

lemma sample_life: "sync_life sample_env ({} \<union> brought sample_request (sample_asked (sample_start None [])) sample_cloned
    (result ''foo'' SCloned None (Some ''c0ffee'') None)) sample_again"
  unfolding sample_again_def sample_asked_def [of "sample_start (Some _) _"]
  by (rule life_rpc, rule life_restart, rule life_request [OF _ sample_clone_result])
    (simp_all add: sample_ok sample_asked_def life_rpc life_new)

lemma skipped_only_if_brought_witness:
  "\<exists>H s'. (''foo'', ''1.0-1'', 7, ''c0ffee'') \<in> H \<and> sync_life sample_env H sample_again \<and>
    sched_request sample_env sample_request sample_again = (result ''foo'' SUpToDate (Some ''c0ffee'') (Some ''c0ffee'') None, s') \<and>
    nt_log (sc_net s') = nt_log (sc_net sample_again)"
proof -
  have env: "full_entries (se_sys sample_env)" "clones_have_heads (se_sys sample_env)"
    using sample_full sample_heads by (simp_all add: sample_env_def)
  obtain s where s: "sched_request sample_env sample_request sample_again = (result ''foo'' SUpToDate (Some ''c0ffee'') (Some ''c0ffee'') None, s)"
    "nt_log (sc_net s) = nt_log (sc_net sample_again)" using sample_skips .
  have "rq_base sample_request = ''foo''" by (simp add: sample_request_def)
  with skipped_only_if_brought [OF env sample_life s(1), of "''c0ffee''"] s(2) sample_again_facts sample_life s(1)
  show ?thesis by (auto simp: result_def sample_entry_def)
qed

text \<open>C11: a package that was synced is not fetched again: a process that loads the saved cache, hears the
  same from the AUR and finds the checkout on the same head answers that it is up to date, and runs
  no command.
\<close>
theorem unchanged_not_fetched:
  assumes "sched_request env rq s0 = (r, s1)" "dget (sc_results s0) (rq_base rq) = None" "\<not> sc_offline s0" "synced_as rq s0 r v m h"
    "rpc_vouches (se_sys env) (cur_world s1) (rq_dir rq) (dget (sc_rpc_map s0) (rq_base rq)) (rq_base rq)" "meta_ok (sc_cache s1)"
    "s2 = ensure_rpc env bases members (new_sched False False False track i a ft ct (Some (close_text s1)) w t)"
    "dget (sc_rpc_map s2) (rq_base rq) = Some e" "rp_version e = Some v" "rp_last_modified e = Some m"
    "rpc_vouches (se_sys env) w (rq_dir rq) (Some e) (rq_base rq)" "head_commit (se_sys env) w (rq_dir rq) = Some h"
    "sy_is_dir (se_sys env) (rq_dir rq) w" "sy_exists (se_sys env) (path_join (rq_dir rq) ''PKGBUILD'') w"
    "full_entries (se_sys env)" "np_aur_enabled (se_policy env)" "rq_source rq \<noteq> ''local''" "\<not> rq_force rq"
    "is_vcs_pkgbase (rq_base rq) \<longrightarrow> \<not> np_frozen (se_policy env) \<or> rq_base rq \<in> set (np_thawed (se_policy env))"
  shows "\<exists>s3. sched_request env rq s2 = (result (rq_base rq) SUpToDate (Some h) (Some h) None, s3) \<and> nt_log (sc_net s3) = nt_log (sc_net s2)"
proof -
  let ?new = "new_sched False False False track i a ft ct (Some (close_text s1)) w t"
  obtain r1 t1 where x: "sync_one env rq s0 = (r1, t1)" by fastforce
  with assms(1,2) have r: "r1 = r" "sc_cache s1 = sc_cache t1" "cur_world s1 = cur_world t1" by (auto simp: sched_request_def cur_world_def)
  have "knows (sc_cache s1) (rq_base rq) v m h" using sync_one_known [OF x] assms(3-5) r by simp
  from knows_reload [OF this assms(6)] have k: "knows (sc_cache ?new) (rq_base rq) v m h" by (simp add: new_sched_def close_text_def)
  note e = ensure_rpc_keeps [OF assms(7) [symmetric]] ensure_rpc_more [OF assms(7) [symmetric]] and f = ensure_rpc_full(2) [OF assms(7) [symmetric] assms(15)]
  have s2: "sc_offline s2 = False" "sc_aborted s2 = False" "sc_cleansrc s2 = False" "sc_results s2 = []" "cur_world s2 = w"
    unfolding e by (simp_all add: new_sched_def cur_world_def)
  have "\<exists>s3. sync_one env rq s2 = (result (rq_base rq) SUpToDate (Some h) (Some h) None, s3) \<and> sc_net s3 = sc_net s2"
    by (rule sync_skips [of _ _ v m h e]) (use assms(4,8-19) s2 k knows_entries [OF f] in \<open>simp_all add: synced_as_def\<close>)
  then show ?thesis using s2(4) by (auto simp: sched_request_def)
qed


lemma unchanged_not_fetched_witness:
  "\<exists>s3. sched_request sample_env sample_request sample_again = (result ''foo'' SUpToDate (Some ''c0ffee'') (Some ''c0ffee'') None, s3) \<and>
    nt_log (sc_net s3) = nt_log (sc_net sample_again)"
proof -
  have rq: "rq_base sample_request = ''foo''" "rq_dir sample_request = ''/src/foo''" "rq_source sample_request = ''aur''"
    "\<not> rq_force sample_request" by (simp_all add: sample_request_def)
  have env: "se_sys sample_env = sample_sys" "np_aur_enabled (se_policy sample_env)" by (simp_all add: sample_env_def)
  have asked: "(sc_rpc_map (sample_asked (sample_start None [])), sc_results (sample_asked (sample_start None [])),
      sc_offline (sample_asked (sample_start None []))) = ([(''foo'', sample_entry ''foo'')], [], False)" by code_simp
  have entry: "rp_version (sample_entry ''foo'') = Some ''1.0-1''" "rp_last_modified (sample_entry ''foo'') = Some 7"
    by (simp_all add: sample_entry_def)
  have synced_as: "synced_as sample_request (sample_asked (sample_start None [])) (result ''foo'' SCloned None (Some ''c0ffee'') None) ''1.0-1'' 7 ''c0ffee''"
    using asked entry rq by (simp add: synced_as_def result_def)
  show ?thesis
    using unchanged_not_fetched [OF sample_clone_result _ _ synced_as _ sample_ok sample_again_def [unfolded sample_asked_def] _ entry]
      sample_again_map sample_vouched sample_head sample_paths sample_full asked rq env sample_clone_log
    by (simp add: sample_sys_def [THEN arg_cong, of sy_is_dir] sample_sys_def [THEN arg_cong, of sy_exists])
qed

text \<open>C39: an offline scheduler runs no command and sends nothing, whatever it is asked; and once a rate
  limit was too long to wait for, the rest of the run sends at most queries to the AUR.
\<close>
theorem offline_and_aborted_are_silent:
  assumes "sched_run env forced vd s s'" "sc_offline s \<or> sc_aborted s"
  shows "\<exists>new. nt_log (sc_net s') = new @ nt_log (sc_net s) \<and> (\<forall>act \<in> set new. \<exists>names. act = Rpc_sent names) \<and> (sc_offline s \<longrightarrow> new = [])"
  using sched_run_silent [OF assms] by (auto simp: silent_step_def)


lemma sample_policy: "se_sys sample_env = sample_sys" "se_policy sample_env = \<lparr>np_frozen = True, np_thawed = [''foo''], np_aur_enabled = True\<rparr>"
  by (simp_all add: sample_env_def)

text \<open>A run that asks the AUR and clones, and one that replaces a checkout.\<close>

definition sample_run :: "string list sched" where
  "sample_run = snd (sync_many sample_env [sample_request] (sample_start None []))"

lemma sample_run_log: "nt_log (sc_net sample_run) = [Cloned AurClone ''foo'' ''/src/foo'' [], Rpc_sent [''foo'']]"
  by code_simp

lemma sample_runs: "sched_run sample_env False (\<lambda>d. False) (sample_start None []) sample_run"
  unfolding sample_run_def by (rule sched_run_call) (simp add: sample_request_def sample_paths)

definition sample_replaced :: "string list sched" where
  "sample_replaced = snd (sched_request sample_env sample_request
     (new_sched False True False ''stable'' None None None None None [''/src/foo'', ''/src/foo/.git'', ''/src/foo/PKGBUILD''] 0))"

lemma sample_replaced_log: "nt_log (sc_net sample_replaced) =
   [Cloned AurClone ''foo'' ''/src/foo'' [''/src/foo/.git'', ''/src/foo/PKGBUILD'']] @
   Removed ''/src/foo'' [''/src/foo'', ''/src/foo/.git'', ''/src/foo/PKGBUILD''] # []"
  by code_simp

lemma sample_replaces: "sched_run sample_env False (\<lambda>d. False)
    (new_sched False True False ''stable'' None None None None None [''/src/foo'', ''/src/foo/.git'', ''/src/foo/PKGBUILD''] 0) sample_replaced"
  unfolding sample_replaced_def by (rule sched_run_call) (simp add: sample_request_def sample_paths)

lemma sample_is_repo: "is_repo sample_sys w d"
  by (simp add: is_repo_def sample_sys_def sample_look_def git_def)





lemma offline_and_aborted_are_silent_witness:
  "\<exists>s'. sched_run sample_env False (\<lambda>d. False) (update_flags True False False ''stable'' sample_run) s' \<and> nt_log (sc_net s') = nt_log (sc_net sample_run)"
proof -
  let ?s = "update_flags True False False ''stable'' sample_run"
  have run: "sched_run sample_env False (\<lambda>d. False) ?s (snd (sched_request sample_env sample_request ?s))"
    by (rule sched_run_call) (simp add: sample_request_def sample_paths)
  have off: "sc_offline ?s" "sc_net ?s = sc_net sample_run" by (simp_all add: update_flags_def)
  from offline_and_aborted_are_silent [OF run] off run show ?thesis by auto
qed

end
