(* ===== verification/Spec2Isabelle.thy ===== *)
theory Spec2Isabelle
  imports PyPrelude MakepkgFlags Version Fnmatch Profile Toml PipelineState PipelineRunner AurResolve BuildState
    UpdateVersion InstallReconcile FlagDrift RateLimit StageSentinel PackagesStage PackagesSession AtomicWrite
    GitOps SourceMeta SourceSync SyncRuns SyncProps
begin

text \<open>
  A verification development for sysforge, a Python tool that builds Arch Linux packages from
  source with the user's own compiler flags, keeps them up to date and drives the pipeline of
  stages that brings up a tuned system.  The code verified is under \<open>src/sysforge/\<close>; paths below
  are relative to it.

  The program.  A user's profiles and rules decide which flags a package is built with
  (\<open>primitives/profile.py\<close>, \<open>primitives/makepkg_flags.py\<close>).  A build records what it did in
  \<open>build_state.toml\<close> (\<open>primitives/build_state.py\<close>).  \<open>sysforge update\<close> compares versions
  (\<open>primitives/version.py\<close>, \<open>update_version.py\<close>, \<open>update_split.py\<close>) and flags
  (\<open>primitives/flag_drift.py\<close>) against that record, after taking account of what the user
  installed with pacman (\<open>primitives/install_reconcile.py\<close>), and orders what it builds by the
  dependencies between AUR packages (\<open>primitives/aur_resolve.py\<close>), pacing its requests
  (\<open>primitives/rate_limit.py\<close>).  The stages run under \<open>pipeline/runner.py\<close>, with their progress
  in a checkpoint file (\<open>primitives/pipeline_state.py\<close>).

  The theories, each with one component: its state, its operations, its lemmas.

  \<^item> \<open>PyPrelude\<close>: Python's strings, dicts (association lists in insertion order), integers,
    TOML values and error results (\<open>Inl\<close> an exception), with the laws the components share.
  \<^item> \<open>Toml\<close>: basic strings, arrays and \<open>key = value\<close> lines, read after the TOML grammar.
  \<^item> \<open>MakepkgFlags\<close>: \<open>primitives/makepkg_flags.py\<close>.  Token filters on flag strings.
  \<^item> \<open>Version\<close>: \<open>primitives/version.py\<close>.  \<open>vercmp_local\<close> is refined to a key order; the contract of
    a version comparison is the locale \<open>version_order\<close>.
  \<^item> \<open>Fnmatch\<close>: the standard library's \<open>fnmatch\<close>, which the rules use.
  \<^item> \<open>Profile\<close>: \<open>primitives/profile.py\<close>.  Inheritance, appends, toolchain bundles, rules, the flag
    string, build modes.
  \<^item> \<open>PipelineState\<close>: \<open>primitives/pipeline_state.py\<close>.  The checkpoint as a record, its methods, its
    writer and a reader of what it writes.
  \<^item> \<open>PipelineRunner\<close>: \<open>pipeline/runner.py\<close> over \<open>PipelineState\<close>.  Full, resumed, dry and standalone runs.
  \<^item> \<open>AurResolve\<close>: \<open>primitives/aur_resolve.py\<close>.  The depth-first resolution, with fuel for the
    recursion; with at least as much fuel as there are AUR packages to resolve, and one more for
    the visit that finds them done, it ends.
  \<^item> \<open>BuildState\<close>: \<open>primitives/build_state.py\<close>.  The four tables as a record, the methods as
    operations, the writer and a reader; the reader of a table is proved once, in the locale
    \<open>table_section\<close>, and interpreted for the three kinds of table.
  \<^item> \<open>UpdateVersion\<close>: \<open>update_version.py\<close>, \<open>update_split.py\<close>, \<open>update_result.py\<close>, \<open>update_common.py\<close>.
  \<^item> \<open>InstallReconcile\<close>: \<open>primitives/install_reconcile.py\<close> over \<open>BuildState\<close>.  The text of the two
    sentinel files, refined to the log of the transactions that wrote it.
  \<^item> \<open>FlagDrift\<close>: \<open>primitives/flag_drift.py\<close> and \<open>primitives/build_inputs.py\<close>, over \<open>Profile\<close> and
    \<open>BuildState\<close>.
  \<^item> \<open>RateLimit\<close>: \<open>primitives/rate_limit.py\<close>.  The limiter with an explicit clock; its runs are an
    inductive step relation.
  \<^item> \<open>StageSentinel\<close>: \<open>primitives/stage_sentinel.py\<close> and the lock of \<open>primitives/build_lock.py\<close>.  The record
    of a stage under way, its recovery, the scope around a stage, and any number of runs at once as a
    step relation on the shared record and lock.
  \<^item> \<open>PackagesStage\<close>: \<open>pipeline/stages/packages.py\<close> with \<open>build/aur_deps.py\<close>, over \<open>PipelineState\<close> and
    \<open>StageSentinel\<close>.  The whole stage, from the manifest to the verdict.
  \<^item> \<open>PackagesSession\<close>: runs of that stage on one checkpoint file, interrupted, resumed and retried; the
    order in which its dependencies are built.
  \<^item> \<open>AtomicWrite\<close>: \<open>primitives/atomic_write.py\<close> over a file system that can lose power.  Writers are
    sequences of system calls, their interleavings an inductive relation.
  \<^item> \<open>GitOps\<close>: \<open>primitives/git_ops.py\<close> and \<open>primitives/net_policy.py\<close>, with what the source sync calls of
    \<open>primitives/aur.py\<close> and \<open>primitives/build_prep.py\<close>.  The state of a checkout, its removal, the calls of
    git, pkgctl and the AUR, over a world that is a parameter; what is done is logged.
  \<^item> \<open>SourceMeta\<close>: \<open>primitives/source_meta.py\<close>.  The cache of the source sync, its writer and a reader.
  \<^item> \<open>SourceSync\<close>: \<open>primitives/source_sync.py\<close> over these.  The scheduler; what each of its steps logs.
  \<^item> \<open>SyncRuns\<close>: runs of the scheduler as a step relation, and the life of the cache over several processes.
  \<^item> \<open>SyncProps\<close>: the properties of the source sync, with a small world for their witnesses.

  How the code is rendered.  A string is a list of characters below 256, and the string
  operations are Python's on them.  A dict is an association list that keeps insertion order and
  has every key once (\<open>dict_ok\<close>).  A method that changes an object is a function from the record
  of its state to the new record; clock readings are arguments.  A function that may raise
  returns a sum.  What lies outside the components, the file system, pacman, the network, the
  PKGBUILD parser, is an argument of the definitions that use it.  Log lines are left out.

  What the properties show.  Flags and profiles: which key wins, that merges neither lose nor
  invent flags, that a cycle of \<open>extends\<close> is found, that equal flag strings mean equal flags.
  State files: what is saved is what is loaded, and the states for which it is not.
  Checkpoint and runner: order of the stages, resumption where the run failed, no lost package.
  Versions: \<open>vercmp_local\<close> is an order, the verdict does not depend on the order of the members and
  is that of the member left behind.  Resolution: dependencies come first, and it ends.
  Reconcile: who installed last decides.  Drift: a rebuild clears it, and nothing but a change
  of an effective flag causes it.  Sentinel: an interrupted stage blocks later runs until somebody
  answers, and only checked commands run as root.  Packages: a failure stops no other package, and no
  package is built twice over any sequence of runs.  Writes: a file holds the old contents or the whole
  of the new, after kills and power losses too, and so the checkpoint loads.  Limits: penalties and
  intervals hold over every run, and every wait ends.  Sync: no run reaches a source that the policy
  denies or takes local work, and a fetch is left out exactly where an earlier one brought the same.  Several properties state faults of the code: the checkpoint of a failed
  package with a name that is no bare key, a failure text with a control character, the
  booleans of a reverted build, a build recorded without flags, the record of an interrupted run
  overwritten by another, the file that an escalated write leaves after a power loss, the edit of a VCS
  package's \<open>PKGBUILD\<close> that looks like the header of a diff.

  Not modelled: the command line, the reports and the configuration wizard (text for the
  terminal); the other stages, makepkg, pacman, the sandbox, kernel and toolchain work
  (programs run and files moved, whose effect is outside the code); parsing and patching of
  PKGBUILDs; floats other than the times of the limiter, which
  are rationals.  The PKGBUILD metadata reader (\<open>primitives/pkgbuild_meta.py\<close>), the emission of
  makepkg.conf (\<open>primitives/makepkg_conf.py\<close>) and the boot entries (\<open>primitives/boot_entries.py\<close>) could
  be modelled in the same way and are not.
\<close>

end
